(* ===== verification/NAI_Prelude.thy ===== *)
theory NAI_Prelude
  imports Main "HOL-Library.Word"
begin

text \<open>
  Shared vocabulary of the Neural-AI back end model.

  \<^item> Machine integers: \<open>u8\<close>, \<open>u16\<close>, \<open>u32\<close>, \<open>u64\<close> are words of that width, so \<open>+\<close>, \<open>-\<close> and
    \<open>*\<close> wrap as the C++ unsigned types do.
  \<^item> Little-endian access to byte vectors (\<open>Read16\<close>, \<open>Read32\<close>, \<open>Write16\<close>, \<open>Write32\<close>,
    \<open>put16\<close>, \<open>put32\<close>): every \<^verbatim>\<open>.cpp\<close> file of the back end carries its own copy of these helpers.
  \<^item> The \<open>uint64_t\<close> saturating helpers of the command IR, on natural numbers below \<open>2 ^ 64\<close>.
  \<^item> The locale \<open>byte_codec\<close>: what a fixed-size record format promises its users, and the
    table lemmas that follow from it.
\<close>

unbundle bit_operations_syntax

type_synonym u8 = "8 word"
type_synonym u16 = "16 word"
type_synonym u32 = "32 word"
type_synonym u64 = "64 word"
type_synonym bytes = "u8 list"

named_theorems codec_simps
named_theorems align_simps

lemma unat_u32_less: "unat (w :: u32) < 2 ^ 32"
  by (rule order.strict_trans2 [OF unsigned_less]) simp

lemma unat_u16_less: "unat (w :: u16) < 2 ^ 16"
  by (rule order.strict_trans2 [OF unsigned_less]) simp

section \<open>Little-endian bytes\<close>

definition put16 :: "u16 \<Rightarrow> bytes" where
  "put16 v = [ucast v, ucast (drop_bit 8 v)]"

definition put32 :: "u32 \<Rightarrow> bytes" where
  "put32 v = [ucast v, ucast (drop_bit 8 v), ucast (drop_bit 16 v), ucast (drop_bit 24 v)]"

definition Read16 :: "bytes \<Rightarrow> nat \<Rightarrow> u16" where
  "Read16 bs off = ucast (bs ! off) OR push_bit 8 (ucast (bs ! (off + 1)))"

definition Read32 :: "bytes \<Rightarrow> nat \<Rightarrow> u32" where
  "Read32 bs off = ucast (bs ! off) OR push_bit 8 (ucast (bs ! (off + 1))) OR
     push_bit 16 (ucast (bs ! (off + 2))) OR push_bit 24 (ucast (bs ! (off + 3)))"

definition Write16 :: "bytes \<Rightarrow> nat \<Rightarrow> u16 \<Rightarrow> bytes" where
  "Write16 bs off v = bs[off := ucast v, off + 1 := ucast (drop_bit 8 v)]"

definition Write32 :: "bytes \<Rightarrow> nat \<Rightarrow> u32 \<Rightarrow> bytes" where
  "Write32 bs off v = bs[off := ucast v, off + 1 := ucast (drop_bit 8 v),
     off + 2 := ucast (drop_bit 16 v), off + 3 := ucast (drop_bit 24 v)]"

lemma length_put16 [simp]: "length (put16 v) = 2"
  by (simp add: put16_def)

lemma length_put32 [simp]: "length (put32 v) = 4"
  by (simp add: put32_def)

lemma length_Write16 [simp]: "length (Write16 bs off v) = length bs"
  by (simp add: Write16_def)

lemma length_Write32 [simp]: "length (Write32 bs off v) = length bs"
  by (simp add: Write32_def)

lemma join_bytes16: "(ucast (ucast v :: u8) :: u16) OR push_bit 8 (ucast (ucast (drop_bit 8 v) :: u8)) = v"
  by (rule bit_word_eqI) (auto simp: bit_simps)

lemma join_bytes32:
  "(ucast (ucast v :: u8) :: u32) OR push_bit 8 (ucast (ucast (drop_bit 8 v) :: u8)) OR
   push_bit 16 (ucast (ucast (drop_bit 16 v) :: u8)) OR push_bit 24 (ucast (ucast (drop_bit 24 v) :: u8)) = v"
proof (rule bit_word_eqI)
  fix n assume "n < LENGTH(32)"
  then have "n < 8 \<or> (8 \<le> n \<and> n < 16) \<or> (16 \<le> n \<and> n < 24) \<or> (24 \<le> n \<and> n < 32)" by auto
  then show "bit ((ucast (ucast v :: u8) :: u32) OR push_bit 8 (ucast (ucast (drop_bit 8 v) :: u8)) OR
   push_bit 16 (ucast (ucast (drop_bit 16 v) :: u8)) OR push_bit 24 (ucast (ucast (drop_bit 24 v) :: u8))) n = bit v n"
    by (elim disjE conjE) (auto simp: bit_simps)
qed

lemma Read16_append [simp]: "Read16 (pre @ put16 v @ post) (length pre) = v"
  by (simp add: Read16_def put16_def nth_append join_bytes16)

lemma Read32_append [simp]: "Read32 (pre @ put32 v @ post) (length pre) = v"
  by (simp add: Read32_def put32_def nth_append join_bytes32)

lemma Read32_hd [codec_simps]: "Read32 (put32 v @ post) 0 = v"
  using Read32_append [of "[]"] by simp

lemma Read16_hd [codec_simps]: "Read16 (put16 v @ post) 0 = v"
  using Read16_append [of "[]"] by simp

lemma Read_prefix:
  assumes "length pre \<le> n"
  shows "Read32 (pre @ post) n = Read32 post (n - length pre)"
    and "Read16 (pre @ post) n = Read16 post (n - length pre)"
  using assms by (simp_all add: Read32_def Read16_def nth_append Suc_diff_le)

lemma Read_skip [codec_simps]:
  "4 \<le> n \<Longrightarrow> Read32 (put32 w @ post) n = Read32 post (n - 4)"
  "2 \<le> n \<Longrightarrow> Read32 (put16 x @ post) n = Read32 post (n - 2)"
  "4 \<le> n \<Longrightarrow> Read16 (put32 w @ post) n = Read16 post (n - 4)"
  "2 \<le> n \<Longrightarrow> Read16 (put16 x @ post) n = Read16 post (n - 2)"
  by (simp_all add: Read_prefix)

lemma put32_Read32:
  assumes "off + 4 \<le> length bs"
  shows "put32 (Read32 bs off) = take 4 (drop off bs)"
proof -
  have "take 4 (drop off bs) = [bs ! off, bs ! (off + 1), bs ! (off + 2), bs ! (off + 3)]"
    using assms by (intro nth_equalityI) (auto simp: nth_Cons' numeral_eq_Suc less_Suc_eq)
  moreover have "put32 (Read32 bs off) = [bs ! off, bs ! (off + 1), bs ! (off + 2), bs ! (off + 3)]"
    unfolding put32_def Read32_def
    by (simp, intro conjI; rule bit_word_eqI; auto simp: bit_simps dest: bit_imp_le_length)
  ultimately show ?thesis by simp
qed

lemma Write32_splice:
  assumes "off + 4 \<le> length bs"
  shows "Write32 bs off v = take off bs @ put32 v @ drop (off + 4) bs"
  using assms by (intro nth_equalityI)
    (auto simp: Write32_def put32_def nth_append nth_list_update nth_Cons' numeral_eq_Suc
      intro!: arg_cong [where f = "nth bs"])

lemma Write16_splice:
  assumes "off + 2 \<le> length bs"
  shows "Write16 bs off v = take off bs @ put16 v @ drop (off + 2) bs"
  using assms by (intro nth_equalityI)
    (auto simp: Write16_def put16_def nth_append nth_list_update nth_Cons' numeral_eq_Suc
      intro!: arg_cong [where f = "nth bs"])

lemma Read32_cong_take:
  assumes "take n xs = take n ys" and "off + 4 \<le> n" and "n \<le> length xs" and "n \<le> length ys"
  shows "Read32 xs off = Read32 ys off"
proof -
  have "xs ! k = ys ! k" if "k < n" for k
    using assms(1) that by (metis nth_take)
  then show ?thesis using assms(2) by (simp add: Read32_def)
qed

lemma Read16_cong_take:
  assumes "take n xs = take n ys" and "off + 2 \<le> n" and "n \<le> length xs" and "n \<le> length ys"
  shows "Read16 xs off = Read16 ys off"
proof -
  have "xs ! k = ys ! k" if "k < n" for k
    using assms(1) that by (metis nth_take)
  then show ?thesis using assms(2) by (simp add: Read16_def)
qed

section \<open>Fields written through a cursor\<close>

text \<open>
  The serializers write 16- and 32-bit fields one after another.  A \<open>field\<close> is one such write,
  and \<open>write_field\<close> performs it at the cursor and advances the cursor.
\<close>

datatype field = F16 u16 | F32 u32

type_synonym cursor = "bytes \<times> nat"

primrec put_field :: "field \<Rightarrow> bytes" where
  "put_field (F16 v) = put16 v"
| "put_field (F32 v) = put32 v"

primrec write_field :: "field \<Rightarrow> cursor \<Rightarrow> cursor" where
  "write_field (F16 v) c = (Write16 (fst c) (snd c) v, snd c + 2)"
| "write_field (F32 v) c = (Write32 (fst c) (snd c) v, snd c + 4)"

definition put_fields :: "field list \<Rightarrow> bytes" where
  "put_fields fs = concat (map put_field fs)"

lemma put_fields_simps [simp]:
  "put_fields [] = []" "put_fields (f # fs) = put_field f @ put_fields fs"
  by (simp_all add: put_fields_def)

lemma put_fields_append: "put_fields (fs @ gs) = put_fields fs @ put_fields gs"
  by (simp add: put_fields_def)

lemma write_field_step:
  assumes "length (put_field f) \<le> k"
  shows "write_field f (pre @ replicate k 0, length pre) =
    ((pre @ put_field f) @ replicate (k - length (put_field f)) 0, length (pre @ put_field f))"
  using assms by (cases f) (simp_all add: Write16_splice Write32_splice)

lemma fold_write_field:
  assumes "length (put_fields fs) \<le> k"
  shows "fold write_field fs (pre @ replicate k 0, length pre) =
    (pre @ put_fields fs @ replicate (k - length (put_fields fs)) 0, length pre + length (put_fields fs))"
  using assms
proof (induction fs arbitrary: pre k)
  case (Cons f fs)
  from Cons.prems have "length (put_field f) \<le> k"
    and "length (put_fields fs) \<le> k - length (put_field f)" by auto
  with Cons.IH [of "k - length (put_field f)" "pre @ put_field f"] show ?case
    by (simp only: fold_simps comp_apply write_field_step) (simp add: diff_diff_add add.assoc)
qed simp

section \<open>Fixed-size record formats\<close>

text \<open>
  What a record format promises: every value has \<open>size\<close> bytes and is recovered from the front of
  any vector that starts with them.  Tables of such records can be indexed and decoded.
\<close>

locale byte_codec =
  fixes enc :: "'a \<Rightarrow> bytes" and dec :: "bytes \<Rightarrow> 'a" and size :: nat
  assumes enc_length: "length (enc x) = size"
    and dec_enc: "dec (enc x @ rest) = x"
begin

lemma enc_inj: "enc x = enc y \<Longrightarrow> x = y"
  using dec_enc [of x "[]"] dec_enc [of y "[]"] by simp

lemma table_length: "length (concat (map enc xs)) = size * length xs"
  by (induction xs) (simp_all add: enc_length)

lemma table_nth: "i < length xs \<Longrightarrow> dec (drop (size * i) (concat (map enc xs) @ rest)) = xs ! i"
proof (induction xs arbitrary: i)
  case (Cons x xs)
  show ?case
  proof (cases i)
    case 0
    then show ?thesis by (simp add: dec_enc)
  next
    case (Suc j)
    with Cons.prems have "j < length xs" by simp
    from Cons.IH [OF this] Suc show ?thesis by (simp add: enc_length)
  qed
qed simp

lemma table_decode:
  "map (\<lambda>i. dec (drop (size * i) (concat (map enc xs) @ rest))) [0..<length xs] = xs"
  by (rule nth_equalityI) (simp_all add: table_nth del: drop_append)

end

end
