(* ===== verification/NAI_Spans.thy ===== *)
theory NAI_Spans
  imports NAI_Prelude
begin

text \<open>
  Lists of half-open address ranges, and what a store of such ranges promises.

  \<^item> \<open>span_list\<close>: the records of a list carry a range \<open>[sb s, se s)\<close>; \<open>spans_ok\<close> says that the ranges
    are non-empty, sorted and disjoint, \<open>span_at\<close> finds the record that holds an address, and
    \<open>tiles\<close> that the ranges cover an interval without a gap.
  \<^item> \<open>span_store\<close>: a replace operation overwrites one range and leaves every other address
    alone.  Its client lemma reads a store after a sequence of writes.

  Both the content annotation of the command IR and \<^verbatim>\<open>CommandMemoryState\<close> are such stores.
\<close>

section \<open>Lists of ranges\<close>

locale span_list =
  fixes sb :: "'s \<Rightarrow> nat" and se :: "'s \<Rightarrow> nat"
begin

definition spans_ok :: "'s list \<Rightarrow> bool" where
  "spans_ok xs \<longleftrightarrow> (\<forall>s \<in> set xs. sb s < se s) \<and> sorted_wrt (\<lambda>s t. se s \<le> sb t) xs"

definition span_at :: "'s list \<Rightarrow> nat \<Rightarrow> 's option" where
  "span_at xs x = find (\<lambda>s. sb s \<le> x \<and> x < se s) xs"

fun tiles :: "nat \<Rightarrow> nat \<Rightarrow> 's list \<Rightarrow> bool" where
  "tiles b e [] \<longleftrightarrow> b = e"
| "tiles b e (s # xs) \<longleftrightarrow> sb s = b \<and> b < se s \<and> tiles (se s) e xs"

lemma spans_ok_Nil: "spans_ok []"
  by (simp add: spans_ok_def)

lemma spans_ok_Cons:
  "spans_ok (s # xs) \<longleftrightarrow> sb s < se s \<and> (\<forall>t \<in> set xs. se s \<le> sb t) \<and> spans_ok xs"
  by (auto simp: spans_ok_def)

lemma spans_ok_append:
  "spans_ok (xs @ ys) \<longleftrightarrow> spans_ok xs \<and> spans_ok ys \<and> (\<forall>s \<in> set xs. \<forall>t \<in> set ys. se s \<le> sb t)"
  by (auto simp: spans_ok_def sorted_wrt_append)

lemma span_at_Nil: "span_at [] x = None"
  by (simp add: span_at_def)

lemma span_at_Cons:
  "span_at (s # xs) x = (if sb s \<le> x \<and> x < se s then Some s else span_at xs x)"
  by (simp add: span_at_def)

lemma span_at_append:
  "span_at (xs @ ys) x = (case span_at xs x of None \<Rightarrow> span_at ys x | Some s \<Rightarrow> Some s)"
  by (induction xs) (auto simp: span_at_Nil span_at_Cons)

lemmas span_simps = spans_ok_Nil spans_ok_Cons span_at_Nil span_at_Cons

lemma span_at_None: "(\<And>s. s \<in> set xs \<Longrightarrow> x < sb s \<or> se s \<le> x) \<Longrightarrow> span_at xs x = None"
  by (fastforce simp: span_at_def find_None_iff)

lemma span_at_SomeD: "span_at xs x = Some s \<Longrightarrow> s \<in> set xs \<and> sb s \<le> x \<and> x < se s"
  by (auto simp: span_at_def find_Some_iff)

lemma span_at_unique:
  "spans_ok xs \<Longrightarrow> s \<in> set xs \<Longrightarrow> sb s \<le> x \<Longrightarrow> x < se s \<Longrightarrow> span_at xs x = Some s"
  by (induction xs) (auto simp: span_simps)

lemma tiles_le: "tiles b e xs \<Longrightarrow> b \<le> e"
  by (induction b e xs rule: tiles.induct) auto

lemma tiles_append:
  "tiles b e (xs @ ys) \<longleftrightarrow> (\<exists>m. tiles b m xs \<and> tiles m e ys)"
  by (induction b e xs rule: tiles.induct) auto

lemma tiles_hd_last: "tiles b e xs \<Longrightarrow> xs \<noteq> [] \<Longrightarrow> sb (hd xs) = b \<and> se (last xs) = e"
  by (induction b e xs rule: tiles.induct) (auto split: if_splits)

lemma tiles_empty: "tiles b e xs \<Longrightarrow> xs = [] \<longleftrightarrow> b = e"
  by (cases xs) (auto dest: tiles_le)

lemma tiles_bounds: "tiles b e xs \<Longrightarrow> s \<in> set xs \<Longrightarrow> b \<le> sb s \<and> sb s < se s \<and> se s \<le> e"
proof (induction b e xs rule: tiles.induct)
  case (2 b e t xs)
  then show ?case using tiles_le [of "se t" e xs] by auto
qed simp

lemma tiles_spans_ok: "tiles b e xs \<Longrightarrow> spans_ok xs"
proof (induction b e xs rule: tiles.induct)
  case (2 b e s xs)
  then show ?case using tiles_bounds [of "se s" e xs] by (auto simp: span_simps)
qed (simp add: span_simps)

lemma tiles_span_at: "tiles b e xs \<Longrightarrow> b \<le> x \<Longrightarrow> x < e \<Longrightarrow> span_at xs x \<noteq> None"
  by (induction b e xs rule: tiles.induct) (auto simp: span_simps)

lemma tiles_span_at_outside: "tiles b e xs \<Longrightarrow> x < b \<or> e \<le> x \<Longrightarrow> span_at xs x = None"
  by (rule span_at_None) (use tiles_bounds in fastforce)

end

section \<open>Stores of ranges\<close>

text \<open>
  \<open>lookup m x\<close> is what the store knows of address \<open>x\<close>; \<open>replace m b e w\<close> writes \<open>w\<close> to \<open>[b, e)\<close>;
  \<open>part w k\<close> is what a written \<open>w\<close> says of the address \<open>k\<close> bytes after the start of its range.
\<close>

locale span_store =
  fixes lookup :: "'m \<Rightarrow> nat \<Rightarrow> 'v option"
    and replace :: "'m \<Rightarrow> nat \<Rightarrow> nat \<Rightarrow> 'w \<Rightarrow> 'm"
    and part :: "'w \<Rightarrow> nat \<Rightarrow> 'v option"
    and ok :: "'m \<Rightarrow> bool"
  assumes ok_replace: "ok m \<Longrightarrow> b < e \<Longrightarrow> ok (replace m b e w)"
    and lookup_replace: "ok m \<Longrightarrow> b < e \<Longrightarrow>
      lookup (replace m b e w) x = (if b \<le> x \<and> x < e then part w (x - b) else lookup m x)"
begin

text \<open>A store after a history of writes, and the last write of a history that covers an address.\<close>

definition replay :: "(nat \<times> nat \<times> 'w) list \<Rightarrow> 'm \<Rightarrow> 'm" where
  "replay ws m = fold (\<lambda>(b, e, w) m. replace m b e w) ws m"

definition last_write :: "(nat \<times> nat \<times> 'w) list \<Rightarrow> nat \<Rightarrow> (nat \<times> nat \<times> 'w) option" where
  "last_write ws x = find (\<lambda>(b, e, w). b \<le> x \<and> x < e) (rev ws)"

lemma replay_append: "replay (ws @ vs) m = replay vs (replay ws m)"
  by (simp add: replay_def)

lemma ok_replay: "ok m \<Longrightarrow> (\<And>b e w. (b, e, w) \<in> set ws \<Longrightarrow> b < e) \<Longrightarrow> ok (replay ws m)"
proof (induction ws arbitrary: m)
  case (Cons w ws)
  obtain b e v where w: "w = (b, e, v)" by (cases w)
  have "b < e" using Cons.prems(2) w by (metis list.set_intros(1))
  with Cons.prems(1) have o: "ok (replace m b e v)" by (rule ok_replace)
  have "ok (replay ws (replace m b e v))" by (rule Cons.IH [OF o]) (use Cons.prems(2) in auto)
  then show ?case by (simp add: replay_def w)
qed (simp add: replay_def)

lemma lookup_replay:
  assumes "ok m" and "\<And>b e w. (b, e, w) \<in> set ws \<Longrightarrow> b < e"
  shows "lookup (replay ws m) x =
    (case last_write ws x of None \<Rightarrow> lookup m x | Some (b, e, w) \<Rightarrow> part w (x - b))"
  using assms(2)
proof (induction ws rule: rev_induct)
  case Nil
  then show ?case by (simp add: replay_def last_write_def)
next
  case (snoc w ws)
  obtain b e v where w: "w = (b, e, v)" by (cases w)
  have be: "b < e" using snoc.prems w by auto
  have "ok (replay ws m)" by (rule ok_replay [OF assms(1)]) (use snoc.prems in auto)
  from lookup_replace [OF this be]
  have "lookup (replay (ws @ [w]) m) x =
      (if b \<le> x \<and> x < e then part v (x - b) else lookup (replay ws m) x)"
    by (simp add: replay_append w) (simp add: replay_def)
  moreover have "last_write (ws @ [w]) x = (if b \<le> x \<and> x < e then Some w else last_write ws x)"
    by (simp add: last_write_def w)
  moreover have "lookup (replay ws m) x =
      (case last_write ws x of None \<Rightarrow> lookup m x | Some (b, e, w) \<Rightarrow> part w (x - b))"
    by (rule snoc.IH) (use snoc.prems in auto)
  ultimately show ?case by (simp add: w)
qed

lemma lookup_replace_twice:
  "ok m \<Longrightarrow> b < e \<Longrightarrow> lookup (replace (replace m b e v) b e w) = lookup (replace m b e w)"
  by (rule ext) (simp add: lookup_replace ok_replace)

lemma lookup_replace_disjoint:
  "ok m \<Longrightarrow> b < e \<Longrightarrow> b' < e' \<Longrightarrow> e \<le> b' \<or> e' \<le> b \<Longrightarrow>
   lookup (replace (replace m b e v) b' e' w) = lookup (replace (replace m b' e' w) b e v)"
  by (rule ext) (auto simp: lookup_replace ok_replace)

end

end
