(* ===== verification/NAI_MemoryState.thy ===== *)
theory NAI_MemoryState
  imports NAI_Spans
begin

text \<open>
  \<^verbatim>\<open>CommandMemoryState\<close> of \<^verbatim>\<open>compiler/neural_ai_memory_state.hpp\<close>: which logical content the bytes of a
  command-visible memory hold.  Addresses, sizes and content offsets are natural numbers; the
  \<^verbatim>\<open>uint64_t\<close> sums of the source do not wrap for \<^verbatim>\<open>uint32_t\<close> addresses and offsets below \<open>2 ^ 63\<close>.

  The abstraction \<open>content_at\<close> maps an address to the content identity and the offset in it.
  \<open>Replace\<close> refines a pointwise update of that map and keeps the spans sorted, disjoint and
  maximally merged; the queries are characterised on the map.
\<close>

section \<open>Data\<close>

record MemoryContent =
  mc_identity :: u64
  mc_generation :: u32

record Span =
  sp_begin :: nat
  sp_end :: nat
  sp_content :: MemoryContent
  sp_contentOffset :: nat

type_synonym CommandMemoryState = "Span list"

section \<open>Operations\<close>

fun cut_span :: "nat \<Rightarrow> nat \<Rightarrow> Span \<Rightarrow> Span list" where
  "cut_span b e span =
     (if sp_end span \<le> b \<or> sp_begin span \<ge> e then [span]
      else (if sp_begin span < b then [span\<lparr>sp_end := b\<rparr>] else []) @
        (if sp_end span > e
         then [span\<lparr>sp_contentOffset := sp_contentOffset span + (e - sp_begin span), sp_begin := e\<rparr>]
         else []))"

definition mergeable :: "Span \<Rightarrow> Span \<Rightarrow> bool" where
  "mergeable l span \<longleftrightarrow> sp_end l = sp_begin span \<and> sp_content l = sp_content span \<and>
     sp_contentOffset l + (sp_end l - sp_begin l) = sp_contentOffset span"

definition push_merged :: "Span \<Rightarrow> Span list \<Rightarrow> Span list" where
  "push_merged span spans =
     (if spans \<noteq> [] \<and> mergeable (last spans) span
      then butlast spans @ [(last spans)\<lparr>sp_end := sp_end span\<rparr>]
      else spans @ [span])"

definition Replace ::
    "CommandMemoryState \<Rightarrow> nat \<Rightarrow> nat \<Rightarrow> MemoryContent option \<Rightarrow> nat \<Rightarrow> CommandMemoryState" where
  "Replace spans address sz content contentOffset =
     (if sz = 0 then spans
      else
        let b = address; e = b + sz;
            kept = concat (map (cut_span b e) spans);
            next' = kept @ (case content of None \<Rightarrow> []
              | Some c \<Rightarrow> [\<lparr>sp_begin = b, sp_end = e, sp_content = c, sp_contentOffset = contentOffset\<rparr>])
        in fold push_merged (sort_key sp_begin next') [])"

definition Clear :: CommandMemoryState where
  "Clear = []"

definition Invalidate :: "CommandMemoryState \<Rightarrow> nat \<Rightarrow> nat \<Rightarrow> CommandMemoryState" where
  "Invalidate spans address sz = Replace spans address sz None 0"

definition WriteContent ::
    "CommandMemoryState \<Rightarrow> nat \<Rightarrow> nat \<Rightarrow> MemoryContent \<Rightarrow> nat \<Rightarrow> CommandMemoryState" where
  "WriteContent spans address sz content contentOffset =
     Replace spans address sz (Some content) contentOffset"

fun contains_loop ::
    "nat \<Rightarrow> nat \<Rightarrow> MemoryContent \<Rightarrow> nat \<Rightarrow> nat \<Rightarrow> Span list \<Rightarrow> bool" where
  "contains_loop b e content contentOffset cursor [] = False"
| "contains_loop b e content contentOffset cursor (span # spans) =
     (if sp_end span \<le> cursor then contains_loop b e content contentOffset cursor spans
      else if sp_begin span > cursor \<or> sp_content span \<noteq> content then False
      else if sp_contentOffset span + (cursor - sp_begin span) \<noteq> contentOffset + (cursor - b) then False
      else let cursor' = min e (sp_end span) in
        if cursor' = e then True else contains_loop b e content contentOffset cursor' spans)"

definition Contains :: "CommandMemoryState \<Rightarrow> nat \<Rightarrow> nat \<Rightarrow> MemoryContent \<Rightarrow> nat \<Rightarrow> bool" where
  "Contains spans address sz content contentOffset =
     (if sz = 0 then True
      else contains_loop address (address + sz) content contentOffset address spans)"

fun Find_loop :: "MemoryContent \<Rightarrow> nat \<Rightarrow> nat \<Rightarrow> Span list \<Rightarrow> nat option" where
  "Find_loop content contentOffset sz [] = None"
| "Find_loop content contentOffset sz (span # spans) =
     (let address = sp_begin span + (contentOffset - sp_contentOffset span) in
      if sp_content span = content \<and> contentOffset \<ge> sp_contentOffset span \<and>
         contentOffset + sz \<le> sp_contentOffset span + (sp_end span - sp_begin span) \<and>
         address \<le> 0xFFFFFFFF
      then Some address
      else Find_loop content contentOffset sz spans)"

definition Find :: "CommandMemoryState \<Rightarrow> MemoryContent \<Rightarrow> nat \<Rightarrow> nat \<Rightarrow> nat option" where
  "Find spans content contentOffset sz =
     (if sz = 0 then Some 0 else Find_loop content contentOffset sz spans)"

fun FindExtent_loop :: "MemoryContent \<Rightarrow> nat \<Rightarrow> nat \<Rightarrow> Span list \<Rightarrow> (nat \<times> nat) option" where
  "FindExtent_loop content contentOffset maxSize [] = None"
| "FindExtent_loop content contentOffset maxSize (span # spans) =
     (let spanContentEnd = sp_contentOffset span + (sp_end span - sp_begin span);
          address = sp_begin span + (contentOffset - sp_contentOffset span);
          nbytes = min maxSize (spanContentEnd - contentOffset) in
      if sp_content span = content \<and> contentOffset \<ge> sp_contentOffset span \<and>
         contentOffset < spanContentEnd \<and> address \<le> 0xFFFFFFFF \<and> nbytes \<le> 0xFFFFFFFF
      then Some (address, nbytes)
      else FindExtent_loop content contentOffset maxSize spans)"

definition FindExtent :: "CommandMemoryState \<Rightarrow> MemoryContent \<Rightarrow> nat \<Rightarrow> nat \<Rightarrow> (nat \<times> nat) option" where
  "FindExtent spans content contentOffset maxSize =
     (if maxSize = 0 then Some (0, 0) else FindExtent_loop content contentOffset maxSize spans)"

text \<open>
  One iteration of the \<^verbatim>\<open>while\<close> of \<^verbatim>\<open>MatchedPrefix\<close>: how many bytes the span at the cursor adds,
  or \<open>None\<close> for the \<^verbatim>\<open>break\<close>.
\<close>

definition matched_step ::
    "CommandMemoryState \<Rightarrow> nat \<Rightarrow> nat \<Rightarrow> MemoryContent \<Rightarrow> nat \<Rightarrow> nat \<Rightarrow> nat option" where
  "matched_step spans address maxSize content contentOffset matched =
     (let cursor = address + matched in
      case find (\<lambda>span. sp_begin span \<le> cursor \<and> cursor < sp_end span) spans of
        None \<Rightarrow> None
      | Some span \<Rightarrow>
          if sp_content span \<noteq> content \<or>
             sp_contentOffset span + cursor - sp_begin span \<noteq> contentOffset + matched
          then None else Some (min (maxSize - matched) (sp_end span - cursor)))"

lemma matched_step_pos:
  "matched_step spans address maxSize content off matched = Some k \<Longrightarrow> matched < maxSize \<Longrightarrow> 0 < k"
  by (auto simp: matched_step_def Let_def find_Some_iff split: option.splits if_splits)

function matched_loop ::
    "CommandMemoryState \<Rightarrow> nat \<Rightarrow> nat \<Rightarrow> MemoryContent \<Rightarrow> nat \<Rightarrow> nat \<Rightarrow> nat" where
  "matched_loop spans address maxSize content contentOffset matched =
     (if matched < maxSize then
        (case matched_step spans address maxSize content contentOffset matched of
           None \<Rightarrow> matched
         | Some nbytes \<Rightarrow> matched_loop spans address maxSize content contentOffset (matched + nbytes))
      else matched)"
  by pat_completeness auto
termination
  by (relation "measure (\<lambda>(spans, address, maxSize, content, contentOffset, matched). maxSize - matched)")
    (auto dest: matched_step_pos)

declare matched_loop.simps [simp del]

definition MatchedPrefix :: "CommandMemoryState \<Rightarrow> nat \<Rightarrow> nat \<Rightarrow> MemoryContent \<Rightarrow> nat \<Rightarrow> nat" where
  "MatchedPrefix spans address maxSize content contentOffset =
     matched_loop spans address maxSize content contentOffset 0"

section \<open>The abstract map\<close>

interpretation msp: span_list sp_begin sp_end .

definition content_at :: "CommandMemoryState \<Rightarrow> nat \<Rightarrow> (MemoryContent \<times> nat) option" where
  "content_at spans x =
     map_option (\<lambda>s. (sp_content s, sp_contentOffset s + (x - sp_begin s))) (msp.span_at spans x)"

definition merged :: "Span list \<Rightarrow> bool" where
  "merged spans \<longleftrightarrow> successively (\<lambda>s t. \<not> mergeable s t) spans"

definition state_ok :: "CommandMemoryState \<Rightarrow> bool" where
  "state_ok spans \<longleftrightarrow> msp.spans_ok spans \<and> merged spans"

definition content_part :: "(MemoryContent \<times> nat) option \<Rightarrow> nat \<Rightarrow> (MemoryContent \<times> nat) option" where
  "content_part w k = map_option (\<lambda>(c, off). (c, off + k)) w"

lemma msp_iff:
  "msp.spans_ok xs \<Longrightarrow> msp.span_at xs x = Some s \<longleftrightarrow> s \<in> set xs \<and> sp_begin s \<le> x \<and> x < sp_end s"
  using msp.span_at_SomeD msp.span_at_unique by blast

lemma spans_ok_insort:
  assumes "msp.spans_ok ys" and "sp_begin x < sp_end x"
    and "\<And>y. y \<in> set ys \<Longrightarrow> sp_end x \<le> sp_begin y \<or> sp_end y \<le> sp_begin x"
  shows "msp.spans_ok (insort_key sp_begin x ys)"
  using assms
proof (induction ys)
  case (Cons y ys)
  have y: "sp_begin y < sp_end y" using Cons.prems(1) by (simp add: msp.span_simps)
  show ?case
  proof (cases "sp_begin x \<le> sp_begin y")
    case True
    with Cons.prems(3) [of y] y have xy: "sp_end x \<le> sp_begin y" using Cons.prems(2) by auto
    have "sp_end x \<le> sp_begin t" if "t \<in> set ys" for t
      using Cons.prems(1) that xy y by (fastforce simp: msp.span_simps)
    with True xy Cons.prems show ?thesis by (simp add: msp.span_simps)
  next
    case False
    with Cons.prems(3) [of y] y Cons.prems(2) have "sp_end y \<le> sp_begin x" by auto
    with False Cons show ?thesis by (auto simp: msp.span_simps set_insort_key)
  qed
qed (simp add: msp.span_simps)

text \<open>Sorting pairwise disjoint ranges by their start puts them in address order.\<close>

lemma spans_ok_sort:
  assumes "\<forall>s \<in> set xs. sp_begin s < sp_end s"
    and "sorted_wrt (\<lambda>s t. sp_end s \<le> sp_begin t \<or> sp_end t \<le> sp_begin s) xs"
  shows "msp.spans_ok (sort_key sp_begin xs)"
  using assms by (induction xs) (auto simp: msp.span_simps intro!: spans_ok_insort)

lemma cut_span_mem:
  assumes "sp_begin s < sp_end s" and "b < e"
  shows "t \<in> set (cut_span b e s) \<Longrightarrow>
      sp_begin s \<le> sp_begin t \<and> sp_end t \<le> sp_end s \<and> sp_begin t < sp_end t \<and>
      (sp_end t \<le> b \<or> e \<le> sp_begin t) \<and> sp_content t = sp_content s \<and>
      sp_contentOffset t = sp_contentOffset s + (sp_begin t - sp_begin s)"
    and "msp.spans_ok (cut_span b e s)"
    and "sp_begin s \<le> x \<Longrightarrow> x < sp_end s \<Longrightarrow> x < b \<or> e \<le> x \<Longrightarrow>
      \<exists>t \<in> set (cut_span b e s). sp_begin t \<le> x \<and> x < sp_end t"
  using assms by (auto simp: msp.span_simps split: if_splits)

lemma cut_spans_ok:
  "msp.spans_ok xs \<Longrightarrow> b < e \<Longrightarrow> msp.spans_ok (concat (map (cut_span b e) xs))"
proof (induction xs)
  case (Cons s xs)
  have s: "sp_begin s < sp_end s" using Cons.prems by (simp add: msp.span_simps)
  have "sp_end t \<le> sp_begin u" if "t \<in> set (cut_span b e s)" "v \<in> set xs" "u \<in> set (cut_span b e v)" for t u v
  proof -
    have "sp_begin v < sp_end v" "sp_end s \<le> sp_begin v"
      using Cons.prems(1) that(2) by (auto simp: msp.span_simps msp.spans_ok_def)
    with cut_span_mem(1) [OF s Cons.prems(2) that(1)] cut_span_mem(1) [OF _ Cons.prems(2) that(3)]
    show ?thesis by linarith
  qed
  with Cons cut_span_mem(2) [OF s Cons.prems(2)] show ?case
    by (auto simp: msp.spans_ok_append msp.span_simps simp del: cut_span.simps)
qed (simp add: msp.span_simps)

lemma content_at_cut:
  assumes ok: "msp.spans_ok xs" and be: "b < e"
  shows "content_at (concat (map (cut_span b e) xs)) x =
    (if b \<le> x \<and> x < e then None else content_at xs x)"
proof -
  let ?k = "concat (map (cut_span b e) xs)"
  have pos: "sp_begin s < sp_end s" if "s \<in> set xs" for s
    using ok that by (simp add: msp.spans_ok_def)
  have kept: "\<exists>s \<in> set xs. t \<in> set (cut_span b e s) \<and> sp_begin s < sp_end s" if "t \<in> set ?k" for t
    using that pos by (auto simp del: cut_span.simps)
  show ?thesis
  proof (cases "b \<le> x \<and> x < e")
    case True
    have "x < sp_begin t \<or> sp_end t \<le> x" if "t \<in> set ?k" for t
    proof -
      from kept [OF that] obtain s where s: "sp_begin s < sp_end s" "t \<in> set (cut_span b e s)" by blast
      from cut_span_mem(1) [OF s(1) be s(2)] True show ?thesis by linarith
    qed
    then have "msp.span_at ?k x = None" by (rule msp.span_at_None)
    with True show ?thesis by (simp add: content_at_def)
  next
    case False
    show ?thesis
    proof (cases "msp.span_at xs x")
      case None
      have out: "x < sp_begin s \<or> sp_end s \<le> x" if "s \<in> set xs" for s
        using None that msp.span_at_unique [OF ok that, of x] by fastforce
      have "x < sp_begin t \<or> sp_end t \<le> x" if "t \<in> set ?k" for t
      proof -
        from kept [OF that] obtain s where s: "s \<in> set xs" "t \<in> set (cut_span b e s)" by blast
        from cut_span_mem(1) [OF pos [OF s(1)] be s(2)] out [OF s(1)] show ?thesis by linarith
      qed
      then have "msp.span_at ?k x = None" by (rule msp.span_at_None)
      with None False show ?thesis by (simp add: content_at_def)
    next
      case (Some s)
      then have s: "s \<in> set xs" "sp_begin s \<le> x" "x < sp_end s"
        using msp.span_at_SomeD by blast+
      have out: "x < b \<or> e \<le> x" using False by auto
      from cut_span_mem(3) [OF pos [OF s(1)] be s(2,3) out]
      obtain t where t: "t \<in> set (cut_span b e s)" "sp_begin t \<le> x" "x < sp_end t" by blast
      have "t \<in> set ?k" using t(1) s(1) by (auto simp del: cut_span.simps)
      then have "msp.span_at ?k x = Some t"
        using msp.span_at_unique [OF cut_spans_ok [OF ok be]] t(2,3) by blast
      with Some False cut_span_mem(1) [OF pos [OF s(1)] be t(1)] s(2) t(2) show ?thesis
        by (auto simp: content_at_def simp del: cut_span.simps)
    qed
  qed
qed

text \<open>Merging adjacent spans keeps the map and leaves no two mergeable neighbours.\<close>

lemma push_merged_step:
  assumes "msp.spans_ok (acc @ span # rest)" and "merged acc"
  shows "msp.spans_ok (push_merged span acc @ rest)" and "merged (push_merged span acc)"
    and "content_at (push_merged span acc @ rest) = content_at (acc @ span # rest)"
proof -
  show ok: "msp.spans_ok (push_merged span acc @ rest)"
    using assms(1) by (cases acc rule: rev_cases)
      (fastforce simp: push_merged_def mergeable_def msp.spans_ok_append msp.span_simps)+
  show "merged (push_merged span acc)"
    using assms(2) by (cases acc rule: rev_cases)
      (auto simp: push_merged_def merged_def successively_append_iff mergeable_def)
  show "content_at (push_merged span acc @ rest) = content_at (acc @ span # rest)"
  proof (cases "acc \<noteq> [] \<and> mergeable (last acc) span")
    case False
    then show ?thesis by (auto simp: push_merged_def)
  next
    case True
    then obtain as l where acc: "acc = as @ [l]" by (metis append_butlast_last_id)
    have "sp_begin l < sp_end l" "sp_begin span < sp_end span"
      using assms(1) by (auto simp: acc msp.spans_ok_def)
    with True show ?thesis
      by (intro ext) (auto simp: acc push_merged_def content_at_def mergeable_def msp.span_at_append
          msp.span_simps split: option.splits)
  qed
qed

lemma fold_push_merged:
  "msp.spans_ok (acc @ ys) \<Longrightarrow> merged acc \<Longrightarrow>
   state_ok (fold push_merged ys acc) \<and> content_at (fold push_merged ys acc) = content_at (acc @ ys)"
proof (induction ys arbitrary: acc)
  case (Cons y ys)
  from push_merged_step [OF Cons.prems] Cons.IH [of "push_merged y acc"] show ?case by simp
qed (simp add: state_ok_def)

lemma option_eq_iff: "(\<And>s. a = Some s \<longleftrightarrow> b = Some s) \<Longrightarrow> a = b"
  by (cases a; cases b) auto

section \<open>Replace refines a pointwise update\<close>

lemma Replace_refines:
  assumes ok: "state_ok spans" and pos: "0 < sz"
  shows "state_ok (Replace spans address sz content off)"
    and "content_at (Replace spans address sz content off) x =
      (if address \<le> x \<and> x < address + sz
       then content_part (map_option (\<lambda>c. (c, off)) content) (x - address) else content_at spans x)"
proof -
  let ?b = address and ?e = "address + sz"
  let ?k = "concat (map (cut_span ?b ?e) spans)"
  let ?new = "case content of None \<Rightarrow> []
    | Some c \<Rightarrow> [\<lparr>sp_begin = ?b, sp_end = ?e, sp_content = c, sp_contentOffset = off\<rparr>]"
  have be: "?b < ?e" using pos by simp
  have sp: "msp.spans_ok spans" using ok by (simp add: state_ok_def)
  have k: "msp.spans_ok ?k" by (rule cut_spans_ok [OF sp be])
  have out: "sp_end t \<le> ?b \<or> ?e \<le> sp_begin t" if "t \<in> set ?k" for t
    using that sp cut_span_mem(1) [OF _ be] by (fastforce simp: msp.spans_ok_def simp del: cut_span.simps)
  have srt: "msp.spans_ok (sort_key sp_begin (?k @ ?new))"
  proof (rule spans_ok_sort)
    show "\<forall>s \<in> set (?k @ ?new). sp_begin s < sp_end s"
      using k be by (auto simp: msp.spans_ok_def split: option.splits simp del: cut_span.simps)
    have "sorted_wrt (\<lambda>s t. sp_end s \<le> sp_begin t \<or> sp_end t \<le> sp_begin s) ?k"
      using k unfolding msp.spans_ok_def by (elim conjE) (erule sorted_wrt_mono_rel [rotated], blast)
    then show "sorted_wrt (\<lambda>s t. sp_end s \<le> sp_begin t \<or> sp_end t \<le> sp_begin s) (?k @ ?new)"
      using out by (cases content) (simp_all add: sorted_wrt_append del: set_concat set_map)
  qed
  from fold_push_merged [of "[]" "sort_key sp_begin (?k @ ?new)"] srt pos
  have res: "state_ok (Replace spans address sz content off) \<and>
      content_at (Replace spans address sz content off) = content_at (sort_key sp_begin (?k @ ?new))"
    by (simp add: Replace_def Let_def merged_def del: cut_span.simps)
  then show "state_ok (Replace spans address sz content off)" by simp
  have at: "msp.span_at (sort_key sp_begin (?k @ ?new)) x = (if address \<le> x \<and> x < address + sz
       then (case content of None \<Rightarrow> None | Some c \<Rightarrow> Some (hd ?new)) else msp.span_at ?k x)"
    (is "?lhs = ?rhs")
  proof (rule option_eq_iff)
    fix s
    have "?lhs = Some s \<longleftrightarrow> s \<in> set ?k \<union> set ?new \<and> sp_begin s \<le> x \<and> x < sp_end s"
      unfolding msp_iff [OF srt] by (simp del: set_concat set_map cut_span.simps)
    also have "\<dots> \<longleftrightarrow> ?rhs = Some s"
      using out [of s] msp_iff [OF k, of x s] by (auto split: option.splits simp del: set_concat set_map)
    finally show "?lhs = Some s \<longleftrightarrow> ?rhs = Some s" .
  qed
  show "content_at (Replace spans address sz content off) x =
      (if address \<le> x \<and> x < address + sz
       then content_part (map_option (\<lambda>c. (c, off)) content) (x - address) else content_at spans x)"
    using res content_at_cut [OF sp be, of x] at
    by (auto simp: content_at_def content_part_def split: option.splits simp del: cut_span.simps)
qed

definition replace_range ::
    "CommandMemoryState \<Rightarrow> nat \<Rightarrow> nat \<Rightarrow> (MemoryContent \<times> nat) option \<Rightarrow> CommandMemoryState" where
  "replace_range spans b e w = Replace spans b (e - b) (map_option fst w) (case w of None \<Rightarrow> 0 | Some (c, off) \<Rightarrow> off)"

interpretation mem: span_store content_at replace_range content_part state_ok
proof unfold_locales
  fix spans :: CommandMemoryState and b e :: nat and w :: "(MemoryContent \<times> nat) option" and x
  assume ok: "state_ok spans" and be: "b < e"
  then have pos: "0 < e - b" by simp
  show "state_ok (replace_range spans b e w)"
    unfolding replace_range_def by (rule Replace_refines(1) [OF ok pos])
  have "map_option (\<lambda>c. (c, case w of None \<Rightarrow> 0 | Some (c, off) \<Rightarrow> off)) (map_option fst w) = w"
    by (cases w) auto
  then show "content_at (replace_range spans b e w) x =
      (if b \<le> x \<and> x < e then content_part w (x - b) else content_at spans x)"
    using Replace_refines(2) [OF ok pos, of b "map_option fst w" "case w of None \<Rightarrow> 0 | Some (c, off) \<Rightarrow> off" x] be
    by (simp add: replace_range_def)
qed

lemma Clear_ok: "state_ok Clear" "content_at Clear x = None"
  by (simp_all add: Clear_def state_ok_def merged_def content_at_def msp.span_simps)

section \<open>The queries\<close>

text \<open>The range \<open>[address, address + n)\<close> holds \<open>content\<close> from offset \<open>off\<close> on.\<close>

definition holds :: "CommandMemoryState \<Rightarrow> nat \<Rightarrow> nat \<Rightarrow> MemoryContent \<Rightarrow> nat \<Rightarrow> bool" where
  "holds spans address n content off \<longleftrightarrow>
     (\<forall>k < n. content_at spans (address + k) = Some (content, off + k))"

lemma content_at_Some:
  "msp.spans_ok spans \<Longrightarrow> content_at spans x = Some (c, k) \<longleftrightarrow>
   (\<exists>s \<in> set spans. sp_begin s \<le> x \<and> x < sp_end s \<and> sp_content s = c \<and>
      sp_contentOffset s + (x - sp_begin s) = k)"
  by (auto simp: content_at_def msp_iff)

lemma content_at_Cons:
  assumes "msp.spans_ok (s # spans)"
  shows "sp_end s \<le> x \<Longrightarrow> content_at (s # spans) x = content_at spans x"
    and "sp_begin s \<le> x \<Longrightarrow> x < sp_end s \<Longrightarrow>
      content_at (s # spans) x = Some (sp_content s, sp_contentOffset s + (x - sp_begin s))"
    and "x < sp_begin s \<Longrightarrow> content_at (s # spans) x = None"
proof -
  assume x: "x < sp_begin s"
  have "x < sp_begin t" if "t \<in> set spans" for t
    using assms that x by (fastforce simp: msp.span_simps)
  with x show "content_at (s # spans) x = None"
    by (auto simp: content_at_def msp.span_simps intro!: msp.span_at_None)
qed (auto simp: content_at_def msp.span_simps)

lemma contains_loop_iff:
  "msp.spans_ok spans \<Longrightarrow> cursor < e \<Longrightarrow> b \<le> cursor \<Longrightarrow>
   contains_loop b e content off cursor spans \<longleftrightarrow>
   (\<forall>x. cursor \<le> x \<and> x < e \<longrightarrow> content_at spans x = Some (content, off + (x - b)))"
proof (induction b e content off cursor spans rule: contains_loop.induct)
  case (1 b e content off cursor)
  then show ?case by (auto simp: content_at_def msp.span_simps)
next
  case (2 b e content off cursor s spans)
  note at = content_at_Cons [OF 2(3)]
  have sp: "msp.spans_ok spans" using 2(3) by (simp add: msp.span_simps)
  consider "sp_end s \<le> cursor" | "cursor < sp_begin s" "cursor < sp_end s"
    | "sp_begin s \<le> cursor" "cursor < sp_end s" by linarith
  then show ?case
  proof cases
    case 1
    then have "content_at (s # spans) x = content_at spans x" if "cursor \<le> x" for x
      using at(1) that by simp
    with 2(1) [OF 1 sp 2(4,5)] 1 show ?thesis by simp
  next
    case 2
    with at(3) [of cursor] \<open>cursor < e\<close> show ?thesis by auto
  next
    case 3
    define good where "good \<longleftrightarrow> sp_content s = content \<and>
      sp_contentOffset s + (cursor - sp_begin s) = off + (cursor - b)"
    show ?thesis
    proof (cases good)
      case False
      with at(2) [OF 3] 2(4) have "content_at (s # spans) cursor \<noteq> Some (content, off + (cursor - b))"
        by (auto simp: good_def)
      with False 3 2(4) show ?thesis by (auto simp: good_def)
    next
      case True
      define c' where "c' = min e (sp_end s)"
      have here: "content_at (s # spans) x = Some (content, off + (x - b))" if "cursor \<le> x" "x < c'" for x
        using at(2) [of x] that 3 True 2(5) by (auto simp: good_def c'_def)
      have step: "contains_loop b e content off cursor (s # spans) \<longleftrightarrow>
          c' = e \<or> contains_loop b e content off c' spans"
        using 3 True by (auto simp: good_def c'_def Let_def)
      show ?thesis
      proof (cases "c' = e")
        case True
        with here step show ?thesis by simp
      next
        case False
        then have c': "c' = sp_end s" "c' < e" by (auto simp: c'_def min_def split: if_splits)
        from 2(2) [OF _ _ _ c'_def False sp c'(2)] 3 True 2(5) c'(1)
        have "contains_loop b e content off c' spans \<longleftrightarrow>
            (\<forall>x. c' \<le> x \<and> x < e \<longrightarrow> content_at spans x = Some (content, off + (x - b)))"
          by (simp add: good_def)
        also have "\<dots> \<longleftrightarrow> (\<forall>x. c' \<le> x \<and> x < e \<longrightarrow>
            content_at (s # spans) x = Some (content, off + (x - b)))"
          using at(1) c'(1) by auto
        also have "\<dots> \<longleftrightarrow> (\<forall>x. cursor \<le> x \<and> x < e \<longrightarrow>
            content_at (s # spans) x = Some (content, off + (x - b)))"
          using here 3 c'(1) by (metis dual_order.strict_trans2 linorder_not_less order.strict_implies_order)
        finally show ?thesis using step False by simp
      qed
    qed
  qed
qed

lemma Contains_holds:
  assumes "state_ok spans"
  shows "Contains spans address sz content off \<longleftrightarrow> holds spans address sz content off"
proof (cases "sz = 0")
  case False
  have "(\<forall>x. address \<le> x \<and> x < address + sz \<longrightarrow> P x (x - address)) \<longleftrightarrow> (\<forall>k < sz. P (address + k) k)" for P
    by (metis add_diff_cancel_left' le_add1 le_add_diff_inverse nat_add_left_cancel_less)
  from this [of "\<lambda>x k. content_at spans x = Some (content, off + k)"] False assms show ?thesis
    by (simp add: Contains_def holds_def state_ok_def contains_loop_iff)
qed (simp add: Contains_def holds_def)

lemma matched_step_iff:
  assumes ok: "msp.spans_ok spans"
  shows "matched_step spans address bound content off n = None \<longleftrightarrow>
      content_at spans (address + n) \<noteq> Some (content, off + n)"
    and "matched_step spans address bound content off n = Some k \<Longrightarrow> n < bound \<Longrightarrow>
      0 < k \<and> n + k \<le> bound \<and>
      (\<forall>j. n \<le> j \<and> j < n + k \<longrightarrow> content_at spans (address + j) = Some (content, off + j))"
proof -
  show "matched_step spans address bound content off n = None \<longleftrightarrow>
      content_at spans (address + n) \<noteq> Some (content, off + n)"
    by (auto simp: matched_step_def Let_def content_at_def msp.span_at_def [symmetric]
        split: option.splits dest!: msp.span_at_SomeD)
next
  assume st: "matched_step spans address bound content off n = Some k" and n: "n < bound"
  then obtain s where s: "msp.span_at spans (address + n) = Some s" "sp_content s = content"
      "sp_contentOffset s + (address + n) - sp_begin s = off + n" "k = min (bound - n) (sp_end s - (address + n))"
    by (auto simp: matched_step_def Let_def msp.span_at_def [symmetric] split: option.splits if_splits)
  note m = msp.span_at_SomeD [OF s(1)]
  have "content_at spans (address + j) = Some (content, off + j)" if j: "n \<le> j" "j < n + k" for j
  proof -
    have "msp.span_at spans (address + j) = Some s"
      using m j s(4) by (intro msp.span_at_unique [OF ok]) auto
    with m s j show ?thesis by (auto simp: content_at_def)
  qed
  with m s n show "0 < k \<and> n + k \<le> bound \<and>
      (\<forall>j. n \<le> j \<and> j < n + k \<longrightarrow> content_at spans (address + j) = Some (content, off + j))"
    by auto
qed

lemma matched_loop_spec:
  "msp.spans_ok spans \<Longrightarrow> n \<le> bound \<Longrightarrow> holds spans address n content off \<Longrightarrow>
   r = matched_loop spans address bound content off n \<Longrightarrow>
   r \<le> bound \<and> holds spans address r content off \<and>
   (r < bound \<longrightarrow> content_at spans (address + r) \<noteq> Some (content, off + r))"
proof (induction spans address bound content off n rule: matched_loop.induct)
  case (1 spans address bound content off n)
  note ms = matched_step_iff [OF 1(2), of address bound content off n]
  show ?case
  proof (cases "n < bound")
    case False
    with 1 show ?thesis by (simp add: matched_loop.simps)
  next
    case lt: True
    show ?thesis
    proof (cases "matched_step spans address bound content off n")
      case None
      with 1 lt ms(1) show ?thesis by (simp add: matched_loop.simps)
    next
      case (Some k)
      note step = ms(2) [OF Some lt]
      have "holds spans address (n + k) content off"
        using step 1(4) unfolding holds_def by (meson not_less)
      with 1(1) [OF lt Some 1(2)] step 1(5) lt Some show ?thesis
        by (simp add: matched_loop.simps)
    qed
  qed
qed

text \<open>Two spans that touch are neighbours in the list, so a maximally merged list has none to merge.\<close>

lemma merged_touching:
  "msp.spans_ok xs \<Longrightarrow> merged xs \<Longrightarrow> s \<in> set xs \<Longrightarrow> t \<in> set xs \<Longrightarrow> \<not> mergeable s t"
proof (induction xs)
  case (Cons x xs)
  have x: "sp_begin x < sp_end x" "\<And>u. u \<in> set xs \<Longrightarrow> sp_end x \<le> sp_begin u \<and> sp_begin u < sp_end u"
    using Cons.prems(1) by (auto simp: msp.span_simps msp.spans_ok_def)
  have m: "merged xs" using Cons.prems(2) by (auto simp: merged_def successively_Cons)
  have sp: "msp.spans_ok xs" using Cons.prems(1) by (simp add: msp.span_simps)
  consider "s = x" "t = x" | "s = x" "t \<in> set xs" | "s \<in> set xs" "t = x" | "s \<in> set xs" "t \<in> set xs"
    using Cons.prems(3,4) by auto
  then show ?case
  proof cases
    case 2
    then obtain y ys where xs: "xs = y # ys" by (cases xs) auto
    show ?thesis
    proof (cases "t = y")
      case True
      with 2 xs Cons.prems(2) show ?thesis by (simp add: merged_def)
    next
      case False
      then have "sp_end y \<le> sp_begin t" using 2 xs sp by (auto simp: msp.span_simps)
      with x(2) [of y] 2 xs show ?thesis by (auto simp: mergeable_def)
    qed
  qed (use x Cons.IH [OF sp m] in \<open>fastforce simp: mergeable_def\<close>)+
qed simp

text \<open>Content held over a whole range lies in one span.\<close>

lemma holds_one_span:
  assumes ok: "state_ok spans" and h: "holds spans address sz content off" and pos: "0 < sz"
  shows "\<exists>s \<in> set spans. sp_content s = content \<and> sp_begin s \<le> address \<and> address + sz \<le> sp_end s \<and>
    off = sp_contentOffset s + (address - sp_begin s)"
proof -
  have sp: "msp.spans_ok spans" using ok by (simp add: state_ok_def)
  from h pos have "content_at spans (address + 0) = Some (content, off + 0)" unfolding holds_def by blast
  then obtain s where s: "s \<in> set spans" "sp_begin s \<le> address" "address < sp_end s"
      "sp_content s = content" "sp_contentOffset s + (address - sp_begin s) = off"
    by (auto simp: content_at_Some [OF sp])
  have "address + sz \<le> sp_end s"
  proof (rule ccontr)
    assume "\<not> address + sz \<le> sp_end s"
    then have "content_at spans (sp_end s) = Some (content, off + (sp_end s - address))"
      using h s(3) unfolding holds_def by (metis less_imp_le add_less_cancel_left le_add_diff_inverse not_le)
    then obtain t where t: "t \<in> set spans" "sp_begin t \<le> sp_end s" "sp_end s < sp_end t"
        "sp_content t = content" "sp_contentOffset t + (sp_end s - sp_begin t) = off + (sp_end s - address)"
      by (auto simp: content_at_Some [OF sp])
    have "sp_begin t = sp_end s"
    proof (rule ccontr)
      assume "sp_begin t \<noteq> sp_end s"
      with t(2) have lt: "sp_begin t < sp_end s" by simp
      define x where "x = max (sp_begin s) (sp_begin t)"
      have x: "sp_begin s \<le> x" "x < sp_end s" "sp_begin t \<le> x" "x < sp_end t"
        using s t lt by (auto simp: x_def)
      from msp.span_at_unique [OF sp s(1) x(1,2)] msp.span_at_unique [OF sp t(1) x(3,4)]
      have "s = t" by simp
      with t(3) show False by simp
    qed
    then have "mergeable s t" using s t by (auto simp: mergeable_def)
    with merged_touching [OF sp _ s(1) t(1)] ok show False by (simp add: state_ok_def)
  qed
  with s show ?thesis by auto
qed

lemma span_holds:
  assumes "msp.spans_ok spans" and "s \<in> set spans" and "sp_begin s \<le> address" and "address + sz \<le> sp_end s"
  shows "holds spans address sz (sp_content s) (sp_contentOffset s + (address - sp_begin s))"
  unfolding holds_def content_at_Some [OF assms(1)]
  by (intro allI impI bexI [OF _ assms(2)]) (use assms(3,4) in auto)

lemma Find_loop_Some:
  "Find_loop content off sz xs = Some a \<Longrightarrow>
   \<exists>s \<in> set xs. sp_content s = content \<and> sp_contentOffset s \<le> off \<and>
     off + sz \<le> sp_contentOffset s + (sp_end s - sp_begin s) \<and>
     a = sp_begin s + (off - sp_contentOffset s) \<and> a \<le> 0xFFFFFFFF"
  by (induction content off sz xs rule: Find_loop.induct) (auto simp: Let_def split: if_splits)

lemma Find_loop_None:
  "Find_loop content off sz xs = None \<Longrightarrow> s \<in> set xs \<Longrightarrow> sp_content s = content \<Longrightarrow>
   sp_contentOffset s \<le> off \<Longrightarrow> off + sz \<le> sp_contentOffset s + (sp_end s - sp_begin s) \<Longrightarrow>
   \<not> sp_begin s + (off - sp_contentOffset s) \<le> 0xFFFFFFFF"
  by (induction content off sz xs rule: Find_loop.induct) (auto simp: Let_def split: if_splits)

lemma Find_sound:
  assumes ok: "state_ok spans" and f: "Find spans content off sz = Some a"
  shows "holds spans a sz content off \<and> a \<le> 0xFFFFFFFF"
proof (cases "sz = 0")
  case False
  from Find_loop_Some [of content off sz spans a] f False obtain s where s: "s \<in> set spans"
      "sp_content s = content" "sp_contentOffset s \<le> off"
      "off + sz \<le> sp_contentOffset s + (sp_end s - sp_begin s)"
      "a = sp_begin s + (off - sp_contentOffset s)" "a \<le> 0xFFFFFFFF"
    by (auto simp: Find_def)
  have "msp.spans_ok spans" using ok by (simp add: state_ok_def)
  from span_holds [OF this s(1), of a sz] s False show ?thesis by auto
qed (use f in \<open>auto simp: Find_def holds_def\<close>)

lemma Find_complete:
  assumes ok: "state_ok spans" and h: "holds spans a sz content off" and a: "a \<le> 0xFFFFFFFF"
  shows "Find spans content off sz \<noteq> None"
proof (cases "sz = 0")
  case False
  then have pos: "0 < sz" by simp
  from holds_one_span [OF ok h pos] obtain s where s: "s \<in> set spans" "sp_content s = content"
      "sp_begin s \<le> a" "a + sz \<le> sp_end s" "off = sp_contentOffset s + (a - sp_begin s)" by blast
  have "sp_begin s + (off - sp_contentOffset s) = a" "sp_contentOffset s \<le> off"
    "off + sz \<le> sp_contentOffset s + (sp_end s - sp_begin s)" using s by auto
  with Find_loop_None [of content off sz spans s] s(1,2) a have "Find_loop content off sz spans \<noteq> None"
    by auto
  then show ?thesis using False by (simp add: Find_def)
qed (simp add: Find_def)

lemma FindExtent_loop_Some:
  "FindExtent_loop content off bound xs = Some (a, n) \<Longrightarrow>
   \<exists>s \<in> set xs. sp_content s = content \<and> sp_contentOffset s \<le> off \<and>
     off < sp_contentOffset s + (sp_end s - sp_begin s) \<and>
     a = sp_begin s + (off - sp_contentOffset s) \<and> a \<le> 0xFFFFFFFF \<and>
     n = min bound (sp_contentOffset s + (sp_end s - sp_begin s) - off)"
  by (induction content off bound xs rule: FindExtent_loop.induct) (auto simp: Let_def split: if_splits)

lemma FindExtent_sound:
  assumes ok: "state_ok spans" and f: "FindExtent spans content off bound = Some (a, n)" and pos: "0 < bound"
  shows "0 < n \<and> n \<le> bound \<and> a \<le> 0xFFFFFFFF \<and> holds spans a n content off"
proof -
  from FindExtent_loop_Some [of content off bound spans a n] f pos obtain s where s: "s \<in> set spans"
      "sp_content s = content" "sp_contentOffset s \<le> off"
      "off < sp_contentOffset s + (sp_end s - sp_begin s)"
      "a = sp_begin s + (off - sp_contentOffset s)" "a \<le> 0xFFFFFFFF"
      "n = min bound (sp_contentOffset s + (sp_end s - sp_begin s) - off)"
    by (auto simp: FindExtent_def)
  have "msp.spans_ok spans" using ok by (simp add: state_ok_def)
  from span_holds [OF this s(1), of a n] s pos show ?thesis by auto
qed

end
