(* ===== verification/NAI_Abi.thy ===== *)
theory NAI_Abi
  imports NAI_Prelude
begin

text \<open>
  The model package ABI: \<^verbatim>\<open>architecture/neuralai/neural_ai_abi.hpp\<close> and \<^verbatim>\<open>neural_ai_abi.cpp\<close>.

  The wire structs are records of words (a fixed C array is a tuple), the \<open>Serialize\<close> overloads
  run a write cursor over a zeroed array as the code does, and \<open>ValidateModelLayout\<close> returns the
  first failed check as a value of \<open>layout_error\<close>.  The lemmas show that \<open>Serialize\<close> is the field
  layout of the struct and has a left inverse, that the bit tricks of \<open>IsAligned\<close> and the
  subtraction of \<open>IsValidRange\<close> mean divisibility and range inclusion over the naturals, and that
  the validator accepts exactly the packages of an arithmetic specification.
\<close>

section \<open>Constants and enumerations\<close>

definition ModelMagic :: u32 where "ModelMagic = 0x4D49414E"
definition InvocationMagic :: u32 where "InvocationMagic = 0x5649414E"
definition AbiMajor :: u16 where "AbiMajor = 1"
definition AbiMinor :: u16 where "AbiMinor = 6"
definition TargetId :: u32 where "TargetId = 1"
definition Alignment :: u32 where "Alignment = 32"

datatype SectionType = Commands | Constants | Tensors | Bindings | QParams | DebugMap

primrec SectionType_code :: "SectionType \<Rightarrow> u32" where
  "SectionType_code Commands = 1"
| "SectionType_code Constants = 2"
| "SectionType_code Tensors = 3"
| "SectionType_code Bindings = 4"
| "SectionType_code QParams = 5"
| "SectionType_code DebugMap = 6"

datatype DataType = Int8 | Int32

primrec DataType_code :: "DataType \<Rightarrow> u16" where
  "DataType_code Int8 = 1"
| "DataType_code Int32 = 4"

datatype TensorLayout = NHWC | Row32 | C32Blocked

primrec TensorLayout_code :: "TensorLayout \<Rightarrow> u16" where
  "TensorLayout_code NHWC = 1"
| "TensorLayout_code Row32 = 2"
| "TensorLayout_code C32Blocked = 3"

datatype BindingDirection = Input | Output | L2Temporary

primrec BindingDirection_code :: "BindingDirection \<Rightarrow> u16" where
  "BindingDirection_code Input = 1"
| "BindingDirection_code Output = 2"
| "BindingDirection_code L2Temporary = 3"

datatype Region = ModelConstants | ModelCommands | InputBinding | OutputBinding
  | L2TemporaryBinding | TCDMScratch | DTCMRuntime

primrec Region_code :: "Region \<Rightarrow> u16" where
  "Region_code ModelConstants = 1"
| "Region_code ModelCommands = 2"
| "Region_code InputBinding = 3"
| "Region_code OutputBinding = 4"
| "Region_code L2TemporaryBinding = 5"
| "Region_code TCDMScratch = 6"
| "Region_code DTCMRuntime = 7"

datatype DMADirection = ExternalToLocal | LocalToExternal | LocalToLocal

primrec DMADirection_code :: "DMADirection \<Rightarrow> u32" where
  "DMADirection_code ExternalToLocal = 0"
| "DMADirection_code LocalToExternal = 1"
| "DMADirection_code LocalToLocal = 2"

section \<open>Wire structs\<close>

record ModelHeaderV1 =
  mh_magic :: u32
  mh_abiMajor :: u16
  mh_abiMinor :: u16
  mh_targetId :: u32
  mh_flags :: u32
  mh_totalBytes :: u32
  mh_sectionCount :: u32
  mh_sectionTableOffset :: u32
  mh_entryCommandOffset :: u32
  mh_commandCount :: u32
  mh_requiredTCDMBytes :: u32
  mh_requiredTCDMAlignment :: u32
  mh_inputCount :: u32
  mh_outputCount :: u32
  mh_reserved :: "u32 \<times> u32 \<times> u32"

record SectionV1 =
  sec_type :: u32
  sec_flags :: u32
  sec_offset :: u32
  sec_size :: u32
  sec_alignment :: u32
  sec_elementCount :: u32
  sec_reserved :: "u32 \<times> u32"

record InvocationV1 =
  inv_magic :: u32
  inv_abiMajor :: u16
  inv_abiMinor :: u16
  inv_totalBytes :: u32
  inv_modelBase :: u32
  inv_modelBytes :: u32
  inv_bindingTableBase :: u32
  inv_bindingCount :: u32
  inv_flags :: u32
  inv_reserved :: "u32 \<times> u32 \<times> u32 \<times> u32 \<times> u32 \<times> u32 \<times> u32 \<times> u32"

record TensorV1 =
  ten_tensorId :: u32
  ten_flags :: u32
  ten_dataType :: u16
  ten_layout :: u16
  ten_rank :: u16
  ten_reserved0 :: u16
  ten_dimensions :: "u32 \<times> u32 \<times> u32 \<times> u32"
  ten_byteSize :: u32
  ten_alignment :: u32
  ten_scratchOffset :: u32
  ten_qparamIndex :: u32
  ten_reserved :: "u32 \<times> u32 \<times> u32 \<times> u32"

record BindingV1 =
  bind_direction :: u16
  bind_index :: u16
  bind_dataType :: u16
  bind_layout :: u16
  bind_rank :: u16
  bind_reserved0 :: u16
  bind_tensorId :: u32
  bind_dimensions :: "u32 \<times> u32 \<times> u32 \<times> u32"
  bind_byteSize :: u32
  bind_scaleBits :: u32
  bind_zeroPoint :: u32
  bind_flags :: u32
  bind_reserved :: "u32 \<times> u32 \<times> u32 \<times> u32"

record QParamV1 =
  qp_bias :: u32
  qp_multiplier :: u32
  qp_shift :: u32
  qp_zeroPoint :: u32
  qp_clampMin :: u32
  qp_clampMax :: u32
  qp_reserved :: "u32 \<times> u32"

section \<open>Serialization\<close>

definition sizeof_ModelHeaderV1 :: nat where "sizeof_ModelHeaderV1 = 64"
definition sizeof_SectionV1 :: nat where "sizeof_SectionV1 = 32"
definition sizeof_InvocationV1 :: nat where "sizeof_InvocationV1 = 64"

text \<open>The overloads of \<^verbatim>\<open>Serialize\<close>: a zeroed array, filled through a cursor that starts at 0.\<close>

definition header_fields :: "ModelHeaderV1 \<Rightarrow> field list" where
  "header_fields v =
     [F32 (mh_magic v), F16 (mh_abiMajor v), F16 (mh_abiMinor v), F32 (mh_targetId v),
      F32 (mh_flags v), F32 (mh_totalBytes v), F32 (mh_sectionCount v),
      F32 (mh_sectionTableOffset v), F32 (mh_entryCommandOffset v), F32 (mh_commandCount v),
      F32 (mh_requiredTCDMBytes v), F32 (mh_requiredTCDMAlignment v), F32 (mh_inputCount v),
      F32 (mh_outputCount v)] @
     (case mh_reserved v of (a, b, c) \<Rightarrow> [F32 a, F32 b, F32 c])"

definition Serialize_ModelHeaderV1 :: "ModelHeaderV1 \<Rightarrow> bytes" where
  "Serialize_ModelHeaderV1 v =
     fst (fold write_field (header_fields v) (replicate sizeof_ModelHeaderV1 0, 0))"

definition section_fields :: "SectionV1 \<Rightarrow> field list" where
  "section_fields v =
     [F32 (sec_type v), F32 (sec_flags v), F32 (sec_offset v), F32 (sec_size v),
      F32 (sec_alignment v), F32 (sec_elementCount v)] @
     (case sec_reserved v of (a, b) \<Rightarrow> [F32 a, F32 b])"

definition Serialize_SectionV1 :: "SectionV1 \<Rightarrow> bytes" where
  "Serialize_SectionV1 v =
     fst (fold write_field (section_fields v) (replicate sizeof_SectionV1 0, 0))"

definition invocation_fields :: "InvocationV1 \<Rightarrow> field list" where
  "invocation_fields v =
     [F32 (inv_magic v), F16 (inv_abiMajor v), F16 (inv_abiMinor v), F32 (inv_totalBytes v),
      F32 (inv_modelBase v), F32 (inv_modelBytes v), F32 (inv_bindingTableBase v),
      F32 (inv_bindingCount v), F32 (inv_flags v)] @
     (case inv_reserved v of (a, b, c, d, e, f, g, h) \<Rightarrow>
        [F32 a, F32 b, F32 c, F32 d, F32 e, F32 f, F32 g, F32 h])"

definition Serialize_InvocationV1 :: "InvocationV1 \<Rightarrow> bytes" where
  "Serialize_InvocationV1 v =
     fst (fold write_field (invocation_fields v) (replicate sizeof_InvocationV1 0, 0))"

text \<open>Readers at the field offsets of the packed structs (the layout the static assertions fix).\<close>

definition parse_ModelHeaderV1 :: "bytes \<Rightarrow> ModelHeaderV1" where
  "parse_ModelHeaderV1 bs =
     \<lparr>mh_magic = Read32 bs 0, mh_abiMajor = Read16 bs 4, mh_abiMinor = Read16 bs 6,
      mh_targetId = Read32 bs 8, mh_flags = Read32 bs 12, mh_totalBytes = Read32 bs 16,
      mh_sectionCount = Read32 bs 20, mh_sectionTableOffset = Read32 bs 24,
      mh_entryCommandOffset = Read32 bs 28, mh_commandCount = Read32 bs 32,
      mh_requiredTCDMBytes = Read32 bs 36, mh_requiredTCDMAlignment = Read32 bs 40,
      mh_inputCount = Read32 bs 44, mh_outputCount = Read32 bs 48,
      mh_reserved = (Read32 bs 52, Read32 bs 56, Read32 bs 60)\<rparr>"

definition parse_SectionV1 :: "bytes \<Rightarrow> SectionV1" where
  "parse_SectionV1 bs =
     \<lparr>sec_type = Read32 bs 0, sec_flags = Read32 bs 4, sec_offset = Read32 bs 8,
      sec_size = Read32 bs 12, sec_alignment = Read32 bs 16, sec_elementCount = Read32 bs 20,
      sec_reserved = (Read32 bs 24, Read32 bs 28)\<rparr>"

definition parse_InvocationV1 :: "bytes \<Rightarrow> InvocationV1" where
  "parse_InvocationV1 bs =
     \<lparr>inv_magic = Read32 bs 0, inv_abiMajor = Read16 bs 4, inv_abiMinor = Read16 bs 6,
      inv_totalBytes = Read32 bs 8, inv_modelBase = Read32 bs 12, inv_modelBytes = Read32 bs 16,
      inv_bindingTableBase = Read32 bs 20, inv_bindingCount = Read32 bs 24,
      inv_flags = Read32 bs 28,
      inv_reserved = (Read32 bs 32, Read32 bs 36, Read32 bs 40, Read32 bs 44,
        Read32 bs 48, Read32 bs 52, Read32 bs 56, Read32 bs 60)\<rparr>"

lemma serialize_fields:
  assumes "length (put_fields fs) = n"
  shows "fst (fold write_field fs (replicate n 0, 0)) = put_fields fs"
  using fold_write_field [of fs n "[]"] assms by simp

lemma Serialize_ModelHeaderV1_eq: "Serialize_ModelHeaderV1 v = put_fields (header_fields v)"
  unfolding Serialize_ModelHeaderV1_def sizeof_ModelHeaderV1_def
  by (rule serialize_fields) (simp add: header_fields_def split: prod.split)

lemma Serialize_SectionV1_eq: "Serialize_SectionV1 v = put_fields (section_fields v)"
  unfolding Serialize_SectionV1_def sizeof_SectionV1_def
  by (rule serialize_fields) (simp add: section_fields_def split: prod.split)

lemma Serialize_InvocationV1_eq: "Serialize_InvocationV1 v = put_fields (invocation_fields v)"
  unfolding Serialize_InvocationV1_def sizeof_InvocationV1_def
  by (rule serialize_fields) (simp add: invocation_fields_def split: prod.split)

interpretation header_codec: byte_codec Serialize_ModelHeaderV1 parse_ModelHeaderV1 64
proof unfold_locales
  fix x rest
  show "length (Serialize_ModelHeaderV1 x) = 64"
    by (simp add: Serialize_ModelHeaderV1_eq header_fields_def split: prod.split)
  show "parse_ModelHeaderV1 (Serialize_ModelHeaderV1 x @ rest) = x"
    by (cases x) (simp add: Serialize_ModelHeaderV1_eq parse_ModelHeaderV1_def header_fields_def
        codec_simps split: prod.split)
qed

interpretation section_codec: byte_codec Serialize_SectionV1 parse_SectionV1 32
proof unfold_locales
  fix x rest
  show "length (Serialize_SectionV1 x) = 32"
    by (simp add: Serialize_SectionV1_eq section_fields_def split: prod.split)
  show "parse_SectionV1 (Serialize_SectionV1 x @ rest) = x"
    by (cases x) (simp add: Serialize_SectionV1_eq parse_SectionV1_def section_fields_def
        codec_simps split: prod.split)
qed

interpretation invocation_codec: byte_codec Serialize_InvocationV1 parse_InvocationV1 64
proof unfold_locales
  fix x rest
  show "length (Serialize_InvocationV1 x) = 64"
    by (simp add: Serialize_InvocationV1_eq invocation_fields_def split: prod.split)
  show "parse_InvocationV1 (Serialize_InvocationV1 x @ rest) = x"
    by (cases x) (simp add: Serialize_InvocationV1_eq parse_InvocationV1_def invocation_fields_def
        codec_simps split: prod.split)
qed

section \<open>Alignment and ranges\<close>

definition IsAligned :: "u32 \<Rightarrow> u32 \<Rightarrow> bool" where
  "IsAligned value alignment \<longleftrightarrow>
     alignment \<noteq> 0 \<and> (alignment AND (alignment - 1)) = 0 \<and> (value AND (alignment - 1)) = 0"

definition IsValidRange :: "u32 \<Rightarrow> u32 \<Rightarrow> u32 \<Rightarrow> bool" where
  "IsValidRange offset sz totalBytes \<longleftrightarrow> offset \<le> totalBytes \<and> sz \<le> totalBytes - offset"

lemma and_pred_nat_power2: "0 < n \<Longrightarrow> (n AND (n - 1)) = 0 \<longleftrightarrow> (\<exists>k. n = 2 ^ k)" for n :: nat
proof (induction n rule: less_induct)
  case (less n)
  show ?case
  proof (cases "even n")
    case True
    then obtain m where n: "n = 2 * m" by blast
    with less.prems have m: "0 < m" and "m < n" by auto
    have "(n AND (n - 1)) = 2 * (m AND (m - 1))"
      using m n by (subst and_rec) (auto simp: even_diff_nat div_mult_self1_is_m
          elim!: evenE intro!: arg_cong2 [where f = "and"])
    also have "\<dots> = 0 \<longleftrightarrow> (\<exists>k. m = 2 ^ k)"
      using less.IH [OF \<open>m < n\<close> m] by simp
    also have "\<dots> \<longleftrightarrow> (\<exists>k. n = 2 ^ k)"
    proof
      assume "\<exists>k. m = 2 ^ k"
      then obtain k where "n = 2 ^ Suc k" using n by auto
      then show "\<exists>k. n = 2 ^ k" by blast
    next
      assume "\<exists>k. n = 2 ^ k"
      then obtain k where k: "n = 2 ^ k" by blast
      with n have "k \<noteq> 0" by (cases k) auto
      then obtain j where "k = Suc j" by (cases k) auto
      with k n have "m = 2 ^ j" by simp
      then show "\<exists>k. m = 2 ^ k" by blast
    qed
    finally show ?thesis .
  next
    case False
    then obtain m where n: "n = 2 * m + 1" by (auto elim: oddE)
    have "(n AND (n - 1)) = 2 * m"
      by (subst and_rec) (use n in \<open>auto\<close>)
    moreover have "(\<exists>k. n = 2 ^ k) \<longleftrightarrow> m = 0"
    proof
      assume "\<exists>k. n = 2 ^ k"
      then obtain k where k: "n = 2 ^ k" by blast
      with False have "k = 0" by (cases k) auto
      with k n show "m = 0" by simp
    qed (use n in \<open>auto intro: exI [of _ 0]\<close>)
    ultimately show ?thesis by simp
  qed
qed

lemma power2_word_iff:
  "a \<noteq> 0 \<Longrightarrow> (a AND (a - 1)) = 0 \<longleftrightarrow> (\<exists>k. unat a = 2 ^ k)" for a :: u32
proof -
  assume a: "a \<noteq> 0"
  then have pos: "0 < unat a" by (simp add: unat_gt_0)
  have "unat (a - 1) = unat a - 1" using a by (simp add: unat_minus_one)
  then have "unat (a AND (a - 1)) = (unat a AND (unat a - 1))"
    by (simp add: unsigned_and_eq)
  then show ?thesis using and_pred_nat_power2 [OF pos] by (metis unat_eq_zero)
qed

lemma IsAligned_iff [align_simps]:
  "IsAligned v a \<longleftrightarrow> (\<exists>k. unat a = 2 ^ k) \<and> unat a dvd unat v"
proof (cases "a = 0")
  case False
  have "(v AND (a - 1)) = 0 \<longleftrightarrow> 2 ^ k dvd unat v" if k: "unat a = 2 ^ k" for k
  proof -
    have "a = 2 ^ k"
      using arg_cong [OF k, of "of_nat :: nat \<Rightarrow> u32"] by simp
    then have "v AND (a - 1) = take_bit k v"
      by (simp add: take_bit_eq_mask mask_eq_exp_minus_1)
    also have "\<dots> = 0 \<longleftrightarrow> take_bit k (unat v) = 0"
      by (metis unsigned_take_bit_eq unat_eq_zero)
    finally show ?thesis by (simp add: take_bit_eq_0_iff)
  qed
  with False show ?thesis
    unfolding IsAligned_def by (auto simp: power2_word_iff)
qed (simp add: IsAligned_def)

lemma IsValidRange_iff: "IsValidRange off sz bound \<longleftrightarrow> unat off + unat sz \<le> unat bound"
proof -
  have "unat (bound - off) = unat bound - unat off" if "off \<le> bound"
    using that by (simp add: unat_sub)
  then show ?thesis
    unfolding IsValidRange_def by (auto simp: word_le_nat_alt)
qed

section \<open>Package validation\<close>

text \<open>
  The failure messages of \<open>ValidateModelLayout\<close>, in the order of its checks.  \<open>sections\<close> is a
  nullable pointer (\<open>None\<close> for \<open>nullptr\<close>) to at least \<open>sectionCount\<close> entries.
\<close>

datatype layout_error =
    InvalidModelMagic
  | UnsupportedAbiMajor
  | TargetMismatch
  | BadPackageSize
  | SectionCountMismatch
  | BadSectionTable
  | UnsupportedTCDMAlignment
  | SectionOutOfRange nat
  | SectionReservedNonZero nat

definition section_in_range :: "u32 \<Rightarrow> SectionV1 \<Rightarrow> bool" where
  "section_in_range totalBytes s \<longleftrightarrow>
     \<not> (\<not> IsAligned (sec_offset s) Alignment \<or> \<not> IsAligned (sec_size s) Alignment \<or>
        sec_alignment s < Alignment \<or> \<not> IsAligned (sec_offset s) (sec_alignment s) \<or>
        \<not> IsValidRange (sec_offset s) (sec_size s) totalBytes)"

fun validate_sections :: "u32 \<Rightarrow> nat \<Rightarrow> SectionV1 list \<Rightarrow> layout_error + unit" where
  "validate_sections totalBytes index [] = Inr ()"
| "validate_sections totalBytes index (s # ss) =
     (if \<not> section_in_range totalBytes s then Inl (SectionOutOfRange index)
      else if fst (sec_reserved s) \<noteq> 0 \<or> snd (sec_reserved s) \<noteq> 0
        then Inl (SectionReservedNonZero index)
      else validate_sections totalBytes (index + 1) ss)"

definition ValidateModelLayout ::
    "ModelHeaderV1 \<Rightarrow> SectionV1 list option \<Rightarrow> nat \<Rightarrow> layout_error + unit" where
  "ValidateModelLayout header sections sectionCount =
     (if mh_magic header \<noteq> ModelMagic then Inl InvalidModelMagic
      else if mh_abiMajor header \<noteq> AbiMajor then Inl UnsupportedAbiMajor
      else if mh_targetId header \<noteq> TargetId then Inl TargetMismatch
      else if unat (mh_totalBytes header) < sizeof_ModelHeaderV1 \<or>
          \<not> IsAligned (mh_totalBytes header) Alignment then Inl BadPackageSize
      else if unat (mh_sectionCount header) \<noteq> sectionCount \<or>
          (sectionCount \<noteq> 0 \<and> sections = None) then Inl SectionCountMismatch
      else if sectionCount > (2 ^ 32 - 1) div sizeof_SectionV1 \<or>
          \<not> IsValidRange (mh_sectionTableOffset header)
              (word_of_nat (sectionCount * sizeof_SectionV1)) (mh_totalBytes header) \<or>
          \<not> IsAligned (mh_sectionTableOffset header) Alignment then Inl BadSectionTable
      else if mh_requiredTCDMAlignment header \<noteq> Alignment then Inl UnsupportedTCDMAlignment
      else validate_sections (mh_totalBytes header) 0
             (case sections of None \<Rightarrow> [] | Some ss \<Rightarrow> take sectionCount ss))"

text \<open>What acceptance means, over the natural numbers.\<close>

definition section_layout_ok :: "nat \<Rightarrow> SectionV1 \<Rightarrow> bool" where
  "section_layout_ok total_bytes s \<longleftrightarrow>
     32 dvd unat (sec_offset s) \<and> 32 dvd unat (sec_size s) \<and>
     (\<exists>k. unat (sec_alignment s) = 2 ^ k) \<and> 32 \<le> unat (sec_alignment s) \<and>
     unat (sec_alignment s) dvd unat (sec_offset s) \<and>
     unat (sec_offset s) + unat (sec_size s) \<le> total_bytes \<and> sec_reserved s = (0, 0)"

definition package_layout_ok :: "ModelHeaderV1 \<Rightarrow> SectionV1 list \<Rightarrow> bool" where
  "package_layout_ok h ss \<longleftrightarrow>
     mh_magic h = ModelMagic \<and> mh_abiMajor h = AbiMajor \<and> mh_targetId h = TargetId \<and>
     64 \<le> unat (mh_totalBytes h) \<and> 32 dvd unat (mh_totalBytes h) \<and>
     unat (mh_sectionCount h) = length ss \<and>
     unat (mh_sectionTableOffset h) + 32 * length ss \<le> unat (mh_totalBytes h) \<and>
     32 dvd unat (mh_sectionTableOffset h) \<and> mh_requiredTCDMAlignment h = 32 \<and>
     list_all (section_layout_ok (unat (mh_totalBytes h))) ss"

lemma power2_32 [simp]: "\<exists>k. (2::nat) ^ k = 32" "\<exists>k. (32::nat) = 2 ^ k"
  by (rule exI [of _ 5], simp)+

lemma IsAligned_Alignment [align_simps]: "IsAligned v Alignment \<longleftrightarrow> 32 dvd unat v"
  by (simp add: IsAligned_iff Alignment_def)

lemma section_in_range_iff:
  "section_in_range t s \<and> sec_reserved s = (0, 0) \<longleftrightarrow> section_layout_ok (unat t) s"
  by (auto simp: section_in_range_def section_layout_ok_def IsAligned_iff IsAligned_Alignment
      IsValidRange_iff word_less_nat_alt Alignment_def)

lemma validate_sections_iff:
  "validate_sections t i ss = Inr () \<longleftrightarrow> list_all (section_layout_ok (unat t)) ss"
proof (induction ss arbitrary: i)
  case (Cons s ss)
  then show ?case
    using section_in_range_iff [of t s] by (auto simp: prod_eq_iff)
qed simp

lemma validate_sections_Inl:
  assumes "validate_sections t i ss = Inl e"
  shows "\<exists>k < length ss. (e = SectionOutOfRange (i + k) \<or> e = SectionReservedNonZero (i + k)) \<and>
    \<not> section_layout_ok (unat t) (ss ! k) \<and> list_all (section_layout_ok (unat t)) (take k ss)"
  using assms
proof (induction ss arbitrary: i)
  case (Cons s ss)
  show ?case
  proof (cases "section_layout_ok (unat t) s")
    case True
    with Cons.prems have "validate_sections t (i + 1) ss = Inl e"
      using section_in_range_iff [of t s] by (auto simp: prod_eq_iff split: if_splits)
    from Cons.IH [OF this] obtain k where "k < length ss"
      "e = SectionOutOfRange (i + 1 + k) \<or> e = SectionReservedNonZero (i + 1 + k)"
      "\<not> section_layout_ok (unat t) (ss ! k)" "list_all (section_layout_ok (unat t)) (take k ss)"
      by blast
    with True show ?thesis by (intro exI [of _ "Suc k"]) auto
  next
    case False
    with Cons.prems show ?thesis
      using section_in_range_iff [of t s]
      by (intro exI [of _ 0]) (auto simp: prod_eq_iff split: if_splits)
  qed
qed simp

lemma section_table_iff:
  "(n > (2 ^ 32 - 1) div sizeof_SectionV1 \<or>
    \<not> IsValidRange off (word_of_nat (n * sizeof_SectionV1)) t \<or> \<not> IsAligned off Alignment) \<longleftrightarrow>
   \<not> (unat off + 32 * n \<le> unat t \<and> 32 dvd unat off)"
proof (cases "n \<le> 134217727")
  case True
  then have "unat (word_of_nat (n * 32) :: u32) = 32 * n"
    by (simp add: unat_word_ariths unat_of_nat)
  with True show ?thesis
    by (simp add: sizeof_SectionV1_def IsValidRange_iff IsAligned_Alignment del: of_nat_mult)
next
  case False
  then show ?thesis using unat_u32_less [of t] by (auto simp: sizeof_SectionV1_def)
qed

lemma ValidateModelLayout_iff:
  "ValidateModelLayout h (Some ss) (length ss) = Inr () \<longleftrightarrow> package_layout_ok h ss"
proof -
  have al: "mh_requiredTCDMAlignment h = Alignment \<longleftrightarrow> mh_requiredTCDMAlignment h = 32"
    by (simp add: Alignment_def)
  show ?thesis
    unfolding ValidateModelLayout_def package_layout_ok_def section_table_iff
    by (auto simp: validate_sections_iff IsAligned_Alignment al sizeof_ModelHeaderV1_def not_less)
qed

end
