(* ===== verification/NAI_CommandIR.thy ===== *)
theory NAI_CommandIR
  imports NAI_Abi "HOL-Library.Monad_Syntax"
begin

text \<open>
  The semantic command IR of \<^verbatim>\<open>compiler/neural_ai_command_ir.hpp/.cpp\<close>: the decoder from an ABI
  byte stream to \<open>SemanticCommand\<close> records and the serializer back.

  \<open>uint64_t\<close> byte counts are natural numbers; every product and sum of the source that could pass
  \<open>2 ^ 64 - 1\<close> goes through the saturating helpers, which are written out.  Identities are 64-bit
  words, because hashing and tagging use their wrap-around and bit layout.  A decoder that returns
  \<^verbatim>\<open>false\<close> yields \<open>None\<close>.
\<close>

section \<open>Command types\<close>

datatype CommandType =
    End | Barrier | DMA1D | DMA2D | DMA3D | RQLoad | Gemm32 | Gemm32Accum | Gemm32Requant
  | LineBufferJob | PointwiseC32 | DepthwiseC32 | AFULut | AFUBinary | AFUGlobalAvgPool
  | SpatzRequant | SpatzAdd | SpatzMul | CopyLayout | MaxPool | UpsampleNearest
  | RollingReset | RollingProduce | RollingConsumeRelease | DMASubmit1D | DMASubmit2D
  | DMASubmit3D | DMAWait | AFUDFL16 | LineBufferSubmit | SystolicWait | LineBufferBinary
  | LineBufferBinarySubmit | AffineLoop | AFUBinaryQuant

text \<open>The enumerators in the order of their values 0, 1, ..., 34.\<close>

definition CommandTypes :: "CommandType list" where
  "CommandTypes =
    [End, Barrier, DMA1D, DMA2D, DMA3D, RQLoad, Gemm32, Gemm32Accum, Gemm32Requant,
     LineBufferJob, PointwiseC32, DepthwiseC32, AFULut, AFUBinary, AFUGlobalAvgPool,
     SpatzRequant, SpatzAdd, SpatzMul, CopyLayout, MaxPool, UpsampleNearest,
     RollingReset, RollingProduce, RollingConsumeRelease, DMASubmit1D, DMASubmit2D,
     DMASubmit3D, DMAWait, AFUDFL16, LineBufferSubmit, SystolicWait, LineBufferBinary,
     LineBufferBinarySubmit, AffineLoop, AFUBinaryQuant]"

primrec CommandType_code :: "CommandType \<Rightarrow> u16" where
  "CommandType_code End = 0"
| "CommandType_code Barrier = 1"
| "CommandType_code DMA1D = 2"
| "CommandType_code DMA2D = 3"
| "CommandType_code DMA3D = 4"
| "CommandType_code RQLoad = 5"
| "CommandType_code Gemm32 = 6"
| "CommandType_code Gemm32Accum = 7"
| "CommandType_code Gemm32Requant = 8"
| "CommandType_code LineBufferJob = 9"
| "CommandType_code PointwiseC32 = 10"
| "CommandType_code DepthwiseC32 = 11"
| "CommandType_code AFULut = 12"
| "CommandType_code AFUBinary = 13"
| "CommandType_code AFUGlobalAvgPool = 14"
| "CommandType_code SpatzRequant = 15"
| "CommandType_code SpatzAdd = 16"
| "CommandType_code SpatzMul = 17"
| "CommandType_code CopyLayout = 18"
| "CommandType_code MaxPool = 19"
| "CommandType_code UpsampleNearest = 20"
| "CommandType_code RollingReset = 21"
| "CommandType_code RollingProduce = 22"
| "CommandType_code RollingConsumeRelease = 23"
| "CommandType_code DMASubmit1D = 24"
| "CommandType_code DMASubmit2D = 25"
| "CommandType_code DMASubmit3D = 26"
| "CommandType_code DMAWait = 27"
| "CommandType_code AFUDFL16 = 28"
| "CommandType_code LineBufferSubmit = 29"
| "CommandType_code SystolicWait = 30"
| "CommandType_code LineBufferBinary = 31"
| "CommandType_code LineBufferBinarySubmit = 32"
| "CommandType_code AffineLoop = 33"
| "CommandType_code AFUBinaryQuant = 34"

text \<open>The cast of a raw value that has been checked to be at most 34.\<close>

definition CommandType_of :: "u16 \<Rightarrow> CommandType" where
  "CommandType_of raw = CommandTypes ! unat raw"

lemma CommandType_of_code [simp]: "CommandType_of (CommandType_code t) = t"
  by (cases t) (simp_all add: CommandType_of_def CommandTypes_def)

lemma CommandType_code_of: "unat raw \<le> 34 \<Longrightarrow> CommandType_code (CommandType_of raw) = raw"
proof -
  assume le: "unat raw \<le> 34"
  have all: "list_all (\<lambda>k. CommandType_code (CommandTypes ! k) = word_of_nat k) [0..<35]"
    by (simp add: CommandTypes_def upt_rec)
  have "unat raw \<in> set [0..<35]" using le by simp
  with all have "CommandType_code (CommandTypes ! unat raw) = word_of_nat (unat raw)"
    unfolding list_all_iff by blast
  then show ?thesis by (simp add: CommandType_of_def)
qed

lemma CommandType_code_inj [simp]: "CommandType_code s = CommandType_code t \<longleftrightarrow> s = t"
  by (metis CommandType_of_code)

definition CommandFlagAFULutReuse :: u32 where "CommandFlagAFULutReuse = 4"
definition CommandFlagAFULutChain :: u32 where "CommandFlagAFULutChain = 8"
definition CommandFlagAFUGlobalAvgPoolRequant :: u32 where "CommandFlagAFUGlobalAvgPoolRequant = 16"

section \<open>Semantic records\<close>

datatype SemanticAccessMode = Read | Write

datatype SemanticResource = NoResource | ControlResource | DMAExternalToLocal
  | DMALocalToExternal | Systolic | AFU | Spatz

primrec ResourceMask :: "SemanticResource \<Rightarrow> u32" where
  "ResourceMask NoResource = 0"
| "ResourceMask ControlResource = 1"
| "ResourceMask DMAExternalToLocal = 2"
| "ResourceMask DMALocalToExternal = 4"
| "ResourceMask Systolic = 8"
| "ResourceMask AFU = 16"
| "ResourceMask Spatz = 32"

datatype SemanticState = Quantization | SystolicSlot | AFUEngine | AFULutTable | SpatzEngine | DMAQueue

primrec SemanticState_code :: "SemanticState \<Rightarrow> u8" where
  "SemanticState_code Quantization = 0"
| "SemanticState_code SystolicSlot = 1"
| "SemanticState_code AFUEngine = 2"
| "SemanticState_code AFULutTable = 3"
| "SemanticState_code SpatzEngine = 4"
| "SemanticState_code DMAQueue = 5"

datatype DependencyKind = MemoryRAW | MemoryWAR | MemoryWAW | StateRAW | StateWAR | StateWAW | ControlOrder

primrec DependencyKind_code :: "DependencyKind \<Rightarrow> nat" where
  "DependencyKind_code MemoryRAW = 0"
| "DependencyKind_code MemoryWAR = 1"
| "DependencyKind_code MemoryWAW = 2"
| "DependencyKind_code StateRAW = 3"
| "DependencyKind_code StateWAR = 4"
| "DependencyKind_code StateWAW = 5"
| "DependencyKind_code ControlOrder = 6"

record SemanticContentSlice =
  slice_begin :: nat
  slice_end :: nat
  slice_identity :: u64
  slice_generation :: u32

record SemanticMemoryAccess =
  acc_region :: u16
  acc_index :: u16
  acc_begin :: nat
  acc_end :: nat
  acc_mode :: SemanticAccessMode
  acc_bankPhase :: u16
  acc_content :: "SemanticContentSlice list"

record SemanticStateAccess =
  st_state :: SemanticState
  st_instance :: u32
  st_mode :: SemanticAccessMode
  st_valueIdentity :: u64
  st_generation :: u32

record SemanticCommand =
  cmd_type :: CommandType
  cmd_flags :: u32
  cmd_layerId :: u32
  cmd_tileId :: u32
  cmd_sourceCommandIndex :: u32
  cmd_resources :: u32
  cmd_memoryAccesses :: "SemanticMemoryAccess list"
  cmd_stateAccesses :: "SemanticStateAccess list"
  cmd_asyncCapable :: bool
  cmd_asynchronous :: bool
  cmd_controlFence :: bool
  cmd_queueCapacity :: u32
  cmd_queueId :: u32
  cmd_estimatedCycles :: int
  cmd_encoding :: bytes

section \<open>Arithmetic helpers\<close>

definition max_u64 :: nat where "max_u64 = 2 ^ 64 - 1"
definition max_u32 :: nat where "max_u32 = 2 ^ 32 - 1"
definition max_i64 :: nat where "max_i64 = 2 ^ 63 - 1"

definition DMAQueueDepth :: u32 where "DMAQueueDepth = 16"
definition TCDMWordBytes :: nat where "TCDMWordBytes = 32"
definition TCDMBanks :: nat where "TCDMBanks = 16"
definition no_bank :: u16 where "no_bank = 0xFFFF"
definition no_queue :: u32 where "no_queue = 0xFFFFFFFF"

definition SaturatingMultiply :: "nat \<Rightarrow> nat \<Rightarrow> nat" where
  "SaturatingMultiply lhs rhs =
     (if lhs \<noteq> 0 \<and> rhs > max_u64 div lhs then max_u64 else lhs * rhs)"

definition SaturatingAdd :: "nat \<Rightarrow> nat \<Rightarrow> nat" where
  "SaturatingAdd lhs rhs = (if rhs > max_u64 - lhs then max_u64 else lhs + rhs)"

definition CycleCount :: "nat \<Rightarrow> int" where
  "CycleCount value = int (min (max 1 value) max_i64)"

definition DivRoundUp :: "nat \<Rightarrow> nat \<Rightarrow> nat" where
  "DivRoundUp value divisor = value div divisor + (if value mod divisor \<noteq> 0 then 1 else 0)"

definition StorageKey :: "u16 \<Rightarrow> u16 \<Rightarrow> u64" where
  "StorageKey region index = push_bit 32 (ucast region) OR ucast index"

definition InitialContentIdentity :: "u16 \<Rightarrow> u16 \<Rightarrow> u64" where
  "InitialContentIdentity region index = 0x8000000000000000 OR StorageKey region index"

definition CommandContentIdentity :: "u32 \<Rightarrow> u32 \<Rightarrow> u64" where
  "CommandContentIdentity command access =
     push_bit 32 (ucast (command + 1)) OR ucast (access + 1)"

definition StateKey :: "SemanticState \<Rightarrow> u32 \<Rightarrow> u64" where
  "StateKey state inst = push_bit 32 (ucast (SemanticState_code state)) OR ucast inst"

fun hash_words :: "u64 \<Rightarrow> bytes \<Rightarrow> nat \<Rightarrow> nat \<Rightarrow> u64" where
  "hash_words hash command offset 0 = hash"
| "hash_words hash command offset (Suc n) =
     hash_words ((hash XOR ucast (Read32 command offset)) * 1099511628211) command (offset + 4) n"

definition HashWords :: "bytes \<Rightarrow> nat \<Rightarrow> nat \<Rightarrow> u64" where
  "HashWords command offset n = hash_words 1469598103934665603 command offset n"

definition ReferenceIdentity :: "bytes \<Rightarrow> nat \<Rightarrow> u64" where
  "ReferenceIdentity command offset =
     ucast (Read16 command offset) OR push_bit 16 (ucast (Read16 command (offset + 2))) OR
     push_bit 32 (ucast (Read32 command (offset + 4)))"

section \<open>Predicates on accesses and types\<close>

definition SameStorage :: "SemanticMemoryAccess \<Rightarrow> SemanticMemoryAccess \<Rightarrow> bool" where
  "SameStorage lhs rhs \<longleftrightarrow> acc_region lhs = acc_region rhs \<and> acc_index lhs = acc_index rhs"

definition Overlaps :: "SemanticMemoryAccess \<Rightarrow> SemanticMemoryAccess \<Rightarrow> bool" where
  "Overlaps lhs rhs \<longleftrightarrow>
     SameStorage lhs rhs \<and> acc_begin lhs < acc_end rhs \<and> acc_begin rhs < acc_end lhs"

definition IsWrite :: "SemanticAccessMode \<Rightarrow> bool" where
  "IsWrite mode \<longleftrightarrow> mode = Write"

definition IsDMA :: "CommandType \<Rightarrow> bool" where
  "IsDMA type \<longleftrightarrow> type = DMA1D \<or> type = DMA2D \<or> type = DMA3D \<or>
     type = DMASubmit1D \<or> type = DMASubmit2D \<or> type = DMASubmit3D"

definition IsDMASubmit :: "CommandType \<Rightarrow> bool" where
  "IsDMASubmit type \<longleftrightarrow> type = DMASubmit1D \<or> type = DMASubmit2D \<or> type = DMASubmit3D"

definition IsSystolic :: "CommandType \<Rightarrow> bool" where
  "IsSystolic type \<longleftrightarrow> type = Gemm32 \<or> type = Gemm32Accum \<or> type = Gemm32Requant \<or>
     type = PointwiseC32 \<or> type = DepthwiseC32 \<or> type = LineBufferJob \<or>
     type = LineBufferSubmit \<or> type = LineBufferBinary \<or> type = LineBufferBinarySubmit \<or>
     type = MaxPool \<or> type = SystolicWait"

definition IsSystolicSubmit :: "CommandType \<Rightarrow> bool" where
  "IsSystolicSubmit type \<longleftrightarrow> type = LineBufferSubmit \<or> type = LineBufferBinarySubmit"

text \<open>The sizes are the \<^verbatim>\<open>sizeof\<close> values the static assertions of \<^verbatim>\<open>neural_ai_abi.hpp\<close> fix.\<close>

fun MinimumCommandSize :: "CommandType \<Rightarrow> nat" where
  "MinimumCommandSize End = 16"
| "MinimumCommandSize Barrier = 16"
| "MinimumCommandSize RollingReset = 16"
| "MinimumCommandSize RollingProduce = 16"
| "MinimumCommandSize RollingConsumeRelease = 16"
| "MinimumCommandSize SpatzRequant = 16"
| "MinimumCommandSize SpatzMul = 16"
| "MinimumCommandSize RQLoad = 32"
| "MinimumCommandSize DMA1D = 64"
| "MinimumCommandSize DMASubmit1D = 64"
| "MinimumCommandSize DMA2D = 64"
| "MinimumCommandSize DMASubmit2D = 64"
| "MinimumCommandSize DMA3D = 64"
| "MinimumCommandSize DMASubmit3D = 64"
| "MinimumCommandSize DMAWait = 32"
| "MinimumCommandSize SystolicWait = 16"
| "MinimumCommandSize Gemm32 = 96"
| "MinimumCommandSize Gemm32Accum = 96"
| "MinimumCommandSize Gemm32Requant = 96"
| "MinimumCommandSize PointwiseC32 = 96"
| "MinimumCommandSize DepthwiseC32 = 96"
| "MinimumCommandSize AFULut = 64"
| "MinimumCommandSize AFUBinary = 64"
| "MinimumCommandSize AFUBinaryQuant = 96"
| "MinimumCommandSize SpatzAdd = 96"
| "MinimumCommandSize AFUGlobalAvgPool = 64"
| "MinimumCommandSize UpsampleNearest = 64"
| "MinimumCommandSize MaxPool = 96"
| "MinimumCommandSize LineBufferJob = 160"
| "MinimumCommandSize LineBufferSubmit = 160"
| "MinimumCommandSize LineBufferBinary = 224"
| "MinimumCommandSize LineBufferBinarySubmit = 224"
| "MinimumCommandSize CopyLayout = 96"
| "MinimumCommandSize AFUDFL16 = 96"
| "MinimumCommandSize AffineLoop = 0"

section \<open>Building a command\<close>

definition AddResource :: "SemanticCommand \<Rightarrow> SemanticResource \<Rightarrow> SemanticCommand" where
  "AddResource command resource =
     command\<lparr>cmd_resources := cmd_resources command OR ResourceMask resource\<rparr>"

definition AddState ::
    "SemanticCommand \<Rightarrow> SemanticState \<Rightarrow> u32 \<Rightarrow> SemanticAccessMode \<Rightarrow> u64 \<Rightarrow> SemanticCommand" where
  "AddState command state inst mode identity =
     command\<lparr>cmd_stateAccesses := cmd_stateAccesses command @
       [\<lparr>st_state = state, st_instance = inst, st_mode = mode,
         st_valueIdentity = identity, st_generation = 0\<rparr>]\<rparr>"

definition AddReadWriteState ::
    "SemanticCommand \<Rightarrow> SemanticState \<Rightarrow> u32 \<Rightarrow> u64 \<Rightarrow> SemanticCommand" where
  "AddReadWriteState command state inst identity =
     AddState (AddState command state inst Read 0) state inst Write identity"

definition bank_phase :: "nat \<Rightarrow> u16" where
  "bank_phase begin' = word_of_nat ((begin' div TCDMWordBytes) mod TCDMBanks)"

definition AddAccess ::
    "SemanticCommand \<Rightarrow> bytes \<Rightarrow> nat \<Rightarrow> nat \<Rightarrow> SemanticAccessMode \<Rightarrow> SemanticCommand option" where
  "AddAccess command encoded referenceOffset nbytes mode =
     (let begin' = unat (Read32 encoded (referenceOffset + 4)) in
      if nbytes = 0 \<or> begin' > max_u32 \<or> nbytes > max_u32 + 1 - begin' then None
      else
        let region = Read16 encoded referenceOffset;
            access = \<lparr>acc_region = region, acc_index = Read16 encoded (referenceOffset + 2),
              acc_begin = begin', acc_end = begin' + nbytes, acc_mode = mode,
              acc_bankPhase =
                (if region = Region_code TCDMScratch then bank_phase begin' else no_bank),
              acc_content = []\<rparr>
        in Some (command\<lparr>cmd_memoryAccesses := cmd_memoryAccesses command @ [access]\<rparr>))"

definition AddLocalAccess ::
    "SemanticCommand \<Rightarrow> nat \<Rightarrow> nat \<Rightarrow> SemanticAccessMode \<Rightarrow> SemanticCommand option" where
  "AddLocalAccess command begin' nbytes mode =
     (if nbytes = 0 \<or> begin' > max_u32 \<or> nbytes > max_u32 + 1 - begin' then None
      else
        let access = \<lparr>acc_region = Region_code TCDMScratch, acc_index = 0,
              acc_begin = begin', acc_end = begin' + nbytes, acc_mode = mode,
              acc_bankPhase = bank_phase begin', acc_content = []\<rparr>
        in Some (command\<lparr>cmd_memoryAccesses := cmd_memoryAccesses command @ [access]\<rparr>))"

definition StridedSpan :: "nat \<Rightarrow> nat \<Rightarrow> nat \<Rightarrow> nat \<Rightarrow> nat" where
  "StridedSpan rows rowBytes rowStride tileColumns =
     (if rows = 0 then 0
      else if rowStride = 0 \<or> tileColumns = 0 then SaturatingMultiply rows rowBytes
      else SaturatingAdd (SaturatingMultiply ((rows - 1) div tileColumns) rowStride)
             (SaturatingMultiply (min rows tileColumns) rowBytes))"

text \<open>Field readers as the natural numbers the \<^verbatim>\<open>uint64_t\<close> locals hold.\<close>

abbreviation read32n :: "bytes \<Rightarrow> nat \<Rightarrow> nat" where
  "read32n encoded offset \<equiv> unat (Read32 encoded offset)"

abbreviation read16n :: "bytes \<Rightarrow> nat \<Rightarrow> nat" where
  "read16n encoded offset \<equiv> unat (Read16 encoded offset)"

abbreviation guard_opt :: "bool \<Rightarrow> unit option" where
  "guard_opt b \<equiv> (if b then Some () else None)"

section \<open>Decoding one command\<close>

text \<open>Source span, destination span, transfers and direction offset of a DMA descriptor.\<close>

definition dma_shape :: "CommandType \<Rightarrow> bytes \<Rightarrow> (nat \<times> nat \<times> nat \<times> nat) option" where
  "dma_shape type encoded =
     (let length' = read32n encoded 32 in
      if type = DMA2D \<or> type = DMASubmit2D then
        let repetitions = read32n encoded 44 in
        if repetitions = 0 then None
        else Some (SaturatingAdd length' (SaturatingMultiply (read32n encoded 36) (repetitions - 1)),
                   SaturatingAdd length' (SaturatingMultiply (read32n encoded 40) (repetitions - 1)),
                   repetitions, 48)
      else if type = DMA3D \<or> type = DMASubmit3D then
        let repetitions2 = read32n encoded 44; repetitions3 = read32n encoded 56 in
        if repetitions2 = 0 \<or> repetitions3 = 0 then None
        else Some (SaturatingAdd length'
                     (SaturatingAdd (SaturatingMultiply (read32n encoded 36) (repetitions2 - 1))
                        (SaturatingMultiply (read32n encoded 48) (repetitions3 - 1))),
                   SaturatingAdd length'
                     (SaturatingAdd (SaturatingMultiply (read32n encoded 40) (repetitions2 - 1))
                        (SaturatingMultiply (read32n encoded 52) (repetitions3 - 1))),
                   SaturatingMultiply repetitions2 repetitions3, 60)
      else Some (length', length', 1, 36))"

definition DecodeDMA :: "SemanticCommand \<Rightarrow> bytes \<Rightarrow> SemanticCommand option" where
  "DecodeDMA command encoded = do {
     let length' = read32n encoded 32;
     (sourceSpan, destinationSpan, transfers, directionOffset) \<leftarrow> dma_shape (cmd_type command) encoded;
     guard_opt (\<not> (length' = 0 \<or> sourceSpan > max_u32 \<or> destinationSpan > max_u32));
     command \<leftarrow> AddAccess command encoded 16 sourceSpan Read;
     command \<leftarrow> AddAccess command encoded 24 destinationSpan Write;
     let direction = Read32 encoded directionOffset;
     let command = command\<lparr>cmd_queueId := direction\<rparr>;
     command \<leftarrow>
       (if direction = DMADirection_code ExternalToLocal then Some (AddResource command DMAExternalToLocal)
        else if direction = DMADirection_code LocalToExternal then Some (AddResource command DMALocalToExternal)
        else if direction = DMADirection_code LocalToLocal then Some (AddResource command Spatz)
        else None);
     let asyncCapable = direction \<le> DMADirection_code LocalToExternal;
     let command = command\<lparr>cmd_asyncCapable := asyncCapable,
           cmd_asynchronous := IsDMASubmit (cmd_type command),
           cmd_queueCapacity := (if asyncCapable then DMAQueueDepth else 0),
           cmd_estimatedCycles := CycleCount (DivRoundUp (SaturatingMultiply length' transfers) 32)\<rparr>;
     Some (if asyncCapable then AddReadWriteState command DMAQueue direction 0
           else AddReadWriteState command SpatzEngine 0 0)
   }"

definition DecodeGemm :: "SemanticCommand \<Rightarrow> bytes \<Rightarrow> SemanticCommand option" where
  "DecodeGemm command encoded = do {
     let rows = read32n encoded 48;
     guard_opt (rows \<noteq> 0);
     command \<leftarrow> AddAccess command encoded 16 (32 * 32) Read;
     command \<leftarrow> AddAccess command encoded 24 (SaturatingMultiply rows 32) Read;
     let partialBytes = SaturatingMultiply rows (32 * 4);
     command \<leftarrow> (if cmd_type command \<noteq> Gemm32 then AddAccess command encoded 32 partialBytes Read
                 else Some command);
     command \<leftarrow> (if cmd_type command = Gemm32Requant
                 then AddAccess command encoded 40 (SaturatingMultiply rows 32) Write
                 else AddAccess command encoded 32 partialBytes Write);
     Some (command\<lparr>cmd_estimatedCycles := CycleCount rows\<rparr>)
   }"

definition DecodePointwise :: "SemanticCommand \<Rightarrow> bytes \<Rightarrow> SemanticCommand option" where
  "DecodePointwise command encoded = do {
     let rows = read32n encoded 48;
     let inputGroups = read32n encoded 52;
     let outputGroups = read32n encoded 56;
     let inputStride = read32n encoded 64;
     let outputStride = read32n encoded 68;
     guard_opt (\<not> (rows = 0 \<or> inputGroups = 0 \<or> outputGroups = 0));
     guard_opt (list_all (\<lambda>offset. offset = 32 \<and> inputGroups = 1 \<or>
       Read16 encoded offset = Region_code TCDMScratch \<and> Read16 encoded (offset + 2) = 0) [24, 32, 40]);
     let groups = SaturatingMultiply inputGroups outputGroups;
     let weightBytes = SaturatingMultiply groups (32 * 32);
     let inputBytes = SaturatingAdd (SaturatingMultiply (inputGroups - 1) inputStride)
           (SaturatingMultiply rows 32);
     let outputBytes = SaturatingAdd (SaturatingMultiply (outputGroups - 1) outputStride)
           (SaturatingMultiply rows 32);
     command \<leftarrow> AddAccess command encoded 16 weightBytes Read;
     command \<leftarrow> AddAccess command encoded 24 inputBytes Read;
     command \<leftarrow>
       (if inputGroups > 1 then do {
          let partialBytes = SaturatingMultiply rows (32 * 4);
          command \<leftarrow> AddAccess command encoded 32 partialBytes Read;
          AddAccess command encoded 32 partialBytes Write
        } else Some command);
     command \<leftarrow> AddAccess command encoded 40 outputBytes Write;
     Some (command\<lparr>cmd_estimatedCycles := CycleCount (SaturatingMultiply rows groups)\<rparr>)
   }"

text \<open>
  Offsets inside a line-buffer command: the job starts at 16, its \<^verbatim>\<open>SystolicLinebufCfg\<close> at 16, its
  \<^verbatim>\<open>SystolicGemm32Req\<close> at 96, its \<^verbatim>\<open>kTiles\<close> at 136, and the \<^verbatim>\<open>SystolicBinaryCfg\<close> of the binary
  variants at 140.
\<close>

definition DecodeLineBuffer :: "SemanticCommand \<Rightarrow> bytes \<Rightarrow> SemanticCommand option" where
  "DecodeLineBuffer command encoded = do {
     let cfg = (16::nat); let gemm = 96; let binary = 140;
     let inputRows = read16n encoded (cfg + 4);
     let inputStride = read32n encoded (cfg + 20);
     let rows = read32n encoded (gemm + 16);
     let accum = read32n encoded (gemm + 20);
     let outputStride = read32n encoded (gemm + 24);
     let tileColumns = read32n encoded (gemm + 28);
     let psumStride = read32n encoded (gemm + 32);
     let kTiles = read32n encoded 136;
     guard_opt (\<not> (inputRows = 0 \<or> inputStride = 0 \<or> rows = 0 \<or> kTiles = 0 \<or> accum > 3));
     command \<leftarrow> AddLocalAccess command (read32n encoded cfg)
       (SaturatingMultiply inputRows inputStride) Read;
     command \<leftarrow> AddLocalAccess command (read32n encoded gemm)
       (SaturatingMultiply kTiles (32 * 32)) Read;
     let psumBytes = StridedSpan rows (32 * 4) psumStride tileColumns;
     let outputBytes = StridedSpan rows 32 outputStride tileColumns;
     let psumAddress = read32n encoded (gemm + 8);
     let outputAddress = read32n encoded (gemm + 12);
     let automaticPsum = (rows > 256 \<and> kTiles > 1 \<and> Read16 encoded (cfg + 54) \<noteq> 0);
     command \<leftarrow> (if accum = 2 \<or> accum = 3 \<or> automaticPsum
                 then AddLocalAccess command psumAddress psumBytes Read else Some command);
     command \<leftarrow> (if automaticPsum \<and> accum \<noteq> 1 \<and> accum \<noteq> 3
                 then AddLocalAccess command psumAddress psumBytes Write else Some command);
     command \<leftarrow>
       (if cmd_type command = LineBufferBinary \<or> cmd_type command = LineBufferBinarySubmit
        then AddLocalAccess command (read32n encoded binary)
               (StridedSpan rows 32 (read32n encoded (binary + 4)) (read32n encoded (binary + 8))) Read
        else Some command);
     command \<leftarrow>
       (if accum = 1 \<or> accum = 3 then AddLocalAccess command psumAddress psumBytes Write
        else AddLocalAccess command outputAddress outputBytes Write);
     Some (command\<lparr>cmd_asyncCapable := True,
       cmd_asynchronous := IsSystolicSubmit (cmd_type command),
       cmd_queueCapacity := 1, cmd_queueId := 0,
       cmd_estimatedCycles := CycleCount (SaturatingMultiply rows kTiles)\<rparr>)
   }"

definition copy_storage_bytes :: "nat \<Rightarrow> nat \<Rightarrow> nat \<Rightarrow> u16 \<Rightarrow> nat" where
  "copy_storage_bytes pixels channels elementBytes layout =
     (let depth = (if layout = TensorLayout_code NHWC then channels else DivRoundUp channels 32 * 32)
      in SaturatingMultiply (SaturatingMultiply pixels depth) elementBytes)"

definition DecodeCopyLayout :: "SemanticCommand \<Rightarrow> bytes \<Rightarrow> SemanticCommand option" where
  "DecodeCopyLayout command encoded = do {
     let pixels = SaturatingMultiply
           (SaturatingMultiply (read32n encoded 40) (read32n encoded 44)) (read32n encoded 48);
     let channels = read32n encoded 56;
     let elementBytes = (if Read16 encoded 38 = DataType_code Int32 then 4 else 1);
     let sourceBytes = copy_storage_bytes pixels channels elementBytes (Read16 encoded 34);
     let destinationBytes = copy_storage_bytes pixels channels elementBytes (Read16 encoded 36);
     command \<leftarrow> AddAccess command encoded 16 sourceBytes Read;
     command \<leftarrow> AddAccess command encoded 24 destinationBytes Write;
     Some (command\<lparr>cmd_estimatedCycles :=
       CycleCount (DivRoundUp (max sourceBytes destinationBytes) 16)\<rparr>)
   }"

text \<open>The cases written inline in the switch of \<^verbatim>\<open>DecodeKnownCommand\<close>.\<close>

definition DecodeRQLoad :: "SemanticCommand \<Rightarrow> bytes \<Rightarrow> SemanticCommand option" where
  "DecodeRQLoad command encoded = do {
     let identity = HashWords encoded 16 3;
     let command = AddState command Quantization 0 Write identity;
     let command = command\<lparr>cmd_estimatedCycles := CycleCount (read32n encoded 20)\<rparr>;
     guard_opt (Read32 encoded 20 \<noteq> 0);
     Some command
   }"

definition DecodeDMAWait :: "SemanticCommand \<Rightarrow> bytes \<Rightarrow> SemanticCommand option" where
  "DecodeDMAWait command encoded = do {
     let direction = Read32 encoded 16;
     guard_opt (\<not> direction > DMADirection_code LocalToExternal);
     let command = command\<lparr>cmd_queueId := direction, cmd_queueCapacity := DMAQueueDepth\<rparr>;
     Some (AddReadWriteState command DMAQueue direction 0)
   }"

definition DecodeDepthwise :: "SemanticCommand \<Rightarrow> bytes \<Rightarrow> SemanticCommand option" where
  "DecodeDepthwise command encoded = do {
     let inputPixels = SaturatingMultiply (read32n encoded 40) (read32n encoded 44);
     let outputPixels = SaturatingMultiply (read32n encoded 48) (read32n encoded 52);
     command \<leftarrow> AddAccess command encoded 16 (3 * 3 * 32) Read;
     command \<leftarrow> AddAccess command encoded 24 (SaturatingMultiply inputPixels 32) Read;
     command \<leftarrow> AddAccess command encoded 32 (SaturatingMultiply outputPixels 32) Write;
     Some (command\<lparr>cmd_estimatedCycles := CycleCount (SaturatingMultiply outputPixels 9)\<rparr>)
   }"

definition DecodeAFULut :: "SemanticCommand \<Rightarrow> bytes \<Rightarrow> SemanticCommand option" where
  "DecodeAFULut command encoded = do {
     let nbytes = read32n encoded 40;
     let reuse = (cmd_flags command AND CommandFlagAFULutReuse) \<noteq> 0;
     let command = AddResource command AFU;
     let command = AddReadWriteState command AFUEngine 0 0;
     let command = AddState command AFULutTable 0 (if reuse then Read else Write)
           (ReferenceIdentity encoded 32);
     let command = command\<lparr>cmd_estimatedCycles := CycleCount (DivRoundUp nbytes 4)\<rparr>;
     command \<leftarrow> AddAccess command encoded 16 nbytes Read;
     command \<leftarrow> AddAccess command encoded 24 nbytes Write;
     (if reuse then Some command else AddAccess command encoded 32 256 Read)
   }"

definition DecodeBinary :: "SemanticCommand \<Rightarrow> bytes \<Rightarrow> SemanticCommand option" where
  "DecodeBinary command encoded = do {
     let nbytes = read32n encoded 40;
     let afu = (cmd_type command \<noteq> SpatzAdd);
     guard_opt (cmd_type command = AFUBinaryQuant \<longrightarrow> list_all (\<lambda>offset.
       Read16 encoded offset = Region_code TCDMScratch \<and> Read16 encoded (offset + 2) = 0 \<and>
       read32n encoded (offset + 4) mod TCDMWordBytes = 0) [16, 24, 32]);
     let command = AddResource command (if afu then AFU else Spatz);
     let command = AddReadWriteState command (if afu then AFUEngine else SpatzEngine) 0 0;
     let command = (if cmd_type command = AFUBinaryQuant \<and>
               (cmd_flags command AND CommandFlagAFULutChain) \<noteq> 0
             then AddState command AFULutTable 0 Read 0 else command);
     let command = command\<lparr>cmd_estimatedCycles :=
           CycleCount (DivRoundUp nbytes (if afu then 32 else 16))\<rparr>;
     command \<leftarrow> AddAccess command encoded 16 nbytes Read;
     command \<leftarrow> AddAccess command encoded 24 nbytes Read;
     AddAccess command encoded 32 nbytes Write
   }"

definition DecodeGlobalAvgPool :: "SemanticCommand \<Rightarrow> bytes \<Rightarrow> SemanticCommand option" where
  "DecodeGlobalAvgPool command encoded = do {
     let pixels = SaturatingMultiply (read32n encoded 32) (read32n encoded 36);
     let channels = read32n encoded 40;
     let groups = DivRoundUp channels 32;
     let groupBytes = SaturatingMultiply groups 32;
     let requant = (cmd_flags command AND CommandFlagAFUGlobalAvgPoolRequant) \<noteq> 0;
     let command = AddResource command AFU;
     let command = AddReadWriteState command AFUEngine 0 0;
     let command = (if \<not> requant then AddState command AFULutTable 0 Write 0 else command);
     let reductionCycles = SaturatingMultiply pixels groups;
     let finaliseCycles = SaturatingMultiply (if requant then 5 else 3) groups;
     let command = command\<lparr>cmd_estimatedCycles :=
           CycleCount (SaturatingAdd reductionCycles finaliseCycles)\<rparr>;
     command \<leftarrow> AddAccess command encoded 16 (SaturatingMultiply pixels groupBytes) Read;
     AddAccess command encoded 24 groupBytes Write
   }"

definition DecodeMaxPool :: "SemanticCommand \<Rightarrow> bytes \<Rightarrow> SemanticCommand option" where
  "DecodeMaxPool command encoded = do {
     let inputH = read32n encoded 32; let inputW = read32n encoded 36;
     let channels = read32n encoded 40;
     let groups = DivRoundUp channels 32;
     let kernelH = read32n encoded 44; let kernelW = read32n encoded 48;
     let strideH = read32n encoded 52; let strideW = read32n encoded 56;
     let padH = read32n encoded 60; let padW = read32n encoded 64;
     let paddedH = SaturatingAdd inputH (SaturatingMultiply 2 padH);
     let paddedW = SaturatingAdd inputW (SaturatingMultiply 2 padW);
     guard_opt (\<not> (strideH = 0 \<or> strideW = 0 \<or> paddedH < kernelH \<or> paddedW < kernelW));
     let outputH = (paddedH - kernelH) div strideH + 1;
     let outputW = (paddedW - kernelW) div strideW + 1;
     let groupBytes = SaturatingMultiply groups 32;
     let inputBytes = SaturatingMultiply (SaturatingMultiply inputH inputW) groupBytes;
     let outputPixels = SaturatingMultiply outputH outputW;
     let outputBytes = SaturatingMultiply outputPixels groupBytes;
     let command = command\<lparr>cmd_estimatedCycles := CycleCount (SaturatingMultiply
           (SaturatingMultiply outputPixels groups) (SaturatingMultiply kernelH kernelW))\<rparr>;
     command \<leftarrow> AddAccess command encoded 16 inputBytes Read;
     AddAccess command encoded 24 outputBytes Write
   }"

definition DecodeUpsample :: "SemanticCommand \<Rightarrow> bytes \<Rightarrow> SemanticCommand option" where
  "DecodeUpsample command encoded = do {
     let pixels = SaturatingMultiply (read32n encoded 32) (read32n encoded 36);
     let channels = read32n encoded 40;
     let scale = SaturatingMultiply (read32n encoded 44) (read32n encoded 48);
     let inputBytes = SaturatingMultiply pixels channels;
     let outputBytes = SaturatingMultiply inputBytes scale;
     let command = AddResource command Spatz;
     let command = AddReadWriteState command SpatzEngine 0 0;
     let command = command\<lparr>cmd_estimatedCycles := CycleCount (DivRoundUp outputBytes 32)\<rparr>;
     command \<leftarrow> AddAccess command encoded 16 inputBytes Read;
     AddAccess command encoded 24 outputBytes Write
   }"

definition DecodeDFL16 :: "SemanticCommand \<Rightarrow> bytes \<Rightarrow> SemanticCommand option" where
  "DecodeDFL16 command encoded = do {
     let locations = read32n encoded 56;
     let command = AddResource command AFU;
     let command = AddResource command Spatz;
     let command = AddReadWriteState command AFUEngine 0 0;
     let command = AddReadWriteState command SpatzEngine 0 0;
     let command = AddState command AFULutTable 0 Write (HashWords encoded 40 4);
     let command = command\<lparr>cmd_estimatedCycles := CycleCount (SaturatingMultiply locations 16)\<rparr>;
     command \<leftarrow> AddAccess command encoded 16 (SaturatingMultiply locations 64) Read;
     command \<leftarrow> AddAccess command encoded 32 4096 Write;
     command \<leftarrow> AddAccess command encoded 40 (256 * 4) Read;
     command \<leftarrow> AddAccess command encoded 48 (256 * 4) Read;
     AddAccess command encoded 24 (SaturatingMultiply locations 4) Write
   }"

definition DecodeControl :: "SemanticCommand \<Rightarrow> SemanticCommand option" where
  "DecodeControl command = Some ((AddResource command ControlResource)\<lparr>cmd_controlFence := True\<rparr>)"

definition DecodeReservedSpatz :: "SemanticCommand \<Rightarrow> SemanticCommand option" where
  "DecodeReservedSpatz command =
     Some ((AddReadWriteState (AddResource command Spatz) SpatzEngine 0 0)\<lparr>cmd_controlFence := True\<rparr>)"

fun decode_switch :: "CommandType \<Rightarrow> SemanticCommand \<Rightarrow> bytes \<Rightarrow> SemanticCommand option" where
  "decode_switch End command encoded = DecodeControl command"
| "decode_switch Barrier command encoded = DecodeControl command"
| "decode_switch RollingReset command encoded = DecodeControl command"
| "decode_switch RollingProduce command encoded = DecodeControl command"
| "decode_switch RollingConsumeRelease command encoded = DecodeControl command"
| "decode_switch SpatzRequant command encoded = DecodeReservedSpatz command"
| "decode_switch SpatzMul command encoded = DecodeReservedSpatz command"
| "decode_switch RQLoad command encoded = DecodeRQLoad command encoded"
| "decode_switch DMAWait command encoded = DecodeDMAWait command encoded"
| "decode_switch Gemm32 command encoded = DecodeGemm command encoded"
| "decode_switch Gemm32Accum command encoded = DecodeGemm command encoded"
| "decode_switch Gemm32Requant command encoded = DecodeGemm command encoded"
| "decode_switch PointwiseC32 command encoded = DecodePointwise command encoded"
| "decode_switch DepthwiseC32 command encoded = DecodeDepthwise command encoded"
| "decode_switch LineBufferJob command encoded = DecodeLineBuffer command encoded"
| "decode_switch LineBufferSubmit command encoded = DecodeLineBuffer command encoded"
| "decode_switch LineBufferBinary command encoded = DecodeLineBuffer command encoded"
| "decode_switch LineBufferBinarySubmit command encoded = DecodeLineBuffer command encoded"
| "decode_switch AFULut command encoded = DecodeAFULut command encoded"
| "decode_switch AFUBinary command encoded = DecodeBinary command encoded"
| "decode_switch AFUBinaryQuant command encoded = DecodeBinary command encoded"
| "decode_switch SpatzAdd command encoded = DecodeBinary command encoded"
| "decode_switch AFUGlobalAvgPool command encoded = DecodeGlobalAvgPool command encoded"
| "decode_switch CopyLayout command encoded =
     DecodeCopyLayout (AddReadWriteState (AddResource command Spatz) SpatzEngine 0 0) encoded"
| "decode_switch MaxPool command encoded = DecodeMaxPool command encoded"
| "decode_switch UpsampleNearest command encoded = DecodeUpsample command encoded"
| "decode_switch AFUDFL16 command encoded = DecodeDFL16 command encoded"
| "decode_switch _ command encoded = None"

text \<open>The body of \<^verbatim>\<open>DecodeKnownCommand\<close>; its local \<open>encoded\<close> points at the command's own bytes.\<close>

definition decode_payload :: "SemanticCommand \<Rightarrow> bytes \<Rightarrow> SemanticCommand option" where
  "decode_payload command encoded =
     (let type = cmd_type command in
      if IsDMA type then DecodeDMA command encoded
      else if IsSystolic type then
        let command = AddResource command Systolic in
        if type = SystolicWait then Some (AddReadWriteState command SystolicSlot 0 0)
        else decode_switch type
               (AddReadWriteState (AddState command Quantization 0 Read 0) SystolicSlot 0 0) encoded
      else decode_switch type command encoded)"

definition DecodeKnownCommand :: "SemanticCommand \<Rightarrow> SemanticCommand option" where
  "DecodeKnownCommand command = decode_payload command (cmd_encoding command)"

section \<open>The stream\<close>

datatype decode_error =
    TruncatedCommandHeader
  | UnknownCommandType
  | InvalidCommandSize nat nat nat nat
  | UndecodableCommand nat nat

definition blank_command :: SemanticCommand where
  "blank_command = \<lparr>cmd_type = End, cmd_flags = 0, cmd_layerId = 0, cmd_tileId = 0,
     cmd_sourceCommandIndex = 0, cmd_resources = 0, cmd_memoryAccesses = [], cmd_stateAccesses = [],
     cmd_asyncCapable = False, cmd_asynchronous = False, cmd_controlFence = False,
     cmd_queueCapacity = 0, cmd_queueId = no_queue, cmd_estimatedCycles = 1, cmd_encoding = []\<rparr>"

text \<open>The header fields of the command at \<open>offset\<close>, before its payload is decoded.\<close>

definition header_command :: "bytes \<Rightarrow> nat \<Rightarrow> SemanticCommand" where
  "header_command encoded index =
     blank_command\<lparr>cmd_type := CommandType_of (Read16 encoded 0),
       cmd_flags := Read32 encoded 4, cmd_layerId := Read32 encoded 8,
       cmd_tileId := Read32 encoded 12, cmd_sourceCommandIndex := word_of_nat index,
       cmd_encoding := take (read16n encoded 2) encoded\<rparr>"

function decode_loop :: "bytes \<Rightarrow> nat \<Rightarrow> SemanticCommand list \<Rightarrow> decode_error + SemanticCommand list" where
  "decode_loop bs offset commands =
     (if \<not> offset < length bs then Inr commands
      else if length bs - offset < 16 then Inl TruncatedCommandHeader
      else
        let encoded = drop offset bs; rawType = Read16 encoded 0 in
        if rawType > CommandType_code AFUBinaryQuant then Inl UnknownCommandType
        else
          let size' = read16n encoded 2; minimum = MinimumCommandSize (CommandType_of rawType) in
          if minimum = 0 \<or> size' < minimum \<or> (size' AND 15) \<noteq> 0 \<or> offset + size' > length bs
          then Inl (InvalidCommandSize size' (length commands) (unat rawType) minimum)
          else
            (case DecodeKnownCommand (header_command encoded (length commands)) of
               None \<Rightarrow> Inl (UndecodableCommand (length commands) (unat rawType))
             | Some command \<Rightarrow> decode_loop bs (offset + size') (commands @ [command])))"
  by pat_completeness auto
termination
  by (relation "measure (\<lambda>(bs, offset, _). length bs - offset)") auto

declare decode_loop.simps [simp del]

definition DecodeSemanticCommandStream :: "bytes \<Rightarrow> decode_error + SemanticCommand list" where
  "DecodeSemanticCommandStream bs = decode_loop bs 0 []"

definition SerializeSemanticCommandStream :: "SemanticCommand list \<Rightarrow> bytes" where
  "SerializeSemanticCommandStream commands = concat (map cmd_encoding commands)"

section \<open>What a decoded command satisfies\<close>

lemma max_consts: "max_u64 = 18446744073709551615" "max_u32 = 4294967295"
  "max_i64 = 9223372036854775807"
  by (simp_all add: max_u64_def max_u32_def max_i64_def)

lemma SaturatingMultiply_eq: "SaturatingMultiply a b = min (a * b) max_u64"
proof (cases "a = 0")
  case False
  have "max_u64 div a < b \<longleftrightarrow> max_u64 < a * b"
    using False by (metis div_less_iff_less_mult mult.commute not_gr0)
  then show ?thesis by (auto simp: SaturatingMultiply_def False)
qed (simp add: SaturatingMultiply_def)

lemma SaturatingAdd_eq: "a \<le> max_u64 \<Longrightarrow> SaturatingAdd a b = min (a + b) max_u64"
  by (auto simp: SaturatingAdd_def)

lemma DivRoundUp_spec: "0 < d \<Longrightarrow> d * DivRoundUp v d \<ge> v \<and> d * DivRoundUp v d < v + d"
proof -
  assume d: "0 < d"
  define q r where "q = v div d" and "r = v mod d"
  have v: "v = d * q + r" and r: "r < d" using d by (simp_all add: q_def r_def)
  have "DivRoundUp v d = q + (if r \<noteq> 0 then 1 else 0)"
    by (simp add: DivRoundUp_def q_def r_def)
  with v r show ?thesis by auto
qed

lemma CycleCount_bounds: "1 \<le> CycleCount n" "CycleCount n \<le> int max_i64"
  by (auto simp: CycleCount_def max_i64_def)

definition bank_ok :: "SemanticMemoryAccess \<Rightarrow> bool" where
  "bank_ok a \<longleftrightarrow> acc_bankPhase a =
     (if acc_region a = Region_code TCDMScratch then bank_phase (acc_begin a) else no_bank)"

definition wf_access :: "SemanticMemoryAccess \<Rightarrow> bool" where
  "wf_access a \<longleftrightarrow> acc_begin a < acc_end a \<and> acc_end a \<le> 2 ^ 32 \<and> acc_content a = [] \<and> bank_ok a"

text \<open>Adding an access either rejects an empty or overlong range or appends one record.\<close>

definition appends_access ::
    "SemanticAccessMode \<Rightarrow> SemanticCommand \<Rightarrow> SemanticCommand \<Rightarrow> bool" where
  "appends_access m c c' \<longleftrightarrow>
     (\<exists>a. wf_access a \<and> acc_mode a = m \<and>
        c' = c\<lparr>cmd_memoryAccesses := cmd_memoryAccesses c @ [a]\<rparr>)"

lemma appends_accessE:
  assumes "appends_access m c c'"
  obtains a where "wf_access a" "acc_mode a = m"
    "c' = c\<lparr>cmd_memoryAccesses := cmd_memoryAccesses c @ [a]\<rparr>"
  using assms by (auto simp: appends_access_def)

lemma AddAccess_SomeD: "AddAccess c encoded off n m = Some c' \<Longrightarrow> appends_access m c c'"
  unfolding appends_access_def
  by (rule exI [of _ "last (cmd_memoryAccesses c')"])
    (auto simp: AddAccess_def wf_access_def bank_ok_def max_consts Let_def split: if_splits)

lemma AddLocalAccess_SomeD: "AddLocalAccess c b n m = Some c' \<Longrightarrow> appends_access m c c'"
  unfolding appends_access_def
  by (rule exI [of _ "last (cmd_memoryAccesses c')"])
    (auto simp: AddLocalAccess_def wf_access_def bank_ok_def max_consts Let_def split: if_splits)

lemmas access_elims = AddAccess_SomeD [THEN appends_accessE] AddLocalAccess_SomeD [THEN appends_accessE]

text \<open>
  Reasoning about the decoders.  \<open>yields m P\<close> says that every result of \<open>m\<close> satisfies \<open>P\<close>; the
  rules in \<open>decode_intro\<close> follow the shape of a decoder.  \<open>decoding h i c\<close> is the invariant of a
  command \<open>c\<close> under construction: its header is that of \<open>h\<close>, its issue attributes are \<open>i\<close>, its
  accesses are well formed and its cycle estimate is positive and fits \<^verbatim>\<open>int64_t\<close>.
\<close>

definition yields :: "'a option \<Rightarrow> ('a \<Rightarrow> bool) \<Rightarrow> bool" where
  "yields m P \<longleftrightarrow> (\<forall>x. m = Some x \<longrightarrow> P x)"

type_synonym issue_attributes = "u32 \<times> bool \<times> bool \<times> u32 \<times> u32 \<times> bool"

definition issue_of :: "SemanticCommand \<Rightarrow> issue_attributes" where
  "issue_of c = (cmd_resources c, cmd_asyncCapable c, cmd_asynchronous c, cmd_queueCapacity c,
     cmd_queueId c, cmd_controlFence c)"

definition same_header :: "SemanticCommand \<Rightarrow> SemanticCommand \<Rightarrow> bool" where
  "same_header h c \<longleftrightarrow>
     cmd_type c = cmd_type h \<and> cmd_flags c = cmd_flags h \<and> cmd_layerId c = cmd_layerId h \<and>
     cmd_tileId c = cmd_tileId h \<and> cmd_sourceCommandIndex c = cmd_sourceCommandIndex h \<and>
     cmd_encoding c = cmd_encoding h"

definition decoding :: "SemanticCommand \<Rightarrow> issue_attributes \<Rightarrow> SemanticCommand \<Rightarrow> bool" where
  "decoding h i c \<longleftrightarrow> same_header h c \<and> issue_of c = i \<and>
     list_all wf_access (cmd_memoryAccesses c) \<and>
     1 \<le> cmd_estimatedCycles c \<and> cmd_estimatedCycles c \<le> int max_i64"

named_theorems decode_intro

lemma yields_Some [decode_intro]: "P x \<Longrightarrow> yields (Some x) P"
  by (simp add: yields_def)

lemma yields_None [decode_intro]: "yields None P"
  by (simp add: yields_def)

lemma yields_guard_bind [decode_intro]:
  "(b \<Longrightarrow> yields (f ()) P) \<Longrightarrow> yields (Option.bind (guard_opt b) f) P"
  by (simp add: yields_def)

lemma yields_bind [decode_intro]:
  "yields m Q \<Longrightarrow> (\<And>x. Q x \<Longrightarrow> yields (f x) P) \<Longrightarrow> yields (Option.bind m f) P"
  by (cases m) (auto simp: yields_def)

lemma yields_if [decode_intro]:
  "(b \<Longrightarrow> yields m P) \<Longrightarrow> (\<not> b \<Longrightarrow> yields n P) \<Longrightarrow> yields (if b then m else n) P"
  by simp

lemma yields_prod [decode_intro]:
  "(\<And>a b. yields (f a b) P) \<Longrightarrow> yields (case p of (a, b) \<Rightarrow> f a b) P"
  by (cases p) simp

lemma yields_shape [decode_intro]: "yields (dma_shape t bs) (\<lambda>_. True)"
  by (simp add: yields_def)

lemma yields_AddAccess [decode_intro]:
  "decoding h i c \<Longrightarrow> yields (AddAccess c e off n m) (decoding h i)"
  by (auto simp: yields_def decoding_def same_header_def issue_of_def
      elim!: AddAccess_SomeD [THEN appends_accessE])

lemma yields_AddLocalAccess [decode_intro]:
  "decoding h i c \<Longrightarrow> yields (AddLocalAccess c b n m) (decoding h i)"
  by (auto simp: yields_def decoding_def same_header_def issue_of_def
      elim!: AddLocalAccess_SomeD [THEN appends_accessE])

lemma decoding_updates [decode_intro]:
  "decoding h i c \<Longrightarrow> decoding h i (AddState c s n m v)"
  "decoding h i c \<Longrightarrow> decoding h i (AddReadWriteState c s n v)"
  "decoding h i c \<Longrightarrow> decoding h i (c\<lparr>cmd_estimatedCycles := CycleCount k\<rparr>)"
  "decoding h i c \<Longrightarrow> decoding h i (if b then AddState c s n m v else c)"
  by (auto simp: decoding_def same_header_def issue_of_def AddState_def AddReadWriteState_def
      CycleCount_bounds)

lemma decoding_AddResource [decode_intro]:
  "decoding h (r, i) c \<Longrightarrow> decoding h (r OR ResourceMask s, i) (AddResource c s)"
  by (auto simp: decoding_def same_header_def issue_of_def AddResource_def)

text \<open>The issue attributes a plain, blocking command has with the resources \<open>r\<close>.\<close>

abbreviation plain_issue :: "u32 \<Rightarrow> issue_attributes" where
  "plain_issue r \<equiv> (r, False, False, 0, no_queue, False)"

lemma DecodeGemm_yields [decode_intro]:
  "decoding h i c \<Longrightarrow> yields (DecodeGemm c encoded) (decoding h i)"
  unfolding DecodeGemm_def Let_def by (assumption | rule decode_intro)+

lemma DecodePointwise_yields [decode_intro]:
  "decoding h i c \<Longrightarrow> yields (DecodePointwise c encoded) (decoding h i)"
  unfolding DecodePointwise_def Let_def by (assumption | rule decode_intro)+

lemma DecodeDepthwise_yields [decode_intro]:
  "decoding h i c \<Longrightarrow> yields (DecodeDepthwise c encoded) (decoding h i)"
  unfolding DecodeDepthwise_def Let_def by (assumption | rule decode_intro)+

lemma DecodeMaxPool_yields [decode_intro]:
  "decoding h i c \<Longrightarrow> yields (DecodeMaxPool c encoded) (decoding h i)"
  unfolding DecodeMaxPool_def Let_def by (assumption | rule decode_intro)+

lemma DecodeCopyLayout_yields [decode_intro]:
  "decoding h i c \<Longrightarrow> yields (DecodeCopyLayout c encoded) (decoding h i)"
  unfolding DecodeCopyLayout_def Let_def by (assumption | rule decode_intro)+

lemma DecodeRQLoad_yields [decode_intro]:
  "decoding h i c \<Longrightarrow> yields (DecodeRQLoad c encoded) (decoding h i)"
  unfolding DecodeRQLoad_def Let_def by (assumption | rule decode_intro)+

lemma decoding_line_buffer:
  "decoding h (r, x, y, z, q, f) c \<Longrightarrow>
   decoding h (r, True, IsSystolicSubmit (cmd_type h), 1, 0, f) (c\<lparr>cmd_asyncCapable := True,
     cmd_asynchronous := IsSystolicSubmit (cmd_type c), cmd_queueCapacity := 1, cmd_queueId := 0,
     cmd_estimatedCycles := CycleCount k\<rparr>)"
  by (auto simp: decoding_def same_header_def issue_of_def CycleCount_bounds)

lemma decoding_type: "decoding h i c \<Longrightarrow> cmd_type c = cmd_type h"
  by (simp add: decoding_def same_header_def)

lemma decoding_fence:
  "decoding h (r, x, y, z, q, f) c \<Longrightarrow> decoding h (r, x, y, z, q, True) (c\<lparr>cmd_controlFence := True\<rparr>)"
  by (auto simp: decoding_def same_header_def issue_of_def)

lemma DecodeLineBuffer_yields:
  assumes "decoding h (r, x, y, z, q, f) c"
  shows "yields (DecodeLineBuffer c encoded)
    (decoding h (r, True, IsSystolicSubmit (cmd_type h), 1, 0, f))"
  unfolding DecodeLineBuffer_def Let_def
  by (insert assms, (assumption | rule decode_intro decoding_line_buffer)+)

text \<open>The decoders that claim an engine, on a command that holds no resource yet.\<close>

lemma DecodeDMAWait_yields:
  assumes "decoding h (r, x, y, z, q, f) c"
  shows "yields (DecodeDMAWait c encoded)
    (\<lambda>c'. \<exists>q' \<le> 1. decoding h (r, x, y, DMAQueueDepth, q', f) c')"
  using assms
  by (auto simp: DecodeDMAWait_def Let_def yields_def decoding_def same_header_def issue_of_def
      AddReadWriteState_def AddState_def DMADirection_code.simps bind_eq_Some_conv not_less
      split: if_splits)

lemma AFULut_yields:
  assumes "decoding h (0, i) c"
  shows "yields (DecodeAFULut c encoded) (decoding h (ResourceMask AFU, i))"
  unfolding DecodeAFULut_def Let_def
  by (insert decoding_AddResource [OF assms, of AFU, unfolded or.left_neutral], (assumption | rule decode_intro)+)

lemma Binary_yields:
  assumes "decoding h (0, i) c"
  shows "yields (DecodeBinary c encoded)
    (decoding h (ResourceMask (if cmd_type h \<noteq> SpatzAdd then AFU else Spatz), i))"
  unfolding DecodeBinary_def Let_def decoding_type [OF assms]
  by (insert decoding_AddResource [OF assms, of "if cmd_type h \<noteq> SpatzAdd then AFU else Spatz", unfolded or.left_neutral], (assumption | rule decode_intro)+)

lemma GlobalAvgPool_yields:
  assumes "decoding h (0, i) c"
  shows "yields (DecodeGlobalAvgPool c encoded) (decoding h (ResourceMask AFU, i))"
  unfolding DecodeGlobalAvgPool_def Let_def
  by (insert decoding_AddResource [OF assms, of AFU, unfolded or.left_neutral], (assumption | rule decode_intro)+)

lemma Upsample_yields:
  assumes "decoding h (0, i) c"
  shows "yields (DecodeUpsample c encoded) (decoding h (ResourceMask Spatz, i))"
  unfolding DecodeUpsample_def Let_def
  by (insert decoding_AddResource [OF assms, of Spatz, unfolded or.left_neutral], (assumption | rule decode_intro)+)

lemma DFL16_yields:
  assumes "decoding h (0, i) c"
  shows "yields (DecodeDFL16 c encoded) (decoding h (ResourceMask AFU OR ResourceMask Spatz, i))"
  unfolding DecodeDFL16_def Let_def
  by (insert decoding_AddResource [OF decoding_AddResource [OF assms, of AFU, unfolded or.left_neutral], of Spatz, unfolded or.left_neutral], (assumption | rule decode_intro)+)
text \<open>Every DMA descriptor has direction 0 (load), 1 (store) or 2 (a local copy by Spatz).\<close>

definition dma_issue :: "CommandType \<Rightarrow> u32 \<Rightarrow> issue_attributes" where
  "dma_issue type direction =
     (if direction = 0 then ResourceMask DMAExternalToLocal
      else if direction = 1 then ResourceMask DMALocalToExternal else ResourceMask Spatz,
      direction \<le> 1, IsDMASubmit type, (if direction \<le> 1 then DMAQueueDepth else 0), direction, False)"

lemma decoding_dma:
  assumes "decoding h (plain_issue 0) c"
  shows "yields (Option.bind
      (if q = DMADirection_code ExternalToLocal then Some (AddResource (c\<lparr>cmd_queueId := q\<rparr>) DMAExternalToLocal)
       else if q = DMADirection_code LocalToExternal then Some (AddResource (c\<lparr>cmd_queueId := q\<rparr>) DMALocalToExternal)
       else if q = DMADirection_code LocalToLocal then Some (AddResource (c\<lparr>cmd_queueId := q\<rparr>) Spatz)
       else None)
      (\<lambda>d. Some (if q \<le> DMADirection_code LocalToExternal
         then AddReadWriteState (d\<lparr>cmd_asyncCapable := q \<le> DMADirection_code LocalToExternal,
           cmd_asynchronous := IsDMASubmit (cmd_type d),
           cmd_queueCapacity := (if q \<le> DMADirection_code LocalToExternal then DMAQueueDepth else 0),
           cmd_estimatedCycles := CycleCount k\<rparr>) DMAQueue q 0
         else AddReadWriteState (d\<lparr>cmd_asyncCapable := q \<le> DMADirection_code LocalToExternal,
           cmd_asynchronous := IsDMASubmit (cmd_type d),
           cmd_queueCapacity := (if q \<le> DMADirection_code LocalToExternal then DMAQueueDepth else 0),
           cmd_estimatedCycles := CycleCount k\<rparr>) SpatzEngine 0 0)))
    (\<lambda>c'. \<exists>q \<le> 2. decoding h (dma_issue (cmd_type h) q) c')"
proof -
  have "decoding h (dma_issue (cmd_type h) q)
     (AddReadWriteState (AddResource (c\<lparr>cmd_queueId := q\<rparr>) s
       \<lparr>cmd_asyncCapable := q \<le> 1, cmd_asynchronous := IsDMASubmit (cmd_type c),
        cmd_queueCapacity := (if q \<le> 1 then DMAQueueDepth else 0), cmd_estimatedCycles := CycleCount k\<rparr>) t u v)"
    if "s = (if q = 0 then DMAExternalToLocal else if q = 1 then DMALocalToExternal else Spatz)" for s t u v
    using assms that
    by (auto simp: decoding_def same_header_def issue_of_def CycleCount_bounds dma_issue_def
        AddResource_def AddReadWriteState_def AddState_def)
  note built = this
  have le: "(0::u32) \<le> 2" "(1::u32) \<le> 2" "(0::u32) \<le> 1" "\<not> (2::u32) \<le> 1"
    by (simp_all add: word_le_nat_alt)
  consider "q = 0" | "q = 1" | "q = 2" | "q \<notin> {0, 1, 2}" by blast
  then show ?thesis
  proof cases
    case 1
    then show ?thesis using built [of DMAExternalToLocal] le
      by (auto simp: yields_def AddResource_def intro!: exI [of _ 0])
  next
    case 2
    then show ?thesis using built [of DMALocalToExternal] le
      by (auto simp: yields_def AddResource_def intro!: exI [of _ 1])
  next
    case 3
    then show ?thesis using built [of Spatz] le
      by (auto simp: yields_def AddResource_def intro!: exI [of _ 2])
  qed (simp add: yields_def)
qed

lemma DecodeDMA_yields:
  assumes "decoding h (plain_issue 0) c"
  shows "yields (DecodeDMA c encoded) (\<lambda>c'. \<exists>q \<le> 2. decoding h (dma_issue (cmd_type h) q) c')"
  unfolding DecodeDMA_def Let_def
  by (insert assms, (assumption | rule decoding_dma decode_intro)+)

text \<open>
  The issue attributes a decoded command can have, by its type: what the scheduler may rely on.
\<close>

definition issue_class :: "CommandType \<Rightarrow> issue_attributes \<Rightarrow> bool" where
  "issue_class type i \<longleftrightarrow>
     (if IsDMA type then \<exists>q \<le> 2. i = dma_issue type q
      else if type = DMAWait then \<exists>q \<le> 1. i = (0, False, False, DMAQueueDepth, q, False)
      else if type \<in> {LineBufferJob, LineBufferSubmit, LineBufferBinary, LineBufferBinarySubmit}
      then i = (ResourceMask Systolic, True, IsSystolicSubmit type, 1, 0, False)
      else \<exists>r f. i = (r, False, False, 0, no_queue, f) \<and>
        (r AND (ResourceMask DMAExternalToLocal OR ResourceMask DMALocalToExternal)) = 0)"

lemma yields_mono: "yields m P \<Longrightarrow> (\<And>x. P x \<Longrightarrow> Q x) \<Longrightarrow> yields m Q"
  by (simp add: yields_def)

definition decoded_as :: "SemanticCommand \<Rightarrow> SemanticCommand \<Rightarrow> bool" where
  "decoded_as h c \<longleftrightarrow> issue_class (cmd_type h) (issue_of c) \<and> decoding h (issue_of c) c"

lemma yields_class:
  assumes "yields m (decoding h i)" and "issue_class (cmd_type h) i"
  shows "yields m (decoded_as h)"
  using assms(1) by (rule yields_mono) (use assms(2) in \<open>simp add: decoded_as_def decoding_def\<close>)

lemma issue_class_plain:
  assumes "\<not> IsDMA t" and "t \<notin> {DMAWait, LineBufferJob, LineBufferSubmit, LineBufferBinary, LineBufferBinarySubmit}"
    and "(r AND 6) = 0"
  shows "issue_class t (r, False, False, 0, no_queue, f)"
  using assms by (simp add: issue_class_def)

lemma systolic_switch_yields:
  assumes c: "decoding h (plain_issue 8) c" and sys: "IsSystolic (cmd_type h)"
  shows "yields (decode_switch (cmd_type h) c encoded)
    (decoded_as h)"
proof (cases "cmd_type h \<in> {LineBufferJob, LineBufferSubmit, LineBufferBinary, LineBufferBinarySubmit}")
  case True
  have "issue_class (cmd_type h) (8, True, IsSystolicSubmit (cmd_type h), 1, 0, False)"
    using True by (auto simp: issue_class_def IsDMA_def)
  with DecodeLineBuffer_yields [OF c, of encoded] True show ?thesis
    by (auto intro: yields_class)
next
  case False
  then have "issue_class (cmd_type h) (plain_issue 8)"
    using sys by (intro issue_class_plain) (auto simp: IsSystolic_def IsDMA_def)
  with c sys False show ?thesis
    by (cases "cmd_type h")
      (auto simp: IsSystolic_def intro!: yields_class [where i = "plain_issue 8"] yields_None
        intro: decode_intro)
qed

lemma DecodeControl_yields:
  assumes c: "decoding h (plain_issue 0) c"
  shows "yields (DecodeControl c) (decoding h (1, False, False, 0, no_queue, True))"
proof -
  have "decoding h (plain_issue 1) (AddResource c ControlResource)"
    using decoding_AddResource [OF c, of ControlResource] by simp
  from decoding_fence [OF this] show ?thesis by (simp add: DecodeControl_def yields_def)
qed

lemma DecodeReservedSpatz_yields:
  assumes c: "decoding h (plain_issue 0) c"
  shows "yields (DecodeReservedSpatz c) (decoding h (32, False, False, 0, no_queue, True))"
proof -
  have "decoding h (plain_issue 32) (AddReadWriteState (AddResource c Spatz) SpatzEngine 0 0)"
    using decoding_updates(2) [OF decoding_AddResource [OF c, of Spatz]] by simp
  from decoding_fence [OF this] show ?thesis by (simp add: DecodeReservedSpatz_def yields_def)
qed

lemma plain_switch_yields:
  assumes c: "decoding h (plain_issue 0) c" and "\<not> IsSystolic (cmd_type h)" "\<not> IsDMA (cmd_type h)"
  shows "yields (decode_switch (cmd_type h) c encoded)
    (decoded_as h)"
proof -
  have plain: "issue_class (cmd_type h) (r, False, False, 0, no_queue, f)"
    if "cmd_type h \<noteq> DMAWait" "(r AND 6) = 0" for r f
    using assms that by (intro issue_class_plain) (auto simp: IsSystolic_def)
  have res: "decoding h (plain_issue (ResourceMask s)) (AddResource c s)" for s
    using decoding_AddResource [OF c, of s] by simp
  show ?thesis
  proof (cases "cmd_type h")
    case DMAWait
    have "decoded_as h c'" if "\<exists>q' \<le> 1. decoding h (0, False, False, DMAQueueDepth, q', False) c'" for c'
      using that DMAWait by (auto simp: decoded_as_def decoding_def issue_class_def IsDMA_def)
    then show ?thesis using yields_mono [OF DecodeDMAWait_yields [OF c, of encoded]] DMAWait by simp
  next
    case CopyLayout
    then show ?thesis using res [of Spatz] plain [of 32 False]
      by (auto intro!: yields_class [where i = "plain_issue 32"] decode_intro)
  qed (use assms plain in \<open>auto simp: IsSystolic_def IsDMA_def
      intro: yields_class [OF DecodeRQLoad_yields [OF c]] yields_class [OF AFULut_yields [OF c]]
        yields_class [OF Binary_yields [OF c]] yields_class [OF GlobalAvgPool_yields [OF c]]
        yields_class [OF Upsample_yields [OF c]] yields_class [OF DFL16_yields [OF c]]
        yields_class [OF DecodeControl_yields [OF c]] yields_class [OF DecodeReservedSpatz_yields [OF c]]
        yields_None\<close>)
qed

lemma DecodeKnownCommand_yields:
  assumes c: "decoding h (plain_issue 0) c"
  shows "yields (DecodeKnownCommand c) (decoded_as h)"
proof -
  have t: "cmd_type c = cmd_type h" using c by (rule decoding_type)
  have r: "decoding h (plain_issue 8) (AddResource c Systolic)"
    using decoding_AddResource [OF c, of Systolic] by simp
  consider "IsDMA (cmd_type h)" | "\<not> IsDMA (cmd_type h)" "cmd_type h = SystolicWait"
    | "\<not> IsDMA (cmd_type h)" "IsSystolic (cmd_type h)" "cmd_type h \<noteq> SystolicWait"
    | "\<not> IsDMA (cmd_type h)" "\<not> IsSystolic (cmd_type h)" by blast
  then show ?thesis
  proof cases
    case 1
    have "decoded_as h c'" if "\<exists>q \<le> 2. decoding h (dma_issue (cmd_type h) q) c'" for c'
      using that 1 by (auto simp: decoded_as_def decoding_def issue_class_def)
    then show ?thesis using 1 t yields_mono [OF DecodeDMA_yields [OF c]]
      by (simp add: DecodeKnownCommand_def decode_payload_def)
  next
    case 2
    have "issue_class (cmd_type h) (plain_issue 8)"
      using 2 by (intro issue_class_plain) auto
    with decoding_updates(2) [OF r, of SystolicSlot 0 0]
    have "decoded_as h (AddReadWriteState (AddResource c Systolic) SystolicSlot 0 0)"
      by (simp add: decoded_as_def decoding_def)
    with 2 t show ?thesis
      by (simp add: DecodeKnownCommand_def decode_payload_def IsSystolic_def yields_def)
  next
    case 3
    have "decoding h (plain_issue 8)
        (AddReadWriteState (AddState (AddResource c Systolic) Quantization 0 Read 0) SystolicSlot 0 0)"
      by (intro decoding_updates r)
    from systolic_switch_yields [OF this 3(2)] 3 t show ?thesis
      by (simp add: DecodeKnownCommand_def decode_payload_def)
  next
    case 4
    with t plain_switch_yields [OF c] show ?thesis
      by (simp add: DecodeKnownCommand_def decode_payload_def)
  qed
qed

section \<open>Decoding reads only the command's fixed part\<close>

text \<open>Two byte vectors that agree on their first \<open>n\<close> bytes.\<close>

definition agree :: "nat \<Rightarrow> bytes \<Rightarrow> bytes \<Rightarrow> bool" where
  "agree n e e' \<longleftrightarrow> n \<le> length e \<and> n \<le> length e' \<and> take n e = take n e'"

lemma agree_Read:
  assumes "agree n e e'"
  shows "off + 4 \<le> n \<Longrightarrow> Read32 e off = Read32 e' off"
    and "off + 2 \<le> n \<Longrightarrow> Read16 e off = Read16 e' off"
  using assms by (auto simp: agree_def intro: Read32_cong_take Read16_cong_take)

lemma agree_mono: "agree m e e' \<Longrightarrow> n \<le> m \<Longrightarrow> agree n e e'"
  by (auto simp: agree_def) (metis min.absorb1 take_take)

lemma agree_AddAccess:
  "agree n e e' \<Longrightarrow> off + 8 \<le> n \<Longrightarrow> AddAccess c e off k m = AddAccess c e' off k m"
  by (simp add: AddAccess_def Let_def agree_Read [of n e e'])

lemma agree_hash_words:
  "agree n e e' \<Longrightarrow> off + 4 * k \<le> n \<Longrightarrow> hash_words h e off k = hash_words h e' off k"
  by (induction k arbitrary: h off) (auto simp: agree_Read [of n e e'])

lemma agree_HashWords:
  "agree n e e' \<Longrightarrow> off + 4 * k \<le> n \<Longrightarrow> HashWords e off k = HashWords e' off k"
  by (simp add: HashWords_def agree_hash_words)

lemma agree_ReferenceIdentity:
  "agree n e e' \<Longrightarrow> off + 8 \<le> n \<Longrightarrow> ReferenceIdentity e off = ReferenceIdentity e' off"
  by (simp add: ReferenceIdentity_def agree_Read [of n e e'])

lemmas agree_rules = agree_Read agree_AddAccess agree_HashWords agree_ReferenceIdentity

lemma agree_dma_shape: "agree 64 e e' \<Longrightarrow> dma_shape t e = dma_shape t e'"
  by (simp add: dma_shape_def Let_def agree_Read [of 64 e e'])

lemma dma_shape_offset: "dma_shape t e = Some (a, b, c, off) \<Longrightarrow> off \<le> 60"
  by (auto simp: dma_shape_def Let_def split: if_splits)

lemma agree_DecodeDMA:
  assumes "agree 64 e e'"
  shows "DecodeDMA c e = DecodeDMA c e'"
proof (cases "dma_shape (cmd_type c) e")
  case None
  then show ?thesis using agree_dma_shape [OF assms] by (simp add: DecodeDMA_def)
next
  case (Some p)
  obtain a b k off where p: "p = (a, b, k, off)" by (cases p) auto
  have "off \<le> 60" using Some p dma_shape_offset by blast
  then have "Read32 e off = Read32 e' off" by (intro agree_Read [OF assms]) simp
  then show ?thesis using Some p agree_dma_shape [OF assms, of "cmd_type c"]
    by (simp add: DecodeDMA_def agree_rules [OF assms])
qed

lemma agree_DecodeGemm: "agree 96 e e' \<Longrightarrow> DecodeGemm c e = DecodeGemm c e'"
  by (simp add: DecodeGemm_def Let_def agree_rules [of 96 e e'] cong: if_cong)

lemma agree_DecodePointwise: "agree 96 e e' \<Longrightarrow> DecodePointwise c e = DecodePointwise c e'"
  by (simp add: DecodePointwise_def Let_def agree_rules [of 96 e e'] cong: if_cong)

lemma agree_DecodeDepthwise: "agree 96 e e' \<Longrightarrow> DecodeDepthwise c e = DecodeDepthwise c e'"
  by (simp add: DecodeDepthwise_def Let_def agree_rules [of 96 e e'] cong: if_cong)

lemma agree_DecodeMaxPool: "agree 96 e e' \<Longrightarrow> DecodeMaxPool c e = DecodeMaxPool c e'"
  by (simp add: DecodeMaxPool_def Let_def agree_rules [of 96 e e'] cong: if_cong)

lemma agree_DecodeLineBuffer: "agree 160 e e' \<Longrightarrow> DecodeLineBuffer c e = DecodeLineBuffer c e'"
  by (simp add: DecodeLineBuffer_def Let_def agree_rules [of 160 e e'] cong: if_cong)

lemma agree_DecodeCopyLayout: "agree 96 e e' \<Longrightarrow> DecodeCopyLayout c e = DecodeCopyLayout c e'"
  by (simp add: DecodeCopyLayout_def Let_def agree_rules [of 96 e e'] cong: if_cong)

lemma agree_small:
  shows "agree 32 e e' \<Longrightarrow> DecodeRQLoad c e = DecodeRQLoad c e'"
    and "agree 32 e e' \<Longrightarrow> DecodeDMAWait c e = DecodeDMAWait c e'"
    and "agree 64 e e' \<Longrightarrow> DecodeAFULut c e = DecodeAFULut c e'"
    and "agree 64 e e' \<Longrightarrow> DecodeBinary c e = DecodeBinary c e'"
    and "agree 64 e e' \<Longrightarrow> DecodeGlobalAvgPool c e = DecodeGlobalAvgPool c e'"
    and "agree 64 e e' \<Longrightarrow> DecodeUpsample c e = DecodeUpsample c e'"
    and "agree 96 e e' \<Longrightarrow> DecodeDFL16 c e = DecodeDFL16 c e'"
  by (simp_all add: DecodeRQLoad_def DecodeDMAWait_def DecodeAFULut_def DecodeBinary_def
      DecodeGlobalAvgPool_def DecodeUpsample_def DecodeDFL16_def
      Let_def agree_rules [of 32 e e'] agree_rules [of 64 e e'] agree_rules [of 96 e e'] cong: if_cong)

lemma decode_switch_agree:
  assumes "agree (MinimumCommandSize t) e e'" and "t \<noteq> AffineLoop"
  shows "decode_switch t c e = decode_switch t c e'"
  using assms agree_mono [of 96 e e' 64] agree_mono [of 224 e e' 160]
  by (cases t) (simp_all add: agree_small agree_DecodeGemm agree_DecodePointwise agree_DecodeDepthwise
      agree_DecodeMaxPool agree_DecodeCopyLayout agree_DecodeLineBuffer)

lemma decode_payload_agree:
  assumes "agree (MinimumCommandSize (cmd_type c)) e e'" and "cmd_type c \<noteq> AffineLoop"
  shows "decode_payload c e = decode_payload c e'"
proof (cases "IsDMA (cmd_type c)")
  case True
  then have "agree 64 e e'" using assms by (auto simp: IsDMA_def)
  with True show ?thesis by (simp add: decode_payload_def agree_DecodeDMA)
next
  case False
  with decode_switch_agree [OF assms] show ?thesis
    by (simp add: decode_payload_def Let_def)
qed

section \<open>What decoding a stream establishes\<close>

text \<open>
  The bytes of one well-formed command: the size field is the length, a multiple of 16 and at least
  the minimum of the type; the type is one the IR decodes.
\<close>

definition command_bytes_ok :: "bytes \<Rightarrow> bool" where
  "command_bytes_ok e \<longleftrightarrow>
     16 \<le> length e \<and> Read16 e 0 \<le> CommandType_code AFUBinaryQuant \<and>
     MinimumCommandSize (CommandType_of (Read16 e 0)) \<noteq> 0 \<and>
     MinimumCommandSize (CommandType_of (Read16 e 0)) \<le> length e \<and>
     read16n e 2 = length e \<and> (length e AND 15) = 0"

text \<open>What every command of a decoded stream satisfies, at its index in the stream.\<close>

definition decoded_ok :: "nat \<Rightarrow> SemanticCommand \<Rightarrow> bool" where
  "decoded_ok i c \<longleftrightarrow>
     command_bytes_ok (cmd_encoding c) \<and>
     CommandType_code (cmd_type c) = Read16 (cmd_encoding c) 0 \<and> cmd_type c \<noteq> AffineLoop \<and>
     cmd_flags c = Read32 (cmd_encoding c) 4 \<and> cmd_layerId c = Read32 (cmd_encoding c) 8 \<and>
     cmd_tileId c = Read32 (cmd_encoding c) 12 \<and> cmd_sourceCommandIndex c = word_of_nat i \<and>
     issue_class (cmd_type c) (issue_of c) \<and> list_all wf_access (cmd_memoryAccesses c) \<and>
     1 \<le> cmd_estimatedCycles c \<and> cmd_estimatedCycles c \<le> int max_i64"

lemma MinimumCommandSize_le: "t \<noteq> AffineLoop \<Longrightarrow> 16 \<le> MinimumCommandSize t"
  by (cases t) simp_all

lemma header_command_decoding: "decoding (header_command e i) (plain_issue 0) (header_command e i)"
  by (simp add: decoding_def same_header_def issue_of_def header_command_def blank_command_def max_i64_def)

lemma header_append:
  assumes ok: "command_bytes_ok e"
  shows "header_command (e @ rest) i = header_command e i"
    and "Read16 (e @ rest) 0 = Read16 e 0" and "Read16 (e @ rest) 2 = Read16 e 2"
proof -
  have len: "16 \<le> length e" and "e \<noteq> []" using ok by (auto simp: command_bytes_ok_def)
  then show rd: "Read16 (e @ rest) 0 = Read16 e 0" "Read16 (e @ rest) 2 = Read16 e 2"
    by (simp_all add: Read16_def Read32_def nth_append)
  have "Read32 (e @ rest) 4 = Read32 e 4" "Read32 (e @ rest) 8 = Read32 e 8"
    "Read32 (e @ rest) 12 = Read32 e 12"
    using len by (simp_all add: Read16_def Read32_def nth_append)
  with rd ok show "header_command (e @ rest) i = header_command e i"
    by (simp add: header_command_def command_bytes_ok_def)
qed

lemma decoded_ok_header:
  assumes ok: "command_bytes_ok e" and c: "DecodeKnownCommand (header_command e i) = Some c"
  shows "decoded_ok i c" and "cmd_encoding c = e"
proof -
  from DecodeKnownCommand_yields [OF header_command_decoding] c
  have d: "decoded_as (header_command e i) c" by (simp add: yields_def)
  have le: "unat (Read16 e 0) \<le> 34"
    using ok by (simp add: command_bytes_ok_def word_le_nat_alt)
  from d ok show enc: "cmd_encoding c = e"
    by (simp add: decoded_as_def decoding_def same_header_def header_command_def command_bytes_ok_def)
  from d ok enc CommandType_code_of [OF le] show "decoded_ok i c"
    by (auto simp: decoded_ok_def decoded_as_def decoding_def same_header_def header_command_def
        blank_command_def command_bytes_ok_def)
qed

text \<open>A command list that is the decoding of its own encodings, from index \<open>i\<close> on.\<close>

primrec stream_ok :: "nat \<Rightarrow> SemanticCommand list \<Rightarrow> bool" where
  "stream_ok i [] \<longleftrightarrow> True"
| "stream_ok i (c # cs) \<longleftrightarrow> command_bytes_ok (cmd_encoding c) \<and>
     DecodeKnownCommand (header_command (cmd_encoding c) i) = Some c \<and> stream_ok (Suc i) cs"

lemma decode_loop_Inr:
  "decode_loop bs off acc = Inr out \<Longrightarrow> off \<le> length bs \<Longrightarrow>
   \<exists>new. out = acc @ new \<and> drop off bs = concat (map cmd_encoding new) \<and> stream_ok (length acc) new"
proof (induction bs off acc rule: decode_loop.induct)
  case (1 bs off acc)
  define e where "e = drop off bs"
  define sz where "sz = read16n e 2"
  show ?case
  proof (cases "off < length bs")
    case False
    with 1(2,3) show ?thesis by (simp add: decode_loop.simps)
  next
    case True
    with 1(2) obtain c where c: "DecodeKnownCommand (header_command e (length acc)) = Some c"
      and rest: "decode_loop bs (off + sz) (acc @ [c]) = Inr out"
      and g: "\<not> length bs - off < 16" "\<not> Read16 e 0 > CommandType_code AFUBinaryQuant"
        "\<not> (MinimumCommandSize (CommandType_of (Read16 e 0)) = 0 \<or>
           sz < MinimumCommandSize (CommandType_of (Read16 e 0)) \<or> (sz AND 15) \<noteq> 0 \<or>
           off + sz > length bs)"
      by (subst (asm) decode_loop.simps)
        (auto simp: Let_def e_def sz_def split: if_splits option.splits)
    define f where "f = take sz e"
    have e: "e = f @ drop sz e" by (simp add: f_def)
    have "sz \<le> length bs - off" using g True by linarith
    then have lf: "length f = sz" by (simp add: f_def e_def)
    have t: "CommandType_of (Read16 e 0) \<noteq> AffineLoop" using g by auto
    have "16 \<le> sz" using MinimumCommandSize_le [OF t] g by linarith
    then have ag: "agree 16 e f" using lf by (simp add: agree_def f_def e_def)
    have ok: "command_bytes_ok f"
      using g \<open>16 \<le> sz\<close> lf agree_Read [OF ag, of 0] agree_Read [OF ag, of 2]
      by (simp add: command_bytes_ok_def sz_def not_less)
    from c have c': "DecodeKnownCommand (header_command (f @ drop sz e) (length acc)) = Some c"
      using e by simp
    note dec = decoded_ok_header [OF ok c' [unfolded header_append [OF ok]]]
    from 1(1) [OF _ _ e_def refl _ sz_def refl _ c rest] True g
    obtain new where new: "out = (acc @ [c]) @ new"
      "drop (off + sz) bs = concat (map cmd_encoding new)" "stream_ok (Suc (length acc)) new" by auto
    have "drop off bs = f @ drop (off + sz) bs"
      unfolding f_def e_def by (metis append_take_drop_id drop_drop add.commute)
    with new dec c' [unfolded header_append [OF ok]] ok have "out = acc @ (c # new) \<and> drop off bs = concat (map cmd_encoding (c # new)) \<and>
        stream_ok (length acc) (c # new)" by simp
    then show ?thesis by blast
  qed
qed

lemma decode_loop_stream:
  "stream_ok (length acc) new \<Longrightarrow> drop off bs = concat (map cmd_encoding new) \<Longrightarrow> off \<le> length bs \<Longrightarrow>
   decode_loop bs off acc = Inr (acc @ new)"
proof (induction new arbitrary: acc off)
  case Nil
  then show ?case by (simp add: decode_loop.simps)
next
  case (Cons c new)
  define e where "e = cmd_encoding c"
  define rest where "rest = concat (map cmd_encoding new)"
  have ok: "command_bytes_ok e" and d: "DecodeKnownCommand (header_command e (length acc)) = Some c"
    and bs: "drop off bs = e @ rest" using Cons.prems by (simp_all add: e_def rest_def)
  have "drop (length e) (drop off bs) = rest" using bs by simp
  then have dr: "drop (off + length e) bs = rest" by (simp add: add.commute)
  have len: "length e \<le> length bs - off" using bs by (metis length_append length_drop le_add1)
  have lt: "off < length bs" and l16: "\<not> length bs - off < 16"
    using ok len by (auto simp: command_bytes_ok_def)
  from Cons.IH [of "acc @ [c]" "off + length e"] Cons.prems dr len
  have "decode_loop bs (off + length e) (acc @ [c]) = Inr (acc @ c # new)"
    by (simp add: rest_def)
  moreover have "read16n e 2 = length e" using ok by (simp add: command_bytes_ok_def)
  ultimately show ?case
    using lt l16 ok d len
    by (subst decode_loop.simps) (simp add: Let_def bs header_append [OF ok] command_bytes_ok_def not_less)
qed

lemma DecodeSemanticCommandStream_iff:
  "DecodeSemanticCommandStream bs = Inr cmds \<longleftrightarrow>
   bs = SerializeSemanticCommandStream cmds \<and> stream_ok 0 cmds"
  using decode_loop_Inr [of bs 0 "[]" cmds] decode_loop_stream [of "[]" cmds 0 bs]
  by (auto simp: DecodeSemanticCommandStream_def SerializeSemanticCommandStream_def)

lemma stream_ok_nth:
  "stream_ok i cs \<Longrightarrow> k < length cs \<Longrightarrow>
   command_bytes_ok (cmd_encoding (cs ! k)) \<and>
   DecodeKnownCommand (header_command (cmd_encoding (cs ! k)) (i + k)) = Some (cs ! k)"
  by (induction cs arbitrary: i k) (force simp: nth_Cons split: nat.splits)+

lemma stream_ok_decoded: "stream_ok i cs \<Longrightarrow> k < length cs \<Longrightarrow> decoded_ok (i + k) (cs ! k)"
  using stream_ok_nth decoded_ok_header(1) by blast

end
