(* ===== verification/NAI_Dependency.thy ===== *)
theory NAI_Dependency
  imports NAI_CommandIR NAI_Spans "HOL-Library.Product_Lexorder"
begin

text \<open>
  The dependency graph of a command stream and the content and state annotation of its accesses
  (\<^verbatim>\<open>compiler/neural_ai_command_ir.cpp\<close>): \<^verbatim>\<open>BuildCommandDependencyGraph\<close>, \<^verbatim>\<open>AnnotateContent\<close>,
  \<^verbatim>\<open>AnnotateState\<close>, \<^verbatim>\<open>ValidateCommandDependencyGraph\<close> and their helpers.

  The \<^verbatim>\<open>std::set\<close> of edges is a sorted list without duplicates; an \<^verbatim>\<open>unordered_map\<close> read through
  \<^verbatim>\<open>operator[]\<close> is a total function with the default-constructed value outside its entries.
  Command indices, below \<open>2 ^ 31\<close> in the source, are natural numbers.
\<close>

section \<open>The graph\<close>

type_synonym raw_edge = "nat \<times> nat \<times> nat"

record CommandDependency =
  dep_predecessor :: nat
  dep_successor :: nat
  dep_kind :: DependencyKind

record CommandDependencyGraph =
  g_edges :: "CommandDependency list"
  g_predecessors :: "nat list list"
  g_successors :: "nat list list"

definition MemoryDependencyKind :: "SemanticAccessMode \<Rightarrow> SemanticAccessMode \<Rightarrow> DependencyKind" where
  "MemoryDependencyKind previous current =
     (if IsWrite previous \<and> \<not> IsWrite current then MemoryRAW
      else if \<not> IsWrite previous \<and> IsWrite current then MemoryWAR
      else MemoryWAW)"

text \<open>\<^verbatim>\<open>uniqueEdges.emplace\<close>.\<close>

definition emplace :: "nat \<Rightarrow> nat \<Rightarrow> DependencyKind \<Rightarrow> raw_edge list \<Rightarrow> raw_edge list" where
  "emplace predecessor successor kind edges =
     insort_insert (predecessor, successor, DependencyKind_code kind) edges"

record StateHazards =
  hz_lastWriter :: "nat option"
  hz_readers :: "nat list"

definition no_hazards :: StateHazards where
  "no_hazards = \<lparr>hz_lastWriter = None, hz_readers = []\<rparr>"

text \<open>The three phases of the loop body for the command at index \<open>current\<close>.\<close>

definition fence_edges ::
    "SemanticCommand \<Rightarrow> nat \<Rightarrow> nat option \<Rightarrow> raw_edge list \<Rightarrow> raw_edge list \<times> nat option" where
  "fence_edges command current lastFence edges =
     (let edges = (case lastFence of None \<Rightarrow> edges | Some f \<Rightarrow> emplace f current ControlOrder edges) in
      if cmd_controlFence command
      then (fold (\<lambda>previous. emplace previous current ControlOrder) [0..<current] edges, Some current)
      else (edges, lastFence))"

definition memory_edges ::
    "SemanticCommand list \<Rightarrow> SemanticCommand \<Rightarrow> nat \<Rightarrow> raw_edge list \<Rightarrow> raw_edge list" where
  "memory_edges commands command current edges =
     fold (\<lambda>previous. fold (\<lambda>lhs. fold (\<lambda>rhs edges.
         if \<not> Overlaps lhs rhs \<or> (\<not> IsWrite (acc_mode lhs) \<and> \<not> IsWrite (acc_mode rhs)) then edges
         else emplace previous current (MemoryDependencyKind (acc_mode lhs) (acc_mode rhs)) edges)
       (cmd_memoryAccesses command)) (cmd_memoryAccesses (commands ! previous))) [0..<current] edges"

definition state_edge ::
    "nat \<Rightarrow> SemanticStateAccess \<Rightarrow> raw_edge list \<times> (u64 \<Rightarrow> StateHazards) \<Rightarrow>
     raw_edge list \<times> (u64 \<Rightarrow> StateHazards)" where
  "state_edge current access es =
     (let edges = fst es; stateHazards = snd es; key = StateKey (st_state access) (st_instance access);
          hazards = stateHazards key in
      if \<not> IsWrite (st_mode access) then
        let edges = (case hz_lastWriter hazards of
              Some w \<Rightarrow> if w \<noteq> current then emplace w current StateRAW edges else edges
            | None \<Rightarrow> edges);
            readers = (if current \<in> set (hz_readers hazards) then hz_readers hazards
              else hz_readers hazards @ [current])
        in (edges, stateHazards(key := hazards\<lparr>hz_readers := readers\<rparr>))
      else
        let edges = (case hz_lastWriter hazards of
              Some w \<Rightarrow> if w \<noteq> current then emplace w current StateWAW edges else edges
            | None \<Rightarrow> edges);
            edges = fold (\<lambda>reader edges.
              if reader \<noteq> current then emplace reader current StateWAR edges else edges)
              (hz_readers hazards) edges
        in (edges, stateHazards(key := \<lparr>hz_lastWriter = Some current, hz_readers = []\<rparr>)))"

record BuildState =
  bs_edges :: "raw_edge list"
  bs_stateHazards :: "u64 \<Rightarrow> StateHazards"
  bs_lastFence :: "nat option"

definition build_step :: "SemanticCommand list \<Rightarrow> nat \<Rightarrow> BuildState \<Rightarrow> BuildState" where
  "build_step commands current s =
     (let command = commands ! current;
          (edges, lastFence) = fence_edges command current (bs_lastFence s) (bs_edges s);
          edges = memory_edges commands command current edges;
          (edges, stateHazards) = fold (state_edge current) (cmd_stateAccesses command)
            (edges, bs_stateHazards s)
      in \<lparr>bs_edges = edges, bs_stateHazards = stateHazards, bs_lastFence = lastFence\<rparr>)"

definition build_edges :: "SemanticCommand list \<Rightarrow> raw_edge list" where
  "build_edges commands =
     bs_edges (fold (build_step commands) [0..<length commands]
       \<lparr>bs_edges = [], bs_stateHazards = (\<lambda>_. no_hazards), bs_lastFence = None\<rparr>)"

text \<open>The kinds in the order of their codes; \<^verbatim>\<open>DependencyKind(rawKind)\<close> is a lookup.\<close>

definition DependencyKinds :: "DependencyKind list" where
  "DependencyKinds = [MemoryRAW, MemoryWAR, MemoryWAW, StateRAW, StateWAR, StateWAW, ControlOrder]"

definition adjacency :: "nat \<Rightarrow> (raw_edge \<Rightarrow> nat) \<Rightarrow> (raw_edge \<Rightarrow> nat) \<Rightarrow> raw_edge list \<Rightarrow> nat list list" where
  "adjacency n from' to' edges =
     map (\<lambda>adjacent. remdups_adj (sort adjacent))
       (fold (\<lambda>e adj. adj[from' e := adj ! from' e @ [to' e]]) edges (replicate n []))"

definition graph_of :: "nat \<Rightarrow> raw_edge list \<Rightarrow> CommandDependencyGraph" where
  "graph_of n edges =
     \<lparr>g_edges = map (\<lambda>(p, s, k). \<lparr>dep_predecessor = p, dep_successor = s, dep_kind = DependencyKinds ! k\<rparr>) edges,
      g_predecessors = adjacency n (\<lambda>(p, s, k). s) (\<lambda>(p, s, k). p) edges,
      g_successors = adjacency n (\<lambda>(p, s, k). p) (\<lambda>(p, s, k). s) edges\<rparr>"

section \<open>Content annotation\<close>

record StoredContent =
  sc_begin :: nat
  sc_end :: nat
  sc_identity :: u64
  sc_generation :: u32

definition AddContentSlice ::
    "SemanticContentSlice list \<Rightarrow> nat \<Rightarrow> nat \<Rightarrow> u64 \<Rightarrow> u32 \<Rightarrow> SemanticContentSlice list" where
  "AddContentSlice content b e identity generation =
     (if b = e then content
      else if content \<noteq> [] \<and> slice_end (last content) = b \<and>
        slice_identity (last content) = identity \<and> slice_generation (last content) = generation
      then butlast content @ [(last content)\<lparr>slice_end := e\<rparr>]
      else content @ [\<lparr>slice_begin = b, slice_end = e, slice_identity = identity,
        slice_generation = generation\<rparr>])"

text \<open>The loop of \<^verbatim>\<open>AnnotateRead\<close> over the stored spans; the result is the cursor and the slices.\<close>

fun annotate_read_loop ::
    "nat \<Rightarrow> u64 \<Rightarrow> StoredContent list \<Rightarrow> nat \<Rightarrow> SemanticContentSlice list \<Rightarrow>
     nat \<times> SemanticContentSlice list" where
  "annotate_read_loop e initial [] cursor content = (cursor, content)"
| "annotate_read_loop e initial (span # stored) cursor content =
     (if sc_end span \<le> cursor then annotate_read_loop e initial stored cursor content
      else if sc_begin span \<ge> e then (cursor, content)
      else
        let content = (if sc_begin span > cursor
              then AddContentSlice content cursor (min (sc_begin span) e) initial 0 else content);
            b = max cursor (sc_begin span); cursor' = min e (sc_end span);
            content = AddContentSlice content b cursor' (sc_identity span) (sc_generation span)
        in if cursor' = e then (cursor', content)
           else annotate_read_loop e initial stored cursor' content)"

definition AnnotateRead :: "SemanticMemoryAccess \<Rightarrow> StoredContent list \<Rightarrow> SemanticMemoryAccess" where
  "AnnotateRead access stored =
     (let initial = InitialContentIdentity (acc_region access) (acc_index access);
          (cursor, content) = annotate_read_loop (acc_end access) initial stored
            (acc_begin access) (acc_content access)
      in access\<lparr>acc_content := (if cursor < acc_end access
           then AddContentSlice content cursor (acc_end access) initial 0 else content)\<rparr>)"

fun replace_loop ::
    "StoredContent \<Rightarrow> StoredContent list \<Rightarrow> bool \<Rightarrow> StoredContent list \<Rightarrow> bool \<times> StoredContent list" where
  "replace_loop replacement [] inserted updated = (inserted, updated)"
| "replace_loop replacement (span # stored) inserted updated =
     (if sc_end span \<le> sc_begin replacement \<or> sc_begin span \<ge> sc_end replacement then
        (if \<not> inserted \<and> sc_begin span \<ge> sc_end replacement
         then replace_loop replacement stored True (updated @ [replacement, span])
         else replace_loop replacement stored inserted (updated @ [span]))
      else
        replace_loop replacement stored True
          (updated @ (if sc_begin span < sc_begin replacement
             then [span\<lparr>sc_end := sc_begin replacement\<rparr>] else []) @
           (if \<not> inserted then [replacement] else []) @
           (if sc_end span > sc_end replacement
             then [span\<lparr>sc_begin := sc_end replacement\<rparr>] else [])))"

definition ReplaceContent :: "StoredContent list \<Rightarrow> StoredContent \<Rightarrow> StoredContent list" where
  "ReplaceContent stored replacement =
     (let (inserted, updated) = replace_loop replacement stored False []
      in if inserted then updated else updated @ [replacement])"

record ContentState =
  contentByStorage :: "u64 \<Rightarrow> StoredContent list"
  generationByStorage :: "u64 \<Rightarrow> u32"

text \<open>The body of the inner loop of \<^verbatim>\<open>AnnotateContent\<close> for one access of one command.\<close>

definition write_identity :: "nat \<Rightarrow> SemanticCommand \<Rightarrow> nat \<Rightarrow> u64" where
  "write_identity commandIndex command accessIndex =
     (let access = cmd_memoryAccesses command ! accessIndex;
          access0 = cmd_memoryAccesses command ! 0 in
      if IsDMA (cmd_type command) \<and> accessIndex = 1 \<and>
         acc_end access0 - acc_begin access0 = acc_end access - acc_begin access \<and>
         length (acc_content access0) = 1
      then slice_identity (acc_content access0 ! 0)
      else CommandContentIdentity (word_of_nat commandIndex) (word_of_nat accessIndex))"

definition annotate_access ::
    "nat \<Rightarrow> nat \<Rightarrow> SemanticCommand \<times> ContentState \<Rightarrow> SemanticCommand \<times> ContentState" where
  "annotate_access commandIndex accessIndex cs =
     (let command = fst cs; s = snd cs; access = cmd_memoryAccesses command ! accessIndex;
          key = StorageKey (acc_region access) (acc_index access); stored = contentByStorage s key in
      if \<not> IsWrite (acc_mode access)
      then (command\<lparr>cmd_memoryAccesses :=
              (cmd_memoryAccesses command)[accessIndex := AnnotateRead access stored]\<rparr>, s)
      else
        let generation = generationByStorage s key + 1;
            identity = write_identity commandIndex command accessIndex;
            access' = access\<lparr>acc_content := acc_content access @
              [\<lparr>slice_begin = acc_begin access, slice_end = acc_end access,
                slice_identity = identity, slice_generation = generation\<rparr>]\<rparr>
        in (command\<lparr>cmd_memoryAccesses := (cmd_memoryAccesses command)[accessIndex := access']\<rparr>,
            \<lparr>contentByStorage = (contentByStorage s)(key := ReplaceContent stored
               \<lparr>sc_begin = acc_begin access, sc_end = acc_end access,
                 sc_identity = identity, sc_generation = generation\<rparr>),
             generationByStorage = (generationByStorage s)(key := generation)\<rparr>))"

definition annotate_command ::
    "nat \<Rightarrow> SemanticCommand \<Rightarrow> ContentState \<Rightarrow> SemanticCommand \<times> ContentState" where
  "annotate_command commandIndex command s =
     fold (annotate_access commandIndex) [0..<length (cmd_memoryAccesses command)] (command, s)"

fun annotate_commands :: "nat \<Rightarrow> SemanticCommand list \<Rightarrow> ContentState \<Rightarrow> SemanticCommand list" where
  "annotate_commands commandIndex [] s = []"
| "annotate_commands commandIndex (command # commands) s =
     (let (command', s') = annotate_command commandIndex command s
      in command' # annotate_commands (Suc commandIndex) commands s')"

definition initial_content :: ContentState where
  "initial_content = \<lparr>contentByStorage = (\<lambda>_. []), generationByStorage = (\<lambda>_. 0)\<rparr>"

definition AnnotateContent :: "SemanticCommand list \<Rightarrow> SemanticCommand list" where
  "AnnotateContent commands = annotate_commands 0 commands initial_content"

section \<open>State annotation\<close>

record StateVersion =
  ver_identity :: u64
  ver_generation :: u32

definition annotate_state_access ::
    "nat \<Rightarrow> nat \<Rightarrow> SemanticStateAccess \<Rightarrow> (u64 \<Rightarrow> StateVersion) \<Rightarrow>
     SemanticStateAccess \<times> (u64 \<Rightarrow> StateVersion)" where
  "annotate_state_access commandIndex accessIndex access versions =
     (let key = StateKey (st_state access) (st_instance access);
          version = (if IsWrite (st_mode access)
            then \<lparr>ver_identity = (if st_valueIdentity access \<noteq> 0 then st_valueIdentity access
                    else CommandContentIdentity (word_of_nat commandIndex) (word_of_nat accessIndex)),
                  ver_generation = ver_generation (versions key) + 1\<rparr>
            else versions key)
      in (access\<lparr>st_generation := ver_generation version, st_valueIdentity := ver_identity version\<rparr>,
          versions(key := version)))"

fun annotate_state_accesses ::
    "nat \<Rightarrow> nat \<Rightarrow> SemanticStateAccess list \<Rightarrow> (u64 \<Rightarrow> StateVersion) \<Rightarrow>
     SemanticStateAccess list \<times> (u64 \<Rightarrow> StateVersion)" where
  "annotate_state_accesses commandIndex accessIndex [] versions = ([], versions)"
| "annotate_state_accesses commandIndex accessIndex (access # accesses) versions =
     (let (access', versions') = annotate_state_access commandIndex accessIndex access versions;
          (accesses', versions'') = annotate_state_accesses commandIndex (Suc accessIndex) accesses versions'
      in (access' # accesses', versions''))"

fun annotate_states :: "nat \<Rightarrow> SemanticCommand list \<Rightarrow> (u64 \<Rightarrow> StateVersion) \<Rightarrow> SemanticCommand list" where
  "annotate_states commandIndex [] versions = []"
| "annotate_states commandIndex (command # commands) versions =
     (let (accesses', versions') =
            annotate_state_accesses commandIndex 0 (cmd_stateAccesses command) versions
      in command\<lparr>cmd_stateAccesses := accesses'\<rparr> # annotate_states (Suc commandIndex) commands versions')"

definition AnnotateState :: "SemanticCommand list \<Rightarrow> SemanticCommand list" where
  "AnnotateState commands =
     annotate_states 0 commands (\<lambda>_. \<lparr>ver_identity = 0, ver_generation = 0\<rparr>)"

section \<open>Validation\<close>

datatype graph_error =
    AdjacencySizeMismatch
  | InvalidOrDuplicateEdge
  | EdgeMissingFromAdjacency
  | MetadataMismatch
  | IncompleteContentCoverage
  | ContentNotContiguous
  | InvalidBankPhase
  | UnexpectedBankPhase

definition edge_key :: "CommandDependency \<Rightarrow> raw_edge" where
  "edge_key e = (dep_predecessor e, dep_successor e, DependencyKind_code (dep_kind e))"

fun validate_edges ::
    "nat \<Rightarrow> CommandDependencyGraph \<Rightarrow> CommandDependency list \<Rightarrow> raw_edge list \<Rightarrow> graph_error option" where
  "validate_edges n graph [] unique = None"
| "validate_edges n graph (edge # edges) unique =
     (if dep_predecessor edge \<ge> n \<or> dep_successor edge \<ge> n \<or>
         dep_predecessor edge \<ge> dep_successor edge \<or> edge_key edge \<in> set unique
      then Some InvalidOrDuplicateEdge
      else if dep_predecessor edge \<notin> set (g_predecessors graph ! dep_successor edge) \<or>
              dep_successor edge \<notin> set (g_successors graph ! dep_predecessor edge)
      then Some EdgeMissingFromAdjacency
      else validate_edges n graph edges (insort_insert (edge_key edge) unique))"

fun contiguous :: "nat \<Rightarrow> SemanticContentSlice list \<Rightarrow> bool" where
  "contiguous cursor [] = True"
| "contiguous cursor (content # rest) =
     (slice_begin content = cursor \<and> slice_begin content < slice_end content \<and>
      contiguous (slice_end content) rest)"

definition validate_access :: "SemanticMemoryAccess \<Rightarrow> graph_error option" where
  "validate_access access =
     (if acc_begin access \<ge> acc_end access \<or> acc_content access = [] \<or>
         slice_begin (hd (acc_content access)) \<noteq> acc_begin access \<or>
         slice_end (last (acc_content access)) \<noteq> acc_end access
      then Some IncompleteContentCoverage
      else if \<not> contiguous (acc_begin access) (acc_content access) then Some ContentNotContiguous
      else if acc_region access = Region_code TCDMScratch then
        (if acc_bankPhase access \<noteq> bank_phase (acc_begin access) then Some InvalidBankPhase else None)
      else if acc_bankPhase access \<noteq> no_bank then Some UnexpectedBankPhase
      else None)"

fun first_error :: "('a \<Rightarrow> graph_error option) \<Rightarrow> 'a list \<Rightarrow> graph_error option" where
  "first_error f [] = None"
| "first_error f (x # xs) = (case f x of None \<Rightarrow> first_error f xs | Some err \<Rightarrow> Some err)"

definition validate_command :: "nat \<times> SemanticCommand \<Rightarrow> graph_error option" where
  "validate_command ic =
     (let commandIndex = fst ic; command = snd ic in
      if cmd_sourceCommandIndex command \<noteq> word_of_nat commandIndex \<or>
         length (cmd_encoding command) < 16 \<or>
         Read16 (cmd_encoding command) 0 \<noteq> CommandType_code (cmd_type command) \<or>
         read16n (cmd_encoding command) 2 \<noteq> length (cmd_encoding command)
      then Some MetadataMismatch
      else first_error validate_access (cmd_memoryAccesses command))"

definition ValidateCommandDependencyGraph ::
    "SemanticCommand list \<Rightarrow> CommandDependencyGraph \<Rightarrow> graph_error option" where
  "ValidateCommandDependencyGraph commands graph =
     (if length (g_predecessors graph) \<noteq> length commands \<or>
         length (g_successors graph) \<noteq> length commands
      then Some AdjacencySizeMismatch
      else case validate_edges (length commands) graph (g_edges graph) [] of
        Some err \<Rightarrow> Some err
      | None \<Rightarrow> first_error validate_command (List.enumerate 0 commands))"

definition BuildCommandDependencyGraph ::
    "SemanticCommand list \<Rightarrow> graph_error + SemanticCommand list \<times> CommandDependencyGraph" where
  "BuildCommandDependencyGraph commands =
     (let graph = graph_of (length commands) (build_edges commands);
          commands = AnnotateState (AnnotateContent commands)
      in case ValidateCommandDependencyGraph commands graph of
           Some err \<Rightarrow> Inl err
         | None \<Rightarrow> Inr (commands, graph))"

section \<open>The edges\<close>

definition edge_rel :: "raw_edge list \<Rightarrow> (nat \<times> nat) set" where
  "edge_rel E = {(p, q). \<exists>k. (p, q, k) \<in> set E}"

definition edges_ok :: "raw_edge list \<Rightarrow> bool" where
  "edges_ok E \<longleftrightarrow> sorted E \<and> distinct E"

lemma edge_rel_mono: "set E \<subseteq> set E' \<Longrightarrow> edge_rel E \<subseteq> edge_rel E'"
  by (auto simp: edge_rel_def)

lemma DependencyKind_code_inj [simp]: "DependencyKind_code k = DependencyKind_code l \<longleftrightarrow> k = l"
  by (cases k; cases l) simp_all

lemma DependencyKinds_nth: "DependencyKinds ! DependencyKind_code k = k"
  by (cases k) (simp_all add: DependencyKinds_def)

lemma emplace_set [simp]:
  "set (emplace p s k E) = insert (p, s, DependencyKind_code k) (set E)"
  by (simp add: emplace_def set_insort_insert)

lemma emplace_ok [simp]: "edges_ok E \<Longrightarrow> edges_ok (emplace p s k E)"
  by (simp add: emplace_def edges_ok_def sorted_insort_insert distinct_insort_insert)

lemma set_fold_union:
  assumes "\<And>x E. x \<in> set xs \<Longrightarrow> set (f x E) = set E \<union> g x"
  shows "set (fold f xs E) = set E \<union> (\<Union>x \<in> set xs. g x)"
  using assms by (induction xs arbitrary: E) auto

lemma fold_ok:
  assumes "\<And>x E. edges_ok E \<Longrightarrow> edges_ok (f x E)" and "edges_ok E"
  shows "edges_ok (fold f xs E)"
  using assms(2) by (induction xs arbitrary: E) (auto intro: assms(1))

definition access_conflict :: "SemanticMemoryAccess \<Rightarrow> SemanticMemoryAccess \<Rightarrow> bool" where
  "access_conflict lhs rhs \<longleftrightarrow> Overlaps lhs rhs \<and> (IsWrite (acc_mode lhs) \<or> IsWrite (acc_mode rhs))"

lemma fence_edges_set:
  "set (fst (fence_edges c cur lf E)) = set E \<union>
     (case lf of None \<Rightarrow> {} | Some f \<Rightarrow> {(f, cur, DependencyKind_code ControlOrder)}) \<union>
     (if cmd_controlFence c then {(p, cur, DependencyKind_code ControlOrder) | p. p < cur} else {})"
proof -
  have "set (fold (\<lambda>previous. emplace previous cur ControlOrder) [0..<cur] E') =
      set E' \<union> (\<Union>p \<in> set [0..<cur]. {(p, cur, DependencyKind_code ControlOrder)})" for E'
    by (rule set_fold_union) simp
  then show ?thesis
    by (auto simp: fence_edges_def Let_def split: option.splits)
qed

lemma fence_edges_ok: "edges_ok E \<Longrightarrow> edges_ok (fst (fence_edges c cur lf E))"
  by (auto simp: fence_edges_def Let_def intro!: fold_ok split: option.splits)

lemma fence_edges_last: "snd (fence_edges c cur lf E) = (if cmd_controlFence c then Some cur else lf)"
  by (simp add: fence_edges_def Let_def)

lemma memory_edges_set:
  "set (memory_edges cmds c cur E) = set E \<union>
     {(p, cur, DependencyKind_code (MemoryDependencyKind (acc_mode l) (acc_mode r))) | p l r.
        p < cur \<and> l \<in> set (cmd_memoryAccesses (cmds ! p)) \<and> r \<in> set (cmd_memoryAccesses c) \<and>
        access_conflict l r}"
proof -
  have "set (memory_edges cmds c cur E) = set E \<union> (\<Union>p \<in> set [0..<cur].
      \<Union>l \<in> set (cmd_memoryAccesses (cmds ! p)). \<Union>r \<in> set (cmd_memoryAccesses c).
        if access_conflict l r
        then {(p, cur, DependencyKind_code (MemoryDependencyKind (acc_mode l) (acc_mode r)))} else {})"
    unfolding memory_edges_def
    by (intro set_fold_union) (auto simp: access_conflict_def)
  also have "\<dots> = set E \<union>
     {(p, cur, DependencyKind_code (MemoryDependencyKind (acc_mode l) (acc_mode r))) | p l r.
        p < cur \<and> l \<in> set (cmd_memoryAccesses (cmds ! p)) \<and> r \<in> set (cmd_memoryAccesses c) \<and>
        access_conflict l r}" (is "_ \<union> ?U = _ \<union> ?V")
  proof (rule arg_cong [where f = "(\<union>) (set E)"], rule set_eqI)
    fix x
    show "x \<in> ?U \<longleftrightarrow> x \<in> ?V" by (simp add: if_distrib [of "(\<in>) _"] Bex_def cong: if_cong) blast
  qed
  finally show ?thesis .
qed

lemma memory_edges_ok: "edges_ok E \<Longrightarrow> edges_ok (memory_edges cmds c cur E)"
  unfolding memory_edges_def by (intro fold_ok) auto

text \<open>One state access: the new edges and the new hazards of its key.\<close>

abbreviation key_of :: "SemanticStateAccess \<Rightarrow> u64" where
  "key_of a \<equiv> StateKey (st_state a) (st_instance a)"

definition state_new :: "nat \<Rightarrow> SemanticAccessMode \<Rightarrow> StateHazards \<Rightarrow> raw_edge set" where
  "state_new cur m h =
     {(w, cur, DependencyKind_code (if IsWrite m then StateWAW else StateRAW)) | w.
        hz_lastWriter h = Some w \<and> w \<noteq> cur} \<union>
     (if IsWrite m then {(r, cur, DependencyKind_code StateWAR) | r. r \<in> set (hz_readers h) \<and> r \<noteq> cur}
      else {})"

definition state_next :: "nat \<Rightarrow> SemanticAccessMode \<Rightarrow> StateHazards \<Rightarrow> StateHazards" where
  "state_next cur m h =
     (if IsWrite m then \<lparr>hz_lastWriter = Some cur, hz_readers = []\<rparr>
      else h\<lparr>hz_readers := (if cur \<in> set (hz_readers h) then hz_readers h else hz_readers h @ [cur])\<rparr>)"

lemma state_edge_spec:
  "set (fst (state_edge cur a (E, hz))) = set E \<union> state_new cur (st_mode a) (hz (key_of a))"
  "snd (state_edge cur a (E, hz)) = hz(key_of a := state_next cur (st_mode a) (hz (key_of a)))"
  "edges_ok E \<Longrightarrow> edges_ok (fst (state_edge cur a (E, hz)))"
proof -
  have war: "set (fold (\<lambda>reader edges. if reader \<noteq> cur then emplace reader cur StateWAR edges else edges) rs E') =
      set E' \<union> (\<Union>r \<in> set rs. if r \<noteq> cur then {(r, cur, DependencyKind_code StateWAR)} else {})" for rs E'
    by (rule set_fold_union) simp
  show "set (fst (state_edge cur a (E, hz))) = set E \<union> state_new cur (st_mode a) (hz (key_of a))"
    by (auto simp: state_edge_def Let_def state_new_def war split: option.splits if_splits)
  show "snd (state_edge cur a (E, hz)) = hz(key_of a := state_next cur (st_mode a) (hz (key_of a)))"
    by (simp add: state_edge_def Let_def state_next_def)
  show "edges_ok E \<Longrightarrow> edges_ok (fst (state_edge cur a (E, hz)))"
    by (auto simp: state_edge_def Let_def intro!: fold_ok split: option.splits)
qed

text \<open>
  What the hazards of one key know about the accesses \<open>Q\<close> processed so far: every earlier writer
  reaches the last writer, every reader is listed or reaches it, and conflicting accesses are
  ordered by a path.
\<close>

definition key_inv :: "(nat \<times> nat) set \<Rightarrow> (nat \<times> SemanticAccessMode) set \<Rightarrow> StateHazards \<Rightarrow> bool" where
  "key_inv R Q h \<longleftrightarrow>
     (\<forall>w. hz_lastWriter h = Some w \<longrightarrow> (w, Write) \<in> Q) \<and>
     (\<forall>r \<in> set (hz_readers h). (r, Read) \<in> Q) \<and>
     (\<forall>c m. (c, m) \<in> Q \<longrightarrow> (m = Read \<and> c \<in> set (hz_readers h)) \<or>
        (\<exists>w. hz_lastWriter h = Some w \<and> (c, w) \<in> R\<^sup>*)) \<and>
     (\<forall>c m c' m'. (c, m) \<in> Q \<longrightarrow> (c', m') \<in> Q \<longrightarrow> c < c' \<longrightarrow> m = Write \<or> m' = Write \<longrightarrow> (c, c') \<in> R\<^sup>+)"

lemma key_inv_mono:
  assumes "key_inv R Q h" and "R \<subseteq> R'"
  shows "key_inv R' Q h"
proof -
  have r: "x \<in> R\<^sup>* \<Longrightarrow> x \<in> R'\<^sup>*" for x using rtrancl_mono [OF assms(2)] by blast
  have t: "x \<in> R\<^sup>+ \<Longrightarrow> x \<in> R'\<^sup>+" for x by (rule trancl_mono [OF _ assms(2)])
  from assms(1) show ?thesis
    unfolding key_inv_def by (elim conjE; intro conjI; use r t in blast)
qed

lemma key_inv_step:
  assumes inv: "key_inv R Q h" and le: "\<And>c m. (c, m) \<in> Q \<Longrightarrow> c \<le> cur"
    and R': "R \<subseteq> R'" "\<And>p k. (p, cur, k) \<in> state_new cur m h \<Longrightarrow> (p, cur) \<in> R'"
  shows "key_inv R' (insert (cur, m) Q) (state_next cur m h)"
proof -
  have inv': "key_inv R' Q h" by (rule key_inv_mono [OF inv R'(1)])
  have writer: "(w, cur) \<in> R'\<^sup>*" if "hz_lastWriter h = Some w" for w
  proof (cases "w = cur")
    case False
    with that have "(w, cur, DependencyKind_code (if IsWrite m then StateWAW else StateRAW)) \<in> state_new cur m h"
      by (simp add: state_new_def)
    then have "(w, cur) \<in> R'" by (rule R'(2))
    then show ?thesis by blast
  qed simp
  have reader: "(r, cur) \<in> R'\<^sup>*" if "r \<in> set (hz_readers h)" "m = Write" for r
  proof (cases "r = cur")
    case False
    with that have "(r, cur, DependencyKind_code StateWAR) \<in> state_new cur m h"
      by (auto simp: state_new_def IsWrite_def)
    then have "(r, cur) \<in> R'" by (rule R'(2))
    then show ?thesis by blast
  qed simp
  have reach: "(c, cur) \<in> R'\<^sup>*" if "(c, mc) \<in> Q" "mc = Write \<or> m = Write" for c mc
  proof -
    from inv' that(1) consider "mc = Read" "c \<in> set (hz_readers h)"
      | w where "hz_lastWriter h = Some w" "(c, w) \<in> R'\<^sup>*"
      unfolding key_inv_def by blast
    then show ?thesis
    proof cases
      case 1
      with reader that(2) show ?thesis by auto
    next
      case 2
      with writer show ?thesis by (meson rtrancl_trans)
    qed
  qed
  have new: "(c, cur) \<in> R'\<^sup>+" if "(c, mc) \<in> Q" "mc = Write \<or> m = Write" "c < cur" for c mc
    using reach [OF that(1,2)] that(3) by (metis rtranclD less_irrefl)
  show ?thesis
  proof (cases m)
    case Read
    have "\<not> cur < c" if "(c, mc) \<in> Q" for c mc using le [OF that] by simp
    with Read inv' new show ?thesis
      unfolding key_inv_def state_next_def by (auto simp: IsWrite_def)
  next
    case Write
    have "\<not> cur < c" if "(c, mc) \<in> Q" for c mc using le [OF that] by simp
    with Write inv' new reach show ?thesis
      unfolding key_inv_def state_next_def by (auto simp: IsWrite_def)
  qed
qed

definition state_kind :: "SemanticAccessMode \<Rightarrow> SemanticAccessMode \<Rightarrow> DependencyKind" where
  "state_kind m m' = (if IsWrite m' then (if IsWrite m then StateWAW else StateWAR) else StateRAW)"

lemma state_new_reason:
  assumes "key_inv R Q h" and "(p, q, k) \<in> state_new cur m h"
  shows "q = cur \<and> p \<noteq> cur \<and>
    (\<exists>m'. (p, m') \<in> Q \<and> (IsWrite m' \<or> IsWrite m) \<and> k = DependencyKind_code (state_kind m' m))"
  using assms
  by (auto simp: state_new_def key_inv_def state_kind_def IsWrite_def split: if_splits)

lemma fold_state_edge:
  fixes Q :: "u64 \<Rightarrow> (nat \<times> SemanticAccessMode) set"
  assumes "edges_ok E" and "\<And>key. key_inv (edge_rel E) (Q key) (hz key)"
    and "\<forall>key c m. (c, m) \<in> Q key \<longrightarrow> c \<le> cur"
    and "fold (state_edge cur) accs (E, hz) = (E', hz')"
  shows "edges_ok E' \<and> set E \<subseteq> set E' \<and>
    (\<forall>key. key_inv (edge_rel E') (Q key \<union> {(cur, st_mode a) | a. a \<in> set accs \<and> key_of a = key}) (hz' key)) \<and>
    (\<forall>p q k. (p, q, k) \<in> set E' \<longrightarrow> (p, q, k) \<in> set E \<or> q = cur \<and> p \<noteq> cur \<and>
      (\<exists>a m'. a \<in> set accs \<and>
        (p, m') \<in> Q (key_of a) \<union> {(cur, st_mode b) | b. b \<in> set accs \<and> key_of b = key_of a} \<and>
        (IsWrite m' \<or> IsWrite (st_mode a)) \<and> k = DependencyKind_code (state_kind m' (st_mode a))))"
  using assms
proof (induction accs arbitrary: E hz Q)
  case Nil
  then show ?case by auto
next
  case (Cons a accs)
  define key0 where "key0 = key_of a"
  obtain E1 hz1 where st: "state_edge cur a (E, hz) = (E1, hz1)" by (cases "state_edge cur a (E, hz)")
  note spec = state_edge_spec [where cur = cur and a = a and E = E and hz = hz, unfolded st fst_conv snd_conv, folded key0_def]
  define Q1 where "Q1 = Q(key0 := insert (cur, st_mode a) (Q key0))"
  have sub: "edge_rel E \<subseteq> edge_rel E1" by (rule edge_rel_mono) (simp add: spec(1))
  have inv1: "key_inv (edge_rel E1) (Q1 key) (hz1 key)" for key
  proof (cases "key = key0")
    case True
    have "key_inv (edge_rel E1) (insert (cur, st_mode a) (Q key0)) (state_next cur (st_mode a) (hz key0))"
      using Cons.prems(3) spec(1)
      by (intro key_inv_step [OF Cons.prems(2) _ sub]) (auto simp: edge_rel_def)
    with True show ?thesis by (simp add: spec(2) Q1_def)
  next
    case False
    with key_inv_mono [OF Cons.prems(2) sub] show ?thesis by (simp add: spec(2) Q1_def)
  qed
  have le1: "\<forall>key c m. (c, m) \<in> Q1 key \<longrightarrow> c \<le> cur"
    using Cons.prems(3) by (auto simp: Q1_def)
  from Cons.prems(4) st have "fold (state_edge cur) accs (E1, hz1) = (E', hz')" by simp
  note IH = Cons.IH [OF spec(3) [OF Cons.prems(1)] inv1 le1 this]
  have Q1: "Q1 key \<union> {(cur, st_mode b) | b. b \<in> set accs \<and> key_of b = key} =
      Q key \<union> {(cur, st_mode b) | b. b \<in> set (a # accs) \<and> key_of b = key}" for key
    by (auto simp: Q1_def key0_def)
  have reason: "(p, q, k) \<in> set E \<or> q = cur \<and> p \<noteq> cur \<and>
      (\<exists>a' m'. a' \<in> set (a # accs) \<and>
        (p, m') \<in> Q (key_of a') \<union> {(cur, st_mode b) | b. b \<in> set (a # accs) \<and> key_of b = key_of a'} \<and>
        (IsWrite m' \<or> IsWrite (st_mode a')) \<and> k = DependencyKind_code (state_kind m' (st_mode a')))"
    if "(p, q, k) \<in> set E'" for p q k
  proof (cases "(p, q, k) \<in> set E1")
    case True
    then consider "(p, q, k) \<in> set E" | "(p, q, k) \<in> state_new cur (st_mode a) (hz key0)"
      using spec(1) by auto
    then show ?thesis
    proof cases
      case 2
      from state_new_reason [OF Cons.prems(2) 2] obtain m' where *: "q = cur" "p \<noteq> cur"
          "(p, m') \<in> Q (key_of a)" "IsWrite m' \<or> IsWrite (st_mode a)"
          "k = DependencyKind_code (state_kind m' (st_mode a))" unfolding key0_def by blast
      have "a \<in> set (a # accs)" by simp
      with * show ?thesis by blast
    qed simp
  next
    case False
    with IH that have "q = cur \<and> p \<noteq> cur \<and> (\<exists>a' m'. a' \<in> set accs \<and>
        (p, m') \<in> Q1 (key_of a') \<union> {(cur, st_mode b) | b. b \<in> set accs \<and> key_of b = key_of a'} \<and>
        (IsWrite m' \<or> IsWrite (st_mode a')) \<and> k = DependencyKind_code (state_kind m' (st_mode a')))"
      by blast
    then obtain a' m' where *: "q = cur" "p \<noteq> cur" "a' \<in> set accs"
        "(p, m') \<in> Q1 (key_of a') \<union> {(cur, st_mode b) | b. b \<in> set accs \<and> key_of b = key_of a'}"
        "IsWrite m' \<or> IsWrite (st_mode a')" "k = DependencyKind_code (state_kind m' (st_mode a'))" by blast
    have "a' \<in> set (a # accs)" using *(3) by simp
    with * show ?thesis unfolding Q1 by blast
  qed
  have "set E \<subseteq> set E'" using IH spec(1) by blast
  moreover have "\<forall>key. key_inv (edge_rel E')
      (Q key \<union> {(cur, st_mode b) | b. b \<in> set (a # accs) \<and> key_of b = key}) (hz' key)"
    using IH unfolding Q1 by blast
  ultimately show ?case using IH reason by blast
qed

text \<open>Why an edge exists: the cause each kind stands for.\<close>

definition state_conflict :: "SemanticStateAccess \<Rightarrow> SemanticStateAccess \<Rightarrow> bool" where
  "state_conflict a b \<longleftrightarrow> st_state a = st_state b \<and> st_instance a = st_instance b \<and>
     (IsWrite (st_mode a) \<or> IsWrite (st_mode b))"

definition edge_reason :: "SemanticCommand \<Rightarrow> SemanticCommand \<Rightarrow> DependencyKind \<Rightarrow> bool" where
  "edge_reason c d k \<longleftrightarrow>
     (k = ControlOrder \<and> (cmd_controlFence c \<or> cmd_controlFence d)) \<or>
     (\<exists>l \<in> set (cmd_memoryAccesses c). \<exists>r \<in> set (cmd_memoryAccesses d).
        access_conflict l r \<and> k = MemoryDependencyKind (acc_mode l) (acc_mode r)) \<or>
     (\<exists>a \<in> set (cmd_stateAccesses c). \<exists>b \<in> set (cmd_stateAccesses d).
        state_conflict a b \<and> k = state_kind (st_mode a) (st_mode b))"

text \<open>Two commands whose order matters, \<open>c\<close> being first in the stream.\<close>

definition must_precede :: "SemanticCommand \<Rightarrow> SemanticCommand \<Rightarrow> bool" where
  "must_precede c d \<longleftrightarrow> (\<exists>k. edge_reason c d k)"

lemma SemanticState_code_inj [simp]: "SemanticState_code s = SemanticState_code t \<longleftrightarrow> s = t"
  by (cases s; cases t) simp_all

lemma StateKey_inj: "StateKey s i = StateKey t j \<longleftrightarrow> s = t \<and> i = j"
proof
  assume eq: "StateKey s i = StateKey t j"
  have hi: "drop_bit 32 (StateKey s i) = ucast (SemanticState_code s)" for s i
    unfolding StateKey_def by (rule bit_word_eqI) (auto simp: bit_simps dest: bit_imp_le_length)
  have lo: "(ucast (StateKey s i) :: u32) = i" for s i
    unfolding StateKey_def by (rule bit_word_eqI) (auto simp: bit_simps)
  have "(ucast (SemanticState_code s) :: u64) = ucast (SemanticState_code t)"
    using eq hi by metis
  then have "s = t" by (cases s; cases t) simp_all
  moreover have "i = j" using eq lo by metis
  ultimately show "s = t \<and> i = j" by simp
qed simp

text \<open>The accesses to a key that the commands before \<open>n\<close> make.\<close>

definition processed :: "SemanticCommand list \<Rightarrow> nat \<Rightarrow> u64 \<Rightarrow> (nat \<times> SemanticAccessMode) set" where
  "processed cmds n key =
     {(c, st_mode a) | c a. c < n \<and> a \<in> set (cmd_stateAccesses (cmds ! c)) \<and> key_of a = key}"

lemma processed_Suc:
  "processed cmds (Suc n) key =
     processed cmds n key \<union> {(n, st_mode a) | a. a \<in> set (cmd_stateAccesses (cmds ! n)) \<and> key_of a = key}"
  by (auto simp: processed_def less_Suc_eq)

text \<open>The invariant of the building loop before the command at index \<open>n\<close>.\<close>

definition edges_justified :: "SemanticCommand list \<Rightarrow> nat \<Rightarrow> raw_edge list \<Rightarrow> bool" where
  "edges_justified cmds n E \<longleftrightarrow>
     (\<forall>p q k. (p, q, k) \<in> set E \<longrightarrow> p < q \<and> q < n \<and>
        (\<exists>kind. k = DependencyKind_code kind \<and> edge_reason (cmds ! p) (cmds ! q) kind))"

definition memory_complete :: "SemanticCommand list \<Rightarrow> nat \<Rightarrow> raw_edge list \<Rightarrow> bool" where
  "memory_complete cmds n E \<longleftrightarrow>
     (\<forall>i j l r. i < j \<longrightarrow> j < n \<longrightarrow> l \<in> set (cmd_memoryAccesses (cmds ! i)) \<longrightarrow>
        r \<in> set (cmd_memoryAccesses (cmds ! j)) \<longrightarrow> access_conflict l r \<longrightarrow>
        (i, j, DependencyKind_code (MemoryDependencyKind (acc_mode l) (acc_mode r))) \<in> set E)"

definition fence_inv :: "SemanticCommand list \<Rightarrow> nat \<Rightarrow> raw_edge list \<Rightarrow> nat option \<Rightarrow> bool" where
  "fence_inv cmds n E lf \<longleftrightarrow>
     (\<forall>f. lf = Some f \<longrightarrow> f < n \<and> cmd_controlFence (cmds ! f)) \<and>
     (\<forall>i < n. cmd_controlFence (cmds ! i) \<longrightarrow> (\<exists>f. lf = Some f \<and> (i, f) \<in> (edge_rel E)\<^sup>*)) \<and>
     (\<forall>i j. i < j \<longrightarrow> j < n \<longrightarrow> cmd_controlFence (cmds ! i) \<or> cmd_controlFence (cmds ! j) \<longrightarrow>
        (i, j) \<in> (edge_rel E)\<^sup>+)"

definition build_inv :: "SemanticCommand list \<Rightarrow> nat \<Rightarrow> BuildState \<Rightarrow> bool" where
  "build_inv cmds n s \<longleftrightarrow> edges_ok (bs_edges s) \<and> edges_justified cmds n (bs_edges s) \<and>
     memory_complete cmds n (bs_edges s) \<and> fence_inv cmds n (bs_edges s) (bs_lastFence s) \<and>
     (\<forall>key. key_inv (edge_rel (bs_edges s)) (processed cmds n key) (bs_stateHazards s key))"

lemma fence_step:
  assumes inv: "fence_inv cmds n E lf"
    and sub: "set (fst (fence_edges (cmds ! n) n lf E)) \<subseteq> set E'"
  shows "fence_inv cmds (Suc n) E' (snd (fence_edges (cmds ! n) n lf E))"
proof -
  have mono: "edge_rel E \<subseteq> edge_rel E'"
    using sub by (intro edge_rel_mono) (auto simp: fence_edges_set)
  have old: "(i, j) \<in> (edge_rel E)\<^sup>* \<Longrightarrow> (i, j) \<in> (edge_rel E')\<^sup>*"
    "(i, j) \<in> (edge_rel E)\<^sup>+ \<Longrightarrow> (i, j) \<in> (edge_rel E')\<^sup>+" for i j
    using rtrancl_mono [OF mono] trancl_mono [OF _ mono] by blast+
  have last: "(f, n) \<in> edge_rel E'" if "lf = Some f" for f
    using sub that by (auto simp: edge_rel_def fence_edges_set)
  have all: "(i, n) \<in> edge_rel E'" if "cmd_controlFence (cmds ! n)" "i < n" for i
    using sub that by (auto simp: edge_rel_def fence_edges_set)
  have "(i, n) \<in> (edge_rel E')\<^sup>+" if "i < n" "cmd_controlFence (cmds ! i) \<or> cmd_controlFence (cmds ! n)" for i
  proof (cases "cmd_controlFence (cmds ! n)")
    case True
    then show ?thesis using all that by blast
  next
    case False
    with that have "cmd_controlFence (cmds ! i)" by simp
    moreover note \<open>i < n\<close>
    moreover have "\<forall>i < n. cmd_controlFence (cmds ! i) \<longrightarrow> (\<exists>f. lf = Some f \<and> (i, f) \<in> (edge_rel E)\<^sup>*)"
      using inv unfolding fence_inv_def by (elim conjE)
    ultimately obtain f where "lf = Some f" "(i, f) \<in> (edge_rel E)\<^sup>*" by blast
    then show ?thesis using rtrancl_into_trancl1 [OF old(1) last] by blast
  qed
  moreover have "(i, n) \<in> (edge_rel E')\<^sup>*" if "i < n" "cmd_controlFence (cmds ! n)" for i
    using all that by blast
  ultimately show ?thesis
    using inv old unfolding fence_inv_def fence_edges_last by (auto simp: less_Suc_eq)
qed

lemma build_step_inv:
  assumes inv: "build_inv cmds n s"
  shows "build_inv cmds (Suc n) (build_step cmds n s)"
proof -
  let ?c = "cmds ! n"
  obtain E1 lf where fe: "fence_edges ?c n (bs_lastFence s) (bs_edges s) = (E1, lf)"
    by (cases "fence_edges ?c n (bs_lastFence s) (bs_edges s)")
  define E2 where "E2 = memory_edges cmds ?c n E1"
  obtain E3 hz3 where se: "fold (state_edge n) (cmd_stateAccesses ?c) (E2, bs_stateHazards s) = (E3, hz3)"
    by (cases "fold (state_edge n) (cmd_stateAccesses ?c) (E2, bs_stateHazards s)")
  have st: "build_step cmds n s = \<lparr>bs_edges = E3, bs_stateHazards = hz3, bs_lastFence = lf\<rparr>"
    by (simp add: build_step_def Let_def fe se flip: E2_def)
  note fset = fence_edges_set [of ?c n "bs_lastFence s" "bs_edges s", unfolded fe fst_conv]
  note mset = memory_edges_set [of cmds ?c n E1, folded E2_def]
  have ok1: "edges_ok E1" using fence_edges_ok [of "bs_edges s" ?c n "bs_lastFence s"] inv fe
    by (simp add: build_inv_def)
  have ok2: "edges_ok E2" unfolding E2_def by (rule memory_edges_ok [OF ok1])
  have sub12: "set (bs_edges s) \<subseteq> set E1" "set E1 \<subseteq> set E2" using fset mset by auto
  have inv2: "key_inv (edge_rel E2) (processed cmds n key) (bs_stateHazards s key)" for key
    using inv key_inv_mono edge_rel_mono [of "bs_edges s" E2] sub12 unfolding build_inv_def by blast
  have le: "\<forall>key c m. (c, m) \<in> processed cmds n key \<longrightarrow> c \<le> n" by (auto simp: processed_def)
  note state = fold_state_edge [OF ok2 inv2 le se]
  have just1: "(p, q, k) \<in> set (bs_edges s) \<or> q = n \<and> p < n \<and> k = DependencyKind_code ControlOrder \<and>
      (cmd_controlFence (cmds ! p) \<or> cmd_controlFence ?c)" if "(p, q, k) \<in> set E1" for p q k
    using that fset inv unfolding build_inv_def fence_inv_def by (auto split: option.splits if_splits)
  have just: "edges_justified cmds (Suc n) E3"
    unfolding edges_justified_def
  proof (intro allI impI)
    fix p q k assume e: "(p, q, k) \<in> set E3"
    consider "(p, q, k) \<in> set E1"
      | "q = n" "p < n" "\<exists>l \<in> set (cmd_memoryAccesses (cmds ! p)). \<exists>r \<in> set (cmd_memoryAccesses ?c).
          access_conflict l r \<and> k = DependencyKind_code (MemoryDependencyKind (acc_mode l) (acc_mode r))"
      | "q = n" "p < n" "\<exists>a \<in> set (cmd_stateAccesses (cmds ! p)). \<exists>b \<in> set (cmd_stateAccesses ?c).
          state_conflict a b \<and> k = DependencyKind_code (state_kind (st_mode a) (st_mode b))"
    proof (cases "(p, q, k) \<in> set E2")
      case True
      with mset that(1,2) show ?thesis by blast
    next
      case False
      with state e obtain a m' where *: "q = n" "p \<noteq> n" "a \<in> set (cmd_stateAccesses ?c)"
        "(p, m') \<in> processed cmds n (key_of a) \<union> {(n, st_mode b) | b. b \<in> set (cmd_stateAccesses ?c) \<and> key_of b = key_of a}"
        "IsWrite m' \<or> IsWrite (st_mode a)" "k = DependencyKind_code (state_kind m' (st_mode a))" by blast
      then obtain b where "p < n" "b \<in> set (cmd_stateAccesses (cmds ! p))" "key_of b = key_of a" "st_mode b = m'"
        by (auto simp: processed_def)
      with * that(3) show ?thesis by (fastforce simp: state_conflict_def StateKey_inj)
    qed
    then show "p < q \<and> q < Suc n \<and>
        (\<exists>kind. k = DependencyKind_code kind \<and> edge_reason (cmds ! p) (cmds ! q) kind)"
    proof cases
      case 1
      have "edges_justified cmds n (bs_edges s)" using inv by (simp only: build_inv_def)
      then have "p < q \<and> q < Suc n \<and>
          (\<exists>kind. k = DependencyKind_code kind \<and> edge_reason (cmds ! p) (cmds ! q) kind)"
        if "(p, q, k) \<in> set (bs_edges s)"
        using that unfolding edges_justified_def by (metis less_Suc_eq)
      moreover have "edge_reason (cmds ! p) ?c ControlOrder"
        if "cmd_controlFence (cmds ! p) \<or> cmd_controlFence ?c"
        using that by (auto simp: edge_reason_def)
      ultimately show ?thesis using just1 [OF 1] by (auto intro: exI [of _ ControlOrder])
    next
      case 2
      then obtain kind where "k = DependencyKind_code kind" "edge_reason (cmds ! p) ?c kind"
        unfolding edge_reason_def by blast
      with 2 show ?thesis by auto
    next
      case 3
      then obtain kind where "k = DependencyKind_code kind" "edge_reason (cmds ! p) ?c kind"
        unfolding edge_reason_def by blast
      with 3 show ?thesis by auto
    qed
  qed
  have mem: "memory_complete cmds (Suc n) E3"
    unfolding memory_complete_def
  proof (intro allI impI)
    fix i j l r
    assume *: "i < j" "j < Suc n" "l \<in> set (cmd_memoryAccesses (cmds ! i))"
      "r \<in> set (cmd_memoryAccesses (cmds ! j))" "access_conflict l r"
    let ?e = "(i, j, DependencyKind_code (MemoryDependencyKind (acc_mode l) (acc_mode r)))"
    have "?e \<in> set E2"
    proof (cases "j < n")
      case True
      with * inv have "?e \<in> set (bs_edges s)" unfolding build_inv_def memory_complete_def by blast
      with sub12 show ?thesis by blast
    next
      case False
      with * have "j = n" by simp
      with * mset show ?thesis by blast
    qed
    with state show "?e \<in> set E3" by blast
  qed
  have "fence_inv cmds (Suc n) E3 lf"
  proof -
    have "set E1 \<subseteq> set E3" using state sub12 by blast
    with fence_step [of cmds n "bs_edges s" "bs_lastFence s" E3] inv fe show ?thesis
      by (simp add: build_inv_def)
  qed
  moreover have "key_inv (edge_rel E3) (processed cmds (Suc n) key) (hz3 key)" for key
    using state unfolding processed_Suc by blast
  ultimately show ?thesis
    using state just mem unfolding build_inv_def st by simp
qed

lemma build_edges_inv: "\<exists>s. bs_edges s = build_edges cmds \<and> build_inv cmds (length cmds) s"
proof -
  let ?s0 = "\<lparr>bs_edges = [], bs_stateHazards = (\<lambda>_. no_hazards), bs_lastFence = None\<rparr>"
  have "build_inv cmds n (fold (build_step cmds) [0..<n] ?s0)" for n
  proof (induction n)
    case 0
    show ?case
      by (auto simp: build_inv_def edges_ok_def edges_justified_def memory_complete_def fence_inv_def
          key_inv_def processed_def no_hazards_def)
  next
    case (Suc n)
    from build_step_inv [OF Suc] show ?case by simp
  qed
  then show ?thesis unfolding build_edges_def by blast
qed

lemma build_edges_facts:
  "edges_ok (build_edges cmds)" "edges_justified cmds (length cmds) (build_edges cmds)"
  "memory_complete cmds (length cmds) (build_edges cmds)"
  using build_edges_inv [of cmds] unfolding build_inv_def by metis+

lemma build_edges_path:
  assumes "i < j" and "j < length cmds" and "must_precede (cmds ! i) (cmds ! j)"
  shows "(i, j) \<in> (edge_rel (build_edges cmds))\<^sup>+"
proof -
  obtain s where s: "bs_edges s = build_edges cmds" "build_inv cmds (length cmds) s"
    using build_edges_inv by blast
  from assms(3) consider "cmd_controlFence (cmds ! i) \<or> cmd_controlFence (cmds ! j)"
    | l r where "l \<in> set (cmd_memoryAccesses (cmds ! i))" "r \<in> set (cmd_memoryAccesses (cmds ! j))" "access_conflict l r"
    | a b where "a \<in> set (cmd_stateAccesses (cmds ! i))" "b \<in> set (cmd_stateAccesses (cmds ! j))" "state_conflict a b"
    unfolding must_precede_def edge_reason_def by blast
  then show ?thesis
  proof cases
    case 1
    with s assms(1,2) show ?thesis unfolding build_inv_def fence_inv_def by metis
  next
    case 2
    with s assms(1,2) have "(i, j, DependencyKind_code (MemoryDependencyKind (acc_mode l) (acc_mode r)))
        \<in> set (build_edges cmds)" unfolding build_inv_def memory_complete_def by metis
    then show ?thesis by (auto simp: edge_rel_def)
  next
    case 3
    have "(i, st_mode a) \<in> processed cmds (length cmds) (key_of a)"
      "(j, st_mode b) \<in> processed cmds (length cmds) (key_of a)"
      using 3 assms(1,2) by (auto simp: processed_def state_conflict_def)
    moreover have "st_mode a = Write \<or> st_mode b = Write" using 3 by (simp add: state_conflict_def IsWrite_def)
    ultimately show ?thesis using s assms(1) unfolding build_inv_def key_inv_def by metis
  qed
qed

lemma state_kind_not_memory: "state_kind m m' \<notin> {MemoryRAW, MemoryWAR, MemoryWAW}"
  by (simp add: state_kind_def)

lemma build_edges_memory:
  assumes "k \<in> {MemoryRAW, MemoryWAR, MemoryWAW}"
  shows "(i, j, DependencyKind_code k) \<in> set (build_edges cmds) \<longleftrightarrow>
    i < j \<and> j < length cmds \<and> (\<exists>l \<in> set (cmd_memoryAccesses (cmds ! i)).
      \<exists>r \<in> set (cmd_memoryAccesses (cmds ! j)). access_conflict l r \<and>
        k = MemoryDependencyKind (acc_mode l) (acc_mode r))" (is "?l \<longleftrightarrow> ?r")
proof
  assume ?l
  with build_edges_facts(2) [of cmds] have lt: "i < j" "j < length cmds"
    and "\<exists>kind. DependencyKind_code k = DependencyKind_code kind \<and> edge_reason (cmds ! i) (cmds ! j) kind"
    unfolding edges_justified_def by blast+
  then have "edge_reason (cmds ! i) (cmds ! j) k" by auto
  moreover have "k \<noteq> state_kind m m'" for m m' using assms state_kind_not_memory by metis
  moreover have "k \<noteq> ControlOrder" using assms by auto
  ultimately show ?r using lt unfolding edge_reason_def by blast
next
  assume ?r
  with build_edges_facts(3) [of cmds] show ?l unfolding memory_complete_def by blast
qed

lemma build_edges_trancl:
  "(edge_rel (build_edges cmds))\<^sup>+ = {(i, j). i < j \<and> j < length cmds \<and> must_precede (cmds ! i) (cmds ! j)}\<^sup>+"
  (is "_ = ?M\<^sup>+")
proof (rule set_eqI)
  have sub: "edge_rel (build_edges cmds) \<subseteq> ?M"
    using build_edges_facts(2) [of cmds] unfolding edges_justified_def edge_rel_def must_precede_def by blast
  have sup: "?M \<subseteq> (edge_rel (build_edges cmds))\<^sup>+" using build_edges_path by blast
  have "(?M)\<^sup>+ \<subseteq> (edge_rel (build_edges cmds))\<^sup>+"
    using trancl_mono [OF _ sup] by auto
  then show "x \<in> (edge_rel (build_edges cmds))\<^sup>+ \<longleftrightarrow> x \<in> ?M\<^sup>+" for x
    using trancl_mono [OF _ sub] by blast
qed

end
