(* ===== verification/NAI_Scheduler.thy ===== *)
theory NAI_Scheduler
  imports NAI_Dependency
begin

text \<open>
  \<^verbatim>\<open>ScheduleGlobalCommandStream\<close> of \<^verbatim>\<open>compiler/neural_ai_command_scheduler.cpp\<close>: the list scheduler
  that reorders a blocking stream over the two DMA queues and the systolic slot and inserts waits.

  The per-command vectors of the source are functions of the command index; \<^verbatim>\<open>std::set\<close> is a sorted
  list; \<^verbatim>\<open>-1\<close> as "no queue" or "no command" is \<open>None\<close>.  The lambdas become definitions over the
  context (what the loop only reads) and the state.  Beside the bytes the state keeps the trace of
  what was emitted; no definition reads it.  \<^verbatim>\<open>int64_t\<close> times are integers: they start at zero and
  grow only through the saturating sum, so they stay in range.
\<close>

section \<open>Helpers\<close>

definition QueueCount :: nat where "QueueCount = 3"
definition DMAQueues :: u32 where "DMAQueues = 2"
definition SystolicQueue :: nat where "SystolicQueue = 2"
definition InfiniteCycles :: int where "InfiniteCycles = 2 ^ 63 - 1"

definition UsesResource :: "SemanticCommand \<Rightarrow> SemanticResource \<Rightarrow> bool" where
  "UsesResource command resource \<longleftrightarrow> (cmd_resources command AND ResourceMask resource) \<noteq> 0"

definition UsesDMA :: "SemanticCommand \<Rightarrow> bool" where
  "UsesDMA command \<longleftrightarrow> UsesResource command DMAExternalToLocal \<or> UsesResource command DMALocalToExternal"

definition UsesSystolic :: "SemanticCommand \<Rightarrow> bool" where
  "UsesSystolic command \<longleftrightarrow> UsesResource command Systolic"

definition UsesSpatz :: "SemanticCommand \<Rightarrow> bool" where
  "UsesSpatz command \<longleftrightarrow> UsesResource command Spatz"

definition QueueOrders :: "SemanticCommand \<Rightarrow> SemanticCommand \<Rightarrow> bool" where
  "QueueOrders predecessor successor \<longleftrightarrow>
     cmd_asyncCapable predecessor \<and> cmd_asyncCapable successor \<and> UsesDMA predecessor \<and>
     UsesDMA successor \<and> cmd_queueId predecessor = cmd_queueId successor"

definition IssueOrders :: "SemanticCommand \<Rightarrow> SemanticCommand \<Rightarrow> bool" where
  "IssueOrders predecessor successor \<longleftrightarrow> QueueOrders predecessor successor"

definition AsyncQueue :: "SemanticCommand \<Rightarrow> nat option" where
  "AsyncQueue command =
     (if UsesDMA command \<and> cmd_queueId command < DMAQueues then Some (unat (cmd_queueId command))
      else if UsesSystolic command \<and> cmd_queueId command = 0 then Some SystolicQueue
      else None)"

definition SubmitType :: "CommandType \<Rightarrow> CommandType" where
  "SubmitType type =
     (if type = DMA1D then DMASubmit1D
      else if type = DMA2D then DMASubmit2D
      else if type = DMA3D then DMASubmit3D
      else if type = LineBufferJob then LineBufferSubmit
      else if type = LineBufferBinary then LineBufferBinarySubmit
      else type)"

definition WaitEncoding :: "nat \<Rightarrow> u32 \<Rightarrow> u32 \<Rightarrow> bytes" where
  "WaitEncoding queue layerId tileId =
     (let bs = replicate 32 0;
          type = (if queue = SystolicQueue then SystolicWait else DMAWait);
          bs = Write16 bs 0 (CommandType_code type);
          bs = Write16 bs 2 32;
          bs = Write32 bs 8 layerId;
          bs = Write32 bs 12 tileId
      in if queue < unat DMAQueues then Write32 bs 16 (word_of_nat queue) else bs)"

definition AddCycles :: "int \<Rightarrow> int \<Rightarrow> int" where
  "AddCycles lhs rhs = (if rhs > InfiniteCycles - lhs then InfiniteCycles else lhs + rhs)"

definition MultiplyCycles :: "int \<Rightarrow> int \<Rightarrow> int" where
  "MultiplyCycles lhs rhs =
     (if lhs = 0 \<or> rhs = 0 then 0
      else if lhs > InfiniteCycles div rhs then InfiniteCycles
      else lhs * rhs)"

definition TCDMPhaseConflicts :: "SemanticCommand \<Rightarrow> SemanticCommand \<Rightarrow> int" where
  "TCDMPhaseConflicts lhs rhs =
     (\<Sum>left \<leftarrow> cmd_memoryAccesses lhs.
        if acc_bankPhase left = no_bank then 0
        else int (length (filter (\<lambda>right. acc_bankPhase right = acc_bankPhase left)
               (cmd_memoryAccesses rhs))))"

section \<open>Context and state\<close>

record ScheduleStats =
  stat_asynchronousSubmits :: nat
  stat_insertedWaits :: nat
  stat_reorderedCommands :: nat
  stat_bankConflictDeferrals :: nat
  stat_qparamPreloads :: nat
  stat_estimatedCycles :: int

text \<open>What was emitted: a command, as a submit or blocking, or a wait on a queue.\<close>

datatype item = Issue nat bool | Wait nat

record ScheduleContext =
  ctx_commands :: "SemanticCommand list"
  ctx_graph :: CommandDependencyGraph
  ctx_completionPredecessors :: "nat \<Rightarrow> nat list"
  ctx_criticalPath :: "nat \<Rightarrow> int"

record ScheduleState =
  ss_indegree :: "nat \<Rightarrow> int"
  ss_emitted :: "nat \<Rightarrow> bool"
  ss_ready :: "nat list"
  ss_pending :: "nat \<Rightarrow> nat list"
  ss_queueTail :: "nat \<Rightarrow> int"
  ss_pendingQueue :: "nat \<Rightarrow> nat option"
  ss_startTime :: "nat \<Rightarrow> int"
  ss_completionTime :: "nat \<Rightarrow> int"
  ss_originalOrder :: "nat list"
  ss_currentTime :: int
  ss_emittedCommands :: nat
  ss_scheduledBytes :: bytes
  ss_stats :: ScheduleStats
  ss_trace :: "item list"

abbreviation command_at :: "ScheduleContext \<Rightarrow> nat \<Rightarrow> SemanticCommand" where
  "command_at ctx i \<equiv> ctx_commands ctx ! i"

abbreviation predecessors_of :: "ScheduleContext \<Rightarrow> nat \<Rightarrow> nat list" where
  "predecessors_of ctx i \<equiv> g_predecessors (ctx_graph ctx) ! i"

abbreviation successors_of :: "ScheduleContext \<Rightarrow> nat \<Rightarrow> nat list" where
  "successors_of ctx i \<equiv> g_successors (ctx_graph ctx) ! i"

definition completion_predecessors ::
    "SemanticCommand list \<Rightarrow> CommandDependency list \<Rightarrow> nat \<Rightarrow> nat list" where
  "completion_predecessors commands edges =
     fold (\<lambda>edge preds.
       if \<not> IssueOrders (commands ! dep_predecessor edge) (commands ! dep_successor edge)
       then preds(dep_successor edge := preds (dep_successor edge) @ [dep_predecessor edge])
       else preds) edges (\<lambda>_. [])"

definition critical_paths :: "SemanticCommand list \<Rightarrow> CommandDependencyGraph \<Rightarrow> nat \<Rightarrow> int" where
  "critical_paths commands graph =
     fold (\<lambda>index path.
       let successorPath = fold (\<lambda>successor p. max p (path successor)) (g_successors graph ! index) 0
       in path(index := AddCycles (max 1 (cmd_estimatedCycles (commands ! index))) successorPath))
       (rev [0..<length commands]) (\<lambda>_. 1)"

definition schedule_context :: "SemanticCommand list \<Rightarrow> CommandDependencyGraph \<Rightarrow> ScheduleContext" where
  "schedule_context commands graph =
     \<lparr>ctx_commands = commands, ctx_graph = graph,
      ctx_completionPredecessors = completion_predecessors commands (g_edges graph),
      ctx_criticalPath = critical_paths commands graph\<rparr>"

definition no_stats :: ScheduleStats where
  "no_stats = \<lparr>stat_asynchronousSubmits = 0, stat_insertedWaits = 0, stat_reorderedCommands = 0,
     stat_bankConflictDeferrals = 0, stat_qparamPreloads = 0, stat_estimatedCycles = 0\<rparr>"

definition initial_schedule :: "ScheduleContext \<Rightarrow> ScheduleState" where
  "initial_schedule ctx =
     (let indegree = (\<lambda>i. int (length (predecessors_of ctx i))) in
      \<lparr>ss_indegree = indegree, ss_emitted = (\<lambda>_. False),
       ss_ready = filter (\<lambda>i. indegree i = 0) [0..<length (ctx_commands ctx)],
       ss_pending = (\<lambda>_. []), ss_queueTail = (\<lambda>_. 0), ss_pendingQueue = (\<lambda>_. None),
       ss_startTime = (\<lambda>_. 0), ss_completionTime = (\<lambda>_. 0), ss_originalOrder = [],
       ss_currentTime = 0, ss_emittedCommands = 0, ss_scheduledBytes = [], ss_stats = no_stats,
       ss_trace = []\<rparr>)"

section \<open>The lambdas\<close>

definition pendingCount :: "ScheduleState \<Rightarrow> nat" where
  "pendingCount s = sum_list (map (\<lambda>q. length (ss_pending s q)) [0..<QueueCount])"

definition queuesBlocking :: "ScheduleContext \<Rightarrow> ScheduleState \<Rightarrow> nat \<Rightarrow> nat \<Rightarrow> bool" where
  "queuesBlocking ctx s index queue \<longleftrightarrow>
     (let candidate = command_at ctx index in
      (cmd_controlFence candidate \<and> ss_pending s queue \<noteq> []) \<or>
      list_ex (\<lambda>predecessor. ss_pendingQueue s predecessor = Some queue)
        (ctx_completionPredecessors ctx index) \<or>
      (queue = SystolicQueue \<and> UsesSystolic candidate \<and> ss_pending s SystolicQueue \<noteq> []) \<or>
      (queue = SystolicQueue \<and> UsesSpatz candidate \<and> ss_pending s SystolicQueue \<noteq> []) \<or>
      (AsyncQueue candidate = Some queue \<and>
        length (ss_pending s queue) \<ge> unat (cmd_queueCapacity candidate)))"

definition hasBlockedQueue :: "ScheduleContext \<Rightarrow> ScheduleState \<Rightarrow> nat \<Rightarrow> bool" where
  "hasBlockedQueue ctx s index \<longleftrightarrow> list_ex (queuesBlocking ctx s index) [0..<QueueCount]"

definition bank_penalty_step ::
    "ScheduleContext \<Rightarrow> ScheduleState \<Rightarrow> nat \<Rightarrow> nat \<Rightarrow> int \<times> int \<Rightarrow> int \<times> int" where
  "bank_penalty_step ctx s index active hp =
     (let (hiddenCycles, predictedStall) = hp;
          candidate = command_at ctx index;
          candidateCycles = max 1 (cmd_estimatedCycles candidate);
          candidateEnd = AddCycles (ss_currentTime s) candidateCycles;
          overlapBegin = max (ss_currentTime s) (ss_startTime s active);
          overlapEnd = min candidateEnd (ss_completionTime s active) in
      if overlapBegin \<ge> overlapEnd then (hiddenCycles, predictedStall)
      else
        let overlapCycles = overlapEnd - overlapBegin;
            conflicts = TCDMPhaseConflicts candidate (command_at ctx active);
            weightedConflicts = AddCycles (MultiplyCycles overlapCycles conflicts) 15 div 16
        in (max hiddenCycles (overlapEnd - ss_currentTime s), AddCycles predictedStall weightedConflicts))"

definition bankPenaltyRejects :: "ScheduleContext \<Rightarrow> ScheduleState \<Rightarrow> nat \<Rightarrow> bool" where
  "bankPenaltyRejects ctx s index \<longleftrightarrow>
     (if pendingCount s = 0 then False
      else
        let (hiddenCycles, predictedStall) =
              fold (bank_penalty_step ctx s index) (concat (map (ss_pending s) [0..<QueueCount])) (0, 0)
        in if hiddenCycles = 0 \<or> predictedStall = 0 then False else predictedStall \<ge> hiddenCycles)"

definition canOverlapAfter :: "ScheduleContext \<Rightarrow> nat \<Rightarrow> nat \<Rightarrow> bool" where
  "canOverlapAfter ctx asynchronous candidate \<longleftrightarrow>
     (if cmd_controlFence (command_at ctx candidate) then False
      else if UsesSystolic (command_at ctx asynchronous) \<and> UsesSystolic (command_at ctx candidate) then False
      else if UsesSystolic (command_at ctx asynchronous) \<and> UsesSpatz (command_at ctx candidate) then False
      else if asynchronous \<in> set (ctx_completionPredecessors ctx candidate) then False
      else TCDMPhaseConflicts (command_at ctx asynchronous) (command_at ctx candidate) < 16)"

definition hasOverlapOpportunity :: "ScheduleContext \<Rightarrow> ScheduleState \<Rightarrow> nat \<Rightarrow> bool" where
  "hasOverlapOpportunity ctx s index \<longleftrightarrow>
     list_ex (\<lambda>candidate. candidate \<noteq> index \<and> canOverlapAfter ctx index candidate) (ss_ready s) \<or>
     list_ex (\<lambda>successor. canOverlapAfter ctx index successor \<and>
       list_all (\<lambda>predecessor. predecessor = index \<or> ss_emitted s predecessor)
         (predecessors_of ctx successor)) (successors_of ctx index)"

definition emitWait :: "ScheduleContext \<Rightarrow> nat \<Rightarrow> ScheduleState \<Rightarrow> ScheduleState" where
  "emitWait ctx queue s =
     (let owner = hd (ss_pending s queue);
          tail = max (ss_currentTime s) (ss_queueTail s queue);
          currentTime = AddCycles (ss_currentTime s) (max 1 (tail - ss_currentTime s));
          wait = WaitEncoding queue (cmd_layerId (command_at ctx owner)) (cmd_tileId (command_at ctx owner))
      in s\<lparr>ss_currentTime := currentTime,
           ss_scheduledBytes := ss_scheduledBytes s @ wait,
           ss_pendingQueue := (\<lambda>i. if i \<in> set (ss_pending s queue) then None else ss_pendingQueue s i),
           ss_pending := (ss_pending s)(queue := []),
           ss_queueTail := (ss_queueTail s)(queue := currentTime),
           ss_stats := (ss_stats s)\<lparr>stat_insertedWaits := stat_insertedWaits (ss_stats s) + 1\<rparr>,
           ss_trace := ss_trace s @ [Wait queue]\<rparr>)"

section \<open>One iteration\<close>

record Selection =
  sel_selected :: "nat option"
  sel_priority :: int
  sel_sawBankDeferral :: bool

definition select_step :: "ScheduleContext \<Rightarrow> ScheduleState \<Rightarrow> nat \<Rightarrow> Selection \<Rightarrow> Selection" where
  "select_step ctx s candidate sel =
     (if hasBlockedQueue ctx s candidate then sel
      else if bankPenaltyRejects ctx s candidate then sel\<lparr>sel_sawBankDeferral := True\<rparr>
      else
        let priority =
              (if pendingCount s = 0 then
                 (if cmd_asyncCapable (command_at ctx candidate) \<and> hasOverlapOpportunity ctx s candidate
                  then InfiniteCycles - int candidate else - int candidate)
               else ctx_criticalPath ctx candidate)
        in if (case sel_selected sel of None \<Rightarrow> True
               | Some c \<Rightarrow> priority > sel_priority sel \<or> (priority = sel_priority sel \<and> candidate < c))
           then sel\<lparr>sel_selected := Some candidate, sel_priority := priority\<rparr>
           else sel)"

definition select_command :: "ScheduleContext \<Rightarrow> ScheduleState \<Rightarrow> Selection" where
  "select_command ctx s = fold (select_step ctx s) (ss_ready s)
     \<lparr>sel_selected = None, sel_priority = -1, sel_sawBankDeferral = False\<rparr>"

definition wait_step ::
    "ScheduleContext \<Rightarrow> ScheduleState \<Rightarrow> nat \<times> nat \<Rightarrow> nat option \<times> int \<Rightarrow> nat option \<times> int" where
  "wait_step ctx s cq w =
     (let (candidate, queue) = cq; (waitQueue, bestPriority) = w in
      if \<not> queuesBlocking ctx s candidate queue \<or> ss_pending s queue = [] then w
      else if ctx_criticalPath ctx candidate > bestPriority
      then (Some queue, ctx_criticalPath ctx candidate) else w)"

definition fallback_step :: "ScheduleState \<Rightarrow> nat \<Rightarrow> nat option \<Rightarrow> nat option" where
  "fallback_step s queue waitQueue =
     (if ss_pending s queue \<noteq> [] \<and>
         (case waitQueue of None \<Rightarrow> True | Some w \<Rightarrow> ss_queueTail s queue < ss_queueTail s w)
      then Some queue else waitQueue)"

definition choose_wait :: "ScheduleContext \<Rightarrow> ScheduleState \<Rightarrow> nat option" where
  "choose_wait ctx s =
     (case fst (fold (wait_step ctx s) (List.product (ss_ready s) [0..<QueueCount]) (None, -1)) of
        Some queue \<Rightarrow> Some queue
      | None \<Rightarrow> fold (fallback_step s) [0..<QueueCount] None)"

datatype schedule_error =
    GraphSizeMismatch
  | NotABlockingStream
  | NoReadyCommand
  | UnresolvedPendingWork
  | NoSubmitEncoding

definition release_step :: "nat \<Rightarrow> ScheduleState \<Rightarrow> ScheduleState" where
  "release_step successor s =
     (let indegree = ss_indegree s successor - 1;
          s = s\<lparr>ss_indegree := (ss_indegree s)(successor := indegree)\<rparr>
      in if indegree = 0 then s\<lparr>ss_ready := insort_insert successor (ss_ready s)\<rparr> else s)"

text \<open>Queueing the selected command, or letting it block, and what follows either way.\<close>

definition submit_command :: "ScheduleContext \<Rightarrow> nat \<Rightarrow> nat \<Rightarrow> ScheduleState \<Rightarrow> ScheduleState" where
  "submit_command ctx index queue s =
     (let start = max (ss_currentTime s) (ss_queueTail s queue);
          completion = AddCycles start (max 1 (cmd_estimatedCycles (command_at ctx index)))
      in s\<lparr>ss_startTime := (ss_startTime s)(index := start),
           ss_completionTime := (ss_completionTime s)(index := completion),
           ss_queueTail := (ss_queueTail s)(queue := completion),
           ss_pending := (ss_pending s)(queue := ss_pending s queue @ [index]),
           ss_pendingQueue := (ss_pendingQueue s)(index := Some queue),
           ss_currentTime := AddCycles (ss_currentTime s) 1,
           ss_stats := (ss_stats s)\<lparr>stat_asynchronousSubmits := stat_asynchronousSubmits (ss_stats s) + 1\<rparr>\<rparr>)"

definition block_command :: "ScheduleContext \<Rightarrow> nat \<Rightarrow> ScheduleState \<Rightarrow> ScheduleState" where
  "block_command ctx index s =
     s\<lparr>ss_currentTime := AddCycles (ss_currentTime s) (max 1 (cmd_estimatedCycles (command_at ctx index)))\<rparr>"

definition finish_command ::
    "ScheduleContext \<Rightarrow> nat \<Rightarrow> bool \<Rightarrow> bytes \<Rightarrow> ScheduleState \<Rightarrow> ScheduleState" where
  "finish_command ctx index submit encoding s =
     fold release_step (successors_of ctx index)
       (s\<lparr>ss_scheduledBytes := ss_scheduledBytes s @ encoding,
          ss_originalOrder := ss_originalOrder s @ [index],
          ss_emitted := (ss_emitted s)(index := True),
          ss_emittedCommands := ss_emittedCommands s + 1,
          ss_trace := ss_trace s @ [Issue index submit]\<rparr>)"

definition issue_command ::
    "ScheduleContext \<Rightarrow> nat \<Rightarrow> ScheduleState \<Rightarrow> schedule_error + ScheduleState" where
  "issue_command ctx index s =
     (let s = s\<lparr>ss_ready := remove1 index (ss_ready s)\<rparr>;
          scheduled = command_at ctx index;
          s = (if cmd_type scheduled = RQLoad \<and> ss_pending s SystolicQueue \<noteq> []
               then s\<lparr>ss_stats := (ss_stats s)\<lparr>stat_qparamPreloads := stat_qparamPreloads (ss_stats s) + 1\<rparr>\<rparr>
               else s)
      in case AsyncQueue scheduled of
           Some queue \<Rightarrow>
             (if cmd_asyncCapable scheduled \<and> (pendingCount s \<noteq> 0 \<or> hasOverlapOpportunity ctx s index)
              then
                let submitType = SubmitType (cmd_type scheduled) in
                if submitType = cmd_type scheduled then Inl NoSubmitEncoding
                else Inr (finish_command ctx index True
                       (Write16 (cmd_encoding scheduled) 0 (CommandType_code submitType))
                       (submit_command ctx index queue s))
              else Inr (finish_command ctx index False (cmd_encoding scheduled) (block_command ctx index s)))
         | None \<Rightarrow> Inr (finish_command ctx index False (cmd_encoding scheduled) (block_command ctx index s)))"

definition schedule_step :: "ScheduleContext \<Rightarrow> ScheduleState \<Rightarrow> schedule_error + ScheduleState" where
  "schedule_step ctx s =
     (let sel = select_command ctx s in
      case sel_selected sel of
        Some index \<Rightarrow> issue_command ctx index s
      | None \<Rightarrow>
          (if pendingCount s = 0 then Inl NoReadyCommand
           else case choose_wait ctx s of
             None \<Rightarrow> Inl UnresolvedPendingWork
           | Some queue \<Rightarrow>
               let s = (if sel_sawBankDeferral sel
                 then s\<lparr>ss_stats := (ss_stats s)\<lparr>stat_bankConflictDeferrals := stat_bankConflictDeferrals (ss_stats s) + 1\<rparr>\<rparr>
                 else s)
               in Inr (emitWait ctx queue s)))"

section \<open>Termination\<close>

lemma fold_release_frame:
  "ss_emittedCommands (fold release_step xs s) = ss_emittedCommands s"
  "ss_pending (fold release_step xs s) = ss_pending s"
  "ss_emitted (fold release_step xs s) = ss_emitted s"
  "ss_pendingQueue (fold release_step xs s) = ss_pendingQueue s"
  "ss_trace (fold release_step xs s) = ss_trace s"
  "ss_originalOrder (fold release_step xs s) = ss_originalOrder s"
  "ss_scheduledBytes (fold release_step xs s) = ss_scheduledBytes s"
  "ss_stats (fold release_step xs s) = ss_stats s"
  by (induction xs arbitrary: s) (simp_all add: release_step_def Let_def)

lemma issue_command_emitted:
  "issue_command ctx index s = Inr s' \<Longrightarrow> ss_emittedCommands s' = Suc (ss_emittedCommands s)"
  by (auto simp: issue_command_def Let_def finish_command_def fold_release_frame submit_command_def
      block_command_def split: option.splits if_splits)

lemma wait_step_pending:
  "fst (fold (wait_step ctx s) xs w) = Some q \<Longrightarrow>
   (\<And>c q. (c, q) \<in> set xs \<Longrightarrow> q < QueueCount) \<Longrightarrow>
   (\<And>q. fst w = Some q \<Longrightarrow> q < QueueCount \<and> ss_pending s q \<noteq> []) \<Longrightarrow> q < QueueCount \<and> ss_pending s q \<noteq> []"
proof (induction xs arbitrary: w)
  case (Cons x xs)
  obtain c r where x: "x = (c, r)" by (cases x)
  have r: "r < QueueCount" using Cons.prems(2) x by auto
  show ?case
  proof (rule Cons.IH)
    show "fst (fold (wait_step ctx s) xs (wait_step ctx s x w)) = Some q" using Cons.prems(1) by simp
    show "q < QueueCount \<and> ss_pending s q \<noteq> []" if "fst (wait_step ctx s x w) = Some q" for q
      using that Cons.prems(3) r x by (auto simp: wait_step_def Let_def split: prod.splits if_splits)
  qed (use Cons.prems(2) in auto)
qed simp

lemma fallback_pending:
  "fold (fallback_step s) qs w = Some q \<Longrightarrow> (\<And>q. q \<in> set qs \<Longrightarrow> q < QueueCount) \<Longrightarrow>
   (\<And>q. w = Some q \<Longrightarrow> q < QueueCount \<and> ss_pending s q \<noteq> []) \<Longrightarrow> q < QueueCount \<and> ss_pending s q \<noteq> []"
proof (induction qs arbitrary: w)
  case (Cons r qs)
  show ?case
  proof (rule Cons.IH)
    show "fold (fallback_step s) qs (fallback_step s r w) = Some q" using Cons.prems(1) by simp
    show "q < QueueCount \<and> ss_pending s q \<noteq> []" if "fallback_step s r w = Some q" for q
      using that Cons.prems(2,3) by (auto simp: fallback_step_def split: if_splits)
  qed (use Cons.prems(2) in auto)
qed simp

lemma choose_wait_pending:
  assumes "choose_wait ctx s = Some q"
  shows "q < QueueCount \<and> ss_pending s q \<noteq> []"
proof (cases "fst (fold (wait_step ctx s) (List.product (ss_ready s) [0..<QueueCount]) (None, -1))")
  case None
  with assms have "fold (fallback_step s) [0..<QueueCount] None = Some q" by (simp add: choose_wait_def)
  then show ?thesis by (rule fallback_pending) auto
next
  case (Some r)
  with assms have "fst (fold (wait_step ctx s) (List.product (ss_ready s) [0..<QueueCount]) (None, -1)) = Some q"
    by (simp add: choose_wait_def)
  then show ?thesis by (rule wait_step_pending) auto
qed

lemma pendingCount_eq: "pendingCount s = length (ss_pending s 0) + length (ss_pending s 1) + length (ss_pending s 2)"
  by (simp add: pendingCount_def QueueCount_def numeral_3_eq_3 numeral_2_eq_2)

lemma emitWait_pendingCount:
  assumes "q < QueueCount" and "ss_pending s q \<noteq> []"
  shows "pendingCount (emitWait ctx q s) < pendingCount s"
proof -
  have "q = 0 \<or> q = 1 \<or> q = 2" using assms(1) by (auto simp: QueueCount_def)
  with assms(2) show ?thesis by (auto simp: pendingCount_eq emitWait_def Let_def)
qed

lemma schedule_step_decreases:
  assumes "schedule_step ctx s = Inr s'"
  shows "ss_emittedCommands s' = Suc (ss_emittedCommands s) \<or>
    ss_emittedCommands s' = ss_emittedCommands s \<and> pendingCount s' < pendingCount s"
proof (cases "sel_selected (select_command ctx s)")
  case None
  with assms obtain q t where q: "choose_wait ctx s = Some q" and s': "s' = emitWait ctx q t"
    and t: "ss_pending t = ss_pending s" "ss_emittedCommands t = ss_emittedCommands s"
    by (auto simp: schedule_step_def Let_def split: option.splits if_splits)
  from choose_wait_pending [OF q] emitWait_pendingCount [of q t ctx] t have
    "pendingCount s' < pendingCount s" by (simp add: s' pendingCount_def)
  moreover have "ss_emittedCommands s' = ss_emittedCommands s" by (simp add: s' t emitWait_def Let_def)
  ultimately show ?thesis by simp
next
  case (Some i)
  with assms issue_command_emitted show ?thesis by (auto simp: schedule_step_def)
qed

function schedule_loop :: "ScheduleContext \<Rightarrow> ScheduleState \<Rightarrow> schedule_error + ScheduleState" where
  "schedule_loop ctx s =
     (if ss_emittedCommands s < length (ctx_commands ctx) then
        (case schedule_step ctx s of
           Inl err \<Rightarrow> Inl err
         | Inr s' \<Rightarrow> schedule_loop ctx s')
      else Inr s)"
  by pat_completeness auto
termination
  by (relation "measures [\<lambda>(ctx, s). length (ctx_commands ctx) - ss_emittedCommands s, \<lambda>(ctx, s). pendingCount s]")
    (auto dest: schedule_step_decreases)

declare schedule_loop.simps [simp del]

definition drain_queues :: "ScheduleContext \<Rightarrow> ScheduleState \<Rightarrow> ScheduleState" where
  "drain_queues ctx s =
     fold (\<lambda>queue s. if ss_pending s queue \<noteq> [] then emitWait ctx queue s else s) [0..<QueueCount] s"

definition finish_stats :: "nat \<Rightarrow> ScheduleState \<Rightarrow> ScheduleStats" where
  "finish_stats n s =
     (ss_stats s)\<lparr>stat_reorderedCommands := stat_reorderedCommands (ss_stats s) +
         length (filter (\<lambda>position. ss_originalOrder s ! position \<noteq> position) [0..<n]),
       stat_estimatedCycles := ss_currentTime s\<rparr>"

definition ScheduleGlobalCommandStream ::
    "SemanticCommand list \<Rightarrow> CommandDependencyGraph \<Rightarrow> schedule_error + bytes \<times> ScheduleStats \<times> item list" where
  "ScheduleGlobalCommandStream commands dependencies =
     (if length (g_predecessors dependencies) \<noteq> length commands \<or>
         length (g_successors dependencies) \<noteq> length commands then Inl GraphSizeMismatch
      else if list_ex (\<lambda>command. cmd_asynchronous command \<or> cmd_type command = DMAWait \<or>
          cmd_type command = SystolicWait) commands then Inl NotABlockingStream
      else
        let ctx = schedule_context commands dependencies in
        case schedule_loop ctx (initial_schedule ctx) of
          Inl err \<Rightarrow> Inl err
        | Inr s \<Rightarrow>
            let s = drain_queues ctx s
            in Inr (ss_scheduledBytes s, finish_stats (length commands) s, ss_trace s))"

end
