(* ===== verification/NAI_Annotation.thy ===== *)
theory NAI_Annotation
  imports NAI_Dependency
begin

text \<open>
  Correctness of the content and state annotation and of the validator
  (\<^verbatim>\<open>AnnotateContent\<close>, \<^verbatim>\<open>AnnotateState\<close>, \<^verbatim>\<open>ValidateCommandDependencyGraph\<close>):
  the stored spans of a storage are a range store, a read access is tiled by slices that carry
  the identity of the last write to each byte, and a decoded stream never fails validation.
\<close>

interpretation sc: span_list sc_begin sc_end .

interpretation sl: span_list slice_begin slice_end .

type_synonym content_value = "u64 \<times> u32"

definition stored_at :: "StoredContent list \<Rightarrow> nat \<Rightarrow> content_value option" where
  "stored_at stored x = map_option (\<lambda>s. (sc_identity s, sc_generation s)) (sc.span_at stored x)"

definition slice_at :: "SemanticContentSlice list \<Rightarrow> nat \<Rightarrow> content_value option" where
  "slice_at content x = map_option (\<lambda>s. (slice_identity s, slice_generation s)) (sl.span_at content x)"

section \<open>The stored spans are a range store\<close>

definition left_of :: "nat \<Rightarrow> StoredContent list \<Rightarrow> StoredContent list" where
  "left_of b stored = concat (map (\<lambda>s. if sc_end s \<le> b then [s]
     else if sc_begin s < b then [s\<lparr>sc_end := b\<rparr>] else []) stored)"

definition right_of :: "nat \<Rightarrow> StoredContent list \<Rightarrow> StoredContent list" where
  "right_of e stored = concat (map (\<lambda>s. if sc_begin s \<ge> e then [s]
     else if sc_end s > e then [s\<lparr>sc_begin := e\<rparr>] else []) stored)"

lemma replace_loop_True:
  "sc_begin r < sc_end r \<Longrightarrow> \<forall>s \<in> set stored. sc_begin r \<le> sc_begin s \<and> sc_begin s < sc_end s \<Longrightarrow>
   replace_loop r stored True updated = (True, updated @ right_of (sc_end r) stored)"
  by (induction stored arbitrary: updated) (auto simp: right_of_def)

lemma left_of_after: "\<forall>s \<in> set stored. b \<le> sc_begin s \<and> sc_begin s < sc_end s \<Longrightarrow> left_of b stored = []"
  by (auto simp: left_of_def)

lemma replace_loop_False:
  assumes "sc.spans_ok stored" and r: "sc_begin r < sc_end r"
  shows "(let (ins, upd) = replace_loop r stored False updated in if ins then upd else upd @ [r]) =
    updated @ left_of (sc_begin r) stored @ [r] @ right_of (sc_end r) stored"
  using assms(1)
proof (induction stored arbitrary: updated)
  case Nil
  then show ?case by (simp add: left_of_def right_of_def)
next
  case (Cons s stored)
  have s: "sc_begin s < sc_end s" and ok: "sc.spans_ok stored"
    and after: "\<forall>t \<in> set stored. sc_end s \<le> sc_begin t \<and> sc_begin t < sc_end t"
    using Cons.prems by (auto simp: sc.span_simps) (auto simp: sc.spans_ok_def)
  show ?case
  proof (cases "sc_end s \<le> sc_begin r")
    case True
    with Cons.IH [OF ok, of "updated @ [s]"] s r show ?thesis
      by (simp add: left_of_def right_of_def)
  next
    case False
    then have "\<forall>t \<in> set stored. sc_begin r \<le> sc_begin t \<and> sc_begin t < sc_end t" using after by auto
    with replace_loop_True [OF r, of stored] left_of_after [of stored "sc_begin r"] False s r show ?thesis
      by (auto simp: Let_def left_of_def right_of_def)
  qed
qed

lemma ReplaceContent_eq:
  "sc.spans_ok stored \<Longrightarrow> sc_begin r < sc_end r \<Longrightarrow>
   ReplaceContent stored r = left_of (sc_begin r) stored @ [r] @ right_of (sc_end r) stored"
  using replace_loop_False [of stored r "[]"] by (simp add: ReplaceContent_def)

lemma left_of_ok:
  "sc.spans_ok stored \<Longrightarrow>
   sc.spans_ok (left_of b stored) \<and> (\<forall>s \<in> set (left_of b stored). sc_end s \<le> b) \<and>
   stored_at (left_of b stored) x = (if x < b then stored_at stored x else None)"
proof (induction stored)
  case (Cons s stored)
  have s: "sc_begin s < sc_end s" and ok: "sc.spans_ok stored"
    and after: "\<forall>t \<in> set stored. sc_end s \<le> sc_begin t \<and> sc_begin t < sc_end t"
    using Cons.prems by (auto simp: sc.span_simps) (auto simp: sc.spans_ok_def)
  have sub: "\<exists>t' \<in> set stored. sc_begin t' = sc_begin t \<and> sc_end t \<le> sc_end t'"
    if "t \<in> set (left_of b stored)" for t
    using that by (force simp: left_of_def split: if_splits)
  then have after': "\<forall>t \<in> set (left_of b stored). sc_end s \<le> sc_begin t"
    using after by fastforce
  have e: "left_of b (s # stored) = (if sc_end s \<le> b then [s]
     else if sc_begin s < b then [s\<lparr>sc_end := b\<rparr>] else []) @ left_of b stored"
    by (simp add: left_of_def)
  from Cons.IH [OF ok] s after' show ?case
    unfolding e stored_at_def by (auto simp: sc.span_simps sc.spans_ok_append)
qed (simp add: left_of_def sc.span_simps stored_at_def)

lemma right_of_ok:
  "sc.spans_ok stored \<Longrightarrow>
   sc.spans_ok (right_of e stored) \<and> (\<forall>s \<in> set (right_of e stored). e \<le> sc_begin s) \<and>
   stored_at (right_of e stored) x = (if e \<le> x then stored_at stored x else None)"
proof (induction stored)
  case (Cons s stored)
  have s: "sc_begin s < sc_end s" and ok: "sc.spans_ok stored"
    and after: "\<forall>t \<in> set stored. sc_end s \<le> sc_begin t \<and> sc_begin t < sc_end t"
    using Cons.prems by (auto simp: sc.span_simps) (auto simp: sc.spans_ok_def)
  have "\<exists>t' \<in> set stored. sc_begin t' \<le> sc_begin t" if "t \<in> set (right_of e stored)" for t
    using that by (force simp: right_of_def split: if_splits)
  then have after': "\<forall>t \<in> set (right_of e stored). sc_end s \<le> sc_begin t"
    using after by fastforce
  have r: "right_of e (s # stored) = (if sc_begin s \<ge> e then [s]
     else if sc_end s > e then [s\<lparr>sc_begin := e\<rparr>] else []) @ right_of e stored"
    by (simp add: right_of_def)
  from Cons.IH [OF ok] s after' show ?case
    unfolding r stored_at_def by (auto simp: sc.span_simps sc.spans_ok_append)
qed (simp add: right_of_def sc.span_simps stored_at_def)

lemma ReplaceContent_refines:
  assumes "sc.spans_ok stored" and "sc_begin r < sc_end r"
  shows "sc.spans_ok (ReplaceContent stored r)"
    and "stored_at (ReplaceContent stored r) x =
      (if sc_begin r \<le> x \<and> x < sc_end r then Some (sc_identity r, sc_generation r) else stored_at stored x)"
proof -
  note l = left_of_ok [OF assms(1), of "sc_begin r"] and rt = right_of_ok [OF assms(1), of "sc_end r"]
  show "sc.spans_ok (ReplaceContent stored r)"
    unfolding ReplaceContent_eq [OF assms]
    using l rt assms(2) by (auto simp: sc.spans_ok_append sc.span_simps) (fastforce dest: bspec)
  have lx: "sc.span_at (left_of (sc_begin r) stored) x = None" if "sc_begin r \<le> x"
    using l [of x] that by (simp add: stored_at_def)
  have split: "stored_at (xs @ ys) x = (case sc.span_at xs x of None \<Rightarrow> stored_at ys x | Some _ \<Rightarrow> stored_at xs x)" for xs ys
    by (auto simp: stored_at_def sc.span_at_append split: option.splits)
  show "stored_at (ReplaceContent stored r) x =
      (if sc_begin r \<le> x \<and> x < sc_end r then Some (sc_identity r, sc_generation r) else stored_at stored x)"
  proof (cases "x < sc_begin r")
    case True
    with l [of x] rt [of x] assms(2) show ?thesis
      unfolding ReplaceContent_eq [OF assms] split
      by (auto simp: stored_at_def sc.span_simps split: option.splits)
  next
    case False
    with lx rt [of x] show ?thesis
      unfolding ReplaceContent_eq [OF assms] split
      by (auto simp: stored_at_def sc.span_simps)
  qed
qed

definition store_content :: "StoredContent list \<Rightarrow> nat \<Rightarrow> nat \<Rightarrow> content_value \<Rightarrow> StoredContent list" where
  "store_content stored b e v =
     ReplaceContent stored \<lparr>sc_begin = b, sc_end = e, sc_identity = fst v, sc_generation = snd v\<rparr>"

interpretation stored: span_store stored_at store_content "\<lambda>v k. Some v" sc.spans_ok
  by unfold_locales (simp_all add: store_content_def ReplaceContent_refines)

section \<open>Reads are tiled by what is stored\<close>

lemma AddContentSlice_tiles:
  assumes t: "sl.tiles b c content" and ce: "c < e"
  shows "sl.tiles b e (AddContentSlice content c e i g)"
    and "slice_at (AddContentSlice content c e i g) x =
      (if c \<le> x \<and> x < e then Some (i, g) else slice_at content x)"
proof -
  have hl: "content \<noteq> [] \<Longrightarrow> slice_end (last content) = c" using sl.tiles_hd_last [OF t] by simp
  show "sl.tiles b e (AddContentSlice content c e i g)"
  proof (cases content rule: rev_cases)
    case Nil
    with t ce show ?thesis by (simp add: AddContentSlice_def)
  next
    case (snoc as l)
    with t ce hl show ?thesis by (auto simp: AddContentSlice_def sl.tiles_append)
  qed
  have out: "sl.span_at content x = None" if "c \<le> x" for x
    by (rule sl.tiles_span_at_outside [OF t]) (use that in simp)
  show "slice_at (AddContentSlice content c e i g) x =
      (if c \<le> x \<and> x < e then Some (i, g) else slice_at content x)"
  proof (cases content rule: rev_cases)
    case Nil
    then show ?thesis using ce by (simp add: AddContentSlice_def slice_at_def sl.span_simps)
  next
    case (snoc as l)
    then have l: "slice_begin l < slice_end l" "slice_end l = c"
      using sl.tiles_bounds [OF t] hl by auto
    show ?thesis
    proof (cases "slice_identity l = i \<and> slice_generation l = g")
      case True
      have as: "c \<le> x \<Longrightarrow> sl.span_at as x = None" for x
        using out [of x] snoc by (simp add: sl.span_at_append split: option.splits)
      from True l snoc ce as show ?thesis
        by (auto simp: AddContentSlice_def slice_at_def sl.span_at_append sl.span_simps split: option.splits)
    next
      case False
      then have "AddContentSlice content c e i g = content @ [\<lparr>slice_begin = c, slice_end = e,
          slice_identity = i, slice_generation = g\<rparr>]"
        using snoc ce by (auto simp: AddContentSlice_def)
      with ce out show ?thesis
        by (auto simp: slice_at_def sl.span_at_append sl.span_simps split: option.splits)
    qed
  qed
qed

text \<open>The value a byte has when nothing was stored for it.\<close>

definition value_or :: "u64 \<Rightarrow> content_value option \<Rightarrow> content_value" where
  "value_or initial v = (case v of None \<Rightarrow> (initial, 0) | Some w \<Rightarrow> w)"

lemma annotate_read_loop_spec:
  assumes "sc.spans_ok stored" and "sl.tiles b cursor content" and "cursor < e"
    and "annotate_read_loop e initial stored cursor content = (cursor', content')"
  shows "cursor \<le> cursor' \<and> cursor' \<le> e \<and> sl.tiles b cursor' content' \<and>
    (\<forall>x < cursor. slice_at content' x = slice_at content x) \<and>
    (\<forall>x. cursor \<le> x \<and> x < cursor' \<longrightarrow> slice_at content' x = Some (value_or initial (stored_at stored x))) \<and>
    (\<forall>x. cursor' \<le> x \<and> x < e \<longrightarrow> stored_at stored x = None)"
  using assms
proof (induction stored arbitrary: cursor content)
  case Nil
  then show ?case by (auto simp: stored_at_def sc.span_simps)
next
  case (Cons s stored)
  have s: "sc_begin s < sc_end s" and ok: "sc.spans_ok stored"
    and after: "\<forall>t \<in> set stored. sc_end s \<le> sc_begin t"
    using Cons.prems(1) by (auto simp: sc.span_simps)
  have at: "stored_at (s # stored) x = (if sc_begin s \<le> x \<and> x < sc_end s
      then Some (sc_identity s, sc_generation s) else stored_at stored x)" for x
    by (simp add: stored_at_def sc.span_simps)
  have before: "stored_at stored x = None" if "x < sc_end s" for x
    using that after by (fastforce simp: stored_at_def intro!: sc.span_at_None)
  show ?case
  proof (cases "sc_end s \<le> cursor")
    case True
    with Cons.IH [OF ok Cons.prems(2,3)] Cons.prems(4) show ?thesis by (auto simp: at)
  next
    case False
    show ?thesis
    proof (cases "sc_begin s \<ge> e")
      case True
      with False Cons.prems s before show ?thesis by (auto simp: at)
    next
      case lt: False
      define m where "m = max cursor (sc_begin s)"
      define c1 where "c1 = (if sc_begin s > cursor then AddContentSlice content cursor m initial 0 else content)"
      define k where "k = min e (sc_end s)"
      define c2 where "c2 = AddContentSlice c1 m k (sc_identity s) (sc_generation s)"
      have ord: "cursor \<le> m" "m < k" "k \<le> e" "sc_begin s \<le> m" "k \<le> sc_end s"
        using False lt s Cons.prems(3) by (auto simp: m_def k_def)
      have t1: "sl.tiles b m c1"
        using AddContentSlice_tiles(1) [OF Cons.prems(2), of m initial 0] Cons.prems(2)
        by (auto simp: c1_def m_def max_def)
      have t2: "sl.tiles b k c2" unfolding c2_def by (rule AddContentSlice_tiles(1) [OF t1 ord(2)])
      have v1: "slice_at c1 x = (if cursor \<le> x \<and> x < m then Some (initial, 0) else slice_at content x)" for x
        using AddContentSlice_tiles(2) [OF Cons.prems(2), of m initial 0 x]
        by (auto simp: c1_def m_def)
      have v2: "slice_at c2 x = (if m \<le> x \<and> x < k then Some (sc_identity s, sc_generation s) else slice_at c1 x)" for x
        unfolding c2_def by (rule AddContentSlice_tiles(2) [OF t1 ord(2)])
      have here: "slice_at c2 x = Some (value_or initial (stored_at (s # stored) x))" if "cursor \<le> x" "x < k" for x
        using that ord before [of x] by (auto simp: v1 v2 at value_or_def m_def)
      have low: "slice_at c2 x = slice_at content x" if "x < cursor" for x
        using that ord by (simp add: v1 v2)
      have min: "min (sc_begin s) e = sc_begin s" "cursor < sc_begin s \<Longrightarrow> m = sc_begin s" using lt by (auto simp: m_def)
      have c1': "c1 = (if sc_begin s > cursor
          then AddContentSlice content cursor (min (sc_begin s) e) initial 0 else content)"
        using min by (simp add: c1_def)
      have "annotate_read_loop e initial (s # stored) cursor content =
          (if k = e then (k, c2) else annotate_read_loop e initial stored k c2)"
        using False lt by (simp only: annotate_read_loop.simps if_False Let_def flip: c1' m_def k_def c2_def)
      with Cons.prems(4) have res: "(cursor', content') =
          (if k = e then (k, c2) else annotate_read_loop e initial stored k c2)" by (simp only:)
      show ?thesis
      proof (cases "k = e")
        case True
        with res t2 here low ord show ?thesis by auto
      next
        case False
        then have k: "k < e" "k = sc_end s" using ord by (auto simp: k_def min_def split: if_splits)
        from Cons.IH [OF ok t2 k(1)] res False have IH: "k \<le> cursor' \<and> cursor' \<le> e \<and> sl.tiles b cursor' content' \<and>
          (\<forall>x < k. slice_at content' x = slice_at c2 x) \<and>
          (\<forall>x. k \<le> x \<and> x < cursor' \<longrightarrow> slice_at content' x = Some (value_or initial (stored_at stored x))) \<and>
          (\<forall>x. cursor' \<le> x \<and> x < e \<longrightarrow> stored_at stored x = None)" by simp
        have up: "k \<le> x \<Longrightarrow> stored_at (s # stored) x = stored_at stored x" for x using k by (simp add: at)
        have "slice_at content' x = Some (value_or initial (stored_at (s # stored) x))"
          if "cursor \<le> x" "x < cursor'" for x
          using IH here up that by (cases "x < k") auto
        moreover have "slice_at content' x = slice_at content x" if "x < cursor" for x
          using IH low that ord by auto
        ultimately show ?thesis using IH ord up by auto
      qed
    qed
  qed
qed

lemma AnnotateRead_spec:
  assumes "sc.spans_ok stored" and "acc_content a = []" and "acc_begin a < acc_end a"
  shows "sl.tiles (acc_begin a) (acc_end a) (acc_content (AnnotateRead a stored))"
    and "acc_begin a \<le> x \<Longrightarrow> x < acc_end a \<Longrightarrow> slice_at (acc_content (AnnotateRead a stored)) x =
      Some (value_or (InitialContentIdentity (acc_region a) (acc_index a)) (stored_at stored x))"
    and "AnnotateRead a stored = a\<lparr>acc_content := acc_content (AnnotateRead a stored)\<rparr>"
proof -
  let ?i = "InitialContentIdentity (acc_region a) (acc_index a)"
  obtain c sls where l: "annotate_read_loop (acc_end a) ?i stored (acc_begin a) [] = (c, sls)"
    by (cases "annotate_read_loop (acc_end a) ?i stored (acc_begin a) []")
  have t0: "sl.tiles (acc_begin a) (acc_begin a) []" by simp
  note spec = annotate_read_loop_spec [OF assms(1) t0 assms(3) l]
  have eq: "acc_content (AnnotateRead a stored) =
      (if c < acc_end a then AddContentSlice sls c (acc_end a) ?i 0 else sls)"
    using assms(2) by (simp add: AnnotateRead_def l)
  show "AnnotateRead a stored = a\<lparr>acc_content := acc_content (AnnotateRead a stored)\<rparr>"
    by (simp add: AnnotateRead_def Let_def split: prod.splits)
  show "sl.tiles (acc_begin a) (acc_end a) (acc_content (AnnotateRead a stored))"
    using spec AddContentSlice_tiles(1) [of "acc_begin a" c sls "acc_end a"] unfolding eq by auto
  assume x: "acc_begin a \<le> x" "x < acc_end a"
  show "slice_at (acc_content (AnnotateRead a stored)) x = Some (value_or ?i (stored_at stored x))"
  proof (cases "x < c")
    case True
    with spec x AddContentSlice_tiles(2) [of "acc_begin a" c sls "acc_end a" ?i 0 x] show ?thesis
      unfolding eq by auto
  next
    case False
    with spec x AddContentSlice_tiles(2) [of "acc_begin a" c sls "acc_end a" ?i 0 x] show ?thesis
      unfolding eq by (auto simp: value_or_def)
  qed
qed

section \<open>The annotated trace\<close>

text \<open>
  The accesses of a stream in program order form a trace.  The writes to a storage are read back
  from the annotation of the trace itself: each write carries one slice with its identity and its
  generation.  A good access is tiled by its slices; a write has the generation that counts the
  writes to its storage, and every byte of a read carries what the last write to it stored.
\<close>

abbreviation storage_of :: "SemanticMemoryAccess \<Rightarrow> u64" where
  "storage_of a \<equiv> StorageKey (acc_region a) (acc_index a)"

definition written :: "SemanticMemoryAccess \<Rightarrow> nat \<times> nat \<times> content_value" where
  "written a = (acc_begin a, acc_end a,
     slice_identity (hd (acc_content a)), slice_generation (hd (acc_content a)))"

definition writes_to :: "u64 \<Rightarrow> SemanticMemoryAccess list \<Rightarrow> (nat \<times> nat \<times> content_value) list" where
  "writes_to key as = map written (filter (\<lambda>a. IsWrite (acc_mode a) \<and> storage_of a = key) as)"

definition last_stored :: "(nat \<times> nat \<times> content_value) list \<Rightarrow> nat \<Rightarrow> content_value option" where
  "last_stored ws x = map_option (\<lambda>(b, e, v). v) (find (\<lambda>(b, e, v). b \<le> x \<and> x < e) (rev ws))"

definition good_access :: "SemanticMemoryAccess list \<Rightarrow> SemanticMemoryAccess \<Rightarrow> bool" where
  "good_access prefix a \<longleftrightarrow> acc_begin a < acc_end a \<and>
     sl.tiles (acc_begin a) (acc_end a) (acc_content a) \<and>
     (if IsWrite (acc_mode a)
      then length (acc_content a) = 1 \<and>
        slice_generation (hd (acc_content a)) = word_of_nat (Suc (length (writes_to (storage_of a) prefix)))
      else \<forall>x. acc_begin a \<le> x \<and> x < acc_end a \<longrightarrow> slice_at (acc_content a) x =
        Some (value_or (InitialContentIdentity (acc_region a) (acc_index a))
          (last_stored (writes_to (storage_of a) prefix) x)))"

definition trace_good :: "SemanticMemoryAccess list \<Rightarrow> bool" where
  "trace_good as \<longleftrightarrow> (\<forall>n < length as. good_access (take n as) (as ! n))"

lemma trace_good_snoc: "trace_good (as @ [a]) \<longleftrightarrow> trace_good as \<and> good_access as a"
  by (auto simp: trace_good_def nth_append less_Suc_eq)

lemma writes_to_snoc:
  "writes_to key (as @ [a]) =
     writes_to key as @ (if IsWrite (acc_mode a) \<and> storage_of a = key then [written a] else [])"
  by (simp add: writes_to_def)

definition store_of :: "SemanticMemoryAccess list \<Rightarrow> ContentState \<Rightarrow> bool" where
  "store_of done' s \<longleftrightarrow> (\<forall>key. contentByStorage s key = stored.replay (writes_to key done') [] \<and>
     generationByStorage s key = word_of_nat (length (writes_to key done')))"

lemma trace_store:
  assumes "trace_good done'" and "store_of done' s"
  shows "sc.spans_ok (contentByStorage s key)"
    and "stored_at (contentByStorage s key) x = last_stored (writes_to key done') x"
proof -
  have pos: "b < e" if "(b, e, w) \<in> set (writes_to key done')" for b e w
    using that assms(1)
    by (auto simp: writes_to_def written_def trace_good_def good_access_def in_set_conv_nth)
  have ok: "sc.spans_ok []" by (simp add: sc.span_simps)
  have eq: "contentByStorage s key = stored.replay (writes_to key done') []"
    using assms(2) by (simp add: store_of_def)
  show "sc.spans_ok (contentByStorage s key)"
    unfolding eq by (rule stored.ok_replay [OF ok]) (use pos in auto)
  show "stored_at (contentByStorage s key) x = last_stored (writes_to key done') x"
  proof -
    have "stored_at (stored.replay (writes_to key done') []) x =
        (case stored.last_write (writes_to key done') x of None \<Rightarrow> stored_at [] x | Some (b, e, w) \<Rightarrow> Some w)"
      by (rule stored.lookup_replay [OF ok]) (use pos in auto)
    then show ?thesis unfolding eq
      by (auto simp: last_stored_def stored.last_write_def stored_at_def [of "[]"] sc.span_simps
          split: option.splits)
  qed
qed

lemma annotate_access_step:
  assumes good: "trace_good done'" and st: "store_of done' s"
    and k: "k < length (cmd_memoryAccesses c)" and a: "a = cmd_memoryAccesses c ! k"
    and blank: "acc_content a = []" and pos: "acc_begin a < acc_end a"
  obtains a' s' where
    "annotate_access i k (c, s) = (c\<lparr>cmd_memoryAccesses := (cmd_memoryAccesses c)[k := a']\<rparr>, s')"
    "a' = a\<lparr>acc_content := acc_content a'\<rparr>" "trace_good (done' @ [a'])" "store_of (done' @ [a']) s'"
proof (cases "IsWrite (acc_mode a)")
  case False
  let ?st = "contentByStorage s (storage_of a)"
  define a' where "a' = AnnotateRead a ?st"
  note r = AnnotateRead_spec [OF trace_store(1) [OF good st, of "storage_of a"] blank pos, folded a'_def]
  have same: "acc_begin a' = acc_begin a" "acc_end a' = acc_end a" "acc_mode a' = acc_mode a"
    "acc_region a' = acc_region a" "acc_index a' = acc_index a"
    by (subst r(3), simp)+
  have "annotate_access i k (c, s) = (c\<lparr>cmd_memoryAccesses := (cmd_memoryAccesses c)[k := a']\<rparr>, s)"
    using False by (simp add: annotate_access_def a'_def flip: a)
  moreover have "good_access done' a'"
    using r(1,2) pos False by (simp add: good_access_def same trace_store(2) [OF good st])
  moreover have "store_of (done' @ [a']) s" using st False by (simp add: store_of_def writes_to_snoc same)
  ultimately show ?thesis using that r(3) good by (simp add: trace_good_snoc)
next
  case True
  define key where "key = storage_of a"
  define g where "g = generationByStorage s key + 1"
  define d where "d = write_identity i c k"
  define a' where "a' = a\<lparr>acc_content := [\<lparr>slice_begin = acc_begin a, slice_end = acc_end a,
    slice_identity = d, slice_generation = g\<rparr>]\<rparr>"
  define s' where "s' = \<lparr>contentByStorage = (contentByStorage s)(key := ReplaceContent (contentByStorage s key)
      \<lparr>sc_begin = acc_begin a, sc_end = acc_end a, sc_identity = d, sc_generation = g\<rparr>),
    generationByStorage = (generationByStorage s)(key := g)\<rparr>"
  have "annotate_access i k (c, s) = (c\<lparr>cmd_memoryAccesses := (cmd_memoryAccesses c)[k := a']\<rparr>, s')"
    using True blank
    by (simp add: annotate_access_def Let_def a'_def s'_def g_def d_def key_def flip: a)
  moreover have "good_access done' a'"
    using True pos st by (simp add: good_access_def a'_def g_def store_of_def key_def)
  moreover have "store_of (done' @ [a']) s'"
    unfolding store_of_def
  proof
    fix key'
    have w: "writes_to key' (done' @ [a']) = writes_to key' done' @ (if key' = key then [(acc_begin a, acc_end a, d, g)] else [])"
      using True by (auto simp: writes_to_snoc a'_def written_def key_def)
    have old: "contentByStorage s key' = stored.replay (writes_to key' done') []"
      "generationByStorage s key' = word_of_nat (length (writes_to key' done'))" for key'
      using st by (simp_all add: store_of_def)
    show "contentByStorage s' key' = stored.replay (writes_to key' (done' @ [a'])) [] \<and>
        generationByStorage s' key' = word_of_nat (length (writes_to key' (done' @ [a'])))"
      unfolding w using old [of key']
      by (auto simp: s'_def g_def stored.replay_append stored.replay_def store_content_def)
  qed
  ultimately show ?thesis using that good by (simp add: trace_good_snoc a'_def)
qed

definition strip_content :: "SemanticMemoryAccess \<Rightarrow> SemanticMemoryAccess" where
  "strip_content a = a\<lparr>acc_content := []\<rparr>"

text \<open>The annotated command differs from the given one only in the slices of its accesses.\<close>

definition annotation_of :: "SemanticCommand \<Rightarrow> SemanticCommand \<Rightarrow> bool" where
  "annotation_of c c' \<longleftrightarrow> c' = c\<lparr>cmd_memoryAccesses := cmd_memoryAccesses c'\<rparr> \<and>
     map strip_content (cmd_memoryAccesses c') = cmd_memoryAccesses c"

lemma wf_strip: "wf_access a \<Longrightarrow> strip_content a = a \<and> acc_content a = [] \<and> acc_begin a < acc_end a"
  by (simp add: wf_access_def strip_content_def)

lemma annotate_fold:
  assumes good: "trace_good done'" and st: "store_of done' s"
    and wf: "list_all wf_access (cmd_memoryAccesses c)"
  shows "k \<le> length (cmd_memoryAccesses c) \<Longrightarrow> \<exists>P s'. length P = k \<and>
    fold (annotate_access i) [0..<k] (c, s) =
      (c\<lparr>cmd_memoryAccesses := P @ drop k (cmd_memoryAccesses c)\<rparr>, s') \<and>
    map strip_content P = take k (cmd_memoryAccesses c) \<and> trace_good (done' @ P) \<and> store_of (done' @ P) s'"
proof (induction k)
  case 0
  show ?case using good st by simp
next
  case (Suc k)
  let ?L = "cmd_memoryAccesses c"
  from Suc obtain P s1 where P: "length P = k" "fold (annotate_access i) [0..<k] (c, s) =
      (c\<lparr>cmd_memoryAccesses := P @ drop k ?L\<rparr>, s1)" "map strip_content P = take k ?L"
      "trace_good (done' @ P)" "store_of (done' @ P) s1" by auto
  let ?c1 = "c\<lparr>cmd_memoryAccesses := P @ drop k ?L\<rparr>"
  have k: "k < length ?L" using Suc.prems by simp
  have at: "cmd_memoryAccesses ?c1 ! k = ?L ! k" using k P(1) by (simp add: nth_append)
  have w: "wf_access (?L ! k)" using wf k by (simp add: list_all_length)
  obtain a' s' where st': "annotate_access i k (?c1, s1) =
      (?c1\<lparr>cmd_memoryAccesses := (cmd_memoryAccesses ?c1)[k := a']\<rparr>, s')"
      and a': "a' = (?L ! k)\<lparr>acc_content := acc_content a'\<rparr>"
      "trace_good ((done' @ P) @ [a'])" "store_of ((done' @ P) @ [a']) s'"
    by (rule annotate_access_step [OF P(4,5), of k ?c1 "?L ! k" i])
      (use k P(1) at wf_strip [OF w] in auto)
  have upd: "(P @ drop k ?L)[k := a'] = (P @ [a']) @ drop (Suc k) ?L"
    using k P(1) by (simp add: list_update_append Cons_nth_drop_Suc [symmetric])
  have "strip_content a' = ?L ! k" 
    using wf_strip [OF w] by (subst a'(1)) (simp add: strip_content_def)
  then have "map strip_content (P @ [a']) = take (Suc k) ?L" using P(3) k by (simp add: take_Suc_conv_app_nth)
  moreover have "fold (annotate_access i) [0..<Suc k] (c, s) =
      (c\<lparr>cmd_memoryAccesses := (P @ [a']) @ drop (Suc k) ?L\<rparr>, s')"
    using P(2) st' upd by simp
  ultimately show ?case using a'(2,3) P(1) by (intro exI [of _ "P @ [a']"] exI [of _ s']) simp
qed

lemma annotate_command_spec:
  assumes "trace_good done'" and "store_of done' s" and "list_all wf_access (cmd_memoryAccesses c)"
    and "annotate_command i c s = (c', s')"
  shows "annotation_of c c' \<and> trace_good (done' @ cmd_memoryAccesses c') \<and>
    store_of (done' @ cmd_memoryAccesses c') s'"
proof -
  from annotate_fold [OF assms(1-3) order.refl, of i] assms(4) obtain P where
    "c' = c\<lparr>cmd_memoryAccesses := P\<rparr>" "map strip_content P = cmd_memoryAccesses c"
    "trace_good (done' @ P)" "store_of (done' @ P) s'"
    by (auto simp: annotate_command_def)
  then show ?thesis by (simp add: annotation_of_def)
qed

definition trace_of :: "SemanticCommand list \<Rightarrow> SemanticMemoryAccess list" where
  "trace_of cmds = concat (map cmd_memoryAccesses cmds)"

lemma annotate_commands_spec:
  assumes "trace_good done'" and "store_of done' s"
    and "\<forall>c \<in> set cmds. list_all wf_access (cmd_memoryAccesses c)"
  shows "list_all2 annotation_of cmds (annotate_commands i cmds s) \<and>
    trace_good (done' @ trace_of (annotate_commands i cmds s))"
  using assms
proof (induction cmds arbitrary: i s done')
  case (Cons c cmds)
  obtain c' s' where c: "annotate_command i c s = (c', s')" by (cases "annotate_command i c s")
  have "list_all wf_access (cmd_memoryAccesses c)" using Cons.prems(3) by simp
  from annotate_command_spec [OF Cons.prems(1,2) this c]
  have *: "annotation_of c c'" "trace_good (done' @ cmd_memoryAccesses c')"
    "store_of (done' @ cmd_memoryAccesses c') s'" by auto
  from Cons.IH [OF *(2,3), of "Suc i"] Cons.prems(3) *(1) c show ?case
    by (simp add: trace_of_def)
qed (simp add: trace_of_def)

lemma AnnotateContent_good:
  assumes "\<forall>c \<in> set cmds. list_all wf_access (cmd_memoryAccesses c)"
  shows "list_all2 annotation_of cmds (AnnotateContent cmds)" and "trace_good (trace_of (AnnotateContent cmds))"
proof -
  have "trace_good []" "store_of [] initial_content"
    by (simp_all add: trace_good_def store_of_def initial_content_def writes_to_def stored.replay_def)
  from annotate_commands_spec [OF this assms, of 0]
  show "list_all2 annotation_of cmds (AnnotateContent cmds)" "trace_good (trace_of (AnnotateContent cmds))"
    by (simp_all add: AnnotateContent_def)
qed

section \<open>The state annotation\<close>

definition state_writes :: "u64 \<Rightarrow> SemanticStateAccess list \<Rightarrow> u64 list" where
  "state_writes key as = map st_valueIdentity (filter (\<lambda>a. IsWrite (st_mode a) \<and> key_of a = key) as)"

definition last_or_0 :: "u64 list \<Rightarrow> u64" where
  "last_or_0 vs = (if vs = [] then 0 else last vs)"

text \<open>A good state access counts the writes to its state up to itself and holds the last one.\<close>

definition good_state :: "SemanticStateAccess list \<Rightarrow> SemanticStateAccess \<Rightarrow> bool" where
  "good_state prefix a \<longleftrightarrow>
     st_generation a = word_of_nat (length (state_writes (key_of a) (prefix @ [a]))) \<and>
     st_valueIdentity a = last_or_0 (state_writes (key_of a) (prefix @ [a]))"

definition state_trace_good :: "SemanticStateAccess list \<Rightarrow> bool" where
  "state_trace_good as \<longleftrightarrow> (\<forall>n < length as. good_state (take n as) (as ! n))"

definition versions_of :: "SemanticStateAccess list \<Rightarrow> (u64 \<Rightarrow> StateVersion) \<Rightarrow> bool" where
  "versions_of done' v \<longleftrightarrow> (\<forall>key.
     ver_generation (v key) = word_of_nat (length (state_writes key done')) \<and>
     ver_identity (v key) = last_or_0 (state_writes key done'))"

definition same_state_access :: "SemanticStateAccess \<Rightarrow> SemanticStateAccess \<Rightarrow> bool" where
  "same_state_access a a' \<longleftrightarrow> st_state a' = st_state a \<and> st_instance a' = st_instance a \<and>
     st_mode a' = st_mode a \<and> (IsWrite (st_mode a) \<and> st_valueIdentity a \<noteq> 0 \<longrightarrow>
       st_valueIdentity a' = st_valueIdentity a)"

lemma state_trace_snoc: "state_trace_good (as @ [a]) \<longleftrightarrow> state_trace_good as \<and> good_state as a"
  by (auto simp: state_trace_good_def nth_append less_Suc_eq)

lemma annotate_state_access_spec:
  assumes good: "state_trace_good done'" and v: "versions_of done' v"
    and st: "annotate_state_access i j a v = (a', v')"
  shows "same_state_access a a' \<and> state_trace_good (done' @ [a']) \<and> versions_of (done' @ [a']) v'"
proof -
  let ?k = "key_of a"
  define ver where "ver = (if IsWrite (st_mode a)
      then \<lparr>ver_identity = (if st_valueIdentity a \<noteq> 0 then st_valueIdentity a
              else CommandContentIdentity (word_of_nat i) (word_of_nat j)),
            ver_generation = ver_generation (v ?k) + 1\<rparr>
      else v ?k)"
  have a': "a' = a\<lparr>st_generation := ver_generation ver, st_valueIdentity := ver_identity ver\<rparr>"
    and v': "v' = v(?k := ver)"
    using st by (simp_all add: annotate_state_access_def Let_def ver_def)
  have w: "state_writes key (done' @ [a']) =
      state_writes key done' @ (if IsWrite (st_mode a) \<and> ?k = key then [ver_identity ver] else [])" for key
    by (simp add: state_writes_def a')
  have old: "ver_generation (v key) = word_of_nat (length (state_writes key done'))"
    "ver_identity (v key) = last_or_0 (state_writes key done')" for key
    using v by (simp_all add: versions_of_def)
  have new: "ver_generation ver = word_of_nat (length (state_writes ?k (done' @ [a'])))"
    "ver_identity ver = last_or_0 (state_writes ?k (done' @ [a']))"
  proof -
    have "ver_generation ver = (if IsWrite (st_mode a) then ver_generation (v ?k) + 1 else ver_generation (v ?k))"
      by (simp add: ver_def)
    then show "ver_generation ver = word_of_nat (length (state_writes ?k (done' @ [a'])))"
      unfolding w old by simp
    show "ver_identity ver = last_or_0 (state_writes ?k (done' @ [a']))"
    proof (cases "IsWrite (st_mode a)")
      case True
      then show ?thesis unfolding w by (simp add: last_or_0_def)
    next
      case False
      then have "ver_identity ver = ver_identity (v ?k)" by (simp add: ver_def)
      with False show ?thesis unfolding w old by simp
    qed
  qed
  have "st_generation a' = ver_generation ver" "st_valueIdentity a' = ver_identity ver" "key_of a' = ?k"
    by (simp_all add: a')
  then have "good_state done' a'" unfolding good_state_def using new by (simp only: simp_thms)
  moreover have "versions_of (done' @ [a']) v'"
    unfolding versions_of_def
  proof
    fix key
    show "ver_generation (v' key) = word_of_nat (length (state_writes key (done' @ [a']))) \<and>
        ver_identity (v' key) = last_or_0 (state_writes key (done' @ [a']))"
    proof (cases "key = ?k")
      case True
      then have "v' key = ver" by (simp add: v')
      with new show ?thesis unfolding True by (simp only: simp_thms)
    next
      case False
      then show ?thesis unfolding w using old [of key] by (simp add: v')
    qed
  qed
  moreover have "same_state_access a a'" by (simp add: same_state_access_def a' ver_def)
  ultimately show ?thesis using good by (simp add: state_trace_snoc)
qed

lemma annotate_state_accesses_spec:
  "state_trace_good done' \<Longrightarrow> versions_of done' v \<Longrightarrow> annotate_state_accesses i j as v = (as', v') \<Longrightarrow>
   list_all2 same_state_access as as' \<and> state_trace_good (done' @ as') \<and> versions_of (done' @ as') v'"
proof (induction i j as v arbitrary: as' v' done' rule: annotate_state_accesses.induct)
  case (2 i j a as v)
  obtain a1 v1 where s1: "annotate_state_access i j a v = (a1, v1)" by (cases "annotate_state_access i j a v")
  obtain as2 v2 where s2: "annotate_state_accesses i (Suc j) as v1 = (as2, v2)"
    by (cases "annotate_state_accesses i (Suc j) as v1")
  from annotate_state_access_spec [OF 2(2,3) s1] have *: "same_state_access a a1"
    "state_trace_good (done' @ [a1])" "versions_of (done' @ [a1]) v1" by auto
  have res: "as' = a1 # as2" "v' = v2" using 2(4) s1 s2 by simp_all
  from 2(1) [OF s1 [symmetric] refl *(2,3) s2] *(1) show ?case unfolding res by simp
qed simp

definition state_trace_of :: "SemanticCommand list \<Rightarrow> SemanticStateAccess list" where
  "state_trace_of cmds = concat (map cmd_stateAccesses cmds)"

definition state_annotation_of :: "SemanticCommand \<Rightarrow> SemanticCommand \<Rightarrow> bool" where
  "state_annotation_of c c' \<longleftrightarrow> c' = c\<lparr>cmd_stateAccesses := cmd_stateAccesses c'\<rparr> \<and>
     list_all2 same_state_access (cmd_stateAccesses c) (cmd_stateAccesses c')"

lemma annotate_states_spec:
  "state_trace_good done' \<Longrightarrow> versions_of done' v \<Longrightarrow>
   list_all2 state_annotation_of cmds (annotate_states i cmds v) \<and>
   state_trace_good (done' @ state_trace_of (annotate_states i cmds v))"
proof (induction i cmds v arbitrary: done' rule: annotate_states.induct)
  case (2 i c cmds v)
  obtain as' v' where s: "annotate_state_accesses i 0 (cmd_stateAccesses c) v = (as', v')"
    by (cases "annotate_state_accesses i 0 (cmd_stateAccesses c) v")
  from annotate_state_accesses_spec [OF 2(2,3) s] have *:
    "list_all2 same_state_access (cmd_stateAccesses c) as'"
    "state_trace_good (done' @ as')" "versions_of (done' @ as') v'" by auto
  from 2(1) [OF s [symmetric] refl *(2,3)] * s show ?case
    by (simp add: state_trace_of_def state_annotation_of_def)
qed (simp add: state_trace_of_def)

lemma AnnotateState_good:
  "list_all2 state_annotation_of cmds (AnnotateState cmds)" "state_trace_good (state_trace_of (AnnotateState cmds))"
proof -
  have "state_trace_good []" "versions_of [] (\<lambda>_. \<lparr>ver_identity = 0, ver_generation = 0\<rparr>)"
    by (simp_all add: state_trace_good_def versions_of_def state_writes_def last_or_0_def)
  from annotate_states_spec [OF this, of cmds 0]
  show "list_all2 state_annotation_of cmds (AnnotateState cmds)"
    "state_trace_good (state_trace_of (AnnotateState cmds))"
    by (simp_all add: AnnotateState_def)
qed

section \<open>The adjacency lists\<close>

lemma adjacency_fold:
  "length (fold (\<lambda>e adj. adj[f e := adj ! f e @ [t e]]) E adj) = length adj"
  "(\<And>e. e \<in> set E \<Longrightarrow> f e < length adj) \<Longrightarrow> i < length adj \<Longrightarrow>
   fold (\<lambda>e adj. adj[f e := adj ! f e @ [t e]]) E adj ! i = adj ! i @ map t (filter (\<lambda>e. f e = i) E)"
proof (induction E arbitrary: adj)
  case (Cons e E)
  {
    case 1
    show ?case using Cons(1) by simp
  next
    case 2
    then show ?case using Cons(2) [of "adj[f e := adj ! f e @ [t e]]"] by (auto simp: nth_list_update)
  }
qed simp_all

lemma sorted_distinct_remdups_adj: "sorted xs \<Longrightarrow> distinct (remdups_adj (xs :: nat list))"
proof (induction xs rule: remdups_adj.induct)
  case (3 x y xs)
  show ?case
  proof (cases "x = y")
    case False
    have "x \<notin> set (y # xs)"
    proof
      assume "x \<in> set (y # xs)"
      then have "x \<in> set xs" using False by simp
      then have "y \<le> x" "x \<le> y" using 3(3) by auto
      with False show False by simp
    qed
    with 3 False show ?thesis by simp
  qed (use 3 in simp)
qed simp_all

lemma adjacency_spec:
  assumes "\<And>e. e \<in> set E \<Longrightarrow> f e < n"
  shows "length (adjacency n f t E) = n"
    and "i < n \<Longrightarrow> set (adjacency n f t E ! i) = {t e | e. e \<in> set E \<and> f e = i}"
    and "i < n \<Longrightarrow> sorted (adjacency n f t E ! i) \<and> distinct (adjacency n f t E ! i)"
proof -
  show len: "length (adjacency n f t E) = n" by (simp add: adjacency_def adjacency_fold)
  assume i: "i < n"
  with assms have "adjacency n f t E ! i = remdups_adj (sort (map t (filter (\<lambda>e. f e = i) E)))"
    by (simp add: adjacency_def adjacency_fold)
  then show "set (adjacency n f t E ! i) = {t e | e. e \<in> set E \<and> f e = i}"
    "sorted (adjacency n f t E ! i) \<and> distinct (adjacency n f t E ! i)"
    by (auto simp: sorted_distinct_remdups_adj)
qed

text \<open>The graph of justified edges: adjacency and edges say the same, and indices increase.\<close>

definition graph_ok :: "nat \<Rightarrow> CommandDependencyGraph \<Rightarrow> bool" where
  "graph_ok n g \<longleftrightarrow> length (g_predecessors g) = n \<and> length (g_successors g) = n \<and>
     sorted (map edge_key (g_edges g)) \<and> distinct (map edge_key (g_edges g)) \<and>
     (\<forall>e \<in> set (g_edges g). dep_predecessor e < dep_successor e \<and> dep_successor e < n) \<and>
     (\<forall>i < n. sorted (g_predecessors g ! i) \<and> distinct (g_predecessors g ! i) \<and>
        sorted (g_successors g ! i) \<and> distinct (g_successors g ! i) \<and>
        set (g_predecessors g ! i) = {dep_predecessor e | e. e \<in> set (g_edges g) \<and> dep_successor e = i} \<and>
        set (g_successors g ! i) = {dep_successor e | e. e \<in> set (g_edges g) \<and> dep_predecessor e = i})"

lemma graph_of_ok:
  assumes ok: "edges_ok E" and just: "edges_justified cmds n E"
  shows "graph_ok n (graph_of n E)" and "map edge_key (g_edges (graph_of n E)) = E"
proof -
  have e: "p < q \<and> q < n \<and> DependencyKind_code (DependencyKinds ! k) = k" if "(p, q, k) \<in> set E" for p q k
    using just that unfolding edges_justified_def by (metis DependencyKinds_nth)
  show keys: "map edge_key (g_edges (graph_of n E)) = E"
    using e by (auto simp: graph_of_def edge_key_def intro!: map_idI)
  have bounds: "\<And>e. e \<in> set E \<Longrightarrow> (\<lambda>(p, s, k). s) e < n" "\<And>e. e \<in> set E \<Longrightarrow> (\<lambda>(p, s, k). p) e < n"
    using e by fastforce+
  note pre = adjacency_spec [where t = "\<lambda>(p, s, k). p", OF bounds(1)]
    and suc = adjacency_spec [where t = "\<lambda>(p, s, k). s", OF bounds(2)]
  have edges: "d \<in> set (g_edges (graph_of n E)) \<Longrightarrow> dep_predecessor d < dep_successor d \<and> dep_successor d < n" for d
    using e by (auto simp: graph_of_def)
  show "graph_ok n (graph_of n E)"
    unfolding graph_ok_def keys
  proof (intro conjI ballI allI impI)
    show "sorted E" "distinct E" using ok by (simp_all add: edges_ok_def)
    fix i assume i: "i < n"
    show "set (g_predecessors (graph_of n E) ! i) =
        {dep_predecessor e | e. e \<in> set (g_edges (graph_of n E)) \<and> dep_successor e = i}"
      "set (g_successors (graph_of n E) ! i) =
        {dep_successor e | e. e \<in> set (g_edges (graph_of n E)) \<and> dep_predecessor e = i}"
      using pre(2) [OF _ i] suc(2) [OF _ i] by (auto simp: graph_of_def) force+
  qed (use pre(1,3) suc(1,3) edges in \<open>simp_all add: graph_of_def\<close>)
qed

section \<open>The validator accepts what the builder produces\<close>

lemma validate_edges_ok:
  assumes "graph_ok n g" and "set edges \<subseteq> set (g_edges g)" and "distinct (map edge_key edges)"
    and "set (map edge_key edges) \<inter> set unique = {}"
  shows "validate_edges n g edges unique = None"
  using assms(2-4)
proof (induction edges arbitrary: unique)
  case (Cons e edges)
  have e: "dep_predecessor e < dep_successor e" "dep_successor e < n" "e \<in> set (g_edges g)"
    using assms(1) Cons.prems(1) by (auto simp: graph_ok_def)
  then have "dep_predecessor e < n" by simp
  with e assms(1) have adj: "dep_predecessor e \<in> set (g_predecessors g ! dep_successor e)"
    "dep_successor e \<in> set (g_successors g ! dep_predecessor e)"
    unfolding graph_ok_def by blast+
  with e Cons show ?case by (auto simp: set_insort_insert)
qed simp

lemma first_error_None: "first_error f xs = None \<longleftrightarrow> (\<forall>x \<in> set xs. f x = None)"
  by (induction xs) (auto split: option.splits)

lemma contiguous_tiles: "sl.tiles b e sls \<Longrightarrow> contiguous b sls"
  by (induction b e sls rule: sl.tiles.induct) auto

lemma validate_access_good:
  assumes "good_access prefix a" and "wf_access (strip_content a)"
  shows "validate_access a = None"
proof -
  have t: "sl.tiles (acc_begin a) (acc_end a) (acc_content a)" "acc_begin a < acc_end a"
    using assms(1) by (auto simp: good_access_def)
  with sl.tiles_empty [OF t(1)] have "acc_content a \<noteq> []" by auto
  with sl.tiles_hd_last [OF t(1)] contiguous_tiles [OF t(1)] t assms(2) show ?thesis
    by (auto simp: validate_access_def wf_access_def bank_ok_def strip_content_def)
qed

lemma trace_good_mem:
  assumes "trace_good as" and "a \<in> set as"
  shows "\<exists>prefix. good_access prefix a"
  using assms by (auto simp: trace_good_def in_set_conv_nth)

text \<open>What a stream must satisfy, command by command, for its graph to be built and scheduled.\<close>

definition command_ok :: "nat \<Rightarrow> SemanticCommand \<Rightarrow> bool" where
  "command_ok i c \<longleftrightarrow>
     cmd_sourceCommandIndex c = word_of_nat i \<and> 16 \<le> length (cmd_encoding c) \<and>
     Read16 (cmd_encoding c) 0 = CommandType_code (cmd_type c) \<and>
     read16n (cmd_encoding c) 2 = length (cmd_encoding c) \<and>
     issue_class (cmd_type c) (issue_of c) \<and> list_all wf_access (cmd_memoryAccesses c)"

definition stream_valid :: "SemanticCommand list \<Rightarrow> bool" where
  "stream_valid cmds \<longleftrightarrow> (\<forall>i < length cmds. command_ok i (cmds ! i))"

lemma stream_ok_valid: "stream_ok 0 cmds \<Longrightarrow> stream_valid cmds"
  using stream_ok_decoded [of 0 cmds]
  by (auto simp: stream_valid_def command_ok_def decoded_ok_def command_bytes_ok_def)

lemma annotated_fields:
  assumes "annotation_of c a" and "state_annotation_of a d"
  shows "cmd_type d = cmd_type c" "cmd_flags d = cmd_flags c" "cmd_layerId d = cmd_layerId c"
    "cmd_tileId d = cmd_tileId c" "cmd_sourceCommandIndex d = cmd_sourceCommandIndex c"
    "cmd_encoding d = cmd_encoding c" "cmd_controlFence d = cmd_controlFence c"
    "cmd_asynchronous d = cmd_asynchronous c" "cmd_asyncCapable d = cmd_asyncCapable c"
    "cmd_resources d = cmd_resources c" "cmd_queueId d = cmd_queueId c"
    "cmd_queueCapacity d = cmd_queueCapacity c" "cmd_estimatedCycles d = cmd_estimatedCycles c"
    "issue_of d = issue_of c" "cmd_memoryAccesses d = cmd_memoryAccesses a"
proof -
  obtain m where a: "a = c\<lparr>cmd_memoryAccesses := m\<rparr>" using assms(1) by (auto simp: annotation_of_def)
  obtain t where d: "d = a\<lparr>cmd_stateAccesses := t\<rparr>" using assms(2) by (auto simp: state_annotation_of_def)
  show "cmd_type d = cmd_type c" "cmd_flags d = cmd_flags c" "cmd_layerId d = cmd_layerId c"
    "cmd_tileId d = cmd_tileId c" "cmd_sourceCommandIndex d = cmd_sourceCommandIndex c"
    "cmd_encoding d = cmd_encoding c" "cmd_controlFence d = cmd_controlFence c"
    "cmd_asynchronous d = cmd_asynchronous c" "cmd_asyncCapable d = cmd_asyncCapable c"
    "cmd_resources d = cmd_resources c" "cmd_queueId d = cmd_queueId c"
    "cmd_queueCapacity d = cmd_queueCapacity c" "cmd_estimatedCycles d = cmd_estimatedCycles c"
    "issue_of d = issue_of c" "cmd_memoryAccesses d = cmd_memoryAccesses a"
    by (simp_all add: d a issue_of_def)
qed

lemma stream_valid_wf: "stream_valid cmds \<Longrightarrow> \<forall>c \<in> set cmds. list_all wf_access (cmd_memoryAccesses c)"
  by (auto simp: in_set_conv_nth stream_valid_def command_ok_def)

lemma annotated_nth:
  assumes "stream_valid cmds"
  shows "length (AnnotateState (AnnotateContent cmds)) = length cmds"
    and "i < length cmds \<Longrightarrow> annotation_of (cmds ! i) (AnnotateContent cmds ! i) \<and>
      state_annotation_of (AnnotateContent cmds ! i) (AnnotateState (AnnotateContent cmds) ! i)"
  using AnnotateContent_good(1) [OF stream_valid_wf [OF assms]] AnnotateState_good(1) [of "AnnotateContent cmds"]
  by (auto simp: list_all2_conv_all_nth)

lemma Build_eq:
  assumes "stream_valid cmds"
  shows "BuildCommandDependencyGraph cmds =
    Inr (AnnotateState (AnnotateContent cmds), graph_of (length cmds) (build_edges cmds))"
proof -
  let ?n = "length cmds" and ?g = "graph_of (length cmds) (build_edges cmds)"
  let ?a = "AnnotateContent cmds" and ?s = "AnnotateState (AnnotateContent cmds)"
  note g = graph_of_ok [OF build_edges_facts(1,2), of cmds]
  have dec: "command_ok i (cmds ! i)" if "i < ?n" for i
    using assms that by (simp add: stream_valid_def)
  note ann = AnnotateContent_good(2) [OF stream_valid_wf [OF assms]]
  note nth = annotated_nth [OF assms]
  have la: "length ?a = ?n" using AnnotateContent_good(1) [OF stream_valid_wf [OF assms]]
    by (simp add: list_all2_lengthD)
  note len = la nth(1)
  have "validate_command (i, ?s ! i) = None" if i: "i < ?n" for i
  proof -
    note c = nth(2) [OF i]
    note fields = annotated_fields [OF c [THEN conjunct1] c [THEN conjunct2]]
    have "validate_access a = None" if a: "a \<in> set (cmd_memoryAccesses (?a ! i))" for a
    proof -
      have "a \<in> set (trace_of ?a)" using a i len by (auto simp: trace_of_def)
      from trace_good_mem [OF ann this] obtain prefix where "good_access prefix a" by blast
      moreover have "strip_content a \<in> set (cmd_memoryAccesses (cmds ! i))"
        using c a unfolding annotation_of_def by (metis image_eqI set_map)
      ultimately show ?thesis
        using validate_access_good dec [OF i] by (auto simp: command_ok_def list_all_iff)
    qed
    with dec [OF i] show ?thesis
      by (auto simp: validate_command_def fields first_error_None command_ok_def)
  qed
  then have "first_error validate_command (List.enumerate 0 ?s) = None"
    by (auto simp: first_error_None in_set_enumerate_eq len)
  moreover have "validate_edges ?n ?g (g_edges ?g) [] = None"
    using g(1) by (intro validate_edges_ok) (auto simp: graph_ok_def)
  moreover have "length (g_predecessors ?g) = ?n" "length (g_successors ?g) = ?n"
    using g(1) by (simp_all add: graph_ok_def)
  ultimately show ?thesis
    by (simp add: BuildCommandDependencyGraph_def Let_def ValidateCommandDependencyGraph_def len)
qed

end
