(* ===== verification/NAI_ScheduleProof.thy ===== *)
theory NAI_ScheduleProof
  imports NAI_Scheduler NAI_Annotation
begin

text \<open>
  Correctness of \<^verbatim>\<open>ScheduleGlobalCommandStream\<close>.  The trace has a meaning of its own: which commands
  a queue still runs after a prefix (\<open>outstanding\<close>), and when emitting one more item is safe
  (\<open>item_ok\<close>).  The loop keeps an invariant that ties its bookkeeping to that meaning, never takes
  an error branch on a blocking stream whose commands came from the decoder, and ends with every
  command issued once and every queue drained.
\<close>

section \<open>The meaning of a trace\<close>

fun advance :: "SemanticCommand list \<Rightarrow> nat \<Rightarrow> item \<Rightarrow> nat list \<Rightarrow> nat list" where
  "advance C q (Issue i sub) running = (if sub \<and> AsyncQueue (C ! i) = Some q then running @ [i] else running)"
| "advance C q (Wait r) running = (if r = q then [] else running)"

definition outstanding :: "SemanticCommand list \<Rightarrow> nat \<Rightarrow> item list \<Rightarrow> nat list" where
  "outstanding C q t = fold (advance C q) t []"

definition issue_order :: "item list \<Rightarrow> nat list" where
  "issue_order t = concat (map (\<lambda>it. case it of Issue i sub \<Rightarrow> [i] | Wait q \<Rightarrow> []) t)"

abbreviation issued :: "item list \<Rightarrow> nat set" where
  "issued t \<equiv> set (issue_order t)"

definition item_ok :: "SemanticCommand list \<Rightarrow> CommandDependencyGraph \<Rightarrow> item list \<Rightarrow> item \<Rightarrow> bool" where
  "item_ok C g pre it =
     (case it of
        Wait q \<Rightarrow> q < QueueCount \<and> outstanding C q pre \<noteq> []
      | Issue i sub \<Rightarrow>
          i < length C \<and> i \<notin> issued pre \<and> set (g_predecessors g ! i) \<subseteq> issued pre \<and>
          (\<forall>p \<in> set (g_predecessors g ! i). \<not> IssueOrders (C ! p) (C ! i) \<longrightarrow>
             (\<forall>q. p \<notin> set (outstanding C q pre))) \<and>
          (cmd_controlFence (C ! i) \<longrightarrow> (\<forall>q. outstanding C q pre = [])) \<and>
          (UsesSystolic (C ! i) \<or> UsesSpatz (C ! i) \<longrightarrow> outstanding C SystolicQueue pre = []) \<and>
          (if sub then cmd_asyncCapable (C ! i) \<and> (\<exists>q. AsyncQueue (C ! i) = Some q \<and>
             length (outstanding C q pre) < unat (cmd_queueCapacity (C ! i)))
           else cmd_asyncCapable (C ! i) \<and> AsyncQueue (C ! i) \<noteq> None \<longrightarrow> (\<forall>q. outstanding C q pre = [])))"

definition trace_ok :: "SemanticCommand list \<Rightarrow> CommandDependencyGraph \<Rightarrow> item list \<Rightarrow> bool" where
  "trace_ok C g t \<longleftrightarrow> (\<forall>n < length t. item_ok C g (take n t) (t ! n))"

definition item_bytes :: "SemanticCommand list \<Rightarrow> item list \<Rightarrow> item \<Rightarrow> bytes" where
  "item_bytes C pre it =
     (case it of
        Issue i sub \<Rightarrow> (if sub
          then Write16 (cmd_encoding (C ! i)) 0 (CommandType_code (SubmitType (cmd_type (C ! i))))
          else cmd_encoding (C ! i))
      | Wait q \<Rightarrow> let owner = hd (outstanding C q pre)
          in WaitEncoding q (cmd_layerId (C ! owner)) (cmd_tileId (C ! owner)))"

definition trace_bytes :: "SemanticCommand list \<Rightarrow> item list \<Rightarrow> bytes" where
  "trace_bytes C t = concat (map (\<lambda>n. item_bytes C (take n t) (t ! n)) [0..<length t])"

lemma outstanding_simps [simp]:
  "outstanding C q [] = []" "outstanding C q (t @ [it]) = advance C q it (outstanding C q t)"
  by (simp_all add: outstanding_def)

lemma issue_order_simps [simp]:
  "issue_order [] = []" "issue_order (t @ u) = issue_order t @ issue_order u"
  "issue_order (Issue i sub # t) = i # issue_order t" "issue_order (Wait q # t) = issue_order t"
  by (simp_all add: issue_order_def)

lemma trace_ok_snoc: "trace_ok C g (t @ [it]) \<longleftrightarrow> trace_ok C g t \<and> item_ok C g t it"
  by (auto simp: trace_ok_def nth_append less_Suc_eq)

lemma trace_ok_Nil: "trace_ok C g []"
  by (simp add: trace_ok_def)

lemma trace_bytes_snoc: "trace_bytes C (t @ [it]) = trace_bytes C t @ item_bytes C t it"
proof -
  have "map (\<lambda>n. item_bytes C (take n (t @ [it])) ((t @ [it]) ! n)) [0..<length t] =
      map (\<lambda>n. item_bytes C (take n t) (t ! n)) [0..<length t]"
    by (rule map_cong) (auto simp: nth_append)
  moreover have "take (length t) (t @ [it]) = t" "(t @ [it]) ! length t = it" by simp_all
  moreover have "[0..<length (t @ [it])] = [0..<length t] @ [length t]" by simp
  ultimately show ?thesis
    unfolding trace_bytes_def by (simp only: map_append concat_append list.map concat.simps append_Nil2)
qed

lemma AsyncQueue_lt: "AsyncQueue c = Some q \<Longrightarrow> q < QueueCount"
  by (auto simp: AsyncQueue_def DMAQueues_def SystolicQueue_def QueueCount_def word_less_nat_alt split: if_splits)

lemma outstanding_in:
  "x \<in> set (outstanding C q t) \<longleftrightarrow>
   (\<exists>pre mid. t = pre @ Issue x True # mid \<and> AsyncQueue (C ! x) = Some q \<and> Wait q \<notin> set mid)"
proof (induction t rule: rev_induct)
  case (snoc it t)
  show ?case
  proof (cases it)
    case (Wait r)
    show ?thesis
    proof (cases "r = q")
      case True
      have "False" if "t @ [Wait q] = pre @ Issue x True # mid" "Wait q \<notin> set mid" for pre mid
        using that by (cases mid rule: rev_cases) auto
      with Wait True show ?thesis by auto
    next
      case False
      have "(\<exists>pre mid. t @ [Wait r] = pre @ Issue x True # mid \<and> A \<and> Wait q \<notin> set mid) \<longleftrightarrow>
          (\<exists>pre mid. t = pre @ Issue x True # mid \<and> A \<and> Wait q \<notin> set mid)" (is "?l \<longleftrightarrow> ?r") for A
      proof
        assume ?l
        then obtain pre mid where *: "t @ [Wait r] = pre @ Issue x True # mid" A "Wait q \<notin> set mid" by blast
        then obtain mid' where "mid = mid' @ [Wait r]" by (cases mid rule: rev_cases) auto
        with * show ?r by auto
      next
        assume ?r
        then obtain pre mid where "t = pre @ Issue x True # mid" A "Wait q \<notin> set mid" by blast
        then show ?l using False by (intro exI [of _ pre] exI [of _ "mid @ [Wait r]"]) auto
      qed
      with Wait False snoc.IH show ?thesis by simp
    qed
  next
    case (Issue i sub)
    have "(\<exists>pre mid. t @ [Issue i sub] = pre @ Issue x True # mid \<and> A \<and> Wait q \<notin> set mid) \<longleftrightarrow>
        (\<exists>pre mid. t = pre @ Issue x True # mid \<and> A \<and> Wait q \<notin> set mid) \<or> (i = x \<and> sub \<and> A)" (is "?l \<longleftrightarrow> ?r") for A
    proof
      assume ?l
      then obtain pre mid where *: "t @ [Issue i sub] = pre @ Issue x True # mid" A "Wait q \<notin> set mid" by blast
      show ?r
      proof (cases mid rule: rev_cases)
        case Nil
        with * show ?thesis by auto
      next
        case (snoc mid' y)
        with * show ?thesis by auto
      qed
    next
      assume ?r
      then show ?l
      proof (elim disjE conjE exE)
        fix pre mid assume "t = pre @ Issue x True # mid" A "Wait q \<notin> set mid"
        then show ?l by (intro exI [of _ pre] exI [of _ "mid @ [Issue i sub]"]) auto
      next
        assume "i = x" sub A
        then show ?l by (intro exI [of _ t] exI [of _ "[]"]) auto
      qed
    qed
    with Issue snoc.IH show ?thesis by auto
  qed
qed simp

lemma outstanding_issued: "x \<in> set (outstanding C q t) \<Longrightarrow> x \<in> issued t \<and> AsyncQueue (C ! x) = Some q"
  by (auto simp: outstanding_in)

lemma outstanding_high: "\<not> q < QueueCount \<Longrightarrow> outstanding C q t = []"
  using outstanding_issued AsyncQueue_lt by (metis last_in_set)

section \<open>What the scheduler may rely on\<close>

text \<open>A blocking stream of decoded commands, and a valid graph over it.\<close>

definition blocking :: "SemanticCommand \<Rightarrow> bool" where
  "blocking c \<longleftrightarrow> \<not> cmd_asynchronous c \<and> cmd_type c \<noteq> DMAWait \<and> cmd_type c \<noteq> SystolicWait"

definition schedulable :: "SemanticCommand list \<Rightarrow> CommandDependencyGraph \<Rightarrow> bool" where
  "schedulable C g \<longleftrightarrow> graph_ok (length C) g \<and>
     (\<forall>c \<in> set C. issue_class (cmd_type c) (issue_of c) \<and> blocking c)"

lemma async_class:
  assumes "issue_class (cmd_type c) (issue_of c)" and "blocking c" and "AsyncQueue c = Some q"
  shows "cmd_asyncCapable c" and "1 \<le> unat (cmd_queueCapacity c)" and "SubmitType (cmd_type c) \<noteq> cmd_type c"
proof -
  have no: "no_queue \<noteq> 0" "\<not> no_queue < DMAQueues" "\<not> (2::u32) \<le> 1"
    by (simp_all add: no_queue_def DMAQueues_def word_le_nat_alt)
  have "cmd_asyncCapable c \<and> 1 \<le> unat (cmd_queueCapacity c) \<and> SubmitType (cmd_type c) \<noteq> cmd_type c"
  proof (cases "IsDMA (cmd_type c)")
    case True
    then obtain d where d: "d \<le> 2" "issue_of c = dma_issue (cmd_type c) d"
      using assms(1) by (auto simp: issue_class_def)
    then have f: "cmd_asyncCapable c = (d \<le> 1)" "cmd_queueCapacity c = (if d \<le> 1 then DMAQueueDepth else 0)"
      "cmd_asynchronous c = IsDMASubmit (cmd_type c)" "cmd_queueId c = d"
      "cmd_resources c = (if d = 0 then 2 else if d = 1 then 4 else 32)"
      by (auto simp: issue_of_def dma_issue_def)
    have "d \<le> 1"
    proof (rule ccontr)
      assume "\<not> d \<le> 1"
      then have "d \<noteq> 0" "d \<noteq> 1" by auto
      with f assms(3) show False
        by (auto simp: AsyncQueue_def UsesDMA_def UsesSystolic_def UsesResource_def split: if_splits)
    qed
    moreover have "SubmitType (cmd_type c) \<noteq> cmd_type c"
      using True f(3) assms(2) by (auto simp: IsDMA_def SubmitType_def blocking_def IsDMASubmit_def)
    ultimately show ?thesis by (simp add: f DMAQueueDepth_def)
  next
    case False
    with assms(1,2) consider (lb) "cmd_type c \<in> {LineBufferJob, LineBufferSubmit, LineBufferBinary, LineBufferBinarySubmit}"
        "issue_of c = (ResourceMask Systolic, True, IsSystolicSubmit (cmd_type c), 1, 0, False)"
      | (plain) r f where "issue_of c = (r, False, False, 0, no_queue, f)"
      by (auto simp: issue_class_def blocking_def split: if_splits)
    then show ?thesis
    proof cases
      case lb
      with assms(2) show ?thesis
        by (auto simp: issue_of_def blocking_def IsSystolicSubmit_def SubmitType_def)
    next
      case plain
      then have "cmd_queueId c = no_queue" by (simp add: issue_of_def)
      with assms(3) no show ?thesis by (simp add: AsyncQueue_def)
    qed
  qed
  then show "cmd_asyncCapable c" "1 \<le> unat (cmd_queueCapacity c)" "SubmitType (cmd_type c) \<noteq> cmd_type c" by auto
qed

lemma completion_predecessors_set:
  "set (completion_predecessors C E j) =
     {dep_predecessor e | e. e \<in> set E \<and> dep_successor e = j \<and>
        \<not> IssueOrders (C ! dep_predecessor e) (C ! j)}"
proof -
  have "set (fold (\<lambda>edge preds.
       if \<not> IssueOrders (C ! dep_predecessor edge) (C ! dep_successor edge)
       then preds(dep_successor edge := preds (dep_successor edge) @ [dep_predecessor edge])
       else preds) E f j) = set (f j) \<union> {dep_predecessor e | e. e \<in> set E \<and> dep_successor e = j \<and>
        \<not> IssueOrders (C ! dep_predecessor e) (C ! j)}" for f
    by (induction E arbitrary: f) auto
  then show ?thesis by (simp add: completion_predecessors_def)
qed

locale schedule_run =
  fixes C :: "SemanticCommand list" and g :: CommandDependencyGraph and ctx :: ScheduleContext
  assumes ok: "schedulable C g" and ctx: "ctx = schedule_context C g"
begin

lemma ctx_simps: "ctx_commands ctx = C" "ctx_graph ctx = g"
  "ctx_completionPredecessors ctx = completion_predecessors C (g_edges g)"
  by (simp_all add: ctx schedule_context_def)

abbreviation preds :: "nat \<Rightarrow> nat list" where "preds i \<equiv> g_predecessors g ! i"

lemma graph: "graph_ok (length C) g"
  using ok by (simp add: schedulable_def)

lemma decoded_class: "i < length C \<Longrightarrow> issue_class (cmd_type (C ! i)) (issue_of (C ! i)) \<and> blocking (C ! i)"
  using ok by (simp add: schedulable_def)

lemma pred_lt: "i < length C \<Longrightarrow> p \<in> set (preds i) \<Longrightarrow> p < i"
  using graph unfolding graph_ok_def by auto

lemma succ_iff: "i < length C \<Longrightarrow> j \<in> set (g_successors g ! i) \<longleftrightarrow> j < length C \<and> i \<in> set (preds j)"
  using graph unfolding graph_ok_def by auto

lemma completion_iff:
  "j < length C \<Longrightarrow> p \<in> set (completion_predecessors C (g_edges g) j) \<longleftrightarrow>
   p \<in> set (preds j) \<and> \<not> IssueOrders (C ! p) (C ! j)"
  using graph unfolding graph_ok_def completion_predecessors_set by auto

text \<open>The commands that may be issued after a set \<open>D\<close> has been.\<close>

definition ready_after :: "nat set \<Rightarrow> nat set" where
  "ready_after D = {i. i < length C \<and> i \<notin> D \<and> set (preds i) \<subseteq> D}"

definition inv :: "ScheduleState \<Rightarrow> bool" where
  "inv s \<longleftrightarrow> trace_ok C g (ss_trace s) \<and>
     (\<forall>q. ss_pending s q = outstanding C q (ss_trace s)) \<and>
     (\<forall>i. ss_emitted s i \<longleftrightarrow> i \<in> issued (ss_trace s)) \<and>
     (\<forall>i q. ss_pendingQueue s i = Some q \<longleftrightarrow> i \<in> set (outstanding C q (ss_trace s))) \<and>
     ss_originalOrder s = issue_order (ss_trace s) \<and>
     ss_emittedCommands s = length (issue_order (ss_trace s)) \<and> distinct (issue_order (ss_trace s)) \<and>
     ss_scheduledBytes s = trace_bytes C (ss_trace s) \<and>
     sorted (ss_ready s) \<and> distinct (ss_ready s) \<and> set (ss_ready s) = ready_after (issued (ss_trace s)) \<and>
     (\<forall>i < length C. ss_indegree s i = int (card (set (preds i) - issued (ss_trace s))))"

lemma inv_initial: "inv (initial_schedule ctx)"
proof -
  have "distinct (preds i)" if "i < length C" for i using graph that unfolding graph_ok_def by blast
  then show ?thesis
    by (auto simp: inv_def initial_schedule_def Let_def ctx_simps trace_ok_Nil trace_bytes_def ready_after_def
        distinct_card sorted_filter [where f = "\<lambda>x. x", simplified])
qed

lemma issued_closed:
  "trace_ok C g t \<Longrightarrow> i \<in> issued t \<Longrightarrow> i < length C \<and> set (preds i) \<subseteq> issued t"
proof (induction t rule: rev_induct)
  case (snoc it t)
  then have *: "trace_ok C g t" "item_ok C g t it" by (auto simp: trace_ok_snoc)
  show ?case
  proof (cases "i \<in> issued t")
    case True
    with snoc.IH *(1) show ?thesis by auto
  next
    case False
    with snoc.prems(2) obtain sub where "it = Issue i sub" by (cases it) auto
    with *(2) show ?thesis by (auto simp: item_ok_def)
  qed
qed simp

lemma pending_zero: "inv s \<Longrightarrow> pendingCount s = 0 \<longleftrightarrow> (\<forall>q. outstanding C q (ss_trace s) = [])"
proof -
  assume i: "inv s"
  have p: "ss_pending s q = outstanding C q (ss_trace s)" for q using i by (simp add: inv_def)
  have "pendingCount s = 0 \<longleftrightarrow> (\<forall>q \<in> {0, 1, 2}. outstanding C q (ss_trace s) = [])"
    by (simp add: pendingCount_eq p)
  also have "\<dots> \<longleftrightarrow> (\<forall>q. outstanding C q (ss_trace s) = [])"
  proof
    assume small: "\<forall>q \<in> {0, 1, 2}. outstanding C q (ss_trace s) = []"
    have "q \<in> {0, 1, 2}" if "q < QueueCount" for q using that by (auto simp: QueueCount_def)
    with small show "\<forall>q. outstanding C q (ss_trace s) = []" using outstanding_high by metis
  qed simp
  finally show ?thesis .
qed

lemma inv_emitWait:
  assumes i: "inv s" and q: "q < QueueCount" "ss_pending s q \<noteq> []"
  shows "inv (emitWait ctx q s)"
proof -
  let ?t = "ss_trace s"
  have p: "ss_pending s r = outstanding C r ?t" for r using i by (simp add: inv_def)
  have pq: "ss_pendingQueue s j = Some r \<longleftrightarrow> j \<in> set (outstanding C r ?t)" for j r
    using i by (simp add: inv_def)
  have "item_ok C g ?t (Wait q)" using q p by (simp add: item_ok_def)
  moreover have "ss_pendingQueue (emitWait ctx q s) j = Some r \<longleftrightarrow>
      j \<in> set (outstanding C r (?t @ [Wait q]))" for j r
    using pq [of j q] pq [of j r] by (auto simp: emitWait_def Let_def p)
  moreover have "item_bytes C ?t (Wait q) = WaitEncoding q (cmd_layerId (C ! hd (ss_pending s q)))
      (cmd_tileId (C ! hd (ss_pending s q)))"
    by (simp add: item_bytes_def p Let_def)
  ultimately show ?thesis
    using i unfolding inv_def
    by (auto simp: emitWait_def Let_def ctx_simps trace_ok_snoc trace_bytes_snoc)
qed

lemma release_fold:
  "distinct xs \<Longrightarrow>
   ss_indegree (fold release_step xs s) j = ss_indegree s j - (if j \<in> set xs then 1 else 0) \<and>
   set (ss_ready (fold release_step xs s)) = set (ss_ready s) \<union> {k \<in> set xs. ss_indegree s k = 1} \<and>
   (sorted (ss_ready s) \<longrightarrow> sorted (ss_ready (fold release_step xs s))) \<and>
   (distinct (ss_ready s) \<longrightarrow> distinct (ss_ready (fold release_step xs s)))"
proof (induction xs arbitrary: s)
  case (Cons x xs)
  have r: "ss_indegree (release_step x s) k = ss_indegree s k - (if k = x then 1 else 0)"
    "set (ss_ready (release_step x s)) = set (ss_ready s) \<union> (if ss_indegree s x = 1 then {x} else {})"
    "sorted (ss_ready s) \<Longrightarrow> sorted (ss_ready (release_step x s))"
    "distinct (ss_ready s) \<Longrightarrow> distinct (ss_ready (release_step x s))" for k
    by (auto simp: release_step_def Let_def set_insort_insert sorted_insort_insert distinct_insort_insert)
  have "distinct xs" "x \<notin> set xs" using Cons.prems by auto
  with Cons.IH [of "release_step x s"] r show ?case by (auto split: if_splits)
qed simp

text \<open>The state once the command is queued or has blocked, before its successors are released.\<close>

definition queued :: "nat \<Rightarrow> bool \<Rightarrow> ScheduleState \<Rightarrow> ScheduleState \<Rightarrow> bool" where
  "queued i sub s s1 \<longleftrightarrow> ss_trace s1 = ss_trace s \<and> ss_emitted s1 = ss_emitted s \<and>
     ss_originalOrder s1 = ss_originalOrder s \<and> ss_scheduledBytes s1 = ss_scheduledBytes s \<and>
     ss_emittedCommands s1 = ss_emittedCommands s \<and> ss_indegree s1 = ss_indegree s \<and>
     ss_ready s1 = remove1 i (ss_ready s) \<and>
     (\<forall>q. ss_pending s1 q = advance C q (Issue i sub) (ss_pending s q)) \<and>
     (\<forall>j q. ss_pendingQueue s1 j = Some q \<longleftrightarrow>
        (if j = i \<and> sub then AsyncQueue (C ! i) = Some q else ss_pendingQueue s j = Some q))"

lemma inv_finish:
  assumes inv: "inv s" and i: "i \<in> set (ss_ready s)" and item: "item_ok C g (ss_trace s) (Issue i sub)"
    and s1: "queued i sub s s1"
    and enc: "enc = item_bytes C (ss_trace s) (Issue i sub)"
  shows "inv (finish_command ctx i sub enc s1)"
proof -
  let ?t = "ss_trace s" and ?s' = "finish_command ctx i sub enc s1"
  let ?D = "issued ?t" and ?succ = "g_successors g ! i"
  have n: "i < length C" "i \<notin> ?D" "set (preds i) \<subseteq> ?D" using item by (auto simp: item_ok_def)
  have dsucc: "distinct ?succ" using graph n(1) unfolding graph_ok_def by blast
  have closed: "j \<in> ?D \<Longrightarrow> j < length C \<and> set (preds j) \<subseteq> ?D" for j
    using issued_closed [of ?t j] inv by (simp add: inv_def)
  have deg: "ss_indegree s j = int (card (set (preds j) - ?D))" if "j < length C" for j
    using inv that by (simp add: inv_def)
  have rdy: "set (ss_ready s) = ready_after ?D" "sorted (ss_ready s)" "distinct (ss_ready s)"
    using inv by (simp_all add: inv_def)
  have s': "ss_trace ?s' = ?t @ [Issue i sub]" "ss_emitted ?s' = (ss_emitted s)(i := True)"
    "ss_originalOrder ?s' = ss_originalOrder s @ [i]" "ss_scheduledBytes ?s' = ss_scheduledBytes s @ enc"
    "ss_emittedCommands ?s' = Suc (ss_emittedCommands s)" "ss_pending ?s' = ss_pending s1"
    "ss_pendingQueue ?s' = ss_pendingQueue s1"
    using s1 by (simp_all add: finish_command_def fold_release_frame queued_def)
  note rel = release_fold [OF dsucc, of "s1\<lparr>ss_scheduledBytes := ss_scheduledBytes s1 @ enc,
      ss_originalOrder := ss_originalOrder s1 @ [i], ss_emitted := (ss_emitted s1)(i := True),
      ss_emittedCommands := ss_emittedCommands s1 + 1, ss_trace := ss_trace s1 @ [Issue i sub]\<rparr>"]
  have fin: "ss_indegree ?s' j = ss_indegree s j - (if j \<in> set ?succ then 1 else 0)"
    "set (ss_ready ?s') = set (remove1 i (ss_ready s)) \<union> {k \<in> set ?succ. ss_indegree s k = 1}"
    "sorted (ss_ready ?s')" "distinct (ss_ready ?s')" for j
    using rel s1 rdy by (simp_all add: finish_command_def ctx_simps queued_def sorted_remove1)
  have card: "card (set (preds j) - insert i ?D) =
      card (set (preds j) - ?D) - (if i \<in> set (preds j) then 1 else 0)" for j
    using n(2) by (simp add: Diff_insert [symmetric] card_Diff_singleton_if flip: Diff_insert)
  have pos: "i \<in> set (preds j) \<Longrightarrow> 1 \<le> card (set (preds j) - ?D)" for j
    using n(2) by (metis DiffI One_nat_def Suc_leI card_gt_0_iff empty_iff finite_Diff finite_set)
  have "ss_indegree ?s' j = int (card (set (preds j) - insert i ?D))" if j: "j < length C" for j
    using fin(1) [of j] deg [OF j] card [of j] pos [of j] succ_iff [OF n(1)] j by auto
  moreover have "set (ss_ready ?s') = ready_after (insert i ?D)"
  proof -
    have one: "ss_indegree s k = 1 \<longleftrightarrow> set (preds k) - ?D = {i}" if "k \<in> set ?succ" for k
    proof -
      have k: "k < length C" "i \<in> set (preds k) - ?D" using that succ_iff [OF n(1)] n(2) by auto
      have "card (set (preds k) - ?D) = 1 \<longleftrightarrow> set (preds k) - ?D = {i}"
        using k(2) by (metis card_1_singletonE is_singletonI is_singleton_altdef singletonD)
      with deg [OF k(1)] show ?thesis by simp
    qed
    have "k \<in> set (ss_ready ?s') \<longleftrightarrow> k \<in> ready_after (insert i ?D)" for k
    proof (cases "k \<in> set ?succ")
      case True
      then have k: "k < length C" "i \<in> set (preds k)" using succ_iff [OF n(1)] by auto
      have "k \<notin> ?D" using closed k(2) n(2) by blast
      moreover have "k \<noteq> i" using pred_lt [OF k] by simp
      ultimately show ?thesis
        using True k n(2) fin(2) one [OF True] rdy by (auto simp: ready_after_def)
    next
      case False
      then have "k < length C \<Longrightarrow> i \<notin> set (preds k)" using succ_iff [OF n(1)] by auto
      with False fin(2) rdy show ?thesis by (auto simp: ready_after_def)
    qed
    then show ?thesis by blast
  qed
  moreover have "ss_pendingQueue s1 j = Some q \<longleftrightarrow> j \<in> set (outstanding C q (?t @ [Issue i sub]))" for j q
  proof -
    have "i \<notin> set (outstanding C r ?t)" for r using outstanding_issued n(2) by blast
    with s1 inv show ?thesis unfolding queued_def inv_def by auto
  qed
  ultimately show ?thesis
    using inv s1 item enc n(2) fin(3,4) unfolding inv_def s'
    by (simp add: queued_def trace_ok_snoc trace_bytes_snoc del: advance.simps)
qed

lemma blocked_iff:
  assumes "inv s" and "i < length C"
  shows "hasBlockedQueue ctx s i \<longleftrightarrow>
    (\<exists>q. outstanding C q (ss_trace s) \<noteq> [] \<and> cmd_controlFence (C ! i)) \<or>
    (\<exists>q. \<exists>p \<in> set (preds i). \<not> IssueOrders (C ! p) (C ! i) \<and> p \<in> set (outstanding C q (ss_trace s))) \<or>
    ((UsesSystolic (C ! i) \<or> UsesSpatz (C ! i)) \<and> outstanding C SystolicQueue (ss_trace s) \<noteq> []) \<or>
    (\<exists>q. AsyncQueue (C ! i) = Some q \<and>
       unat (cmd_queueCapacity (C ! i)) \<le> length (outstanding C q (ss_trace s)))"
proof -
  have p: "ss_pending s q = outstanding C q (ss_trace s)" for q using assms(1) by (simp add: inv_def)
  have pq: "ss_pendingQueue s j = Some q \<longleftrightarrow> j \<in> set (outstanding C q (ss_trace s))" for j q
    using assms(1) by (simp add: inv_def)
  have lt: "outstanding C q (ss_trace s) \<noteq> [] \<Longrightarrow> q < QueueCount" for q using outstanding_high by blast
  have mem: "j \<in> set (outstanding C q (ss_trace s)) \<Longrightarrow> q < QueueCount" for j q
    using lt by (metis empty_iff list.set(1))
  have sys: "SystolicQueue < QueueCount" by (simp add: SystolicQueue_def QueueCount_def)
  show ?thesis
    unfolding hasBlockedQueue_def queuesBlocking_def Let_def ctx_simps p pq list_ex_iff
      completion_iff [OF assms(2)] Bex_def
    using lt mem AsyncQueue_lt [of "C ! i"] sys by (auto simp: atLeast0LessThan)
qed

lemma inv_issue:
  assumes i: "inv s" and r: "c \<in> set (ss_ready s)" and nb: "\<not> hasBlockedQueue ctx s c"
  shows "\<exists>s'. issue_command ctx c s = Inr s' \<and> inv s'"
proof -
  let ?t = "ss_trace s"
  have c: "c < length C" "c \<notin> issued ?t" "set (preds c) \<subseteq> issued ?t"
    using i r by (auto simp: inv_def ready_after_def)
  note free = nb [unfolded blocked_iff [OF i c(1)]]
  have p: "ss_pending s q = outstanding C q ?t" for q using i by (simp add: inv_def)
  have pq: "ss_pendingQueue s c = None"
  proof (cases "ss_pendingQueue s c")
    case (Some q)
    then have "c \<in> set (outstanding C q ?t)" using i by (simp add: inv_def)
    then show ?thesis using outstanding_issued c(2) by blast
  qed simp
  let ?r = "s\<lparr>ss_ready := remove1 c (ss_ready s)\<rparr>"
  define s0 where "s0 = (if cmd_type (C ! c) = RQLoad \<and> ss_pending ?r SystolicQueue \<noteq> []
    then ?r\<lparr>ss_stats := (ss_stats ?r)\<lparr>stat_qparamPreloads := stat_qparamPreloads (ss_stats ?r) + 1\<rparr>\<rparr>
    else ?r)"
  note issue = issue_command_def [of ctx c s, unfolded Let_def ctx_simps, folded s0_def]
  have cnt: "pendingCount s0 = pendingCount s" by (simp add: s0_def pendingCount_def)
  define sub where "sub \<longleftrightarrow> AsyncQueue (C ! c) \<noteq> None \<and> cmd_asyncCapable (C ! c) \<and>
    (pendingCount s0 \<noteq> 0 \<or> hasOverlapOpportunity ctx s0 c)"
  have item: "item_ok C g ?t (Issue c sub)"
    using c free pending_zero [OF i] cnt unfolding item_ok_def sub_def by (auto simp: not_le)
  have q0: "queued c False s (block_command ctx c s0)"
    using pq by (auto simp: queued_def block_command_def s0_def)
  show ?thesis
  proof (cases sub)
    case True
    then obtain q where q: "AsyncQueue (C ! c) = Some q" by (auto simp: sub_def)
    have "SubmitType (cmd_type (C ! c)) \<noteq> cmd_type (C ! c)"
      using async_class(3) decoded_class [OF c(1)] q by blast
    then have "issue_command ctx c s = Inr (finish_command ctx c True
        (Write16 (cmd_encoding (C ! c)) 0 (CommandType_code (SubmitType (cmd_type (C ! c)))))
        (submit_command ctx c q s0))"
      using True q unfolding issue by (simp add: sub_def)
    moreover have "queued c True s (submit_command ctx c q s0)"
      using q by (auto simp: queued_def submit_command_def Let_def s0_def)
    ultimately show ?thesis
      using inv_finish [OF i r, of True] item True by (simp add: item_bytes_def)
  next
    case False
    then have "issue_command ctx c s = Inr (finish_command ctx c False (cmd_encoding (C ! c)) (block_command ctx c s0))"
      unfolding issue by (auto simp: sub_def split: option.splits)
    then show ?thesis
      using inv_finish [OF i r, of False] item False q0 by (simp add: item_bytes_def)
  qed
qed

lemma select_fold:
  "(case sel_selected (fold (select_step ctx s) xs sel) of
      Some i \<Rightarrow> sel_selected sel = Some i \<or> (i \<in> set xs \<and> \<not> hasBlockedQueue ctx s i)
    | None \<Rightarrow> sel_selected sel = None \<and>
        (\<forall>c \<in> set xs. hasBlockedQueue ctx s c \<or> bankPenaltyRejects ctx s c))"
proof (induction xs arbitrary: sel)
  case (Cons x xs)
  define sel1 where "sel1 = select_step ctx s x sel"
  have f1: "sel_selected sel1 = sel_selected sel" if "hasBlockedQueue ctx s x \<or> bankPenaltyRejects ctx s x"
    using that by (auto simp: sel1_def select_step_def)
  have f2: "sel_selected sel1 = sel_selected sel \<or> sel_selected sel1 = Some x \<and> \<not> hasBlockedQueue ctx s x"
    by (simp add: sel1_def select_step_def Let_def)
  have f3: "sel_selected sel1 \<noteq> None" if "\<not> hasBlockedQueue ctx s x" "\<not> bankPenaltyRejects ctx s x"
    using that by (auto simp: sel1_def select_step_def Let_def split: option.splits)
  have eq: "fold (select_step ctx s) (x # xs) sel = fold (select_step ctx s) xs sel1" by (simp add: sel1_def)
  show ?case
  proof (cases "sel_selected (fold (select_step ctx s) xs sel1)")
    case None
    with Cons.IH [of sel1] have "sel_selected sel1 = None"
      "\<forall>c \<in> set xs. hasBlockedQueue ctx s c \<or> bankPenaltyRejects ctx s c" by auto
    moreover from this(1) f3 have r: "hasBlockedQueue ctx s x \<or> bankPenaltyRejects ctx s x" by blast
    moreover from f1 [OF r] calculation(1) have "sel_selected sel = None" by simp
    ultimately show ?thesis unfolding eq using None by simp
  next
    case (Some i)
    with Cons.IH [of sel1] have "sel_selected sel1 = Some i \<or> i \<in> set xs \<and> \<not> hasBlockedQueue ctx s i" by simp
    with f2 have "sel_selected sel = Some i \<or> i \<in> set (x # xs) \<and> \<not> hasBlockedQueue ctx s i" by auto
    then show ?thesis unfolding eq Some by simp
  qed
qed (simp split: option.splits)

lemma select_Some:
  "sel_selected (select_command ctx s) = Some i \<Longrightarrow> i \<in> set (ss_ready s) \<and> \<not> hasBlockedQueue ctx s i"
  using select_fold [where s = s and xs = "ss_ready s" and sel = "\<lparr>sel_selected = None, sel_priority = -1, sel_sawBankDeferral = False\<rparr>"]
  by (simp add: select_command_def)

lemma select_None:
  "sel_selected (select_command ctx s) = None \<Longrightarrow> c \<in> set (ss_ready s) \<Longrightarrow>
   hasBlockedQueue ctx s c \<or> bankPenaltyRejects ctx s c"
  using select_fold [where s = s and xs = "ss_ready s" and sel = "\<lparr>sel_selected = None, sel_priority = -1, sel_sawBankDeferral = False\<rparr>"]
  by (simp add: select_command_def)

text \<open>While commands are left and nothing is pending, some command can be issued.\<close>

lemma progress:
  assumes i: "inv s" and lt: "ss_emittedCommands s < length C" and z: "pendingCount s = 0"
  shows "sel_selected (select_command ctx s) \<noteq> None"
proof
  assume none: "sel_selected (select_command ctx s) = None"
  let ?D = "issued (ss_trace s)"
  have "card ?D < length C" using i lt by (simp add: inv_def distinct_card)
  then have "\<exists>k < length C. k \<notin> ?D"
    using card_mono [of ?D "{..<length C}"] by (metis card_lessThan finite_set lessThan_iff not_less subsetI)
  then obtain k where k: "k < length C" "k \<notin> ?D" and least: "\<And>m. m < k \<Longrightarrow> m \<in> ?D"
    using exists_least_iff [of "\<lambda>k. k < length C \<and> k \<notin> ?D"] by auto
  have "k \<in> set (ss_ready s)"
    using k least pred_lt [OF k(1)] i by (auto simp: inv_def ready_after_def)
  from select_None [OF none this] have "hasBlockedQueue ctx s k"
    using z by (simp add: bankPenaltyRejects_def)
  moreover have "\<forall>q. outstanding C q (ss_trace s) = []" using pending_zero [OF i] z by simp
  ultimately obtain q where q: "AsyncQueue (C ! k) = Some q" "unat (cmd_queueCapacity (C ! k)) = 0"
    unfolding blocked_iff [OF i k(1)] by auto
  from async_class(2) [OF _ _ q(1)] decoded_class [OF k(1)] q(2) show False by simp
qed

lemma fallback_total:
  "q \<in> set qs \<Longrightarrow> ss_pending s q \<noteq> [] \<or> w \<noteq> None \<Longrightarrow> fold (fallback_step s) qs w \<noteq> None"
proof (induction qs arbitrary: w)
  case (Cons r qs)
  have keep: "v \<noteq> None \<Longrightarrow> fold (fallback_step s) xs v \<noteq> None" for xs v
    by (induction xs arbitrary: v) (auto simp: fallback_step_def)
  show ?case
  proof (cases "fallback_step s r w = None")
    case True
    then have "w = None" "ss_pending s r = []" by (auto simp: fallback_step_def split: if_splits option.splits)
    with Cons show ?thesis by auto
  next
    case False
    with keep show ?thesis by simp
  qed
qed simp

lemma inv_step:
  assumes i: "inv s" and lt: "ss_emittedCommands s < length C"
  shows "\<exists>s'. schedule_step ctx s = Inr s' \<and> inv s'"
proof (cases "sel_selected (select_command ctx s)")
  case (Some c)
  with select_Some [OF this] inv_issue [OF i] show ?thesis by (auto simp: schedule_step_def)
next
  case None
  with progress [OF i lt] have z: "pendingCount s \<noteq> 0" by blast
  then obtain q where q: "q < QueueCount" "ss_pending s q \<noteq> []" by (auto simp: pendingCount_def)
  then have "choose_wait ctx s \<noteq> None"
    using fallback_total [of q "[0..<QueueCount]" s None] by (auto simp: choose_wait_def split: option.splits)
  then obtain r where r: "choose_wait ctx s = Some r" by blast
  define u where "u = (if sel_sawBankDeferral (select_command ctx s)
    then s\<lparr>ss_stats := (ss_stats s)\<lparr>stat_bankConflictDeferrals := stat_bankConflictDeferrals (ss_stats s) + 1\<rparr>\<rparr>
    else s)"
  have "inv u" using i by (simp add: u_def inv_def)
  moreover have "r < QueueCount" "ss_pending u r \<noteq> []"
    using choose_wait_pending [OF r] by (simp_all add: u_def)
  ultimately have "inv (emitWait ctx r u)" by (rule inv_emitWait)
  moreover have "schedule_step ctx s = Inr (emitWait ctx r u)"
    using None z r by (simp add: schedule_step_def Let_def u_def)
  ultimately show ?thesis by blast
qed

lemma loop_ok:
  "ctx' = ctx \<Longrightarrow> inv s \<Longrightarrow>
   \<exists>s'. schedule_loop ctx' s = Inr s' \<and> inv s' \<and> length C \<le> ss_emittedCommands s'"
proof (induction ctx' s rule: schedule_loop.induct)
  case (1 ctx' s)
  show ?case
  proof (cases "ss_emittedCommands s < length C")
    case True
    from inv_step [OF 1(3) this] obtain s' where s': "schedule_step ctx s = Inr s'" "inv s'" by blast
    from 1(1) [of s'] 1(2) True s' show ?thesis
      by (subst schedule_loop.simps) (simp add: ctx_simps)
  next
    case False
    with 1 show ?thesis by (subst schedule_loop.simps) (simp add: ctx_simps)
  qed
qed

definition drain_step :: "nat \<Rightarrow> ScheduleState \<Rightarrow> ScheduleState" where
  "drain_step q s = (if ss_pending s q \<noteq> [] then emitWait ctx q s else s)"

lemma drain_step:
  assumes "inv s" and "q < QueueCount"
  shows "inv (drain_step q s)" and "issue_order (ss_trace (drain_step q s)) = issue_order (ss_trace s)"
    and "outstanding C r (ss_trace (drain_step q s)) = (if r = q then [] else outstanding C r (ss_trace s))"
proof -
  show "inv (drain_step q s)" using assms inv_emitWait by (simp add: drain_step_def)
  have "ss_pending s q = outstanding C q (ss_trace s)" using assms(1) by (simp add: inv_def)
  then show "issue_order (ss_trace (drain_step q s)) = issue_order (ss_trace s)"
    "outstanding C r (ss_trace (drain_step q s)) = (if r = q then [] else outstanding C r (ss_trace s))"
    by (auto simp: drain_step_def emitWait_def Let_def)
qed

lemma drain_ok:
  assumes "inv s"
  shows "inv (drain_queues ctx s)" and "issue_order (ss_trace (drain_queues ctx s)) = issue_order (ss_trace s)"
    and "\<forall>q. outstanding C q (ss_trace (drain_queues ctx s)) = []"
proof -
  have eq: "drain_queues ctx s = drain_step 2 (drain_step 1 (drain_step 0 s))"
    by (simp add: drain_queues_def drain_step_def QueueCount_def numeral_3_eq_3 numeral_2_eq_2)
  have lt: "0 < QueueCount" "1 < QueueCount" "2 < QueueCount" by (simp_all add: QueueCount_def)
  note d0 = drain_step [OF assms lt(1)]
  note d1 = drain_step [OF d0(1) lt(2)]
  note d2 = drain_step [OF d1(1) lt(3)]
  show "inv (drain_queues ctx s)" "issue_order (ss_trace (drain_queues ctx s)) = issue_order (ss_trace s)"
    unfolding eq using d0 d1 d2 by simp_all
  have "outstanding C q (ss_trace (drain_queues ctx s)) = []" if "q < QueueCount" for q
    unfolding eq using that d0(3) d1(3) d2(3) by (auto simp: QueueCount_def)
  then show "\<forall>q. outstanding C q (ss_trace (drain_queues ctx s)) = []" using outstanding_high by metis
qed

end

section \<open>The schedule\<close>

lemma schedule_run_intro: "schedulable C g \<Longrightarrow> schedule_run C g (schedule_context C g)"
  by (simp add: schedule_run_def)

text \<open>
  What the result of scheduling is: the bytes of a trace that is safe item by item, issues every
  command exactly once and leaves no queue running.
\<close>

definition schedule_good :: "SemanticCommand list \<Rightarrow> CommandDependencyGraph \<Rightarrow> bytes \<Rightarrow> item list \<Rightarrow> bool" where
  "schedule_good C g bs t \<longleftrightarrow> trace_ok C g t \<and> distinct (issue_order t) \<and>
     set (issue_order t) = {0..<length C} \<and> (\<forall>q. outstanding C q t = []) \<and> bs = trace_bytes C t"

lemma schedule_result:
  assumes ok: "schedulable C g"
  obtains bs st t where "ScheduleGlobalCommandStream C g = Inr (bs, st, t)" "schedule_good C g bs t"
proof -
  let ?ctx = "schedule_context C g"
  note run = schedule_run_intro [OF ok]
  from schedule_run.loop_ok [OF run refl schedule_run.inv_initial [OF run]] obtain s where
    s: "schedule_loop ?ctx (initial_schedule ?ctx) = Inr s" "schedule_run.inv C g s"
      "length C \<le> ss_emittedCommands s" by blast
  define d where "d = drain_queues ?ctx s"
  note drained = schedule_run.drain_ok [OF run s(2), folded d_def]
  note inv = drained(1) [unfolded schedule_run.inv_def [OF run]]
  have sub: "issued (ss_trace d) \<subseteq> {0..<length C}"
    using schedule_run.issued_closed [OF run] inv by auto
  have "length C \<le> card (issued (ss_trace d))"
    using s(3) drained(2) s(2) [unfolded schedule_run.inv_def [OF run]] by (simp add: distinct_card)
  then have all: "issued (ss_trace d) = {0..<length C}"
    using sub card_seteq [of "{0..<length C}" "issued (ss_trace d)"] by simp
  have len: "length (g_predecessors g) = length C" "length (g_successors g) = length C"
    using ok by (auto simp: schedulable_def graph_ok_def)
  have "\<not> list_ex (\<lambda>command. cmd_asynchronous command \<or> cmd_type command = DMAWait \<or>
          cmd_type command = SystolicWait) C"
    using ok by (auto simp: schedulable_def blocking_def list_ex_iff)
  with len s(1) have "ScheduleGlobalCommandStream C g =
      Inr (ss_scheduledBytes d, finish_stats (length C) d, ss_trace d)"
    by (simp add: ScheduleGlobalCommandStream_def Let_def d_def)
  moreover have "schedule_good C g (ss_scheduledBytes d) (ss_trace d)"
    using inv drained(3) all by (simp add: schedule_good_def)
  ultimately show ?thesis by (rule that)
qed

text \<open>
  Command \<open>i\<close> is safely before \<open>j\<close> in a trace: it has completed when \<open>j\<close> is issued, or both are
  in the same queue, which runs them in order.
\<close>

definition safely_before :: "SemanticCommand list \<Rightarrow> item list \<Rightarrow> nat \<Rightarrow> nat \<Rightarrow> bool" where
  "safely_before C t i j \<longleftrightarrow> (\<exists>pre sub post. t = pre @ Issue j sub # post \<and> i \<in> issued pre \<and>
     ((\<forall>q. i \<notin> set (outstanding C q pre)) \<or>
      (\<exists>q. i \<in> set (outstanding C q pre) \<and> sub \<and> AsyncQueue (C ! j) = Some q)))"

lemma queue_unique: "x \<in> set (outstanding C q t) \<Longrightarrow> x \<in> set (outstanding C r t) \<Longrightarrow> q = r"
  by (metis option.inject outstanding_issued)

lemma QueueOrders_queue:
  "QueueOrders c d \<Longrightarrow> AsyncQueue c = Some q \<Longrightarrow> AsyncQueue d = Some q \<and> cmd_asyncCapable d"
  by (auto simp: QueueOrders_def AsyncQueue_def DMAQueues_def split: if_splits)

lemma edge_before:
  assumes ok: "trace_ok C g t" and t: "t = pre @ Issue j sub # post" and p: "p \<in> set (g_predecessors g ! j)"
  shows "p \<in> issued pre \<and> ((\<forall>q. p \<notin> set (outstanding C q pre)) \<or>
    (\<exists>q. p \<in> set (outstanding C q pre) \<and> sub \<and> AsyncQueue (C ! j) = Some q))"
proof -
  have "length pre < length t" "take (length pre) t = pre" "t ! length pre = Issue j sub" by (simp_all add: t)
  with ok have item: "item_ok C g pre (Issue j sub)" by (metis trace_ok_def)
  show ?thesis
  proof (cases "\<forall>q. p \<notin> set (outstanding C q pre)")
    case False
    then obtain q where q: "p \<in> set (outstanding C q pre)" by blast
    with item p have "QueueOrders (C ! p) (C ! j)" by (auto simp: item_ok_def IssueOrders_def)
    from QueueOrders_queue [OF this] q have "AsyncQueue (C ! j) = Some q" "cmd_asyncCapable (C ! j)"
      using outstanding_issued by blast+
    moreover from this q item have sub by (auto simp: item_ok_def split: if_splits)
    ultimately show ?thesis using q item p by (auto simp: item_ok_def)
  qed (use item p in \<open>auto simp: item_ok_def\<close>)
qed

lemma still_outstanding:
  assumes "distinct (issue_order (pre @ mid))" and "x \<in> issued pre" and "x \<in> set (outstanding C q (pre @ mid))"
  shows "x \<in> set (outstanding C q pre) \<and> Wait q \<notin> set mid"
proof -
  from assms(3) obtain a b where ab: "pre @ mid = a @ Issue x True # b" "AsyncQueue (C ! x) = Some q" "Wait q \<notin> set b"
    by (auto simp: outstanding_in)
  have "x \<notin> issued mid" using assms(1,2) by auto
  from ab(1) obtain u where "pre = a @ u \<and> u @ mid = Issue x True # b \<or> pre @ u = a \<and> mid = u @ Issue x True # b"
    by (auto simp: append_eq_append_conv2)
  then show ?thesis
  proof
    assume "pre @ u = a \<and> mid = u @ Issue x True # b"
    with \<open>x \<notin> issued mid\<close> show ?thesis by simp
  next
    assume u: "pre = a @ u \<and> u @ mid = Issue x True # b"
    with \<open>x \<notin> issued mid\<close> obtain v where v: "u = Issue x True # v" by (cases u) auto
    with u have "b = v @ mid" by simp
    with u v ab show ?thesis by (auto simp: outstanding_in)
  qed
qed

lemma no_wait_outstanding:
  "x \<in> set (outstanding C q pre) \<Longrightarrow> Wait q \<notin> set mid \<Longrightarrow> x \<in> set (outstanding C q (pre @ mid))"
  by (fastforce simp: outstanding_in)

lemma safely_before_step:
  assumes ok: "trace_ok C g t" and d: "distinct (issue_order t)"
    and ik: "safely_before C t i k" and kj: "k \<in> set (g_predecessors g ! j)" and j: "j \<in> issued t"
  shows "safely_before C t i j"
proof -
  from j obtain pre sub post where t: "t = pre @ Issue j sub # post"
    unfolding issue_order_def by (auto split: item.splits dest!: split_list)
  from edge_before [OF ok t kj] have k: "k \<in> issued pre" "(\<forall>q. k \<notin> set (outstanding C q pre)) \<or>
    (\<exists>q. k \<in> set (outstanding C q pre) \<and> sub \<and> AsyncQueue (C ! j) = Some q)" by auto
  from ik obtain pk sk qk where tk: "t = pk @ Issue k sk # qk" "i \<in> issued pk"
    and ki: "(\<forall>q. i \<notin> set (outstanding C q pk)) \<or>
      (\<exists>q. i \<in> set (outstanding C q pk) \<and> sk \<and> AsyncQueue (C ! k) = Some q)"
    unfolding safely_before_def by blast
  have kd: "k \<notin> issued pk" "k \<notin> issued qk" using d tk by auto
  obtain mid where mid: "pre = pk @ Issue k sk # mid"
  proof -
    from t tk(1) have "pre @ Issue j sub # post = pk @ Issue k sk # qk" by simp
    then consider u where "pk = pre @ u" "u @ Issue k sk # qk = Issue j sub # post"
      | u where "pre = pk @ u" "u @ Issue j sub # post = Issue k sk # qk"
      by (auto simp: append_eq_append_conv2)
    then show ?thesis
    proof cases
      case 1
      with k(1) kd(1) show ?thesis by auto
    next
      case 2
      with k(1) kd(1) that show ?thesis by (cases u) auto
    qed
  qed
  have dp: "distinct (issue_order (pk @ (Issue k sk # mid)))" using d t mid by auto
  have "i \<in> issued pre" using tk(2) mid by auto
  moreover have "(\<forall>q. i \<notin> set (outstanding C q pre)) \<or>
      (\<exists>q. i \<in> set (outstanding C q pre) \<and> sub \<and> AsyncQueue (C ! j) = Some q)"
  proof (cases "\<forall>q. i \<notin> set (outstanding C q pre)")
    case False
    then obtain q where q: "i \<in> set (outstanding C q pre)" by blast
    from still_outstanding [OF dp tk(2)] q mid have
      old: "i \<in> set (outstanding C q pk)" "Wait q \<notin> set (Issue k sk # mid)" by auto
    with ki queue_unique have sk: sk "AsyncQueue (C ! k) = Some q" by blast+
    then have "k \<in> set (outstanding C q (pk @ [Issue k sk]))" by simp
    then have "k \<in> set (outstanding C q pre)"
      using no_wait_outstanding [of k C q "pk @ [Issue k sk]" mid] old(2) mid by simp
    with k(2) queue_unique have "sub \<and> AsyncQueue (C ! j) = Some q" by blast
    with q show ?thesis by blast
  qed simp
  ultimately show ?thesis using t unfolding safely_before_def by blast
qed

lemma path_safely_before:
  assumes good: "schedule_good C g bs t" and G: "graph_ok (length C) g"
    and path: "(i, j) \<in> {(dep_predecessor e, dep_successor e) | e. e \<in> set (g_edges g)}\<^sup>+"
  shows "safely_before C t i j"
proof -
  have ok: "trace_ok C g t" "distinct (issue_order t)" "issued t = {0..<length C}"
    using good by (simp_all add: schedule_good_def)
  have edge: "b < length C \<and> a \<in> set (g_predecessors g ! b)"
    if "(a, b) \<in> {(dep_predecessor e, dep_successor e) | e. e \<in> set (g_edges g)}" for a b
    using that G unfolding graph_ok_def by auto
  show ?thesis
    using path
  proof (induction rule: trancl_induct)
    case (base j)
    from edge [OF this] ok(3) have "j \<in> issued t" and p: "i \<in> set (g_predecessors g ! j)" by auto
    then obtain pre sub post where t: "t = pre @ Issue j sub # post"
      unfolding issue_order_def by (auto split: item.splits dest!: split_list)
    from edge_before [OF ok(1) t p] t show ?case unfolding safely_before_def by blast
  next
    case (step k j)
    from edge [OF step(2)] ok(3) safely_before_step [OF ok(1,2) step(3)] show ?case by auto
  qed
qed

section \<open>From a valid stream to its schedule\<close>

lemma schedulable_built:
  assumes "stream_valid cmds" and "list_all blocking cmds"
  shows "schedulable (AnnotateState (AnnotateContent cmds)) (graph_of (length cmds) (build_edges cmds))"
proof -
  let ?s = "AnnotateState (AnnotateContent cmds)"
  note len = annotated_nth(1) [OF assms(1)]
  have "issue_class (cmd_type (?s ! i)) (issue_of (?s ! i)) \<and> blocking (?s ! i)" if i: "i < length cmds" for i
  proof -
    note c = annotated_nth(2) [OF assms(1) i]
    note f = annotated_fields [OF c [THEN conjunct1] c [THEN conjunct2]]
    have "command_ok i (cmds ! i)" "blocking (cmds ! i)"
      using assms i by (simp_all add: stream_valid_def list_all_length)
    then show ?thesis by (simp add: f command_ok_def blocking_def)
  qed
  then have "\<forall>c \<in> set ?s. issue_class (cmd_type c) (issue_of c) \<and> blocking c"
    by (auto simp: in_set_conv_nth len)
  moreover have "graph_ok (length ?s) (graph_of (length cmds) (build_edges cmds))"
    unfolding len by (rule graph_of_ok(1) [OF build_edges_facts(1,2)])
  ultimately show ?thesis by (simp add: schedulable_def)
qed

lemma graph_of_rel:
  assumes "map edge_key (g_edges g) = E"
  shows "{(dep_predecessor e, dep_successor e) | e. e \<in> set (g_edges g)} = edge_rel E"
proof -
  have "set E = edge_key ` set (g_edges g)" using assms by (metis set_map)
  then show ?thesis by (force simp: edge_rel_def edge_key_def)
qed

lemma built_schedule_order:
  assumes "stream_valid cmds" and "list_all blocking cmds"
    and "BuildCommandDependencyGraph cmds = Inr (cmds', g)"
    and "ScheduleGlobalCommandStream cmds' g = Inr (bs, st, t)"
    and "i < j" and "j < length cmds" and "must_precede (cmds ! i) (cmds ! j)"
  shows "safely_before cmds' t i j"
proof -
  let ?E = "build_edges cmds"
  have built: "cmds' = AnnotateState (AnnotateContent cmds)" "g = graph_of (length cmds) ?E"
    using Build_eq [OF assms(1)] assms(3) by simp_all
  note len = annotated_nth(1) [OF assms(1)]
  have sch: "schedulable cmds' g" unfolding built by (rule schedulable_built [OF assms(1,2)])
  from schedule_result [OF this] assms(4) have good: "schedule_good cmds' g bs t" by auto
  have "graph_ok (length cmds') g" using sch by (simp add: schedulable_def)
  moreover have "(i, j) \<in> {(dep_predecessor e, dep_successor e) | e. e \<in> set (g_edges g)}\<^sup>+"
    unfolding built graph_of_rel [OF graph_of_ok(2) [OF build_edges_facts(1,2)]]
    by (rule build_edges_path [OF assms(5-7)])
  ultimately show ?thesis by (rule path_safely_before [OF good])
qed

text \<open>A queue never holds more than the capacity its commands have.\<close>

lemma queue_class:
  assumes "issue_class (cmd_type c) (issue_of c)" and "AsyncQueue c = Some q"
  shows "unat (cmd_queueCapacity c) \<le> (if q = SystolicQueue then 1 else 16)"
proof (cases "IsDMA (cmd_type c)")
  case True
  then obtain d where d: "d \<le> 2" "issue_of c = dma_issue (cmd_type c) d"
    using assms(1) by (auto simp: issue_class_def)
  then have f: "cmd_queueCapacity c = (if d \<le> 1 then DMAQueueDepth else 0)" "cmd_queueId c = d"
    "cmd_resources c = (if d = 0 then 2 else if d = 1 then 4 else 32)"
    by (auto simp: issue_of_def dma_issue_def)
  have "q \<noteq> SystolicQueue"
    using assms(2) f
    by (auto simp: AsyncQueue_def UsesDMA_def UsesSystolic_def UsesResource_def SystolicQueue_def
        DMAQueues_def word_less_nat_alt split: if_splits)
  then show ?thesis using f(1) by (simp add: DMAQueueDepth_def)
next
  case False
  with assms(1) consider "cmd_queueCapacity c \<le> 1"
    | "cmd_type c = DMAWait" "cmd_resources c = 0"
    by (auto simp: issue_class_def issue_of_def split: if_splits)
  then show ?thesis
  proof cases
    case 1
    then show ?thesis by (simp add: word_le_nat_alt)
  next
    case 2
    with assms(2) show ?thesis by (simp add: AsyncQueue_def UsesDMA_def UsesSystolic_def UsesResource_def)
  qed
qed

lemma outstanding_bound:
  assumes "schedulable C g" and "trace_ok C g t"
  shows "length (outstanding C q t) \<le> (if q = SystolicQueue then 1 else 16)"
  using assms(2)
proof (induction t rule: rev_induct)
  case (snoc it t)
  then have IH: "length (outstanding C q t) \<le> (if q = SystolicQueue then 1 else 16)"
    and item: "item_ok C g t it" by (auto simp: trace_ok_snoc)
  show ?case
  proof (cases it)
    case (Issue i sub)
    show ?thesis
    proof (cases "sub \<and> AsyncQueue (C ! i) = Some q")
      case True
      with item Issue have "length (outstanding C q t) < unat (cmd_queueCapacity (C ! i))" "i < length C"
        by (auto simp: item_ok_def)
      moreover have "unat (cmd_queueCapacity (C ! i)) \<le> (if q = SystolicQueue then 1 else 16)"
        using queue_class [of "C ! i" q] assms(1) True \<open>i < length C\<close> by (simp add: schedulable_def)
      ultimately show ?thesis using Issue True by simp
    qed (use IH Issue in auto)
  qed (use IH in auto)
qed simp

text \<open>The commands and the graph the generator hands to the scheduler for a stream of bytes.\<close>

definition pipeline_stream :: "bytes \<Rightarrow> SemanticCommand list" where
  "pipeline_stream bs =
     (case DecodeSemanticCommandStream bs of
        Inl err \<Rightarrow> []
      | Inr commands \<Rightarrow> if list_all blocking commands then commands else [])"

definition pipeline_commands :: "bytes \<Rightarrow> SemanticCommand list" where
  "pipeline_commands bs = AnnotateState (AnnotateContent (pipeline_stream bs))"

definition pipeline_graph :: "bytes \<Rightarrow> CommandDependencyGraph" where
  "pipeline_graph bs = graph_of (length (pipeline_stream bs)) (build_edges (pipeline_stream bs))"

lemma pipeline_stream_valid: "stream_valid (pipeline_stream bs) \<and> list_all blocking (pipeline_stream bs)"
  using DecodeSemanticCommandStream_iff [of bs] stream_ok_valid
  by (auto simp: pipeline_stream_def stream_valid_def split: sum.splits)

interpretation pipeline: schedule_run "pipeline_commands bs" "pipeline_graph bs"
    "schedule_context (pipeline_commands bs) (pipeline_graph bs)" for bs
  by unfold_locales
    (use schedulable_built pipeline_stream_valid in \<open>simp_all add: pipeline_commands_def pipeline_graph_def\<close>)

text \<open>Every state the scheduler passes through on such a stream satisfies the invariant.\<close>

inductive reaches :: "ScheduleContext \<Rightarrow> ScheduleState \<Rightarrow> bool" for ctx where
  reaches_initial: "reaches ctx (initial_schedule ctx)"
| reaches_step: "reaches ctx s \<Longrightarrow> ss_emittedCommands s < length (ctx_commands ctx) \<Longrightarrow>
    schedule_step ctx s = Inr s' \<Longrightarrow> reaches ctx s'"

lemma pipeline_reaches_inv:
  assumes "reaches (schedule_context (pipeline_commands bs) (pipeline_graph bs)) s"
  shows "pipeline.inv bs s"
  using assms
proof (induction rule: reaches.induct)
  case reaches_initial
  show ?case by (rule pipeline.inv_initial)
next
  case (reaches_step s s')
  have "ss_emittedCommands s < length (pipeline_commands bs)"
    using reaches_step(2) by (simp add: schedule_context_def)
  from pipeline.inv_step [OF reaches_step(4) this] reaches_step(3) show ?case by auto
qed

end
