(* ===== verification/NAI_Samples.thy ===== *)
theory NAI_Samples
  imports NAI_ScheduleProof
begin

text \<open>
  A small command stream as bytes: a DMA load of 64 bytes, a quantization-parameter load and the
  end command.  The witnesses of the properties decode, annotate and schedule it.
\<close>

definition command_bytes :: "u16 \<Rightarrow> u16 \<Rightarrow> u32 \<Rightarrow> u32 list \<Rightarrow> bytes" where
  "command_bytes type sz flags payload =
     put16 type @ put16 sz @ put32 flags @ put32 1 @ put32 2 @ concat (map put32 payload)"

definition sample_dma :: bytes where
  "sample_dma = command_bytes 2 64 0 [2, 0, 6, 256, 64, 0, 0, 0, 0, 0, 0, 0]"

definition sample_rq :: bytes where
  "sample_rq = command_bytes 5 32 0 [3, 4, 0, 0]"

definition sample_end :: bytes where
  "sample_end = command_bytes 0 16 0 []"

lemmas sample_defs = command_bytes_def sample_dma_def sample_rq_def sample_end_def

lemma sample_lengths [simp]: "length sample_dma = 64" "length sample_rq = 32" "length sample_end = 16"
  by (simp_all add: sample_defs)

lemma sample_reads:
  "Read16 sample_dma 0 = 2" "Read16 sample_dma 2 = 64" "Read32 sample_dma 4 = 0"
  "Read32 sample_dma 8 = 1" "Read32 sample_dma 12 = 2" "Read16 sample_dma 16 = 2"
  "Read16 sample_dma 18 = 0" "Read32 sample_dma 20 = 0" "Read16 sample_dma 24 = 6"
  "Read16 sample_dma 26 = 0" "Read32 sample_dma 28 = 256" "Read32 sample_dma 32 = 64"
  "Read32 sample_dma 36 = 0"
  "Read16 sample_rq 0 = 5" "Read16 sample_rq 2 = 32" "Read32 sample_rq 4 = 0"
  "Read32 sample_rq 8 = 1" "Read32 sample_rq 12 = 2" "Read32 sample_rq 16 = 3"
  "Read32 sample_rq 20 = 4" "Read32 sample_rq 24 = 0"
  "Read16 sample_end 0 = 0" "Read16 sample_end 2 = 16" "Read32 sample_end 4 = 0"
  "Read32 sample_end 8 = 1" "Read32 sample_end 12 = 2"
  by (code_simp)+

definition sample_dma_command :: SemanticCommand where
  "sample_dma_command = \<lparr>cmd_type = DMA1D, cmd_flags = 0, cmd_layerId = 1, cmd_tileId = 2,
     cmd_sourceCommandIndex = 0, cmd_resources = 2,
     cmd_memoryAccesses =
       [\<lparr>acc_region = 2, acc_index = 0, acc_begin = 0, acc_end = 64, acc_mode = Read,
          acc_bankPhase = no_bank, acc_content = []\<rparr>,
        \<lparr>acc_region = 6, acc_index = 0, acc_begin = 256, acc_end = 320, acc_mode = Write,
          acc_bankPhase = 8, acc_content = []\<rparr>],
     cmd_stateAccesses =
       [\<lparr>st_state = DMAQueue, st_instance = 0, st_mode = Read, st_valueIdentity = 0, st_generation = 0\<rparr>,
        \<lparr>st_state = DMAQueue, st_instance = 0, st_mode = Write, st_valueIdentity = 0, st_generation = 0\<rparr>],
     cmd_asyncCapable = True, cmd_asynchronous = False, cmd_controlFence = False,
     cmd_queueCapacity = 16, cmd_queueId = 0, cmd_estimatedCycles = 2, cmd_encoding = sample_dma\<rparr>"

definition sample_end_command :: "nat \<Rightarrow> SemanticCommand" where
  "sample_end_command i = \<lparr>cmd_type = End, cmd_flags = 0, cmd_layerId = 1, cmd_tileId = 2,
     cmd_sourceCommandIndex = word_of_nat i, cmd_resources = 1, cmd_memoryAccesses = [],
     cmd_stateAccesses = [], cmd_asyncCapable = False, cmd_asynchronous = False,
     cmd_controlFence = True, cmd_queueCapacity = 0, cmd_queueId = no_queue,
     cmd_estimatedCycles = 1, cmd_encoding = sample_end\<rparr>"

lemma sample_bytes_ok:
  "command_bytes_ok sample_dma" "command_bytes_ok sample_rq" "command_bytes_ok sample_end"
  by code_simp+

lemma sample_headers:
  "header_command sample_dma i = blank_command\<lparr>cmd_type := DMA1D, cmd_layerId := 1, cmd_tileId := 2,
     cmd_sourceCommandIndex := word_of_nat i, cmd_encoding := sample_dma\<rparr>"
  "header_command sample_end i = blank_command\<lparr>cmd_type := End, cmd_layerId := 1, cmd_tileId := 2,
     cmd_sourceCommandIndex := word_of_nat i, cmd_encoding := sample_end\<rparr>"
  by (simp_all add: header_command_def blank_command_def sample_reads CommandType_of_def CommandTypes_def)

lemma sample_accesses:
  "AddAccess c sample_dma 16 64 Read = Some (c\<lparr>cmd_memoryAccesses := cmd_memoryAccesses c @
     [\<lparr>acc_region = 2, acc_index = 0, acc_begin = 0, acc_end = 64, acc_mode = Read,
        acc_bankPhase = no_bank, acc_content = []\<rparr>]\<rparr>)"
  "AddAccess c sample_dma 24 64 Write = Some (c\<lparr>cmd_memoryAccesses := cmd_memoryAccesses c @
     [\<lparr>acc_region = 6, acc_index = 0, acc_begin = 256, acc_end = 320, acc_mode = Write,
        acc_bankPhase = 8, acc_content = []\<rparr>]\<rparr>)"
  by (simp_all add: AddAccess_def sample_reads max_consts bank_phase_def TCDMWordBytes_def TCDMBanks_def)

lemma sample_cycles: "CycleCount (DivRoundUp (SaturatingMultiply 64 (Suc 0)) 32) = 2"
  by (simp add: SaturatingMultiply_def DivRoundUp_def CycleCount_def max_consts)

lemma sample_decode_dma: "DecodeKnownCommand (header_command sample_dma 0) = Some sample_dma_command"
proof -
  define c where "c = header_command sample_dma 0"
  have c: "cmd_type c = DMA1D" "cmd_encoding c = sample_dma" unfolding c_def sample_headers by simp_all
  have shape: "dma_shape DMA1D sample_dma = Some (64, 64, 1, 36)" by (simp add: dma_shape_def sample_reads)
  have "DecodeKnownCommand c = DecodeDMA c sample_dma"
    by (simp add: DecodeKnownCommand_def decode_payload_def c IsDMA_def)
  also have "\<dots> = Some sample_dma_command"
    unfolding DecodeDMA_def c shape
    by (simp add: sample_reads max_consts sample_accesses sample_cycles IsDMASubmit_def
        AddResource_def AddReadWriteState_def AddState_def c)
      (simp add: c_def sample_headers blank_command_def sample_dma_command_def DMAQueueDepth_def)
  finally show ?thesis by (simp add: c_def)
qed

lemma sample_decode_end: "DecodeKnownCommand (header_command sample_end i) = Some (sample_end_command i)"
  unfolding sample_headers
  by (simp add: DecodeKnownCommand_def decode_payload_def IsDMA_def IsSystolic_def blank_command_def
      DecodeControl_def AddResource_def sample_end_command_def)

definition sample_commands :: "SemanticCommand list" where
  "sample_commands = [sample_dma_command, sample_end_command 1]"

lemma sample_stream_ok: "stream_ok 0 sample_commands"
  using sample_decode_dma sample_decode_end [of 1] sample_bytes_ok
  by (simp add: sample_commands_def) (simp add: sample_dma_command_def sample_end_command_def)

lemma sample_decodes: "DecodeSemanticCommandStream (sample_dma @ sample_end) = Inr sample_commands"
  using sample_stream_ok
  by (simp add: DecodeSemanticCommandStream_iff SerializeSemanticCommandStream_def sample_commands_def)
    (simp add: sample_dma_command_def sample_end_command_def)

lemma sample_valid: "stream_valid sample_commands"
  by (rule stream_ok_valid [OF sample_stream_ok])

lemma sample_blocking: "list_all blocking sample_commands"
  by (simp add: sample_commands_def sample_dma_command_def sample_end_command_def blocking_def)

lemma sample_must_precede: "must_precede (sample_commands ! 0) (sample_commands ! 1)"
  unfolding must_precede_def edge_reason_def
  by (rule exI [of _ ControlOrder]) (simp add: sample_commands_def sample_end_command_def)

definition sample_graph :: CommandDependencyGraph where
  "sample_graph = graph_of (length sample_commands) (build_edges sample_commands)"

definition sample_annotated :: "SemanticCommand list" where
  "sample_annotated = AnnotateState (AnnotateContent sample_commands)"

lemma sample_build: "BuildCommandDependencyGraph sample_commands = Inr (sample_annotated, sample_graph)"
  unfolding sample_annotated_def sample_graph_def by (rule Build_eq [OF sample_valid])

lemma sample_schedulable: "schedulable sample_annotated sample_graph"
  unfolding sample_annotated_def sample_graph_def
  by (rule schedulable_built [OF sample_valid sample_blocking])

lemma sample_schedule:
  obtains bs st t where "ScheduleGlobalCommandStream sample_annotated sample_graph = Inr (bs, st, t)"
    "schedule_good sample_annotated sample_graph bs t"
  by (rule schedule_result [OF sample_schedulable])

end
