(* ===== verification/NAI_Residency.thy ===== *)
theory NAI_Residency
  imports NAI_ScheduleProof
begin

text \<open>
  The three residency passes of \<^verbatim>\<open>compiler/neural_ai_command_scheduler.cpp\<close> that run before the
  dependency graph is built, and \<^verbatim>\<open>OptimizeGlobalCommandSchedule\<close> of
  \<^verbatim>\<open>compiler/neural_ai_command_generator.cpp\<close>, which chains decoder, passes, graph and scheduler.

  Each loop over the commands is a recursion on the list with the state of the loop as arguments.
  The pair of a flag \<^verbatim>\<open>resident\<close> and an identity is an optional identity.  Counters are natural
  numbers; the 64-bit byte count wraps.  On an error the model returns the error only: the contents
  of the command vector after a failed pass are not used by any caller.
\<close>

datatype residency_error =
    LoadWithoutIdentity
  | CommandWithoutIdentity
  | InvalidResidentReference
  | InvalidLutMemoryAccess
  | OverlappingLoad

text \<open>\<^verbatim>\<open>for ( index ... ) commands[index].sourceCommandIndex = index\<close>\<close>

definition reindex :: "SemanticCommand list \<Rightarrow> SemanticCommand list" where
  "reindex commands =
     map2 (\<lambda>index command. command\<lparr>cmd_sourceCommandIndex := word_of_nat index\<rparr>)
       [0..<length commands] commands"

section \<open>Quantization parameters\<close>

record QParamResidencyStats =
  qs_inputLoads :: nat
  qs_retainedLoads :: nat
  qs_redundantLoads :: nat

definition no_qparam_stats :: QParamResidencyStats where
  "no_qparam_stats = \<lparr>qs_inputLoads = 0, qs_retainedLoads = 0, qs_redundantLoads = 0\<rparr>"

definition quantization_write :: "SemanticCommand \<Rightarrow> SemanticStateAccess option" where
  "quantization_write command =
     List.find (\<lambda>access. st_state access = Quantization \<and> st_mode access = Write) (cmd_stateAccesses command)"

fun qparam_loop ::
  "SemanticCommand list \<Rightarrow> u64 option \<Rightarrow> QParamResidencyStats \<Rightarrow> SemanticCommand list \<Rightarrow>
   residency_error + SemanticCommand list \<times> QParamResidencyStats" where
  "qparam_loop [] residentIdentity stats compacted = Inr (compacted, stats)"
| "qparam_loop (command # commands) residentIdentity stats compacted =
     (if cmd_type command \<noteq> RQLoad then
        qparam_loop commands residentIdentity stats (compacted @ [command])
      else
        let stats = stats\<lparr>qs_inputLoads := qs_inputLoads stats + 1\<rparr> in
        case quantization_write command of
          None \<Rightarrow> Inl LoadWithoutIdentity
        | Some quantization \<Rightarrow>
            if st_valueIdentity quantization = 0 then Inl LoadWithoutIdentity
            else if residentIdentity = Some (st_valueIdentity quantization) then
              qparam_loop commands residentIdentity
                (stats\<lparr>qs_redundantLoads := qs_redundantLoads stats + 1\<rparr>) compacted
            else
              qparam_loop commands (Some (st_valueIdentity quantization))
                (stats\<lparr>qs_retainedLoads := qs_retainedLoads stats + 1\<rparr>) (compacted @ [command]))"

definition OptimizeQParamResidency ::
  "SemanticCommand list \<Rightarrow> residency_error + SemanticCommand list \<times> QParamResidencyStats" where
  "OptimizeQParamResidency commands =
     (case qparam_loop commands None no_qparam_stats [] of
        Inl e \<Rightarrow> Inl e
      | Inr (compacted, stats) \<Rightarrow> Inr (reindex compacted, stats))"

section \<open>The AFU lookup table\<close>

record AFULutResidencyStats =
  ls_commands :: nat
  ls_loads :: nat
  ls_reused :: nat
  ls_invalidations :: nat

definition no_lut_stats :: AFULutResidencyStats where
  "no_lut_stats = \<lparr>ls_commands = 0, ls_loads = 0, ls_reused = 0, ls_invalidations = 0\<rparr>"

definition lut_state :: "SemanticCommand \<Rightarrow> SemanticStateAccess option" where
  "lut_state command = List.find (\<lambda>access. st_state access = AFULutTable) (cmd_stateAccesses command)"

text \<open>\<^verbatim>\<open>lutState->mode = mode\<close>: the first LUT access of the command gets the mode.\<close>

fun set_lut_mode :: "SemanticAccessMode \<Rightarrow> SemanticStateAccess list \<Rightarrow> SemanticStateAccess list" where
  "set_lut_mode mode [] = []"
| "set_lut_mode mode (access # accesses) =
     (if st_state access = AFULutTable then access\<lparr>st_mode := mode\<rparr> # accesses
      else access # set_lut_mode mode accesses)"

definition with_flags :: "u32 \<Rightarrow> SemanticCommand \<Rightarrow> SemanticCommand" where
  "with_flags flags command =
     command\<lparr>cmd_flags := flags, cmd_encoding := Write32 (cmd_encoding command) 4 flags\<rparr>"

definition with_lut_mode :: "SemanticAccessMode \<Rightarrow> SemanticCommand \<Rightarrow> SemanticCommand" where
  "with_lut_mode mode command =
     command\<lparr>cmd_stateAccesses := set_lut_mode mode (cmd_stateAccesses command)\<rparr>"

definition lut_command ::
  "SemanticCommand \<Rightarrow> u64 option \<Rightarrow> AFULutResidencyStats \<Rightarrow>
   residency_error + SemanticCommand \<times> u64 option \<times> AFULutResidencyStats" where
  "lut_command command residentIdentity stats0 =
     (let stats = stats0\<lparr>ls_commands := ls_commands stats0 + 1\<rparr> in
      case lut_state command of
        None \<Rightarrow> Inl CommandWithoutIdentity
      | Some lutState \<Rightarrow>
          if st_valueIdentity lutState = 0 then Inl CommandWithoutIdentity
          else
            let identity = st_valueIdentity lutState;
                encodedReuse = (cmd_flags command AND CommandFlagAFULutReuse) \<noteq> 0 in
            if encodedReuse \<and> residentIdentity \<noteq> Some identity then Inl InvalidResidentReference
            else if encodedReuse \<or> residentIdentity = Some identity then
              let command = with_lut_mode Read
                    (with_flags (cmd_flags command OR CommandFlagAFULutReuse) command) in
              if length (cmd_memoryAccesses command) = 3 then
                Inr (command\<lparr>cmd_memoryAccesses := butlast (cmd_memoryAccesses command)\<rparr>, Some identity,
                     stats\<lparr>ls_reused := ls_reused stats + 1\<rparr>)
              else if \<not> encodedReuse then Inl InvalidLutMemoryAccess
              else Inr (command, Some identity, stats\<lparr>ls_reused := ls_reused stats + 1\<rparr>)
            else
              Inr (with_lut_mode Write
                     (with_flags (cmd_flags command AND NOT CommandFlagAFULutReuse) command),
                   Some identity, stats\<lparr>ls_loads := ls_loads stats + 1\<rparr>))"

fun lut_loop ::
  "SemanticCommand list \<Rightarrow> u64 option \<Rightarrow> AFULutResidencyStats \<Rightarrow> SemanticCommand list \<Rightarrow>
   residency_error + SemanticCommand list \<times> AFULutResidencyStats" where
  "lut_loop [] residentIdentity stats out = Inr (out, stats)"
| "lut_loop (command # commands) residentIdentity stats out =
     (if cmd_type command = AFULut then
        case lut_command command residentIdentity stats of
          Inl e \<Rightarrow> Inl e
        | Inr (command', residentIdentity', stats') \<Rightarrow>
            lut_loop commands residentIdentity' stats' (out @ [command'])
      else
        case lut_state command of
          Some lutState \<Rightarrow>
            if st_mode lutState = Write then
              lut_loop commands None
                (if residentIdentity \<noteq> None then stats\<lparr>ls_invalidations := ls_invalidations stats + 1\<rparr> else stats)
                (out @ [command])
            else lut_loop commands residentIdentity stats (out @ [command])
        | None \<Rightarrow> lut_loop commands residentIdentity stats (out @ [command]))"

definition OptimizeAFULutResidency ::
  "SemanticCommand list \<Rightarrow> residency_error + SemanticCommand list \<times> AFULutResidencyStats" where
  "OptimizeAFULutResidency commands = lut_loop commands None no_lut_stats []"

section \<open>External loads\<close>

record DMAResidencyStats =
  ds_inputLoads :: nat
  ds_retainedLoads :: nat
  ds_redundantConstantLoads :: nat
  ds_redundantFeatureLoads :: nat
  ds_redundantBytes :: nat

definition no_dma_stats :: DMAResidencyStats where
  "no_dma_stats = \<lparr>ds_inputLoads = 0, ds_retainedLoads = 0, ds_redundantConstantLoads = 0,
     ds_redundantFeatureLoads = 0, ds_redundantBytes = 0\<rparr>"

record ResidentTransfer =
  rt_type :: CommandType
  rt_source :: SemanticMemoryAccess
  rt_destination :: SemanticMemoryAccess
  rt_descriptor :: bytes

definition is_load :: "SemanticCommand \<Rightarrow> bool" where
  "is_load command \<longleftrightarrow>
     (cmd_type command = DMA1D \<or> cmd_type command = DMA2D \<or> cmd_type command = DMA3D) \<and>
     cmd_queueId command = DMADirection_code ExternalToLocal \<and> length (cmd_memoryAccesses command) = 2 \<and>
     acc_mode (cmd_memoryAccesses command ! 0) = Read \<and> acc_mode (cmd_memoryAccesses command ! 1) = Write \<and>
     acc_region (cmd_memoryAccesses command ! 1) = Region_code TCDMScratch"

definition same_range :: "SemanticMemoryAccess \<Rightarrow> SemanticMemoryAccess \<Rightarrow> bool" where
  "same_range a b \<longleftrightarrow> acc_region a = acc_region b \<and> acc_index a = acc_index b \<and>
     acc_begin a = acc_begin b \<and> acc_end a = acc_end b"

definition transfer_of :: "SemanticCommand \<Rightarrow> ResidentTransfer" where
  "transfer_of command = \<lparr>rt_type = cmd_type command, rt_source = cmd_memoryAccesses command ! 0,
     rt_destination = cmd_memoryAccesses command ! 1, rt_descriptor = drop 16 (cmd_encoding command)\<rparr>"

definition matches :: "SemanticCommand \<Rightarrow> ResidentTransfer \<Rightarrow> bool" where
  "matches command entry \<longleftrightarrow>
     rt_type entry = cmd_type command \<and> rt_descriptor entry = drop 16 (cmd_encoding command) \<and>
     same_range (rt_source entry) (cmd_memoryAccesses command ! 0) \<and>
     same_range (rt_destination entry) (cmd_memoryAccesses command ! 1)"

definition transferred_bytes :: "SemanticCommand \<Rightarrow> nat" where
  "transferred_bytes command =
     (let length' = read32n (cmd_encoding command) 32;
          transfers =
            (if cmd_type command = DMA2D then read32n (cmd_encoding command) 44
             else if cmd_type command = DMA3D then
               read32n (cmd_encoding command) 44 * read32n (cmd_encoding command) 56
             else 1) in
      length' * transfers)"

definition count_redundant :: "SemanticCommand \<Rightarrow> DMAResidencyStats \<Rightarrow> DMAResidencyStats" where
  "count_redundant command stats0 =
     (let stats = stats0\<lparr>ds_redundantBytes :=
            (ds_redundantBytes stats0 + transferred_bytes command) mod 2 ^ 64\<rparr> in
      if acc_region (cmd_memoryAccesses command ! 0) = Region_code ModelConstants
      then stats\<lparr>ds_redundantConstantLoads := ds_redundantConstantLoads stats + 1\<rparr>
      else stats\<lparr>ds_redundantFeatureLoads := ds_redundantFeatureLoads stats + 1\<rparr>)"

text \<open>What stays resident after the writes of a command.\<close>

definition invalidate :: "SemanticMemoryAccess list \<Rightarrow> ResidentTransfer list \<Rightarrow> ResidentTransfer list" where
  "invalidate accesses resident =
     fold (\<lambda>access resident.
        if acc_mode access \<noteq> Write then resident
        else filter (\<lambda>entry. \<not> (Overlaps access (rt_source entry) \<or> Overlaps access (rt_destination entry)))
               resident) accesses resident"

fun dma_loop ::
  "SemanticCommand list \<Rightarrow> ResidentTransfer list \<Rightarrow> DMAResidencyStats \<Rightarrow> SemanticCommand list \<Rightarrow>
   residency_error + SemanticCommand list \<times> DMAResidencyStats" where
  "dma_loop [] resident stats compacted = Inr (compacted, stats)"
| "dma_loop (command # commands) resident stats compacted =
     (if is_load command then
        let stats = stats\<lparr>ds_inputLoads := ds_inputLoads stats + 1\<rparr> in
        if List.find (matches command) resident \<noteq> None
        then dma_loop commands resident (count_redundant command stats) compacted
        else
          let resident = invalidate (cmd_memoryAccesses command) resident;
              stats = stats\<lparr>ds_retainedLoads := ds_retainedLoads stats + 1\<rparr> in
          if Overlaps (cmd_memoryAccesses command ! 0) (cmd_memoryAccesses command ! 1)
          then Inl OverlappingLoad
          else dma_loop commands (resident @ [transfer_of command]) stats (compacted @ [command])
      else
        dma_loop commands (invalidate (cmd_memoryAccesses command) resident) stats (compacted @ [command]))"

definition OptimizeDMAResidency ::
  "SemanticCommand list \<Rightarrow> residency_error + SemanticCommand list \<times> DMAResidencyStats" where
  "OptimizeDMAResidency commands =
     (case dma_loop commands [] no_dma_stats [] of
        Inl e \<Rightarrow> Inl e
      | Inr (compacted, stats) \<Rightarrow> Inr (reindex compacted, stats))"

section \<open>The optimization pipeline\<close>

datatype pipeline_error =
    DecodeFailed decode_error
  | ResidencyFailed residency_error
  | GraphFailed graph_error
  | ScheduleFailed schedule_error

record optimized_stream =
  os_commands :: bytes
  os_insertedWaits :: nat
  os_removedCommands :: nat

definition OptimizeGlobalCommandSchedule :: "bytes \<Rightarrow> pipeline_error + optimized_stream" where
  "OptimizeGlobalCommandSchedule commands =
     (case DecodeSemanticCommandStream commands of
        Inl e \<Rightarrow> Inl (DecodeFailed e)
      | Inr semantic \<Rightarrow>
          let inputCommands = length semantic in
          case OptimizeDMAResidency semantic of
            Inl e \<Rightarrow> Inl (ResidencyFailed e)
          | Inr (semantic, dmaStats) \<Rightarrow>
              case OptimizeQParamResidency semantic of
                Inl e \<Rightarrow> Inl (ResidencyFailed e)
              | Inr (semantic, qparamStats) \<Rightarrow>
                  case OptimizeAFULutResidency semantic of
                    Inl e \<Rightarrow> Inl (ResidencyFailed e)
                  | Inr (semantic, lutStats) \<Rightarrow>
                      case BuildCommandDependencyGraph semantic of
                        Inl e \<Rightarrow> Inl (GraphFailed e)
                      | Inr (semantic, dependencies) \<Rightarrow>
                          case ScheduleGlobalCommandStream semantic dependencies of
                            Inl e \<Rightarrow> Inl (ScheduleFailed e)
                          | Inr (scheduled, stats, _) \<Rightarrow>
                              Inr \<lparr>os_commands = scheduled,
                                   os_insertedWaits = stat_insertedWaits stats,
                                   os_removedCommands = inputCommands - length semantic\<rparr>)"

text \<open>The public entry point keeps the stream when the optimization fails.\<close>

definition OptimizeCommandOverlap :: "bytes \<Rightarrow> bytes \<times> nat" where
  "OptimizeCommandOverlap commands =
     (case OptimizeGlobalCommandSchedule commands of
        Inl _ \<Rightarrow> (commands, 0)
      | Inr r \<Rightarrow> (os_commands r, os_insertedWaits r))"

end
