(* ===== verification/NAI_ResidencyProof.thy ===== *)
theory NAI_ResidencyProof
  imports NAI_Residency "HOL-Library.Sublist"
begin

text \<open>
  What the residency passes keep.  The quantization pass: every other command sees the parameters it
  saw before.  The lookup-table pass: a command marked as reusing the table runs while exactly its
  table is active.  The load pass: for every machine whose loads copy bytes from their source range to
  their destination range and whose other commands write only where they declare to, the shortened
  stream computes the same state.  Together with the scheduler this makes the whole optimization
  total on blocking streams.
\<close>

definition unindexed :: "SemanticCommand \<Rightarrow> SemanticCommand" where
  "unindexed command = command\<lparr>cmd_sourceCommandIndex := 0\<rparr>"

lemma length_reindex [simp]: "length (reindex commands) = length commands"
  by (simp add: reindex_def)

lemma nth_reindex [simp]:
  "i < length commands \<Longrightarrow> reindex commands ! i = (commands ! i)\<lparr>cmd_sourceCommandIndex := word_of_nat i\<rparr>"
  by (simp add: reindex_def)

lemma unindexed_reindex [simp]: "map unindexed (reindex commands) = map unindexed commands"
  by (rule nth_equalityI) (simp_all add: unindexed_def)

section \<open>Quantization parameters\<close>

definition qparam_identity :: "SemanticCommand \<Rightarrow> u64 option" where
  "qparam_identity command = map_option st_valueIdentity (quantization_write command)"

text \<open>The commands other than loads, each with the parameters resident when it runs.\<close>

fun qparam_views :: "u64 option \<Rightarrow> SemanticCommand list \<Rightarrow> (SemanticCommand \<times> u64 option) list" where
  "qparam_views resident [] = []"
| "qparam_views resident (command # commands) =
     (if cmd_type command = RQLoad then qparam_views (qparam_identity command) commands
      else (command, resident) # qparam_views resident commands)"

text \<open>Every load of the stream changes what is resident.\<close>

fun no_redundant_load :: "u64 option \<Rightarrow> SemanticCommand list \<Rightarrow> bool" where
  "no_redundant_load resident [] \<longleftrightarrow> True"
| "no_redundant_load resident (command # commands) \<longleftrightarrow>
     (if cmd_type command = RQLoad
      then qparam_identity command \<noteq> resident \<and> no_redundant_load (qparam_identity command) commands
      else no_redundant_load resident commands)"

definition rq_loads :: "SemanticCommand list \<Rightarrow> nat" where
  "rq_loads commands = length (filter (\<lambda>command. cmd_type command = RQLoad) commands)"

lemma unindexed_simps [simp]:
  "cmd_type (unindexed c) = cmd_type c" "qparam_identity (unindexed c) = qparam_identity c"
  "cmd_stateAccesses (unindexed c) = cmd_stateAccesses c"
  by (simp_all add: unindexed_def qparam_identity_def quantization_write_def)

lemma qparam_views_unindexed:
  "qparam_views r (map unindexed commands) = map (apfst unindexed) (qparam_views r commands)"
  by (induction r commands rule: qparam_views.induct) simp_all

lemma no_redundant_unindexed: "no_redundant_load r (map unindexed commands) = no_redundant_load r commands"
  by (induction r commands rule: no_redundant_load.induct) simp_all

lemma rq_loads_unindexed: "rq_loads (map unindexed commands) = rq_loads commands"
  by (simp add: rq_loads_def filter_map comp_def)

lemma qparam_loop_Inr:
  "qparam_loop commands r stats acc = Inr (out, stats') \<Longrightarrow>
   \<exists>new. out = acc @ new \<and> subseq new commands \<and> qparam_views r new = qparam_views r commands \<and>
     no_redundant_load r new \<and>
     qs_inputLoads stats' = qs_inputLoads stats + rq_loads commands \<and>
     qs_retainedLoads stats' = qs_retainedLoads stats + rq_loads new \<and>
     qs_redundantLoads stats' + length new = qs_redundantLoads stats + length commands"
proof (induction commands r stats acc rule: qparam_loop.induct)
  case (1 r stats acc)
  then show ?case by (simp add: rq_loads_def)
next
  case (2 c commands r stats acc)
  show ?case
  proof (cases "cmd_type c = RQLoad")
    case False
    with 2(1) [OF False] 2(4) obtain new where "out = (acc @ [c]) @ new" "subseq new commands"
      "qparam_views r new = qparam_views r commands" "no_redundant_load r new"
      "qs_inputLoads stats' = qs_inputLoads stats + rq_loads commands"
      "qs_retainedLoads stats' = qs_retainedLoads stats + rq_loads new"
      "qs_redundantLoads stats' + length new = qs_redundantLoads stats + length commands" by auto
    with False show ?thesis by (intro exI [where x = "c # new"]) (simp add: rq_loads_def)
  next
    case True
    define stats1 where "stats1 = stats\<lparr>qs_inputLoads := qs_inputLoads stats + 1\<rparr>"
    from 2(4) True obtain q where q: "quantization_write c = Some q" "st_valueIdentity q \<noteq> 0"
      by (auto simp: Let_def split: option.splits if_splits)
    then have id: "qparam_identity c = Some (st_valueIdentity q)" by (simp add: qparam_identity_def)
    show ?thesis
    proof (cases "r = Some (st_valueIdentity q)")
      case res: True
      with 2(2) [OF _ stats1_def q(1) q(2) res] 2(4) True q obtain new where "out = acc @ new"
        "subseq new commands" "qparam_views r new = qparam_views r commands" "no_redundant_load r new"
        "qs_inputLoads stats' = qs_inputLoads stats1 + rq_loads commands"
        "qs_retainedLoads stats' = qs_retainedLoads stats1 + rq_loads new"
        "qs_redundantLoads stats' + length new = Suc (qs_redundantLoads stats1 + length commands)"
        by (auto simp: stats1_def)
      with True res id show ?thesis
        by (intro exI [where x = new]) (auto simp: rq_loads_def stats1_def)
    next
      case res: False
      with 2(3) [OF _ stats1_def q(1) q(2) res] 2(4) True q obtain new where "out = (acc @ [c]) @ new"
        "subseq new commands"
        "qparam_views (Some (st_valueIdentity q)) new = qparam_views (Some (st_valueIdentity q)) commands"
        "no_redundant_load (Some (st_valueIdentity q)) new"
        "qs_inputLoads stats' = qs_inputLoads stats1 + rq_loads commands"
        "qs_retainedLoads stats' = Suc (qs_retainedLoads stats1 + rq_loads new)"
        "qs_redundantLoads stats' + length new = qs_redundantLoads stats1 + length commands"
        by (auto simp: stats1_def)
      with True res id show ?thesis
        by (intro exI [where x = "c # new"]) (auto simp: rq_loads_def stats1_def)
    qed
  qed
qed

lemma qparam_loop_Inl:
  "(\<exists>e. qparam_loop commands r stats acc = Inl e) \<longleftrightarrow>
   (\<exists>c \<in> set commands. cmd_type c = RQLoad \<and> (qparam_identity c = None \<or> qparam_identity c = Some 0))"
proof (induction commands r stats acc rule: qparam_loop.induct)
  case (2 c commands r stats acc)
  show ?case
  proof (cases "cmd_type c = RQLoad")
    case True
    show ?thesis
    proof (cases "quantization_write c")
      case (Some q)
      with True 2(2,3) show ?thesis
        by (cases "st_valueIdentity q = 0"; cases "r = Some (st_valueIdentity q)")
          (simp_all add: Let_def qparam_identity_def)
    qed (use True in \<open>simp add: qparam_identity_def\<close>)
  next
    case False
    with 2(1) show ?thesis by simp
  qed
qed simp

section \<open>The AFU lookup table\<close>

definition lut_identity :: "SemanticCommand \<Rightarrow> u64 option" where
  "lut_identity command = map_option st_valueIdentity (lut_state command)"

definition reuses_lut :: "SemanticCommand \<Rightarrow> bool" where
  "reuses_lut command \<longleftrightarrow> (cmd_flags command AND CommandFlagAFULutReuse) \<noteq> 0"

definition writes_lut :: "SemanticCommand \<Rightarrow> bool" where
  "writes_lut command \<longleftrightarrow> (\<exists>access. lut_state command = Some access \<and> st_mode access = Write)"

text \<open>The table that is active after a command, as far as the stream tells.\<close>

definition lut_after :: "u64 option \<Rightarrow> SemanticCommand \<Rightarrow> u64 option" where
  "lut_after active command =
     (if cmd_type command = AFULut then (if reuses_lut command then active else lut_identity command)
      else if writes_lut command then None else active)"

text \<open>Every command that reuses the table runs while the table of its own identity is active.\<close>

primrec lut_safe :: "u64 option \<Rightarrow> SemanticCommand list \<Rightarrow> bool" where
  "lut_safe active [] \<longleftrightarrow> True"
| "lut_safe active (command # commands) \<longleftrightarrow>
     (cmd_type command = AFULut \<and> reuses_lut command \<longrightarrow> active \<noteq> None \<and> active = lut_identity command) \<and>
     lut_safe (lut_after active command) commands"

text \<open>The output command: the flag in the command and in its bytes, and the matching accesses.\<close>

definition lut_rewritten :: "SemanticCommand \<Rightarrow> SemanticCommand \<Rightarrow> bool" where
  "lut_rewritten c d \<longleftrightarrow>
     cmd_type d = cmd_type c \<and> cmd_layerId d = cmd_layerId c \<and> cmd_tileId d = cmd_tileId c \<and>
     cmd_sourceCommandIndex d = cmd_sourceCommandIndex c \<and> issue_of d = issue_of c \<and>
     cmd_estimatedCycles d = cmd_estimatedCycles c \<and> lut_identity d = lut_identity c \<and>
     (cmd_type c \<noteq> AFULut \<longrightarrow> d = c) \<and>
     (cmd_type c = AFULut \<longrightarrow>
        cmd_encoding d = Write32 (cmd_encoding c) 4 (cmd_flags d) \<and>
        cmd_flags d AND NOT CommandFlagAFULutReuse = cmd_flags c AND NOT CommandFlagAFULutReuse \<and>
        (\<exists>access. lut_state d = Some access \<and> st_mode access = (if reuses_lut d then Read else Write)) \<and>
        cmd_memoryAccesses d =
          (if reuses_lut d \<and> length (cmd_memoryAccesses c) = 3 then butlast (cmd_memoryAccesses c)
           else cmd_memoryAccesses c))"

lemma find_set_lut_mode:
  assumes "List.find (\<lambda>access. st_state access = AFULutTable) accesses = Some a"
  shows "List.find (\<lambda>access. st_state access = AFULutTable) (set_lut_mode m accesses) = Some (a\<lparr>st_mode := m\<rparr>)"
  using assms by (induction m accesses rule: set_lut_mode.induct) auto

lemma lut_state_with [simp]:
  "lut_state (with_flags f c) = lut_state c"
  "lut_state (c\<lparr>cmd_memoryAccesses := xs\<rparr>) = lut_state c"
  "lut_state c = Some a \<Longrightarrow> lut_state (with_lut_mode m c) = Some (a\<lparr>st_mode := m\<rparr>)"
  by (simp_all add: lut_state_def with_flags_def with_lut_mode_def find_set_lut_mode)

lemma reuse_flag:
  "(f OR CommandFlagAFULutReuse) AND CommandFlagAFULutReuse \<noteq> 0"
  "(f AND NOT CommandFlagAFULutReuse) AND CommandFlagAFULutReuse = 0"
  "(f OR CommandFlagAFULutReuse) AND NOT CommandFlagAFULutReuse = f AND NOT CommandFlagAFULutReuse"
  "(f AND NOT CommandFlagAFULutReuse) AND NOT CommandFlagAFULutReuse = f AND NOT CommandFlagAFULutReuse"
proof -
  have "(f OR CommandFlagAFULutReuse) AND CommandFlagAFULutReuse = CommandFlagAFULutReuse"
    by (rule bit_word_eqI) (auto simp: bit_simps)
  then show "(f OR CommandFlagAFULutReuse) AND CommandFlagAFULutReuse \<noteq> 0"
    by (simp add: CommandFlagAFULutReuse_def)
qed (rule bit_word_eqI; auto simp: bit_simps)+

lemma lut_command_Inr:
  assumes c: "lut_command c r stats = Inr (d, r', stats')" and t: "cmd_type c = AFULut"
  shows "lut_rewritten c d" and "r' = lut_identity c"
    and "reuses_lut d \<Longrightarrow> r \<noteq> None \<and> r = lut_identity c"
    and "ls_commands stats' = Suc (ls_commands stats)"
    and "ls_reused stats' = ls_reused stats + (if reuses_lut d then 1 else 0)"
    and "ls_loads stats' = ls_loads stats + (if reuses_lut d then 0 else 1)"
proof -
  from c obtain a where a: "lut_state c = Some a" "st_valueIdentity a \<noteq> 0"
    by (auto simp: lut_command_def Let_def split: option.splits if_splits)
  then have id: "lut_identity c = Some (st_valueIdentity a)" by (simp add: lut_identity_def)
  define up where "up \<longleftrightarrow> reuses_lut c \<or> r = lut_identity c"
  have main: "lut_rewritten c d \<and> r' = lut_identity c \<and> (reuses_lut d \<longrightarrow> r = lut_identity c) \<and>
     ls_commands stats' = Suc (ls_commands stats) \<and>
     ls_reused stats' = ls_reused stats + (if reuses_lut d then 1 else 0) \<and>
     ls_loads stats' = ls_loads stats + (if reuses_lut d then 0 else 1)"
  proof (cases up)
    case True
    define e where "e = with_lut_mode Read (with_flags (cmd_flags c OR CommandFlagAFULutReuse) c)"
    from c a id True have "r = lut_identity c"
      and d: "d = (if length (cmd_memoryAccesses c) = 3
        then e\<lparr>cmd_memoryAccesses := butlast (cmd_memoryAccesses c)\<rparr> else e)"
      and "r' = lut_identity c" "ls_commands stats' = Suc (ls_commands stats)"
        "ls_reused stats' = Suc (ls_reused stats)" "ls_loads stats' = ls_loads stats"
      by (auto simp: lut_command_def Let_def e_def up_def reuses_lut_def with_lut_mode_def with_flags_def split: if_splits)
    moreover have "reuses_lut d" using reuse_flag(1) by (simp add: d e_def reuses_lut_def with_lut_mode_def with_flags_def)
    moreover have "lut_state d = Some (a\<lparr>st_mode := Read\<rparr>)" using a by (simp add: d e_def)
    ultimately show ?thesis using t id
      by (auto simp: lut_rewritten_def lut_identity_def issue_of_def e_def with_lut_mode_def with_flags_def reuse_flag(3))
  next
    case False
    with c a id have d: "d = with_lut_mode Write (with_flags (cmd_flags c AND NOT CommandFlagAFULutReuse) c)"
      and "r' = lut_identity c" "ls_commands stats' = Suc (ls_commands stats)"
        "ls_reused stats' = ls_reused stats" "ls_loads stats' = Suc (ls_loads stats)"
      by (auto simp: lut_command_def Let_def up_def reuses_lut_def split: if_splits)
    moreover have "\<not> reuses_lut d" using reuse_flag(2) by (simp add: d reuses_lut_def with_lut_mode_def with_flags_def)
    moreover have "lut_state d = Some (a\<lparr>st_mode := Write\<rparr>)" using a by (simp add: d)
    ultimately show ?thesis using t id
      by (auto simp: lut_rewritten_def lut_identity_def issue_of_def with_lut_mode_def with_flags_def reuse_flag(4))
  qed
  with id show "lut_rewritten c d" "r' = lut_identity c" "reuses_lut d \<Longrightarrow> r \<noteq> None \<and> r = lut_identity c"
    "ls_commands stats' = Suc (ls_commands stats)"
    "ls_reused stats' = ls_reused stats + (if reuses_lut d then 1 else 0)"
    "ls_loads stats' = ls_loads stats + (if reuses_lut d then 0 else 1)" by simp_all
qed

lemma lut_loop_Inr:
  "lut_loop commands r stats acc = Inr (out, stats') \<Longrightarrow>
   \<exists>new. out = acc @ new \<and> list_all2 lut_rewritten commands new \<and> lut_safe r new \<and>
     ls_commands stats' + ls_loads stats + ls_reused stats = ls_commands stats + ls_loads stats' + ls_reused stats'"
proof (induction commands arbitrary: r stats acc)
  case Nil
  then show ?case by simp
next
  case (Cons c commands)
  show ?case
  proof (cases "cmd_type c = AFULut")
    case True
    with Cons.prems obtain d r' st where l: "lut_command c r stats = Inr (d, r', st)"
      and rest: "lut_loop commands r' st (acc @ [d]) = Inr (out, stats')"
      by (auto split: sum.splits)
    note L = lut_command_Inr [OF l True]
    from Cons.IH [OF rest] obtain new where new: "out = (acc @ [d]) @ new"
      "list_all2 lut_rewritten commands new" "lut_safe r' new"
      "ls_commands stats' + ls_loads st + ls_reused st = ls_commands st + ls_loads stats' + ls_reused stats'" by blast
    have "cmd_type d = AFULut" "lut_identity d = lut_identity c" using L(1) True by (simp_all add: lut_rewritten_def)
    with L new have "lut_safe r (d # new)" by (auto simp: lut_after_def)
    with L new show ?thesis by (intro exI [where x = "d # new"]) (auto split: if_splits)
  next
    case False
    define r' where "r' = (if writes_lut c then None else r)"
    from Cons.prems False obtain st where rest: "lut_loop commands r' st (acc @ [c]) = Inr (out, stats')"
      and st: "ls_commands st = ls_commands stats" "ls_loads st = ls_loads stats" "ls_reused st = ls_reused stats"
      by (auto simp: r'_def writes_lut_def split: option.splits if_splits)
    from Cons.IH [OF rest] obtain new where new: "out = (acc @ [c]) @ new"
      "list_all2 lut_rewritten commands new" "lut_safe r' new"
      "ls_commands stats' + ls_loads st + ls_reused st = ls_commands st + ls_loads stats' + ls_reused stats'" by blast
    have "lut_rewritten c c" using False by (simp add: lut_rewritten_def)
    moreover have "lut_safe r (c # new)" using new(3) False by (simp add: lut_after_def r'_def)
    ultimately show ?thesis using new st False by (intro exI [where x = "c # new"]) simp
  qed
qed

section \<open>External loads\<close>

type_synonym location = "u16 \<times> u16 \<times> nat"
type_synonym ('v, 'o) machine_state = "(location \<Rightarrow> 'v) \<times> 'o"

definition covers :: "SemanticMemoryAccess \<Rightarrow> location \<Rightarrow> bool" where
  "covers a l \<longleftrightarrow> fst l = acc_region a \<and> fst (snd l) = acc_index a \<and>
     acc_begin a \<le> snd (snd l) \<and> snd (snd l) < acc_end a"

lemma Overlaps_covers: "\<not> Overlaps a b \<Longrightarrow> covers a l \<Longrightarrow> \<not> covers b l"
  by (auto simp: Overlaps_def SameStorage_def covers_def)

lemma covers_same_range: "same_range a b \<Longrightarrow> covers a l = covers b l"
  by (simp add: same_range_def covers_def)

text \<open>Byte copies, as pairs of destination and source, in the order they are made.\<close>

definition copy_all :: "(location \<times> location) list \<Rightarrow> (location \<Rightarrow> 'v) \<Rightarrow> location \<Rightarrow> 'v" where
  "copy_all ps m = fold (\<lambda>(d, s) m. m(d := m s)) ps m"

lemma copy_all_eval:
  assumes "\<forall>p \<in> set ps. \<forall>q \<in> set ps. fst p \<noteq> snd q"
  shows "copy_all ps m l = (case map_of (rev ps) l of None \<Rightarrow> m l | Some s \<Rightarrow> m s)"
  using assms
proof (induction ps arbitrary: l rule: rev_induct)
  case Nil
  then show ?case by (simp add: copy_all_def)
next
  case (snoc p ps)
  obtain d s where p: "p = (d, s)" by (cases p)
  from snoc.prems have IH: "copy_all ps m = (\<lambda>l. case map_of (rev ps) l of None \<Rightarrow> m l | Some s \<Rightarrow> m s)"
    by (intro ext snoc.IH) simp
  have s: "s \<notin> fst ` set ps" using snoc.prems by (force simp: p)
  from s have "map_of (rev ps) s = None" by (simp add: map_of_eq_None_iff)
  moreover have "copy_all (ps @ [p]) m = (copy_all ps m)(d := copy_all ps m s)"
    by (simp add: copy_all_def p)
  ultimately show ?case by (simp add: IH p)
qed

lemma copy_all_cong:
  assumes sep: "\<forall>p \<in> set ps. \<forall>q \<in> set ps. fst p \<noteq> snd q" and st: "copy_all ps m = m"
    and eq: "\<forall>p \<in> set ps. m' (fst p) = m (fst p) \<and> m' (snd p) = m (snd p)"
  shows "copy_all ps m' = m'"
proof
  fix l
  show "copy_all ps m' l = m' l"
  proof (cases "map_of (rev ps) l")
    case None
    then show ?thesis by (simp add: copy_all_eval [OF sep])
  next
    case (Some s)
    then have "(l, s) \<in> set ps" using map_of_SomeD by fastforce
    with eq have "m' l = m l" "m' s = m s" by auto
    moreover from fun_cong [OF st, of l] Some have "m s = m l" by (simp add: copy_all_eval [OF sep])
    ultimately show ?thesis using Some by (simp add: copy_all_eval [OF sep])
  qed
qed

lemma copy_all_idem:
  assumes sep: "\<forall>p \<in> set ps. \<forall>q \<in> set ps. fst p \<noteq> snd q"
  shows "copy_all ps (copy_all ps m) = copy_all ps m"
proof
  fix l
  show "copy_all ps (copy_all ps m) l = copy_all ps m l"
  proof (cases "map_of (rev ps) l")
    case (Some s)
    then have "(l, s) \<in> set ps" using map_of_SomeD by fastforce
    with sep have "s \<notin> fst ` set ps" by force
    then have "map_of (rev ps) s = None" by (simp add: map_of_eq_None_iff)
    with Some show ?thesis by (simp add: copy_all_eval [OF sep])
  qed (simp add: copy_all_eval [OF sep])
qed

lemma copy_all_outside: "l \<notin> fst ` set ps \<Longrightarrow> copy_all ps m l = m l"
  unfolding copy_all_def
  by (induction ps arbitrary: m) auto

text \<open>
  The machine: a load copies bytes of its source range to its destination range, chosen by its type,
  descriptor and ranges; any other command changes memory only where it declares a write; the index of
  a command in the stream has no effect.
\<close>

definition load_machine ::
  "(SemanticCommand \<Rightarrow> ('v, 'o) machine_state \<Rightarrow> ('v, 'o) machine_state) \<Rightarrow>
   (ResidentTransfer \<Rightarrow> (location \<times> location) list) \<Rightarrow> bool" where
  "load_machine run copies \<longleftrightarrow>
     (\<forall>t. \<forall>p \<in> set (copies t). covers (rt_destination t) (fst p) \<and> covers (rt_source t) (snd p)) \<and>
     (\<forall>t c. matches c t \<longrightarrow> copies (transfer_of c) = copies t) \<and>
     (\<forall>c m x. is_load c \<longrightarrow> run c (m, x) = (copy_all (copies (transfer_of c)) m, x)) \<and>
     (\<forall>c m x l. \<not> is_load c \<longrightarrow> (\<forall>a \<in> set (cmd_memoryAccesses c). acc_mode a = Write \<longrightarrow> \<not> covers a l) \<longrightarrow>
        fst (run c (m, x)) l = m l) \<and>
     (\<forall>c i. run (c\<lparr>cmd_sourceCommandIndex := i\<rparr>) = run c)"

definition stable :: "(ResidentTransfer \<Rightarrow> (location \<times> location) list) \<Rightarrow> (location \<Rightarrow> 'v) \<Rightarrow> ResidentTransfer \<Rightarrow> bool" where
  "stable copies m t \<longleftrightarrow> \<not> Overlaps (rt_source t) (rt_destination t) \<and> copy_all (copies t) m = m"

lemma invalidate_set:
  "set (invalidate accesses resident) =
   {t \<in> set resident. \<forall>a \<in> set accesses. acc_mode a = Write \<longrightarrow>
      \<not> Overlaps a (rt_source t) \<and> \<not> Overlaps a (rt_destination t)}"
  unfolding invalidate_def
  by (induction accesses arbitrary: resident) auto

lemma machine_facts:
  assumes "load_machine run copies"
  shows "\<And>p t. p \<in> set (copies t) \<Longrightarrow> covers (rt_destination t) (fst p) \<and> covers (rt_source t) (snd p)"
  "\<And>t c. matches c t \<Longrightarrow> copies (transfer_of c) = copies t"
  "\<And>c m x. is_load c \<Longrightarrow> run c (m, x) = (copy_all (copies (transfer_of c)) m, x)"
  "\<And>c m x l. \<not> is_load c \<Longrightarrow> (\<forall>a \<in> set (cmd_memoryAccesses c). acc_mode a = Write \<longrightarrow> \<not> covers a l) \<Longrightarrow>
     fst (run c (m, x)) l = m l"
  using assms unfolding load_machine_def by blast+

lemma separated:
  assumes machine: "load_machine run copies" and no: "\<not> Overlaps (rt_source t) (rt_destination t)"
  shows "\<forall>p \<in> set (copies t). \<forall>q \<in> set (copies t). fst p \<noteq> snd q"
proof (intro ballI notI)
  fix p q assume p: "p \<in> set (copies t)" and q: "q \<in> set (copies t)" and eq: "fst p = snd q"
  from machine_facts(1) [OF machine p] eq have "covers (rt_destination t) (snd q)" by simp
  moreover from machine_facts(1) [OF machine q] have "covers (rt_source t) (snd q)" by simp
  ultimately show False using Overlaps_covers [OF no] by blast
qed

lemma stable_kept:
  assumes machine: "load_machine run copies" and "stable copies m t" and "\<And>l. covers (rt_source t) l \<or> covers (rt_destination t) l \<Longrightarrow> m' l = m l"
  shows "stable copies m' t"
proof -
  have "copy_all (copies t) m' = m'"
  proof (rule copy_all_cong [OF separated [OF machine]])
    show "\<not> Overlaps (rt_source t) (rt_destination t)" "copy_all (copies t) m = m"
      using assms(2) by (simp_all add: stable_def)
    show "\<forall>p \<in> set (copies t). m' (fst p) = m (fst p) \<and> m' (snd p) = m (snd p)"
    proof
      fix p assume "p \<in> set (copies t)"
      from machine_facts(1) [OF machine this] assms(3) show "m' (fst p) = m (fst p) \<and> m' (snd p) = m (snd p)"
        by blast
    qed
  qed
  with assms(2) show ?thesis by (simp add: stable_def)
qed

lemma stable_invalidate:
  assumes machine: "load_machine run copies" and "\<forall>t \<in> set resident. stable copies m t"
    and "\<And>l. (\<forall>a \<in> set accesses. acc_mode a = Write \<longrightarrow> \<not> covers a l) \<Longrightarrow> m' l = m l"
  shows "\<forall>t \<in> set (invalidate accesses resident). stable copies m' t"
proof
  fix t assume "t \<in> set (invalidate accesses resident)"
  then have t: "t \<in> set resident" and no: "\<And>a. a \<in> set accesses \<Longrightarrow> acc_mode a = Write \<Longrightarrow>
      \<not> Overlaps a (rt_source t) \<and> \<not> Overlaps a (rt_destination t)"
    by (auto simp: invalidate_set)
  show "stable copies m' t"
  proof (rule stable_kept [OF machine])
    show "stable copies m t" using assms(2) t by blast
    fix l assume l: "covers (rt_source t) l \<or> covers (rt_destination t) l"
    show "m' l = m l"
    proof (rule assms(3), intro ballI impI)
      fix a assume "a \<in> set accesses" "acc_mode a = Write"
      from no [OF this] l show "\<not> covers a l" using Overlaps_covers by blast
    qed
  qed
qed

lemma run_frame:
  assumes machine: "load_machine run copies" and "\<forall>a \<in> set (cmd_memoryAccesses c). acc_mode a = Write \<longrightarrow> \<not> covers a l"
  shows "fst (run c (m, x)) l = m l"
proof (cases "is_load c")
  case False
  from machine_facts(4) [OF machine this assms(2)] show ?thesis .
next
  case True
  then have "cmd_memoryAccesses c ! 1 \<in> set (cmd_memoryAccesses c)" "acc_mode (cmd_memoryAccesses c ! 1) = Write"
    by (simp_all add: is_load_def)
  with assms(2) have no: "\<not> covers (rt_destination (transfer_of c)) l" by (simp add: transfer_of_def)
  have "l \<notin> fst ` set (copies (transfer_of c))"
  proof
    assume "l \<in> fst ` set (copies (transfer_of c))"
    then obtain p where "p \<in> set (copies (transfer_of c))" "l = fst p" by blast
    with machine_facts(1) [OF machine] no show False by metis
  qed
  with True show ?thesis by (simp add: machine_facts(3) [OF machine] copy_all_outside)
qed

lemma dma_loop_runs:
  assumes machine: "load_machine run copies"
  shows "dma_loop commands resident stats acc = Inr (out, stats') \<Longrightarrow> \<forall>t \<in> set resident. stable copies m t \<Longrightarrow>
   \<exists>new. out = acc @ new \<and> fold run new (m, x) = fold run commands (m, x)"
proof (induction commands arbitrary: resident stats acc m x)
  case Nil
  then show ?case by simp
next
  case (Cons c commands)
  define m' x' where "m' = fst (run c (m, x))" and "x' = snd (run c (m, x))"
  have run: "run c (m, x) = (m', x')" by (simp add: m'_def x'_def)
  have keep: "\<forall>t \<in> set (invalidate (cmd_memoryAccesses c) resident). stable copies m' t"
    by (rule stable_invalidate [OF machine Cons.prems(2)]) (simp add: m'_def run_frame [OF machine])
  show ?case
  proof (cases "is_load c")
    case False
    with Cons.prems(1) have "dma_loop commands (invalidate (cmd_memoryAccesses c) resident) stats (acc @ [c]) = Inr (out, stats')"
      by simp
    from Cons.IH [OF this keep, of x'] obtain new where
      "out = (acc @ [c]) @ new" "fold run new (m', x') = fold run commands (m', x')" by blast
    with run show ?thesis by (intro exI [where x = "c # new"]) simp
  next
    case load: True
    show ?thesis
    proof (cases "List.find (matches c) resident")
      case (Some t)
      then have t: "t \<in> set resident" "matches c t" by (auto simp: find_Some_iff)
      with Cons.prems(2) have "copy_all (copies t) m = m" by (simp add: stable_def)
      with load machine_facts(2) [OF machine t(2)] have "run c (m, x) = (m, x)"
        by (simp add: machine_facts(3) [OF machine])
      moreover from Cons.prems(1) load Some obtain st where
        "dma_loop commands resident st acc = Inr (out, stats')" by (auto simp: Let_def)
      ultimately show ?thesis using Cons.IH Cons.prems(2) by simp
    next
      case None
      with Cons.prems(1) load obtain st where
        d: "dma_loop commands (invalidate (cmd_memoryAccesses c) resident @ [transfer_of c]) st (acc @ [c]) =
          Inr (out, stats')"
        and no: "\<not> Overlaps (cmd_memoryAccesses c ! 0) (cmd_memoryAccesses c ! 1)"
        by (auto simp: Let_def split: if_splits)
      have "stable copies m' (transfer_of c)"
        using no copy_all_idem [OF separated [OF machine], of "transfer_of c"] load
        by (simp add: stable_def transfer_of_def m'_def machine_facts(3) [OF machine])
      with keep have "\<forall>t \<in> set (invalidate (cmd_memoryAccesses c) resident @ [transfer_of c]). stable copies m' t"
        by simp
      from Cons.IH [OF d this, of x'] obtain new where
        "out = (acc @ [c]) @ new" "fold run new (m', x') = fold run commands (m', x')" by blast
      with run show ?thesis by (intro exI [where x = "c # new"]) simp
    qed
  qed
qed

lemma fold_unindexed:
  assumes "load_machine run copies"
  shows "fold run (map unindexed commands) s = fold run commands s"
proof -
  have "run (unindexed c) = run c" for c
    using assms by (simp add: load_machine_def unindexed_def)
  then show ?thesis by (induction commands arbitrary: s) simp_all
qed

lemma OptimizeDMA_runs:
  assumes machine: "load_machine run copies" and o: "OptimizeDMAResidency commands = Inr (out, stats)"
  shows "fold run out s = fold run commands s"
proof -
  from o obtain new where d: "dma_loop commands [] no_dma_stats [] = Inr (new, stats)" and out: "out = reindex new"
    by (auto simp: OptimizeDMAResidency_def split: sum.splits)
  obtain m x where s: "s = (m, x)" by (cases s)
  from dma_loop_runs [OF machine d, of m x] have "fold run new s = fold run commands s" by (simp add: s)
  then show ?thesis
    using fold_unindexed [OF machine, of out s] fold_unindexed [OF machine, of new s] by (simp add: out)
qed

text \<open>The counters, and what the passes keep of the commands themselves.\<close>

lemma count_redundant_stats:
  "ds_inputLoads (count_redundant c st) = ds_inputLoads st"
  "ds_retainedLoads (count_redundant c st) = ds_retainedLoads st"
  "ds_redundantConstantLoads (count_redundant c st) + ds_redundantFeatureLoads (count_redundant c st) =
     Suc (ds_redundantConstantLoads st + ds_redundantFeatureLoads st)"
  by (simp_all add: count_redundant_def Let_def)

lemma dma_loop_Inr:
  "dma_loop commands resident stats acc = Inr (out, stats') \<Longrightarrow>
   \<exists>new. out = acc @ new \<and> subseq new commands \<and>
     filter (\<lambda>c. \<not> is_load c) new = filter (\<lambda>c. \<not> is_load c) commands \<and>
     ds_inputLoads stats' = ds_inputLoads stats + length (filter is_load commands) \<and>
     ds_retainedLoads stats' = ds_retainedLoads stats + length (filter is_load new) \<and>
     ds_redundantConstantLoads stats' + ds_redundantFeatureLoads stats' + length new =
       ds_redundantConstantLoads stats + ds_redundantFeatureLoads stats + length commands"
proof (induction commands arbitrary: resident stats acc)
  case Nil
  then show ?case by simp
next
  case (Cons c commands)
  show ?case
  proof (cases "is_load c")
    case False
    with Cons.prems have "dma_loop commands (invalidate (cmd_memoryAccesses c) resident) stats (acc @ [c]) = Inr (out, stats')"
      by simp
    from Cons.IH [OF this] obtain new where "out = (acc @ [c]) @ new" "subseq new commands" "filter (\<lambda>c. \<not> is_load c) new = filter (\<lambda>c. \<not> is_load c) commands"
      "ds_inputLoads stats' = ds_inputLoads stats + length (filter is_load commands)"
      "ds_retainedLoads stats' = ds_retainedLoads stats + length (filter is_load new)"
      "ds_redundantConstantLoads stats' + ds_redundantFeatureLoads stats' + length new =
         ds_redundantConstantLoads stats + ds_redundantFeatureLoads stats + length commands" by blast
    with False show ?thesis by (intro exI [where x = "c # new"]) simp
  next
    case load: True
    define st where "st = stats\<lparr>ds_inputLoads := ds_inputLoads stats + 1\<rparr>"
    show ?thesis
    proof (cases "List.find (matches c) resident")
      case (Some t)
      with load Cons.prems have "dma_loop commands resident (count_redundant c st) acc = Inr (out, stats')"
        by (simp add: st_def Let_def)
      from Cons.IH [OF this] obtain new where "out = acc @ new" "subseq new commands" "filter (\<lambda>c. \<not> is_load c) new = filter (\<lambda>c. \<not> is_load c) commands"
        "ds_inputLoads stats' = ds_inputLoads (count_redundant c st) + length (filter is_load commands)"
        "ds_retainedLoads stats' = ds_retainedLoads (count_redundant c st) + length (filter is_load new)"
        "ds_redundantConstantLoads stats' + ds_redundantFeatureLoads stats' + length new =
           ds_redundantConstantLoads (count_redundant c st) + ds_redundantFeatureLoads (count_redundant c st) + length commands" by blast
      with load count_redundant_stats [of c st] show ?thesis
        by (intro exI [where x = new]) (simp add: st_def list_emb_Cons)
    next
      case None
      with Cons.prems load have
        "dma_loop commands (invalidate (cmd_memoryAccesses c) resident @ [transfer_of c])
          (st\<lparr>ds_retainedLoads := ds_retainedLoads st + 1\<rparr>) (acc @ [c]) = Inr (out, stats')"
        by (simp add: st_def Let_def split: if_splits)
      from Cons.IH [OF this] obtain new where "out = (acc @ [c]) @ new" "subseq new commands" "filter (\<lambda>c. \<not> is_load c) new = filter (\<lambda>c. \<not> is_load c) commands"
        "ds_inputLoads stats' = ds_inputLoads st + length (filter is_load commands)"
        "ds_retainedLoads stats' = Suc (ds_retainedLoads st + length (filter is_load new))"
        "ds_redundantConstantLoads stats' + ds_redundantFeatureLoads stats' + length new =
           ds_redundantConstantLoads st + ds_redundantFeatureLoads st + length commands" by auto
      with load show ?thesis by (intro exI [where x = "c # new"]) (simp add: st_def)
    qed
  qed
qed

lemma OptimizeDMA_accounting:
  assumes "OptimizeDMAResidency commands = Inr (out, stats)"
  shows "subseq (map unindexed out) (map unindexed commands) \<and>
    ds_inputLoads stats = ds_retainedLoads stats +
      ds_redundantConstantLoads stats + ds_redundantFeatureLoads stats \<and>
    length commands = length out + ds_redundantConstantLoads stats + ds_redundantFeatureLoads stats"
proof -
  from assms obtain new where d: "dma_loop commands [] no_dma_stats [] = Inr (new, stats)" and out: "out = reindex new"
    by (auto simp: OptimizeDMAResidency_def split: sum.splits)
  from dma_loop_Inr [OF d] have sub: "subseq new commands"
    and s: "ds_inputLoads stats = length (filter is_load commands)" "ds_retainedLoads stats = length (filter is_load new)"
      "ds_redundantConstantLoads stats + ds_redundantFeatureLoads stats + length new = length commands"
    and others: "filter (\<lambda>c. \<not> is_load c) new = filter (\<lambda>c. \<not> is_load c) commands"
    by (auto simp: no_dma_stats_def)
  have keep: "length (filter is_load commands) + length new = length (filter is_load new) + length commands"
    using others sum_length_filter_compl [of is_load commands] sum_length_filter_compl [of is_load new]
    by simp
  show ?thesis using sub s keep by (simp add: out subseq_map)
qed

lemma OptimizeQParam_views:
  assumes "OptimizeQParamResidency commands = Inr (out, stats)"
  shows "qparam_views None (map unindexed out) = qparam_views None (map unindexed commands) \<and>
    no_redundant_load None out \<and> qs_inputLoads stats = rq_loads commands \<and>
    qs_retainedLoads stats = rq_loads out \<and> qs_redundantLoads stats + length out = length commands"
proof -
  from assms obtain new where d: "qparam_loop commands None no_qparam_stats [] = Inr (new, stats)" and out: "out = reindex new"
    by (auto simp: OptimizeQParamResidency_def split: sum.splits)
  have "rq_loads out = rq_loads new"
    using rq_loads_unindexed [of out] rq_loads_unindexed [of new] by (simp add: out)
  moreover have "no_redundant_load None out = no_redundant_load None new"
    using no_redundant_unindexed [of None out] no_redundant_unindexed [of None new] by (simp add: out)
  ultimately show ?thesis
    using qparam_loop_Inr [OF d] by (auto simp: out qparam_views_unindexed no_qparam_stats_def)
qed

section \<open>The pipeline\<close>

text \<open>What graph and scheduler need of a command, apart from its index.\<close>

definition command_form :: "SemanticCommand \<Rightarrow> bool" where
  "command_form c \<longleftrightarrow>
     16 \<le> length (cmd_encoding c) \<and> Read16 (cmd_encoding c) 0 = CommandType_code (cmd_type c) \<and>
     read16n (cmd_encoding c) 2 = length (cmd_encoding c) \<and>
     issue_class (cmd_type c) (issue_of c) \<and> list_all wf_access (cmd_memoryAccesses c)"

lemma stream_valid_form:
  "stream_valid cmds \<longleftrightarrow> (\<forall>i < length cmds. cmd_sourceCommandIndex (cmds ! i) = word_of_nat i) \<and>
     list_all command_form cmds"
  by (auto simp: stream_valid_def command_ok_def command_form_def list_all_length)

lemma command_form_reindexed [simp]:
  "command_form (c\<lparr>cmd_sourceCommandIndex := i\<rparr>) = command_form c" "blocking (c\<lparr>cmd_sourceCommandIndex := i\<rparr>) = blocking c"
  by (simp_all add: command_form_def blocking_def issue_of_def)

lemma reindex_valid:
  assumes "list_all command_form cmds" and "list_all blocking cmds"
  shows "stream_valid (reindex cmds) \<and> list_all blocking (reindex cmds)"
  using assms by (simp add: stream_valid_form list_all_length)

lemma subseq_list_all: "subseq xs ys \<Longrightarrow> list_all P ys \<Longrightarrow> list_all P xs"
  by (induction rule: list_emb.induct) auto

lemma OptimizeDMA_valid:
  assumes "OptimizeDMAResidency cmds = Inr (out, stats)" and "stream_valid cmds" and "list_all blocking cmds"
  shows "stream_valid out \<and> list_all blocking out"
proof -
  from assms(1) obtain new where d: "dma_loop cmds [] no_dma_stats [] = Inr (new, stats)" and out: "out = reindex new"
    by (auto simp: OptimizeDMAResidency_def split: sum.splits)
  from dma_loop_Inr [OF d] have "subseq new cmds" by auto
  with assms(2,3) subseq_list_all show ?thesis
    unfolding out by (intro reindex_valid) (auto simp: stream_valid_form)
qed

lemma OptimizeQParam_valid:
  assumes "OptimizeQParamResidency cmds = Inr (out, stats)" and "stream_valid cmds" and "list_all blocking cmds"
  shows "stream_valid out \<and> list_all blocking out"
proof -
  from assms(1) obtain new where d: "qparam_loop cmds None no_qparam_stats [] = Inr (new, stats)" and out: "out = reindex new"
    by (auto simp: OptimizeQParamResidency_def split: sum.splits)
  from qparam_loop_Inr [OF d] have "subseq new cmds" by auto
  with assms(2,3) subseq_list_all show ?thesis
    unfolding out by (intro reindex_valid) (auto simp: stream_valid_form)
qed

lemma lut_rewritten_form:
  assumes r: "lut_rewritten c d" and f: "command_form c"
  shows "command_form d" and "blocking d = blocking c"
proof -
  have i: "issue_of d = issue_of c" and t: "cmd_type d = cmd_type c" using r by (simp_all add: lut_rewritten_def)
  then show "blocking d = blocking c" by (simp add: blocking_def issue_of_def)
  show "command_form d"
  proof (cases "cmd_type c = AFULut")
    case False
    with r f show ?thesis by (simp add: lut_rewritten_def)
  next
    case True
    with r have e: "cmd_encoding d = Write32 (cmd_encoding c) 4 (cmd_flags d)"
      and m: "cmd_memoryAccesses d = (if reuses_lut d \<and> length (cmd_memoryAccesses c) = 3
        then butlast (cmd_memoryAccesses c) else cmd_memoryAccesses c)" by (simp_all add: lut_rewritten_def)
    have "list_all wf_access (cmd_memoryAccesses c)" using f by (simp add: command_form_def)
    then have "list_all wf_access (cmd_memoryAccesses d)" using m by (auto simp: list_all_iff dest: in_set_butlastD)
    moreover have "Read16 (cmd_encoding d) 0 = Read16 (cmd_encoding c) 0" "Read16 (cmd_encoding d) 2 = Read16 (cmd_encoding c) 2"
      unfolding e by (simp_all add: Read16_def Write32_def nth_list_update)
    ultimately show ?thesis using f i t e by (simp add: command_form_def)
  qed
qed

lemma OptimizeAFULut_valid:
  assumes "OptimizeAFULutResidency cmds = Inr (out, stats)" and "stream_valid cmds" and "list_all blocking cmds"
  shows "stream_valid out \<and> list_all blocking out"
proof -
  from lut_loop_Inr [OF assms(1) [unfolded OptimizeAFULutResidency_def]]
  have r: "list_all2 lut_rewritten cmds out" by auto
  then have len: "length out = length cmds" and nth: "\<And>i. i < length cmds \<Longrightarrow> lut_rewritten (cmds ! i) (out ! i)"
    by (auto simp: list_all2_conv_all_nth)
  from assms(2,3) have c: "\<And>i. i < length cmds \<Longrightarrow> cmd_sourceCommandIndex (cmds ! i) = word_of_nat i"
    "\<And>i. i < length cmds \<Longrightarrow> command_form (cmds ! i)" "\<And>i. i < length cmds \<Longrightarrow> blocking (cmds ! i)"
    by (simp_all add: stream_valid_form list_all_length)
  have "cmd_sourceCommandIndex (out ! i) = word_of_nat i \<and> command_form (out ! i) \<and> blocking (out ! i)"
    if "i < length cmds" for i
    using nth [OF that] c [OF that] lut_rewritten_form [OF nth [OF that]] by (simp add: lut_rewritten_def)
  then show ?thesis by (simp add: stream_valid_form list_all_length len)
qed

text \<open>A run of the pipeline: every intermediate stream and the final schedule.\<close>

definition optimized_run :: "bytes \<Rightarrow> optimized_stream \<Rightarrow> bool" where
  "optimized_run bs r \<longleftrightarrow> (\<exists>cmds d ds q qs l ls cmds' g st t.
     DecodeSemanticCommandStream bs = Inr cmds \<and>
     OptimizeDMAResidency cmds = Inr (d, ds) \<and> OptimizeQParamResidency d = Inr (q, qs) \<and>
     OptimizeAFULutResidency q = Inr (l, ls) \<and> BuildCommandDependencyGraph l = Inr (cmds', g) \<and>
     ScheduleGlobalCommandStream cmds' g = Inr (os_commands r, st, t) \<and>
     schedule_good cmds' g (os_commands r) t \<and> os_insertedWaits r = stat_insertedWaits st \<and>
     os_removedCommands r = length cmds - length cmds')"

lemma Optimize_blocking:
  assumes dec: "DecodeSemanticCommandStream bs = Inr cmds" and bl: "list_all blocking cmds"
  shows "(\<exists>e. OptimizeGlobalCommandSchedule bs = Inl (ResidencyFailed e)) \<or>
    (\<exists>r. OptimizeGlobalCommandSchedule bs = Inr r \<and> optimized_run bs r)"
proof -
  have "stream_ok 0 cmds" using dec by (simp add: DecodeSemanticCommandStream_iff)
  then have v: "stream_valid cmds" by (rule stream_ok_valid)
  show ?thesis
  proof (cases "OptimizeDMAResidency cmds")
    case (Inl e)
    then show ?thesis by (simp add: OptimizeGlobalCommandSchedule_def dec)
  next
    case d: (Inr dd)
    obtain d ds where dd: "dd = (d, ds)" by (cases dd)
    note dv = OptimizeDMA_valid [OF d [unfolded dd] v bl]
    show ?thesis
    proof (cases "OptimizeQParamResidency d")
      case (Inl e)
      then show ?thesis by (simp add: OptimizeGlobalCommandSchedule_def dec d dd)
    next
      case q: (Inr qq)
      obtain q qs where qq: "qq = (q, qs)" by (cases qq)
      note qv = OptimizeQParam_valid [OF q [unfolded qq] conjunct1 [OF dv] conjunct2 [OF dv]]
      show ?thesis
      proof (cases "OptimizeAFULutResidency q")
        case (Inl e)
        then show ?thesis by (simp add: OptimizeGlobalCommandSchedule_def dec d dd q qq)
      next
        case l: (Inr ll)
        obtain l ls where ll: "ll = (l, ls)" by (cases ll)
        note lv = OptimizeAFULut_valid [OF l [unfolded ll] conjunct1 [OF qv] conjunct2 [OF qv]]
        define cmds' g where "cmds' = AnnotateState (AnnotateContent l)"
          and "g = graph_of (length l) (build_edges l)"
        have b: "BuildCommandDependencyGraph l = Inr (cmds', g)"
          unfolding cmds'_def g_def using Build_eq lv by blast
        have "schedulable cmds' g"
          unfolding cmds'_def g_def using schedulable_built lv by blast
        from schedule_result [OF this] obtain out st t where
          s: "ScheduleGlobalCommandStream cmds' g = Inr (out, st, t)" "schedule_good cmds' g out t" .
        define r where "r = \<lparr>os_commands = out, os_insertedWaits = stat_insertedWaits st,
          os_removedCommands = length cmds - length cmds'\<rparr>"
        have "OptimizeGlobalCommandSchedule bs = Inr r"
          by (simp add: OptimizeGlobalCommandSchedule_def dec d dd q qq l ll b s(1) r_def)
        moreover have "optimized_run bs r"
          unfolding optimized_run_def using dec d dd q qq l ll b s by (auto simp: r_def)
        ultimately show ?thesis by blast
      qed
    qed
  qed
qed

end
