(* ===== verification/NAI_Compactor.thy ===== *)
theory NAI_Compactor
  imports NAI_CommandIR
begin

text \<open>
  \<^verbatim>\<open>compiler/neural_ai_command_compactor.cpp\<close>: affine loop compaction of a scheduled command stream,
  and its expansion.

  \<^verbatim>\<open>BuildCandidate\<close> looks for a body of commands whose repetitions differ by a constant per 32-bit
  word; \<^verbatim>\<open>CompactAffineCommandStream\<close> chooses non-overlapping candidates by dynamic programming and
  writes each as one loop record; \<^verbatim>\<open>ExpandAffineCommandStream\<close> checks and unrolls the records.
  Word contents wrap as \<open>u32\<close> values.  Byte counts that the code keeps in \<^verbatim>\<open>uint32_t\<close> are natural
  numbers reduced by \<open>wrap32\<close> where the code adds or casts them.  Command counts and indices are
  natural numbers (a command takes at least 32 bytes, so a stream of fewer than \<open>2 ^ 32\<close> bytes has
  fewer than \<open>2 ^ 27\<close> commands).
\<close>

section \<open>Records and constants\<close>

definition MaxAffineLoopPatches :: nat where "MaxAffineLoopPatches = 24"
definition MaxAffineLoopBodyCommands :: nat where "MaxAffineLoopBodyCommands = 16"
definition MaxAffineLoopRecordBytes :: nat where "MaxAffineLoopRecordBytes = 2048"
definition sizeof_CommandHeaderV2 :: nat where "sizeof_CommandHeaderV2 = 16"
definition sizeof_CommandAffineLoopV2 :: nat where "sizeof_CommandAffineLoopV2 = 32"
definition sizeof_CommandAffinePatchV2 :: nat where "sizeof_CommandAffinePatchV2 = 8"

definition wrap32 :: "nat \<Rightarrow> nat" where "wrap32 n = n mod 2 ^ 32"

record CommandCompactionStats =
  cs_logicalCommands :: nat
  cs_encodedCommands :: nat
  cs_loops :: nat
  cs_loopedCommands :: nat
  cs_bytesBefore :: nat
  cs_bytesAfter :: nat

record Patch =
  patch_bodyWordOffset :: u32
  patch_delta :: u32

record Candidate =
  cand_begin :: nat
  cand_end :: nat
  cand_bodyCommands :: nat
  cand_iterations :: nat
  cand_bodyBytes :: nat
  cand_descriptorBytes :: nat
  cand_savedBytes :: nat
  cand_encodedReduction :: nat
  cand_patches :: "Patch list"

record Score =
  score_savedBytes :: nat
  score_encodedReduction :: nat

definition Better :: "Score \<Rightarrow> Score \<Rightarrow> bool" where
  "Better lhs rhs \<longleftrightarrow>
     score_savedBytes lhs > score_savedBytes rhs \<or>
     (score_savedBytes lhs = score_savedBytes rhs \<and>
      score_encodedReduction lhs > score_encodedReduction rhs)"

text \<open>\<^verbatim>\<open>(value + Alignment - 1) & ~(Alignment - 1)\<close>\<close>

definition Align32 :: "u32 \<Rightarrow> u32" where
  "Align32 value = (value + Alignment - 1) AND NOT (Alignment - 1)"

section \<open>Candidates\<close>

text \<open>
  The inner loop of \<^verbatim>\<open>BuildCandidate\<close> over the words of one child: the differences of the second
  repetition to the first, and a patch for each word that changes.  The first two words (type, size
  and flags) must not change, and there is a limit on the patches.
\<close>

primrec delta_words ::
  "bytes \<Rightarrow> bytes \<Rightarrow> nat \<Rightarrow> nat list \<Rightarrow> Patch list \<Rightarrow> (u32 list \<times> Patch list) option" where
  "delta_words first second bodyWordBase [] patches = Some ([], patches)"
| "delta_words first second bodyWordBase (word # words) patches =
     (let delta = Read32 second (word * 4) - Read32 first (word * 4) in
      if delta = 0 then
        map_option (\<lambda>(ds, ps). (delta # ds, ps)) (delta_words first second bodyWordBase words patches)
      else if word < 2 \<or> length patches = MaxAffineLoopPatches then None
      else
        map_option (\<lambda>(ds, ps). (delta # ds, ps))
          (delta_words first second bodyWordBase words
             (patches @ [\<lparr>patch_bodyWordOffset = word_of_nat (bodyWordBase + word), patch_delta = delta\<rparr>])))"

text \<open>The loop over the children: deltas per child, the byte count of the body and the patches.\<close>

primrec body_children ::
  "SemanticCommand list \<Rightarrow> nat \<Rightarrow> nat \<Rightarrow> nat list \<Rightarrow> nat \<Rightarrow> nat \<Rightarrow> Patch list \<Rightarrow>
   (u32 list list \<times> nat \<times> Patch list) option" where
  "body_children commands begin bodyCommands [] bodyWordBase bodyBytes patches =
     Some ([], bodyBytes, patches)"
| "body_children commands begin bodyCommands (child # children) bodyWordBase bodyBytes patches =
     (let first = cmd_encoding (commands ! (begin + child));
          second = cmd_encoding (commands ! (begin + bodyCommands + child)) in
      if length first \<noteq> length second \<or> length first mod 4 \<noteq> 0 \<or>
         cmd_type (commands ! (begin + child)) \<noteq> cmd_type (commands ! (begin + bodyCommands + child))
      then None
      else
        (case delta_words first second bodyWordBase [0..<length first div 4] patches of
           None \<Rightarrow> None
         | Some (childDeltas, patches') \<Rightarrow>
             map_option (\<lambda>(ds, r). (childDeltas # ds, r))
               (body_children commands begin bodyCommands children
                  (bodyWordBase + length first div 4) (wrap32 (bodyBytes + length first)) patches')))"

text \<open>The test of the next repetition against the previous one.\<close>

definition affine_child :: "SemanticCommand \<Rightarrow> SemanticCommand \<Rightarrow> u32 list \<Rightarrow> bool" where
  "affine_child previous next' deltas \<longleftrightarrow>
     \<not> (cmd_type previous \<noteq> cmd_type next' \<or>
        length (cmd_encoding previous) \<noteq> length (cmd_encoding next')) \<and>
     (\<forall>word \<in> set [0..<length deltas].
        Read32 (cmd_encoding next') (word * 4) - Read32 (cmd_encoding previous) (word * 4) =
        deltas ! word)"

definition affine_next :: "SemanticCommand list \<Rightarrow> nat \<Rightarrow> nat \<Rightarrow> nat \<Rightarrow> u32 list list \<Rightarrow> bool" where
  "affine_next commands begin bodyCommands iterations deltas \<longleftrightarrow>
     (\<forall>child \<in> set [0..<bodyCommands].
        affine_child (commands ! (begin + (iterations - 1) * bodyCommands + child))
          (commands ! (begin + iterations * bodyCommands + child)) (deltas ! child))"

text \<open>The \<^verbatim>\<open>while\<close> loop that extends the candidate; \<open>bodyCommands\<close> is at least 1 in every call.\<close>

function extend_loop ::
  "SemanticCommand list \<Rightarrow> nat \<Rightarrow> nat \<Rightarrow> nat \<Rightarrow> u32 list list \<Rightarrow> nat \<Rightarrow> nat" where
  "extend_loop commands begin bodyCommands executableCommands deltas iterations =
     (if 0 < bodyCommands \<and> begin + (iterations + 1) * bodyCommands \<le> executableCommands \<and>
         affine_next commands begin bodyCommands iterations deltas
      then extend_loop commands begin bodyCommands executableCommands deltas (iterations + 1)
      else iterations)"
  by pat_completeness auto
termination
  by (relation "measure (\<lambda>(_, begin, body, executable, _, iterations). executable - (begin + iterations * body))") auto

declare extend_loop.simps [simp del]

definition BuildCandidate :: "SemanticCommand list \<Rightarrow> nat \<Rightarrow> nat \<Rightarrow> nat \<Rightarrow> Candidate option" where
  "BuildCandidate commands begin bodyCommands executableCommands =
     (if begin + bodyCommands * 2 > executableCommands then None
      else
        case body_children commands begin bodyCommands [0..<bodyCommands] 0 0 [] of
          None \<Rightarrow> None
        | Some (deltas, bodyBytes, patches) \<Rightarrow>
            let descriptorBytes = unat (Align32 (word_of_nat
                  (sizeof_CommandAffineLoopV2 + length patches * sizeof_CommandAffinePatchV2))) in
            if wrap32 (descriptorBytes + bodyBytes) > MaxAffineLoopRecordBytes then None
            else
              let iterations = extend_loop commands begin bodyCommands executableCommands deltas 2;
                  repeatedBytes = (iterations - 1) * bodyBytes in
              if repeatedBytes \<le> descriptorBytes then None
              else
                let saved = repeatedBytes - descriptorBytes in
                if saved = 0 \<or> saved > max_u32 then None
                else Some \<lparr>cand_begin = begin, cand_end = begin + iterations * bodyCommands,
                       cand_bodyCommands = bodyCommands, cand_iterations = iterations,
                       cand_bodyBytes = bodyBytes, cand_descriptorBytes = descriptorBytes,
                       cand_savedBytes = saved,
                       cand_encodedReduction = (iterations - 1) * bodyCommands - 1,
                       cand_patches = patches\<rparr>)"

section \<open>Choosing the loops\<close>

definition candidates_at :: "SemanticCommand list \<Rightarrow> nat \<Rightarrow> nat \<Rightarrow> Candidate list" where
  "candidates_at commands executableCommands begin =
     List.map_filter (\<lambda>body. BuildCandidate commands begin body executableCommands)
       [1..<MaxAffineLoopBodyCommands + 1]"

text \<open>The three vectors of the dynamic program; \<open>None\<close> stands for a selection of \<^verbatim>\<open>-1\<close>.\<close>

record choice_table =
  ct_best :: "Score list"
  ct_previous :: "nat list"
  ct_selected :: "nat option list"

definition initial_table :: "nat \<Rightarrow> choice_table" where
  "initial_table executableCommands =
     \<lparr>ct_best = replicate (executableCommands + 1) \<lparr>score_savedBytes = 0, score_encodedReduction = 0\<rparr>,
      ct_previous = replicate (executableCommands + 1) 0,
      ct_selected = replicate (executableCommands + 1) None\<rparr>"

definition keep_single :: "nat \<Rightarrow> choice_table \<Rightarrow> choice_table" where
  "keep_single begin t =
     (if \<not> Better (ct_best t ! (begin + 1)) (ct_best t ! begin) then
        \<lparr>ct_best = (ct_best t)[begin + 1 := ct_best t ! begin],
         ct_previous = (ct_previous t)[begin + 1 := begin],
         ct_selected = (ct_selected t)[begin + 1 := None]\<rparr>
      else t)"

definition try_candidate :: "nat \<Rightarrow> nat \<times> Candidate \<Rightarrow> choice_table \<Rightarrow> choice_table" where
  "try_candidate begin ic t =
     (let candidate = snd ic;
          score = \<lparr>score_savedBytes = score_savedBytes (ct_best t ! begin) + cand_savedBytes candidate,
                   score_encodedReduction = score_encodedReduction (ct_best t ! begin) +
                     cand_encodedReduction candidate\<rparr> in
      if Better score (ct_best t ! cand_end candidate) then
        \<lparr>ct_best = (ct_best t)[cand_end candidate := score],
         ct_previous = (ct_previous t)[cand_end candidate := begin],
         ct_selected = (ct_selected t)[cand_end candidate := Some (fst ic)]\<rparr>
      else t)"

definition choose_step :: "Candidate list list \<Rightarrow> nat \<Rightarrow> choice_table \<Rightarrow> choice_table" where
  "choose_step candidates begin t =
     fold (try_candidate begin) (enumerate 0 (candidates ! begin)) (keep_single begin t)"

definition choose_table :: "Candidate list list \<Rightarrow> nat \<Rightarrow> choice_table" where
  "choose_table candidates executableCommands =
     fold (choose_step candidates) [0..<executableCommands] (initial_table executableCommands)"

text \<open>The walk back from the end of the stream that marks the chosen candidates.\<close>

partial_function (option) mark_chosen ::
  "Candidate list list \<Rightarrow> choice_table \<Rightarrow> nat \<Rightarrow> Candidate option list \<Rightarrow> Candidate option list option" where
  [code]: "mark_chosen candidates t end' chosen =
     (if end' = 0 then Some chosen
      else
        let begin = ct_previous t ! end' in
        mark_chosen candidates t begin
          (case ct_selected t ! end' of
             None \<Rightarrow> chosen
           | Some i \<Rightarrow> chosen[begin := Some (candidates ! begin ! i)]))"

section \<open>Writing the stream\<close>

definition resize :: "bytes \<Rightarrow> nat \<Rightarrow> bytes" where
  "resize encoded n = take n encoded @ replicate (n - length encoded) 0"

definition write_patch :: "Patch \<Rightarrow> bytes \<times> nat \<Rightarrow> bytes \<times> nat" where
  "write_patch patch c =
     (Write32 (Write32 (fst c) (snd c) (patch_bodyWordOffset patch))
        (snd c + 4) (patch_delta patch), snd c + sizeof_CommandAffinePatchV2)"

definition write_loop :: "SemanticCommand list \<Rightarrow> nat \<Rightarrow> Candidate \<Rightarrow> bytes \<Rightarrow> bytes" where
  "write_loop commands commandIndex candidate encoded0 =
     (let loopOffset = wrap32 (length encoded0);
          encoded = resize encoded0 (loopOffset + cand_descriptorBytes candidate);
          encoded = Write16 encoded loopOffset (CommandType_code AffineLoop);
          encoded = Write16 encoded (loopOffset + 2) (word_of_nat (cand_descriptorBytes candidate));
          encoded = Write32 encoded (loopOffset + 8) (cmd_layerId (commands ! commandIndex));
          encoded = Write32 encoded (loopOffset + 12) (cmd_tileId (commands ! commandIndex));
          encoded = Write32 encoded (loopOffset + 16) (word_of_nat (cand_iterations candidate));
          encoded = Write32 encoded (loopOffset + 20) (word_of_nat (cand_bodyCommands candidate));
          encoded = Write32 encoded (loopOffset + 24) (word_of_nat (cand_bodyBytes candidate));
          encoded = Write32 encoded (loopOffset + 28) (word_of_nat (length (cand_patches candidate)));
          encoded = fst (fold write_patch (cand_patches candidate)
            (encoded, loopOffset + sizeof_CommandAffineLoopV2)) in
      encoded @ concat (map (\<lambda>child. cmd_encoding (commands ! (commandIndex + child)))
        [0..<cand_bodyCommands candidate]))"

partial_function (option) emit_stream ::
  "SemanticCommand list \<Rightarrow> Candidate option list \<Rightarrow> nat \<Rightarrow> nat \<Rightarrow> bytes \<Rightarrow> CommandCompactionStats \<Rightarrow>
   (bytes \<times> CommandCompactionStats) option" where
  [code]: "emit_stream commands chosen executableCommands commandIndex encoded stats =
     (if \<not> commandIndex < executableCommands then Some (encoded, stats)
      else
        case chosen ! commandIndex of
          None \<Rightarrow>
            emit_stream commands chosen executableCommands (commandIndex + 1)
              (encoded @ cmd_encoding (commands ! commandIndex))
              (stats\<lparr>cs_encodedCommands := cs_encodedCommands stats + 1\<rparr>)
        | Some candidate \<Rightarrow>
            emit_stream commands chosen executableCommands (cand_end candidate)
              (write_loop commands commandIndex candidate encoded)
              (stats\<lparr>cs_encodedCommands := cs_encodedCommands stats + cand_bodyCommands candidate + 1,
                     cs_loops := cs_loops stats + 1,
                     cs_loopedCommands := cs_loopedCommands stats +
                       cand_bodyCommands candidate * cand_iterations candidate\<rparr>))"

datatype compact_error = MissingEndCommand | AccountingMismatch

text \<open>\<open>None\<close> stands for a loop that does not end; \<open>Compact_returns\<close> below excludes it.\<close>

definition CompactAffineCommandStream ::
  "SemanticCommand list \<Rightarrow> (compact_error + bytes \<times> CommandCompactionStats) option" where
  "CompactAffineCommandStream commands =
     (if commands = [] \<or> cmd_type (last commands) \<noteq> End then Some (Inl MissingEndCommand)
      else
        let executableCommands = length commands - 1;
            candidates = map (candidates_at commands executableCommands) [0..<executableCommands];
            t = choose_table candidates executableCommands in
        case mark_chosen candidates t executableCommands (replicate executableCommands None) of
          None \<Rightarrow> None
        | Some chosen \<Rightarrow>
            let bytesBefore = fold (\<lambda>command n. wrap32 (n + length (cmd_encoding command))) commands 0;
                stats = \<lparr>cs_logicalCommands = executableCommands, cs_encodedCommands = 0, cs_loops = 0,
                         cs_loopedCommands = 0, cs_bytesBefore = bytesBefore, cs_bytesAfter = 0\<rparr> in
            case emit_stream commands chosen executableCommands 0 [] stats of
              None \<Rightarrow> None
            | Some (encoded, stats) \<Rightarrow>
                let encoded = encoded @ cmd_encoding (last commands);
                    bytesAfter = wrap32 (length encoded) in
                if bytesBefore < bytesAfter \<or>
                   bytesBefore - bytesAfter \<noteq> score_savedBytes (last (ct_best t))
                then Some (Inl AccountingMismatch)
                else Some (Inr (encoded, stats\<lparr>cs_bytesAfter := bytesAfter\<rparr>)))"

section \<open>Expansion\<close>

primrec body_offsets :: "bytes \<Rightarrow> nat \<Rightarrow> nat \<Rightarrow> nat \<Rightarrow> nat \<Rightarrow> nat list \<Rightarrow> nat list option" where
  "body_offsets encoded bodyOffset end' 0 offset commandOffsets =
     (if offset = end' then Some commandOffsets else None)"
| "body_offsets encoded bodyOffset end' (Suc children) offset commandOffsets =
     (if offset > end' \<or> end' - offset < sizeof_CommandHeaderV2 then None
      else
        let type = Read16 encoded offset; size' = read16n encoded (offset + 2) in
        if type = CommandType_code End \<or> type = CommandType_code AffineLoop \<or>
           size' < sizeof_CommandHeaderV2 \<or> size' mod 32 \<noteq> 0 \<or> size' > end' - offset
        then None
        else body_offsets encoded bodyOffset end' children (offset + size')
               (commandOffsets @ [offset - bodyOffset]))"

definition ValidateBody :: "bytes \<Rightarrow> nat \<Rightarrow> nat \<Rightarrow> nat \<Rightarrow> nat list option" where
  "ValidateBody encoded bodyOffset bodyBytes bodyCommands =
     body_offsets encoded bodyOffset (wrap32 (bodyOffset + bodyBytes)) bodyCommands bodyOffset []"

text \<open>The patch table at \<open>patchTable\<close>: word indices in range, increasing, outside the first two words.\<close>

primrec valid_patches :: "bytes \<Rightarrow> nat \<Rightarrow> bytes \<Rightarrow> nat list \<Rightarrow> nat list \<Rightarrow> nat \<Rightarrow> bool" where
  "valid_patches encoded patchTable body commandOffsets [] previousPatch \<longleftrightarrow> True"
| "valid_patches encoded patchTable body commandOffsets (patchIndex # patchIndices) previousPatch \<longleftrightarrow>
     (let word = read32n encoded (patchTable + patchIndex * sizeof_CommandAffinePatchV2);
          byte = wrap32 (word * 4) in
      \<not> (word > max_u32 div 4 \<or> byte > length body \<or> length body - byte < 4 \<or>
         (patchIndex \<noteq> 0 \<and> word \<le> previousPatch)) \<and>
      (\<exists>childOffset \<in> set commandOffsets. byte \<ge> childOffset + 8 \<and>
         byte + 4 \<le> childOffset + read16n body (childOffset + 2)) \<and>
      valid_patches encoded patchTable body commandOffsets patchIndices word)"

definition apply_patch :: "bytes \<Rightarrow> nat \<Rightarrow> nat \<Rightarrow> bytes \<Rightarrow> bytes" where
  "apply_patch encoded patchTable patchIndex body =
     (let patchOffset = patchTable + patchIndex * sizeof_CommandAffinePatchV2;
          byte = wrap32 (read32n encoded patchOffset * 4) in
      Write32 body byte (Read32 body byte + Read32 encoded (patchOffset + 4)))"

primrec unroll ::
  "bytes \<Rightarrow> nat \<Rightarrow> nat \<Rightarrow> nat \<Rightarrow> nat \<Rightarrow> bytes \<Rightarrow> bytes \<Rightarrow> nat \<Rightarrow> bytes \<times> nat" where
  "unroll encoded patchTable patchCount bodyCommands 0 body expanded logicalCommands =
     (expanded, logicalCommands)"
| "unroll encoded patchTable patchCount bodyCommands (Suc iterations) body expanded logicalCommands =
     unroll encoded patchTable patchCount bodyCommands iterations
       (fold (apply_patch encoded patchTable) [0..<patchCount] body)
       (expanded @ body) (wrap32 (logicalCommands + bodyCommands))"

text \<open>The checks on a loop record at \<open>offset\<close>, in the order of the source; \<open>Some body\<close> when all pass.\<close>

definition loop_body :: "bytes \<Rightarrow> nat \<Rightarrow> bytes option" where
  "loop_body encoded offset =
     (let size' = read16n encoded (offset + 2) in
      if size' < sizeof_CommandAffineLoopV2 \<or> Read32 encoded (offset + 4) \<noteq> 0 then None
      else
        let iterations = read32n encoded (offset + 16);
            bodyCommands = read32n encoded (offset + 20);
            bodyBytes = read32n encoded (offset + 24);
            patchCount = read32n encoded (offset + 28) in
        if iterations < 2 \<or> bodyCommands = 0 \<or> bodyCommands > MaxAffineLoopBodyCommands \<or>
           patchCount > MaxAffineLoopPatches
        then None
        else
          let expectedSize = unat (Align32 (word_of_nat
                (sizeof_CommandAffineLoopV2 + patchCount * sizeof_CommandAffinePatchV2))) in
          if size' \<noteq> expectedSize \<or>
             wrap32 (size' + bodyBytes) > MaxAffineLoopRecordBytes \<or>
             wrap32 (size' + bodyBytes) > length encoded - offset
          then None
          else
            let bodyOffset = offset + size' in
            (case ValidateBody encoded bodyOffset bodyBytes bodyCommands of
               None \<Rightarrow> None
             | Some commandOffsets \<Rightarrow>
                 let body = take bodyBytes (drop bodyOffset encoded) in
                 if valid_patches encoded (offset + sizeof_CommandAffineLoopV2) body commandOffsets
                      [0..<patchCount] 0
                 then Some body else None))"

function expand_loop :: "bytes \<Rightarrow> nat \<Rightarrow> bytes \<Rightarrow> nat \<Rightarrow> (bytes \<times> nat) option" where
  "expand_loop encoded offset expanded logicalCommands =
     (if \<not> offset < length encoded then None
      else if length encoded - offset < sizeof_CommandHeaderV2 then None
      else
        let type = Read16 encoded offset; size' = read16n encoded (offset + 2) in
        if size' < sizeof_CommandHeaderV2 \<or> size' mod 32 \<noteq> 0 \<or> size' > length encoded - offset
        then None
        else if type \<noteq> CommandType_code AffineLoop then
          let expanded = expanded @ take size' (drop offset encoded) in
          if type = CommandType_code End
          then (if offset + size' = length encoded then Some (expanded, logicalCommands) else None)
          else expand_loop encoded (offset + size') expanded (wrap32 (logicalCommands + 1))
        else
          (case loop_body encoded offset of
             None \<Rightarrow> None
           | Some body \<Rightarrow>
               let (expanded, logicalCommands) =
                     unroll encoded (offset + sizeof_CommandAffineLoopV2)
                       (read32n encoded (offset + 28)) (read32n encoded (offset + 20))
                       (read32n encoded (offset + 16)) body expanded logicalCommands in
               expand_loop encoded (offset + (size' + read32n encoded (offset + 24)))
                 expanded logicalCommands))"
  by pat_completeness auto
termination
  by (relation "measure (\<lambda>(encoded, offset, _, _). length encoded - offset)")
    (auto simp: sizeof_CommandHeaderV2_def)

declare expand_loop.simps [simp del]

datatype expand_error = MalformedAffineStream

definition ExpandAffineCommandStream :: "bytes \<Rightarrow> expand_error + bytes \<times> nat" where
  "ExpandAffineCommandStream encoded =
     (case expand_loop encoded 0 [] 0 of None \<Rightarrow> Inl MalformedAffineStream | Some r \<Rightarrow> Inr r)"

end
