(* ===== verification/NAI_CompactorProof.thy ===== *)
theory NAI_CompactorProof
  imports NAI_Compactor
begin

text \<open>
  Correctness of the compactor.  The bytes of a command are read as 32-bit words; a candidate is a
  body whose repetitions differ by a fixed vector of word deltas, and adding the deltas of its patch
  table turns one repetition into the next.  \<open>walk\<close> is the segmentation that a marking of
  candidates stands for, \<open>path\<close> any segmentation of a prefix into single commands and candidates.
  Emitting a walk and expanding the result reproduces the commands, and the dynamic program finds
  the best path.
\<close>

section \<open>Bytes as words\<close>

definition words :: "bytes \<Rightarrow> u32 list" where
  "words bs = map (\<lambda>i. Read32 bs (i * 4)) [0..<length bs div 4]"

lemma length_words [simp]: "length (words bs) = length bs div 4"
  by (simp add: words_def)

lemma nth_words: "i < length bs div 4 \<Longrightarrow> words bs ! i = Read32 bs (i * 4)"
  by (simp add: words_def)

lemma words_append:
  assumes "length xs mod 4 = 0"
  shows "words (xs @ ys) = words xs @ words ys"
proof (rule nth_equalityI)
  from assms obtain k where k: "length xs = 4 * k" by (auto simp: mod_eq_0_iff_dvd)
  then show "length (words (xs @ ys)) = length (words xs @ words ys)" by simp
  fix i assume "i < length (words (xs @ ys))"
  then have i: "i < k + length ys div 4" using k by simp
  show "words (xs @ ys) ! i = (words xs @ words ys) ! i"
  proof (cases "i < k")
    case True
    with k show ?thesis by (simp add: nth_words nth_append Read32_def)
  next
    case False
    with k i have "words (xs @ ys) ! i = Read32 (xs @ ys) (i * 4)" by (simp add: nth_words)
    also have "\<dots> = Read32 ys ((i - k) * 4)"
      using False k by (simp add: Read_prefix diff_mult_distrib mult.commute)
    finally show ?thesis using False k i by (simp add: nth_append nth_words)
  qed
qed

lemma words_concat:
  "\<forall>b \<in> set bss. length b mod 4 = 0 \<Longrightarrow> words (concat bss) = concat (map words bss)"
  by (induction bss) (simp_all add: words_append, simp add: words_def)

lemma words_inj:
  assumes "length xs mod 4 = 0" and "length ys = length xs" and "words xs = words ys"
  shows "xs = ys"
proof (rule nth_equalityI)
  show "length xs = length ys" using assms by simp
  fix j assume j: "j < length xs"
  define i where "i = j div 4"
  have i: "i < length xs div 4"
    using j assms(1) by (auto simp: i_def mod_eq_0_iff_dvd)
  have len: "i * 4 + 4 \<le> length xs" "i * 4 + 4 \<le> length ys" using i assms(2) by auto
  from assms(2,3) i have "Read32 xs (i * 4) = Read32 ys (i * 4)"
    by (metis nth_words)
  with len have "take 4 (drop (i * 4) xs) = take 4 (drop (i * 4) ys)"
    by (metis put32_Read32)
  then have "take 4 (drop (i * 4) xs) ! (j mod 4) = take 4 (drop (i * 4) ys) ! (j mod 4)" by simp
  then show "xs ! j = ys ! j"
    using len by (simp add: i_def mult.commute)
qed

lemma words_Write32:
  assumes "i < length bs div 4"
  shows "words (Write32 bs (i * 4) v) = (words bs)[i := v]"
proof (rule nth_equalityI)
  fix j assume "j < length (words (Write32 bs (i * 4) v))"
  then have j: "j < length bs div 4" by simp
  have len: "i * 4 + 4 \<le> length bs" using assms by auto
  show "words (Write32 bs (i * 4) v) ! j = (words bs)[i := v] ! j"
  proof (cases "j = i")
    case True
    have "Read32 (take (i * 4) bs @ put32 v @ drop (i * 4 + 4) bs) (length (take (i * 4) bs)) = v"
      by (rule Read32_append)
    with len assms True show ?thesis by (simp add: nth_words Write32_splice)
  next
    case False
    then have "j * 4 + 4 \<le> i * 4 \<or> i * 4 + 4 \<le> j * 4" by auto
    with False j show ?thesis
      by (auto simp: nth_words Read32_def Write32_def nth_list_update)
  qed
qed simp

section \<open>Deltas and patches\<close>

text \<open>The patch table of a vector of word deltas that starts at word \<open>base\<close>.\<close>

primrec patches_from :: "nat \<Rightarrow> u32 list \<Rightarrow> Patch list" where
  "patches_from base [] = []"
| "patches_from base (d # ds) =
     (if d = 0 then [] else [\<lparr>patch_bodyWordOffset = word_of_nat base, patch_delta = d\<rparr>]) @
     patches_from (Suc base) ds"

lemma patches_from_append:
  "patches_from base (xs @ ys) = patches_from base xs @ patches_from (base + length xs) ys"
  by (induction xs arbitrary: base) simp_all

definition keeps_header :: "u32 list \<Rightarrow> bool" where
  "keeps_header ds \<longleftrightarrow> (\<forall>w < length ds. w < 2 \<longrightarrow> ds ! w = 0)"

lemma delta_words_Some:
  assumes "delta_words first second base [k..<n] patches = Some (ds, ps)"
    and "length patches \<le> MaxAffineLoopPatches"
  shows "ds = map (\<lambda>w. Read32 second (w * 4) - Read32 first (w * 4)) [k..<n] \<and>
     ps = patches @ patches_from (base + k) ds \<and> length ps \<le> MaxAffineLoopPatches \<and>
     (\<forall>w. k \<le> w \<longrightarrow> w < n \<longrightarrow> w < 2 \<longrightarrow> ds ! (w - k) = 0)"
  using assms
proof (induction "n - k" arbitrary: k patches ds ps)
  case 0
  then show ?case by auto
next
  case (Suc m)
  define delta where "delta = Read32 second (k * 4) - Read32 first (k * 4)"
  have kn: "[k..<n] = k # [Suc k..<n]" and m: "m = n - Suc k"
    using Suc.hyps(2) by (simp_all add: upt_rec)
  define ps0 where "ps0 = (if delta = 0 then patches
    else patches @ [\<lparr>patch_bodyWordOffset = word_of_nat (base + k), patch_delta = delta\<rparr>])"
  from Suc.prems(1)[unfolded kn delta_words.simps, folded delta_def]
  obtain ds' where ds: "ds = delta # ds'"
    and rest: "delta_words first second base [Suc k..<n] ps0 = Some (ds', ps)"
    and c: "delta \<noteq> 0 \<Longrightarrow> \<not> k < 2 \<and> length patches \<noteq> MaxAffineLoopPatches"
    by (auto simp: Let_def ps0_def split: if_splits)
  have "length ps0 \<le> MaxAffineLoopPatches"
    using Suc.prems(2) c by (auto simp: ps0_def)
  from Suc.hyps(1) [OF m rest this]
  have IH: "ds' = map (\<lambda>w. Read32 second (w * 4) - Read32 first (w * 4)) [Suc k..<n]"
    "ps = ps0 @ patches_from (base + Suc k) ds'" "length ps \<le> MaxAffineLoopPatches"
    "\<forall>w. Suc k \<le> w \<longrightarrow> w < n \<longrightarrow> w < 2 \<longrightarrow> ds' ! (w - Suc k) = 0" by blast+
  have "ds ! (w - k) = 0" if "k \<le> w" "w < n" "w < 2" for w
  proof (cases "w = k")
    case True
    with that c show ?thesis by (auto simp: ds)
  next
    case False
    with that have "w - k = Suc (w - Suc k)" by auto
    moreover have "ds' ! (w - Suc k) = 0"
      by (rule IH(4) [rule_format]) (use that False in auto)
    ultimately show ?thesis by (simp add: ds)
  qed
  moreover have "ps = patches @ patches_from (base + k) ds"
    using IH(2) by (simp add: ds ps0_def)
  ultimately show ?case using IH by (simp add: ds kn delta_def)
qed

text \<open>One command is the other with a word delta added.\<close>

definition affine_to :: "SemanticCommand \<Rightarrow> SemanticCommand \<Rightarrow> u32 list \<Rightarrow> bool" where
  "affine_to p n ds \<longleftrightarrow>
     cmd_type p = cmd_type n \<and> length (cmd_encoding p) = length (cmd_encoding n) \<and>
     length ds = length (cmd_encoding p) div 4 \<and>
     words (cmd_encoding n) = map2 (+) (words (cmd_encoding p)) ds"

lemma affine_toI:
  assumes "cmd_type p = cmd_type n" and "length (cmd_encoding p) = length (cmd_encoding n)"
    and "length ds = length (cmd_encoding p) div 4"
    and "\<And>w. w < length ds \<Longrightarrow>
      Read32 (cmd_encoding n) (w * 4) - Read32 (cmd_encoding p) (w * 4) = ds ! w"
  shows "affine_to p n ds"
proof -
  have "words (cmd_encoding n) ! w = map2 (+) (words (cmd_encoding p)) ds ! w" if "w < length ds" for w
    using assms(4) [OF that] that assms(2,3) by (simp add: nth_words algebra_simps flip: assms(4))
  with assms show ?thesis
    unfolding affine_to_def by (intro conjI nth_equalityI) simp_all
qed

section \<open>What a candidate is\<close>

text \<open>What the compactor needs of a command: its header is the one of its bytes, which are aligned.\<close>

definition encoded_ok :: "SemanticCommand \<Rightarrow> bool" where
  "encoded_ok c \<longleftrightarrow>
     Read16 (cmd_encoding c) 0 = CommandType_code (cmd_type c) \<and> 16 \<le> length (cmd_encoding c) \<and>
     read16n (cmd_encoding c) 2 = length (cmd_encoding c) \<and> length (cmd_encoding c) mod 32 = 0"

lemma encoded_ok_facts:
  assumes "encoded_ok c"
  shows "length (cmd_encoding c) < 2 ^ 16" and "length (cmd_encoding c) mod 4 = 0"
    and "32 \<le> length (cmd_encoding c)"
proof -
  show "length (cmd_encoding c) < 2 ^ 16"
    using assms unat_u16_less [of "Read16 (cmd_encoding c) 2"] by (simp add: encoded_ok_def)
  from assms obtain k where k: "length (cmd_encoding c) = 32 * k" "16 \<le> 32 * k"
    by (auto simp: encoded_ok_def mod_eq_0_iff_dvd)
  then show "length (cmd_encoding c) mod 4 = 0" by presburger
  from k show "32 \<le> length (cmd_encoding c)" by simp
qed

definition bytes_of :: "SemanticCommand list \<Rightarrow> nat \<Rightarrow> nat \<Rightarrow> nat" where
  "bytes_of commands i j = (\<Sum>k \<leftarrow> [i..<j]. length (cmd_encoding (commands ! k)))"

text \<open>A loop of the stream: \<open>iterations\<close> repetitions of a body that differ by the patched words.\<close>

definition loop_ok :: "SemanticCommand list \<Rightarrow> nat \<Rightarrow> Candidate \<Rightarrow> bool" where
  "loop_ok commands executable c \<longleftrightarrow>
     1 \<le> cand_bodyCommands c \<and> cand_bodyCommands c \<le> MaxAffineLoopBodyCommands \<and>
     2 \<le> cand_iterations c \<and>
     cand_end c = cand_begin c + cand_iterations c * cand_bodyCommands c \<and> cand_end c \<le> executable \<and>
     cand_bodyBytes c = bytes_of commands (cand_begin c) (cand_begin c + cand_bodyCommands c) \<and>
     cand_descriptorBytes c =
       unat (Align32 (word_of_nat (32 + length (cand_patches c) * 8))) \<and>
     cand_descriptorBytes c + cand_bodyBytes c \<le> MaxAffineLoopRecordBytes \<and>
     length (cand_patches c) \<le> MaxAffineLoopPatches \<and>
     cand_descriptorBytes c + cand_savedBytes c = (cand_iterations c - 1) * cand_bodyBytes c \<and>
     0 < cand_savedBytes c \<and>
     cand_encodedReduction c = (cand_iterations c - 1) * cand_bodyCommands c - 1 \<and>
     (\<exists>deltas. length deltas = cand_bodyCommands c \<and> list_all keeps_header deltas \<and>
        cand_patches c = patches_from 0 (concat deltas) \<and>
        (\<forall>i child. Suc i < cand_iterations c \<longrightarrow> child < cand_bodyCommands c \<longrightarrow>
           affine_to (commands ! (cand_begin c + i * cand_bodyCommands c + child))
             (commands ! (cand_begin c + Suc i * cand_bodyCommands c + child)) (deltas ! child)))"

lemma body_children_Some:
  assumes "body_children commands begin body [k..<n] base bodyBytes patches = Some (ds, total', ps)"
    and "length patches \<le> MaxAffineLoopPatches"
    and "\<forall>c \<in> set commands. length (cmd_encoding c) < 2 ^ 16"
    and "begin + body + n \<le> length commands" and "bodyBytes + (n - k) * 2 ^ 16 < 2 ^ 32"
  shows "length ds = n - k \<and> list_all keeps_header ds \<and> ps = patches @ patches_from base (concat ds) \<and>
     length ps \<le> MaxAffineLoopPatches \<and> total' = bodyBytes + bytes_of commands (begin + k) (begin + n) \<and>
     (\<forall>child. k \<le> child \<longrightarrow> child < n \<longrightarrow>
        affine_to (commands ! (begin + child)) (commands ! (begin + body + child)) (ds ! (child - k)))"
  using assms
proof (induction "n - k" arbitrary: k base bodyBytes patches ds total' ps)
  case 0
  then show ?case by (auto simp: bytes_of_def)
next
  case (Suc m)
  define p q where "p = commands ! (begin + k)" and "q = commands ! (begin + body + k)"
  have kn: "[k..<n] = k # [Suc k..<n]" and m: "m = n - Suc k" and lt: "k < n"
    using Suc.hyps(2) by (simp_all add: upt_rec)
  from Suc.prems(1)[unfolded kn body_children.simps, folded p_def q_def]
  obtain d ps0 ds' where
    g: "length (cmd_encoding p) = length (cmd_encoding q)" "length (cmd_encoding p) mod 4 = 0"
      "cmd_type p = cmd_type q"
    and d: "delta_words (cmd_encoding p) (cmd_encoding q) base [0..<length (cmd_encoding p) div 4]
      patches = Some (d, ps0)"
    and ds: "ds = d # ds'"
    and rest: "body_children commands begin body [Suc k..<n] (base + length (cmd_encoding p) div 4)
      (wrap32 (bodyBytes + length (cmd_encoding p))) ps0 = Some (ds', total', ps)"
    by (auto simp: Let_def split: if_splits option.splits)
  have "p \<in> set commands" using Suc.prems(4) lt by (simp add: p_def)
  with Suc.prems(3) have lp: "length (cmd_encoding p) < 2 ^ 16" by blast
  have nk: "n - k = Suc (n - Suc k)" using lt by simp
  have sum: "bodyBytes + length (cmd_encoding p) + (n - Suc k) * 2 ^ 16 < 2 ^ 32"
    using Suc.prems(5) lp unfolding nk by simp
  then have w: "wrap32 (bodyBytes + length (cmd_encoding p)) = bodyBytes + length (cmd_encoding p)"
    by (simp add: wrap32_def)
  note D = delta_words_Some [OF d Suc.prems(2)]
  from D have d_eq: "d = map (\<lambda>w. Read32 (cmd_encoding q) (w * 4) - Read32 (cmd_encoding p) (w * 4))
      [0..<length (cmd_encoding p) div 4]"
    and ps0: "ps0 = patches @ patches_from (base + 0) d" and "length ps0 \<le> MaxAffineLoopPatches"
    and hd: "\<forall>w. 0 \<le> w \<longrightarrow> w < length (cmd_encoding p) div 4 \<longrightarrow> w < 2 \<longrightarrow> d ! (w - 0) = 0"
    by blast+
  have ld: "length d = length (cmd_encoding p) div 4" by (simp add: d_eq)
  from Suc.hyps(1) [OF m rest \<open>length ps0 \<le> MaxAffineLoopPatches\<close> Suc.prems(3,4), unfolded w, OF sum]
  have IH: "length ds' = n - Suc k" "list_all keeps_header ds'"
    "ps = ps0 @ patches_from (base + length (cmd_encoding p) div 4) (concat ds')"
    "length ps \<le> MaxAffineLoopPatches"
    "total' = bodyBytes + length (cmd_encoding p) + bytes_of commands (begin + Suc k) (begin + n)"
    "\<forall>child. Suc k \<le> child \<longrightarrow> child < n \<longrightarrow>
        affine_to (commands ! (begin + child)) (commands ! (begin + body + child)) (ds' ! (child - Suc k))"
    by blast+
  have aff: "affine_to p q d"
    using g ld by (intro affine_toI) (simp_all add: d_eq)
  have "keeps_header d"
    using hd by (simp add: keeps_header_def ld)
  moreover have "bytes_of commands (begin + k) (begin + n) =
    length (cmd_encoding p) + bytes_of commands (begin + Suc k) (begin + n)"
    using lt by (simp add: bytes_of_def p_def upt_rec)
  moreover have "affine_to (commands ! (begin + child)) (commands ! (begin + body + child)) (ds ! (child - k))"
    if "k \<le> child" "child < n" for child
  proof (cases "child = k")
    case True
    with aff show ?thesis by (simp add: ds p_def q_def)
  next
    case False
    with that have "child - k = Suc (child - Suc k)" by simp
    with IH(6) that False show ?thesis by (simp add: ds)
  qed
  ultimately show ?case
    using IH(1,2,4,5) by (simp add: ds patches_from_append nk IH(3) ps0 ld)
qed

definition repetitions :: "SemanticCommand list \<Rightarrow> nat \<Rightarrow> nat \<Rightarrow> u32 list list \<Rightarrow> nat \<Rightarrow> bool" where
  "repetitions commands begin body deltas n \<longleftrightarrow>
     (\<forall>i child. Suc i < n \<longrightarrow> child < body \<longrightarrow>
        affine_to (commands ! (begin + i * body + child))
          (commands ! (begin + Suc i * body + child)) (deltas ! child))"

lemma repetitions_Suc:
  assumes "repetitions commands begin body deltas n" and "2 \<le> n"
    and "affine_next commands begin body n deltas"
  shows "repetitions commands begin body deltas (Suc n)"
  unfolding repetitions_def
proof (intro allI impI)
  fix i child assume i: "Suc i < Suc n" and child: "child < body"
  show "affine_to (commands ! (begin + i * body + child))
      (commands ! (begin + Suc i * body + child)) (deltas ! child)"
  proof (cases "Suc i < n")
    case True
    with assms(1) child show ?thesis by (simp add: repetitions_def)
  next
    case False
    with i have n: "n = Suc i" by simp
    with assms(2) obtain j where j: "i = Suc j" by (cases i) auto
    from assms(1) child n j
    have "affine_to (commands ! (begin + j * body + child))
      (commands ! (begin + i * body + child)) (deltas ! child)" by (simp add: repetitions_def)
    then have len: "length (deltas ! child) = length (cmd_encoding (commands ! (begin + i * body + child))) div 4"
      by (simp add: affine_to_def)
    from assms(3) child n have "affine_child (commands ! (begin + i * body + child))
      (commands ! (begin + Suc i * body + child)) (deltas ! child)"
      by (simp add: affine_next_def)
    with len show ?thesis by (intro affine_toI) (simp_all add: affine_child_def)
  qed
qed

lemma extend_spec:
  "2 \<le> n \<Longrightarrow> begin + n * body \<le> executable \<Longrightarrow> repetitions commands begin body deltas n \<Longrightarrow>
   n \<le> extend_loop commands begin body executable deltas n \<and>
   begin + extend_loop commands begin body executable deltas n * body \<le> executable \<and>
   repetitions commands begin body deltas (extend_loop commands begin body executable deltas n)"
proof (induction commands "begin" body executable deltas n rule: extend_loop.induct)
  case (1 commands first body executable deltas n)
  show ?case
  proof (cases "0 < body \<and> first + (n + 1) * body \<le> executable \<and> affine_next commands first body n deltas")
    case True
    with 1 repetitions_Suc [of commands first body deltas n]
    have "n + 1 \<le> extend_loop commands first body executable deltas (n + 1) \<and>
      first + extend_loop commands first body executable deltas (n + 1) * body \<le> executable \<and>
      repetitions commands first body deltas (extend_loop commands first body executable deltas (n + 1))"
      by simp
    with True show ?thesis by (simp add: extend_loop.simps [of commands first body executable deltas n])
  next
    case False
    with 1 show ?thesis by (auto simp: extend_loop.simps [of commands first body executable deltas n])
  qed
qed

lemma bytes_of_bound:
  assumes "\<forall>c \<in> set commands. length (cmd_encoding c) < 2 ^ 16" and "j \<le> length commands"
  shows "bytes_of commands i j \<le> (j - i) * 2 ^ 16"
proof -
  have "bytes_of commands i j \<le> (\<Sum>k \<leftarrow> [i..<j]. 2 ^ 16)"
    unfolding bytes_of_def using assms by (intro sum_list_mono) (auto intro!: less_imp_le)
  then show ?thesis by (simp add: sum_list_triv)
qed

lemma Align32_value:
  assumes "n \<le> 24"
  shows "unat (Align32 (word_of_nat (32 + n * 8))) = (n * 8 + 63) div 32 * 32"
proof -
  have "list_all (\<lambda>n. unat (Align32 (word_of_nat (32 + n * 8))) = (n * 8 + 63) div 32 * 32) [0..<25]"
    by code_simp
  moreover from assms have "n \<in> set [0..<25]" by simp
  ultimately show ?thesis unfolding list_all_iff by blast
qed

lemma BuildCandidate_Some:
  assumes c: "BuildCandidate commands begin body executable = Some c"
    and body: "1 \<le> body" "body \<le> MaxAffineLoopBodyCommands"
    and lens: "\<forall>c \<in> set commands. length (cmd_encoding c) < 2 ^ 16"
    and ex: "executable \<le> length commands"
  shows "loop_ok commands executable c" and "cand_begin c = begin"
proof -
  from c obtain deltas bodyBytes patches where
    r: "begin + body * 2 \<le> executable"
    and b: "body_children commands begin body [0..<body] 0 0 [] = Some (deltas, bodyBytes, patches)"
    by (auto simp: BuildCandidate_def split: if_splits option.splits)
  define desc where "desc = unat (Align32 (word_of_nat
    (sizeof_CommandAffineLoopV2 + length patches * sizeof_CommandAffinePatchV2)))"
  define n where "n = extend_loop commands begin body executable deltas 2"
  from c b r have rest: "\<not> wrap32 (desc + bodyBytes) > MaxAffineLoopRecordBytes"
    "\<not> (n - 1) * bodyBytes \<le> desc"
    and cand: "c = \<lparr>cand_begin = begin, cand_end = begin + n * body, cand_bodyCommands = body,
      cand_iterations = n, cand_bodyBytes = bodyBytes, cand_descriptorBytes = desc,
      cand_savedBytes = (n - 1) * bodyBytes - desc, cand_encodedReduction = (n - 1) * body - 1,
      cand_patches = patches\<rparr>"
    by (auto simp: BuildCandidate_def Let_def desc_def n_def split: if_splits)
  have le: "begin + body + body \<le> length commands" using r ex by simp
  have "body \<le> 16" using body(2) by (simp add: MaxAffineLoopBodyCommands_def)
  then have "body * 2 ^ 16 \<le> 16 * 2 ^ 16" by (rule mult_right_mono) simp
  then have lt: "0 + (body - 0) * 2 ^ 16 < (2 ^ 32 :: nat)" by simp
  have B: "length deltas = body" "list_all keeps_header deltas" "patches = patches_from 0 (concat deltas)"
    "length patches \<le> MaxAffineLoopPatches" "bodyBytes = bytes_of commands begin (begin + body)"
    "\<forall>child < body. affine_to (commands ! (begin + child)) (commands ! (begin + body + child)) (deltas ! child)"
    using body_children_Some [OF b _ lens le lt] by (auto simp only: list.size add_0 add_0_right append_Nil diff_zero le0 simp_thms)
  have "bodyBytes \<le> 16 * 2 ^ 16"
    using bytes_of_bound [OF lens, where j = "begin + body" and i = "begin"] B(5) le \<open>body * 2 ^ 16 \<le> 16 * 2 ^ 16\<close> by simp
  moreover have np: "length patches \<le> 24" using B(4) by (simp add: MaxAffineLoopPatches_def)
  then have "desc \<le> 32 * ((24 * 8 + 63) div 32)"
    using Align32_value [OF np] by (simp add: desc_def sizeof_CommandAffineLoopV2_def
        sizeof_CommandAffinePatchV2_def div_le_mono)
  ultimately have w: "wrap32 (desc + bodyBytes) = desc + bodyBytes" by (simp add: wrap32_def)
  have "repetitions commands begin body deltas 2"
    using B(6) by (auto simp: repetitions_def less_Suc_eq numeral_2_eq_2)
  from extend_spec [OF _ _ this, where executable = executable] r
  have "2 \<le> n" "begin + n * body \<le> executable" "repetitions commands begin body deltas n"
    by (simp_all add: n_def mult.commute)
  with B body rest w show "loop_ok commands executable c"
    unfolding loop_ok_def cand
    by (auto simp: desc_def sizeof_CommandAffineLoopV2_def sizeof_CommandAffinePatchV2_def
        repetitions_def add.assoc intro!: exI [of _ deltas])
  show "cand_begin c = begin" by (simp add: cand)
qed

end
