(* ===== verification/NAI_ExpandProof.thy ===== *)
theory NAI_ExpandProof
  imports NAI_CompactorProof
begin

text \<open>
  The loop record that the compactor writes and what the expander makes of it: the fields and the
  patch table are read back, the body passes \<^verbatim>\<open>ValidateBody\<close>, every patch is accepted, and
  unrolling reproduces the repetitions.
\<close>

section \<open>The record\<close>

lemma Read_drop:
  assumes "n \<le> length bs"
  shows "Read32 (drop n bs) off = Read32 bs (n + off)" and "Read16 (drop n bs) off = Read16 bs (n + off)"
  using assms by (simp_all add: Read32_def Read16_def add.assoc)

definition put_patch :: "Patch \<Rightarrow> bytes" where
  "put_patch p = put32 (patch_bodyWordOffset p) @ put32 (patch_delta p)"

definition get_patch :: "bytes \<Rightarrow> Patch" where
  "get_patch bs = \<lparr>patch_bodyWordOffset = Read32 bs 0, patch_delta = Read32 bs 4\<rparr>"

interpretation patch_codec: byte_codec put_patch get_patch 8
  by unfold_locales (simp_all add: put_patch_def get_patch_def codec_simps)

definition loop_fields :: "SemanticCommand \<Rightarrow> Candidate \<Rightarrow> field list" where
  "loop_fields first c =
     [F16 (CommandType_code AffineLoop), F16 (word_of_nat (cand_descriptorBytes c)), F32 0,
      F32 (cmd_layerId first), F32 (cmd_tileId first), F32 (word_of_nat (cand_iterations c)),
      F32 (word_of_nat (cand_bodyCommands c)), F32 (word_of_nat (cand_bodyBytes c)),
      F32 (word_of_nat (length (cand_patches c)))]"

definition patch_fields :: "Patch \<Rightarrow> field list" where
  "patch_fields p = [F32 (patch_bodyWordOffset p), F32 (patch_delta p)]"

definition loop_record :: "SemanticCommand \<Rightarrow> Candidate \<Rightarrow> bytes" where
  "loop_record first c = put_fields (loop_fields first c) @ concat (map put_patch (cand_patches c)) @
     replicate (cand_descriptorBytes c - (32 + 8 * length (cand_patches c))) 0"

lemma put_patch_fields: "put_fields (concat (map patch_fields ps)) = concat (map put_patch ps)"
  by (induction ps) (simp_all add: patch_fields_def put_patch_def put_fields_append)

lemma fold_write_patch: "fold write_patch ps c = fold write_field (concat (map patch_fields ps)) c"
  by (induction ps arbitrary: c)
    (simp_all add: patch_fields_def write_patch_def sizeof_CommandAffinePatchV2_def add.commute)

lemma length_loop_fields [simp]: "length (put_fields (loop_fields first c)) = 32"
  by (simp add: loop_fields_def)

lemma length_patch_table [simp]: "length (concat (map put_patch ps)) = 8 * length ps"
  by (rule patch_codec.table_length)

lemma write_zero:
  assumes "n + 4 \<le> length pre + k" and "length pre \<le> n"
  shows "Write32 (pre @ replicate k 0) n 0 = pre @ replicate k 0"
  using assms
  by (intro nth_equalityI) (auto simp: Write32_def nth_append nth_list_update)

lemma write_loop_eq:
  assumes "length encoded < 2 ^ 32" and "32 + 8 * length (cand_patches c) \<le> cand_descriptorBytes c"
  shows "write_loop commands i c encoded = encoded @ loop_record (commands ! i) c @
    concat (map (\<lambda>child. cmd_encoding (commands ! (i + child))) [0..<cand_bodyCommands c])"
proof -
  define d where "d = cand_descriptorBytes c"
  define e where "e = encoded @ replicate d 0"
  define l where "l = length encoded"
  have d: "32 \<le> d" using assms(2) by (simp add: d_def)
  have z: "Write32 (Write16 (Write16 e l a) (l + 2) b) (l + 2 + 2) 0 = Write16 (Write16 e l a) (l + 2) b" for a b
  proof -
    have "Write16 (Write16 e l a) (l + 2) b = (encoded @ put16 a @ put16 b) @ replicate (d - 4) 0"
      using d by (simp add: e_def l_def Write16_splice)
    then show ?thesis using d write_zero [of "l + 2 + 2" "encoded @ put16 a @ put16 b" "d - 4"]
      by (simp add: l_def)
  qed
  have "fold write_field (loop_fields (commands ! i) c @ concat (map patch_fields (cand_patches c))) (e, l)
    = fold write_patch (cand_patches c) (fold write_field (loop_fields (commands ! i) c) (e, l))"
    by (simp add: fold_write_patch)
  moreover have "fold write_field (loop_fields (commands ! i) c @ concat (map patch_fields (cand_patches c))) (e, l)
    = (encoded @ loop_record (commands ! i) c, l + (32 + 8 * length (cand_patches c)))"
    unfolding e_def l_def using assms(2)
    by (subst fold_write_field)
      (simp_all add: put_fields_append put_patch_fields loop_record_def d_def)
  moreover have "resize encoded (wrap32 (length encoded) + cand_descriptorBytes c) = e"
    and "wrap32 (length encoded) = l"
    using assms(1) by (simp_all add: resize_def wrap32_def e_def d_def l_def)
  ultimately show ?thesis
    by (simp add: write_loop_def Let_def loop_fields_def z [simplified] sizeof_CommandAffineLoopV2_def add.commute)
qed

text \<open>Reading the record back, at \<open>length pre\<close> in a larger stream.\<close>

lemma length_loop_record:
  "32 + 8 * length (cand_patches c) \<le> cand_descriptorBytes c \<Longrightarrow>
   length (loop_record first c) = cand_descriptorBytes c"
  by (simp add: loop_record_def)

lemma loop_record_reads:
  fixes pre rest :: bytes and first :: SemanticCommand and c :: Candidate
  defines "bs \<equiv> pre @ loop_record first c @ rest" and "o' \<equiv> length pre"
  shows "Read16 bs o' = CommandType_code AffineLoop"
    and "Read16 bs (o' + 2) = word_of_nat (cand_descriptorBytes c)"
    and "Read32 bs (o' + 4) = 0" and "Read32 bs (o' + 16) = word_of_nat (cand_iterations c)"
    and "Read32 bs (o' + 20) = word_of_nat (cand_bodyCommands c)"
    and "Read32 bs (o' + 24) = word_of_nat (cand_bodyBytes c)"
    and "Read32 bs (o' + 28) = word_of_nat (length (cand_patches c))"
  unfolding bs_def o'_def
  by (simp_all add: Read_prefix loop_record_def loop_fields_def codec_simps)

lemma loop_record_patches:
  assumes "k < length (cand_patches c)"
  shows "Read32 (pre @ loop_record first c @ rest) (length pre + 32 + k * 8) =
      patch_bodyWordOffset (cand_patches c ! k)"
    and "Read32 (pre @ loop_record first c @ rest) (length pre + 32 + k * 8 + 4) =
      patch_delta (cand_patches c ! k)"
proof -
  define tail where "tail = replicate (cand_descriptorBytes c - (32 + 8 * length (cand_patches c))) 0 @ rest"
  define t where "t = concat (map put_patch (cand_patches c)) @ tail"
  have "get_patch (drop (8 * k) t) = cand_patches c ! k"
    unfolding t_def by (rule patch_codec.table_nth [OF assms])
  moreover have "get_patch (drop (8 * k) t) = \<lparr>patch_bodyWordOffset = Read32 t (k * 8), patch_delta = Read32 t (k * 8 + 4)\<rparr>"
  proof -
    have "8 * k \<le> length t" using assms by (simp add: t_def)
    from Read_drop [OF this] show ?thesis by (simp add: get_patch_def mult.commute del: drop_append)
  qed
  ultimately have e: "cand_patches c ! k = \<lparr>patch_bodyWordOffset = Read32 t (k * 8), patch_delta = Read32 t (k * 8 + 4)\<rparr>"
    by simp
  have "pre @ loop_record first c @ rest = (pre @ put_fields (loop_fields first c)) @ t"
    by (simp add: loop_record_def t_def tail_def)
  then show
    "Read32 (pre @ loop_record first c @ rest) (length pre + 32 + k * 8) =
      patch_bodyWordOffset (cand_patches c ! k)"
    "Read32 (pre @ loop_record first c @ rest) (length pre + 32 + k * 8 + 4) =
      patch_delta (cand_patches c ! k)"
    by (simp_all add: Read_prefix e add.commute del: append_assoc)
qed

section \<open>The body\<close>

definition header_ok :: "bytes \<Rightarrow> bool" where
  "header_ok e \<longleftrightarrow> 16 \<le> length e \<and> length e mod 32 = 0 \<and> read16n e 2 = length e \<and>
     Read16 e 0 \<noteq> CommandType_code End \<and> Read16 e 0 \<noteq> CommandType_code AffineLoop"

lemma Read16_in:
  assumes "n + 2 \<le> length e"
  shows "Read16 (pre @ e @ rest) (length pre + n) = Read16 e n"
  using assms by (simp add: Read16_def nth_append)

primrec offsets_from :: "nat \<Rightarrow> bytes list \<Rightarrow> nat list" where
  "offsets_from o' [] = []"
| "offsets_from o' (e # es) = o' # offsets_from (o' + length e) es"

lemma body_offsets_concat:
  assumes "\<forall>e \<in> set es. header_ok e" and "bo \<le> length pre"
  shows "body_offsets (pre @ concat es @ rest) bo (length pre + length (concat es)) (length es) (length pre) offs =
    Some (offs @ offsets_from (length pre - bo) es)"
  using assms
proof (induction es arbitrary: pre offs)
  case (Cons e es)
  from Cons.prems have h: "header_ok e" by simp
  then have len: "16 \<le> length e" by (simp add: header_ok_def)
  define bs where "bs = pre @ concat (e # es) @ rest"
  have bs: "bs = (pre @ e) @ concat es @ rest" by (simp add: bs_def)
  have rd: "Read16 bs (length pre) = Read16 e 0" "Read16 bs (length pre + 2) = Read16 e 2"
    using Read16_in [of 0 e pre "concat es @ rest"] Read16_in [of 2 e pre "concat es @ rest"] len
    by (simp_all add: bs_def)
  define end' where "end' = length pre + length (concat (e # es))"
  have le: "\<not> length pre > end'" "\<not> end' - length pre < 16" "\<not> length e > end' - length pre"
    using len by (simp_all add: end'_def)
  have "body_offsets bs bo (length (pre @ e) + length (concat es)) (length es)
      (length (pre @ e)) (offs @ [length pre - bo]) =
    Some ((offs @ [length pre - bo]) @ offsets_from (length (pre @ e) - bo) es)"
    unfolding bs using Cons.prems by (intro Cons.IH) auto
  moreover have "length (pre @ e) - bo = length pre - bo + length e" using Cons.prems by simp
  moreover have "length (pre @ e) + length (concat es) = end'" by (simp add: end'_def)
  ultimately have "body_offsets bs bo end' (length es) (length pre + length e) (offs @ [length pre - bo]) =
    Some (offs @ offsets_from (length pre - bo) (e # es))"
    by simp
  moreover have "body_offsets bs bo end' (length (e # es)) (length pre) offs =
    body_offsets bs bo end' (length es) (length pre + length e) (offs @ [length pre - bo])"
    using h le by (simp add: rd header_ok_def sizeof_CommandHeaderV2_def del: add_2_eq_Suc')
  ultimately show ?case by (simp only: bs_def end'_def)
qed simp

lemma ValidateBody_concat:
  assumes "\<forall>e \<in> set es. header_ok e" and "length pre + length (concat es) < 2 ^ 32"
  shows "ValidateBody (pre @ concat es @ rest) (length pre) (length (concat es)) (length es) =
    Some (offsets_from 0 es)"
  using body_offsets_concat [OF assms(1) order_refl, of pre rest "[]"] assms(2)
  by (simp add: ValidateBody_def wrap32_def)

text \<open>Every word that a delta changes lies in some child, outside its first two words.\<close>

lemma patchable:
  assumes "list_all2 (\<lambda>e d. length d = length e div 4 \<and> header_ok e) es ds"
    and "list_all keeps_header ds" and "j < length (concat ds)" and "concat ds ! j \<noteq> 0"
  shows "\<exists>o' \<in> set (offsets_from (length pre) es). o' + 8 \<le> length pre + j * 4 \<and>
    length pre + j * 4 + 4 \<le> o' + read16n (pre @ concat es) (o' + 2)"
  using assms
proof (induction es ds arbitrary: pre j rule: list_all2_induct)
  case (Cons e es d ds)
  from Cons.hyps have ld: "length d = length e div 4" and h: "header_ok e" by auto
  show ?case
  proof (cases "j < length d")
    case True
    with Cons.prems have "d ! j \<noteq> 0" by (simp add: nth_append)
    with Cons.prems(1) True have "2 \<le> j" by (auto simp: keeps_header_def not_less [symmetric])
    moreover have "read16n (pre @ concat (e # es)) (length pre + 2) = length e"
      using Read16_in [of 2 e pre "concat es"] h by (simp add: header_ok_def)
    moreover have "j * 4 + 4 \<le> length e" using True ld by auto
    ultimately show ?thesis by auto
  next
    case False
    have le: "length e = 4 * length d"
      using h ld by (auto simp: header_ok_def mod_eq_0_iff_dvd)
    from False Cons.prems have "j - length d < length (concat ds)" "concat ds ! (j - length d) \<noteq> 0"
      by (auto simp: nth_append)
    from Cons.IH [OF _ this, where pre = "pre @ e"] Cons.prems(1)
    obtain o' where "o' \<in> set (offsets_from (length (pre @ e)) es)"
      "o' + 8 \<le> length (pre @ e) + (j - length d) * 4"
      "length (pre @ e) + (j - length d) * 4 + 4 \<le> o' + read16n ((pre @ e) @ concat es) (o' + 2)"
      by auto
    with False le show ?thesis by (intro bexI [where x = o']) (auto simp: diff_mult_distrib)
  qed
qed simp

lemma patches_from_set:
  assumes "p \<in> set (patches_from base ds)"
  shows "\<exists>j < length ds. ds ! j \<noteq> 0 \<and> patch_bodyWordOffset p = word_of_nat (base + j) \<and> patch_delta p = ds ! j"
  using assms
proof (induction ds arbitrary: base)
  case (Cons d ds)
  show ?case
  proof (cases "d \<noteq> 0 \<and> p = \<lparr>patch_bodyWordOffset = word_of_nat base, patch_delta = d\<rparr>")
    case True
    then show ?thesis by (intro exI [where x = 0]) simp
  next
    case False
    with Cons.prems have "p \<in> set (patches_from (Suc base) ds)" by (auto split: if_splits)
    from Cons.IH [OF this] obtain j where "j < length ds" "ds ! j \<noteq> 0"
      "patch_bodyWordOffset p = word_of_nat (Suc base + j)" "patch_delta p = ds ! j" by blast
    then show ?thesis by (intro exI [where x = "Suc j"]) simp
  qed
qed simp

lemma patches_from_ge:
  assumes "p \<in> set (patches_from base ds)" and "base + length ds \<le> 2 ^ 32"
  shows "base \<le> unat (patch_bodyWordOffset p)" and "unat (patch_bodyWordOffset p) < base + length ds"
proof -
  from patches_from_set [OF assms(1)] obtain j where "j < length ds"
    "patch_bodyWordOffset p = word_of_nat (base + j)" by blast
  moreover from this assms(2) have "unat (word_of_nat (base + j) :: u32) = base + j"
    by (simp add: unat_of_nat del: of_nat_add)
  ultimately show "base \<le> unat (patch_bodyWordOffset p)" "unat (patch_bodyWordOffset p) < base + length ds"
    by simp_all
qed

lemma patches_from_sorted:
  assumes "base + length ds \<le> 2 ^ 32"
  shows "sorted_wrt (\<lambda>p q. unat (patch_bodyWordOffset p) < unat (patch_bodyWordOffset q)) (patches_from base ds)"
  using assms
proof (induction ds arbitrary: base)
  case (Cons d ds)
  have "unat (word_of_nat base :: u32) = base" using Cons.prems by (simp add: unat_of_nat)
  with Cons patches_from_ge(1) [of _ "Suc base" ds] show ?case by (auto simp: Suc_le_eq)
qed simp

text \<open>A patch table of \<open>ps\<close> in the stream.\<close>

definition table_reads :: "bytes \<Rightarrow> nat \<Rightarrow> Patch list \<Rightarrow> bool" where
  "table_reads encoded tbl ps \<longleftrightarrow>
     (\<forall>k < length ps. Read32 encoded (tbl + k * 8) = patch_bodyWordOffset (ps ! k) \<and>
        Read32 encoded (tbl + k * 8 + 4) = patch_delta (ps ! k))"

definition patch_in :: "bytes \<Rightarrow> Patch \<Rightarrow> bool" where
  "patch_in body p \<longleftrightarrow> unat (patch_bodyWordOffset p) * 4 + 4 \<le> length body"

definition patch_fits :: "bytes \<Rightarrow> nat list \<Rightarrow> Patch \<Rightarrow> bool" where
  "patch_fits body offs p \<longleftrightarrow>
     (let w = unat (patch_bodyWordOffset p) in
      w * 4 + 4 \<le> length body \<and>
      (\<exists>o' \<in> set offs. o' + 8 \<le> w * 4 \<and> w * 4 + 4 \<le> o' + read16n body (o' + 2)))"

lemma valid_patches_ok:
  assumes "table_reads encoded tbl ps" and "length body \<le> 2048"
    and "\<forall>p \<in> set ps. patch_fits body offs p"
    and "sorted_wrt (\<lambda>p q. unat (patch_bodyWordOffset p) < unat (patch_bodyWordOffset q)) ps"
  shows "(k \<noteq> 0 \<Longrightarrow> prev = unat (patch_bodyWordOffset (ps ! (k - 1)))) \<Longrightarrow>
    valid_patches encoded tbl body offs [k..<length ps] prev"
proof (induction "length ps - k" arbitrary: k prev)
  case 0
  then show ?case by simp
next
  case (Suc m)
  define w where "w = unat (patch_bodyWordOffset (ps ! k))"
  have kn: "[k..<length ps] = k # [Suc k..<length ps]" and m: "m = length ps - Suc k" and lt: "k < length ps"
    using Suc.hyps(2) by (simp_all add: upt_rec)
  have rd: "read32n encoded (tbl + k * 8) = w" using assms(1) lt by (simp add: table_reads_def w_def)
  have fits: "w * 4 + 4 \<le> length body"
    "\<exists>o' \<in> set offs. o' + 8 \<le> w * 4 \<and> w * 4 + 4 \<le> o' + read16n body (o' + 2)"
    using assms(3) lt by (simp_all add: patch_fits_def w_def Let_def)
  then have wr: "wrap32 (w * 4) = w * 4" and le: "\<not> w > max_u32 div 4"
    using assms(2) by (simp_all add: wrap32_def max_u32_def)
  have "prev < w" if "k \<noteq> 0"
    using sorted_wrt_nth_less [OF assms(4), of "k - 1" k] that lt Suc.prems by (simp add: w_def)
  moreover have "valid_patches encoded tbl body offs [Suc k..<length ps] w"
    by (rule Suc.hyps(1) [OF m]) (simp add: w_def)
  ultimately show ?case
    using fits le by (auto simp: kn rd wr sizeof_CommandAffinePatchV2_def Let_def)
qed

definition patch_word :: "Patch \<Rightarrow> u32 list \<Rightarrow> u32 list" where
  "patch_word p ws = (let i = unat (patch_bodyWordOffset p) in ws[i := ws ! i + patch_delta p])"

lemma length_patch_word [simp]: "length (patch_word p ws) = length ws"
  by (simp add: patch_word_def Let_def)

lemma length_fold_patch_word [simp]: "length (fold patch_word ps ws) = length ws"
  by (induction ps arbitrary: ws) simp_all

lemma fold_apply_patch:
  assumes "table_reads encoded tbl ps" and "\<forall>p \<in> set ps. patch_in body p" and "length body \<le> 2048"
    and "n \<le> length ps"
  shows "length (fold (apply_patch encoded tbl) [0..<n] body) = length body \<and>
    words (fold (apply_patch encoded tbl) [0..<n] body) = fold patch_word (take n ps) (words body)"
  using assms(4)
proof (induction n)
  case (Suc n)
  define b where "b = fold (apply_patch encoded tbl) [0..<n] body"
  define w where "w = unat (patch_bodyWordOffset (ps ! n))"
  from Suc have IH: "length b = length body" "words b = fold patch_word (take n ps) (words body)"
    by (simp_all add: b_def)
  have lt: "n < length ps" using Suc.prems by simp
  have rd: "read32n encoded (tbl + n * 8) = w" "Read32 encoded (tbl + n * 8 + 4) = patch_delta (ps ! n)"
    using assms(1) lt by (simp_all add: table_reads_def w_def)
  have fits: "w * 4 + 4 \<le> length body"
    using assms(2) lt by (simp add: patch_in_def w_def)
  then have wr: "wrap32 (w * 4) = w * 4" and i: "w < length b div 4"
    using assms(3) IH(1) by (simp_all add: wrap32_def)
  have ap: "apply_patch encoded tbl n b = Write32 b (w * 4) (Read32 b (w * 4) + patch_delta (ps ! n))"
    by (simp add: apply_patch_def Let_def sizeof_CommandAffinePatchV2_def rd wr)
  have "words (apply_patch encoded tbl n b) = patch_word (ps ! n) (words b)"
    using i by (simp add: ap words_Write32 patch_word_def w_def nth_words Let_def)
  then show ?case
    using lt by (simp add: IH ap take_Suc_conv_app_nth flip: b_def)
qed simp

lemma fold_patch_word:
  assumes "base + length ds = length ws" and "length ws \<le> 2 ^ 32" and "i < length ws"
  shows "fold patch_word (patches_from base ds) ws ! i = ws ! i + (if base \<le> i then ds ! (i - base) else 0)"
  using assms
proof (induction ds arbitrary: base ws)
  case (Cons d ds)
  define ws' where "ws' = (if d = 0 then ws else ws[base := ws ! base + d])"
  have ub: "unat (word_of_nat base :: u32) = base" using Cons.prems(1,2) by (simp add: unat_of_nat)
  have "fold patch_word (patches_from base (d # ds)) ws = fold patch_word (patches_from (Suc base) ds) ws'"
    by (simp add: ws'_def patch_word_def ub)
  moreover have "fold patch_word (patches_from (Suc base) ds) ws' ! i =
    ws' ! i + (if Suc base \<le> i then ds ! (i - Suc base) else 0)"
    using Cons.prems by (intro Cons.IH) (simp_all add: ws'_def)
  moreover have "i - base = Suc (i - Suc base)" if "base < i" using that by simp
  ultimately show ?case
    using Cons.prems by (cases "i = base") (auto simp: ws'_def nth_list_update nth_Cons')
qed simp

lemma apply_patches:
  assumes "table_reads encoded tbl ps" and "\<forall>p \<in> set ps. patch_in body p" and "length body \<le> 2048"
    and "ps = patches_from 0 ds" and "length ds = length body div 4"
  shows "length (fold (apply_patch encoded tbl) [0..<length ps] body) = length body"
    and "words (fold (apply_patch encoded tbl) [0..<length ps] body) = map2 (+) (words body) ds"
proof -
  note f = fold_apply_patch [OF assms(1-3) order_refl]
  from f show "length (fold (apply_patch encoded tbl) [0..<length ps] body) = length body" by blast
  have "fold patch_word ps (words body) = map2 (+) (words body) ds"
  proof (rule nth_equalityI)
    fix i assume "i < length (fold patch_word ps (words body))"
    then have i: "i < length (words body)" by simp
    have "length (words body) \<le> 2 ^ 32" using assms(3) by simp
    from fold_patch_word [OF _ this i, where base = 0 and ds = ds] assms(4,5) i
    show "fold patch_word ps (words body) ! i = map2 (+) (words body) ds ! i" by simp
  qed (use assms(5) in simp)
  with f show "words (fold (apply_patch encoded tbl) [0..<length ps] body) = map2 (+) (words body) ds"
    by simp
qed

section \<open>Repetitions\<close>

lemma words_concat_affine:
  assumes "length es' = length es" and "length ds = length es"
    and "\<forall>k < length es. length (es ! k) mod 4 = 0 \<and> length (es' ! k) = length (es ! k) \<and>
      length (ds ! k) = length (es ! k) div 4 \<and> words (es' ! k) = map2 (+) (words (es ! k)) (ds ! k)"
  shows "length (concat es') = length (concat es) \<and> length (concat ds) = length (concat es) div 4 \<and>
    length (concat es) mod 4 = 0 \<and> words (concat es') = map2 (+) (words (concat es)) (concat ds)"
  using assms
proof (induction es arbitrary: es' ds)
  case (Cons e es)
  from Cons.prems obtain e' es1 d ds1 where eq: "es' = e' # es1" "ds = d # ds1"
    and len: "length es1 = length es" "length ds1 = length es"
    using Cons.prems(1,2) by (cases es'; cases ds) auto
  from Cons.prems(3) eq have hd: "length e mod 4 = 0" "length e' = length e" "length d = length e div 4"
    "words e' = map2 (+) (words e) d"
    by (auto simp: all_conj_distrib All_less_Suc2)
  from Cons.prems(3) eq Cons.IH [OF len]
  have IH: "length (concat es1) = length (concat es)" "length (concat ds1) = length (concat es) div 4"
    "length (concat es) mod 4 = 0" "words (concat es1) = map2 (+) (words (concat es)) (concat ds1)"
    by (auto simp: All_less_Suc2)
  from hd IH(3) have "(length e + length (concat es)) div 4 = length e div 4 + length (concat es) div 4"
    and "(length e + length (concat es)) mod 4 = 0"
    by (auto simp: mod_eq_0_iff_dvd)
  with hd IH show ?case by (simp add: eq words_append)
qed (simp add: words_def)

definition children :: "SemanticCommand list \<Rightarrow> Candidate \<Rightarrow> nat \<Rightarrow> bytes list" where
  "children commands c i =
     map (\<lambda>child. cmd_encoding (commands ! (cand_begin c + i * cand_bodyCommands c + child)))
       [0..<cand_bodyCommands c]"

definition stream_encoded :: "SemanticCommand list \<Rightarrow> nat \<Rightarrow> bool" where
  "stream_encoded commands executable \<longleftrightarrow> executable \<le> length commands \<and>
     (\<forall>k < executable. encoded_ok (commands ! k) \<and> cmd_type (commands ! k) \<noteq> End \<and>
        cmd_type (commands ! k) \<noteq> AffineLoop)"

lemma encoded_header_ok:
  assumes "stream_encoded commands executable" and "k < executable"
  shows "header_ok (cmd_encoding (commands ! k))"
proof -
  from assms have "encoded_ok (commands ! k)" "cmd_type (commands ! k) \<noteq> End"
    "cmd_type (commands ! k) \<noteq> AffineLoop" by (auto simp: stream_encoded_def)
  then show ?thesis
    by (simp add: header_ok_def encoded_ok_def del: CommandType_code.simps)
qed

lemma loop_child_lt:
  assumes "loop_ok commands executable c" and "i < cand_iterations c" and "child < cand_bodyCommands c"
  shows "cand_begin c + i * cand_bodyCommands c + child < executable"
proof -
  have "i * cand_bodyCommands c + child < Suc i * cand_bodyCommands c" using assms(3) by simp
  also have "\<dots> \<le> cand_iterations c * cand_bodyCommands c" using assms(2) by (intro mult_right_mono) auto
  finally show ?thesis using assms(1) by (simp add: loop_ok_def)
qed

lemma children_ok:
  assumes "stream_encoded commands executable" and "loop_ok commands executable c" and "i < cand_iterations c"
  shows "\<forall>e \<in> set (children commands c i). header_ok e"
  using assms encoded_header_ok loop_child_lt by (auto simp: children_def)

lemma length_concat_children:
  "length (concat (children commands c 0)) = bytes_of commands (cand_begin c) (cand_begin c + cand_bodyCommands c)"
proof -
  have "[cand_begin c..<cand_begin c + cand_bodyCommands c] = map (\<lambda>k. cand_begin c + k) [0..<cand_bodyCommands c]"
    by (simp add: map_add_upt add.commute)
  then show ?thesis by (simp add: children_def bytes_of_def length_concat o_def)
qed

definition loop_deltas :: "SemanticCommand list \<Rightarrow> Candidate \<Rightarrow> u32 list list \<Rightarrow> bool" where
  "loop_deltas commands c deltas \<longleftrightarrow>
     length deltas = cand_bodyCommands c \<and> list_all keeps_header deltas \<and>
     cand_patches c = patches_from 0 (concat deltas) \<and>
     list_all2 (\<lambda>e d. length d = length e div 4 \<and> header_ok e) (children commands c 0) deltas \<and>
     length (concat deltas) = cand_bodyBytes c div 4 \<and> cand_bodyBytes c mod 4 = 0 \<and>
     (\<forall>i < cand_iterations c. length (concat (children commands c i)) = cand_bodyBytes c) \<and>
     (\<forall>i. Suc i < cand_iterations c \<longrightarrow> words (concat (children commands c (Suc i))) =
       map2 (+) (words (concat (children commands c i))) (concat deltas))"

lemma loop_deltas_ex:
  assumes enc: "stream_encoded commands executable" and ok: "loop_ok commands executable c"
  obtains deltas where "loop_deltas commands c deltas"
proof -
  from ok obtain deltas where D: "length deltas = cand_bodyCommands c" "list_all keeps_header deltas"
    "cand_patches c = patches_from 0 (concat deltas)"
    and aff: "\<And>i child. Suc i < cand_iterations c \<Longrightarrow> child < cand_bodyCommands c \<Longrightarrow>
      affine_to (commands ! (cand_begin c + i * cand_bodyCommands c + child))
        (commands ! (cand_begin c + Suc i * cand_bodyCommands c + child)) (deltas ! child)"
    unfolding loop_ok_def by blast
  have n: "2 \<le> cand_iterations c" and bb: "cand_bodyBytes c = length (concat (children commands c 0))"
    using ok by (simp_all add: loop_ok_def length_concat_children)
  have m4: "length (cmd_encoding (commands ! (cand_begin c + i * cand_bodyCommands c + child))) mod 4 = 0"
    if "i < cand_iterations c" "child < cand_bodyCommands c" for i child
    using loop_child_lt [OF ok that] enc encoded_ok_facts(2) by (auto simp: stream_encoded_def)
  have step: "length (concat (children commands c (Suc i))) = length (concat (children commands c i)) \<and>
      length (concat deltas) = length (concat (children commands c i)) div 4 \<and>
      length (concat (children commands c i)) mod 4 = 0 \<and>
      words (concat (children commands c (Suc i))) =
        map2 (+) (words (concat (children commands c i))) (concat deltas)"
    if i: "Suc i < cand_iterations c" for i
    by (rule words_concat_affine)
      (use aff [OF i] m4 [of i] i in \<open>auto simp: children_def D(1) affine_to_def\<close>)
  have len: "length (concat (children commands c i)) = cand_bodyBytes c" if "i < cand_iterations c" for i
    using that
  proof (induction i)
    case (Suc i)
    then show ?case using step [of i] by simp
  qed (simp add: bb)
  have "list_all2 (\<lambda>e d. length d = length e div 4 \<and> header_ok e) (children commands c 0) deltas"
    unfolding list_all2_conv_all_nth
  proof (intro conjI allI impI)
    show "length (children commands c 0) = length deltas" by (simp add: children_def D(1))
    fix k assume k: "k < length (children commands c 0)"
    with children_ok [OF enc ok, of 0] n show "header_ok (children commands c 0 ! k)" by simp
    from k aff [of 0 k] n show "length (deltas ! k) = length (children commands c 0 ! k) div 4"
      by (simp add: children_def affine_to_def)
  qed
  with D step [of 0] n len [of 0] step len show thesis by (intro that [of deltas]) (auto simp: loop_deltas_def)
qed

lemma wrap32_add [simp]: "wrap32 (wrap32 a + b) = wrap32 (a + b)"
  by (simp add: wrap32_def mod_add_left_eq)

lemma patches_in:
  assumes "loop_deltas commands c deltas" and "cand_bodyBytes c \<le> 2048"
    and p: "p \<in> set (cand_patches c)"
  obtains j where "j < length (concat deltas)" "concat deltas ! j \<noteq> 0"
    "unat (patch_bodyWordOffset p) = j" "j * 4 + 4 \<le> cand_bodyBytes c"
proof -
  from assms(1) have D: "cand_patches c = patches_from 0 (concat deltas)"
    "length (concat deltas) = cand_bodyBytes c div 4" by (simp_all add: loop_deltas_def)
  from p patches_from_set [of p 0 "concat deltas"] obtain j where j: "j < length (concat deltas)"
    "concat deltas ! j \<noteq> 0" "patch_bodyWordOffset p = word_of_nat j"
    unfolding D(1) by auto
  moreover from j(1) D(2) assms(2) have "unat (word_of_nat j :: u32) = j" by (simp add: unat_of_nat)
  moreover from j(1) D(2) have "j * 4 + 4 \<le> cand_bodyBytes c" by simp
  ultimately show thesis by (intro that) simp_all
qed

lemma unroll_bodies:
  assumes D: "loop_deltas commands c deltas"
    and tr: "table_reads encoded tbl (cand_patches c)" and sm: "cand_bodyBytes c \<le> 2048"
  shows "i + n = cand_iterations c \<Longrightarrow> 0 < n \<Longrightarrow>
    unroll encoded tbl (length (cand_patches c)) (cand_bodyCommands c) n (concat (children commands c i)) ex lg =
      (ex @ concat (map (\<lambda>i. concat (children commands c i)) [i..<cand_iterations c]),
       wrap32 (lg + n * cand_bodyCommands c))"
proof (induction n arbitrary: i ex lg)
  case (Suc n)
  have up: "[i..<cand_iterations c] = i # [Suc i..<cand_iterations c]"
    using Suc.prems by (simp add: upt_rec)
  show ?case
  proof (cases n)
    case 0
    with Suc.prems show ?thesis by (simp add: up)
  next
    case (Suc m)
    with Suc.prems have i: "Suc i < cand_iterations c" "i < cand_iterations c" by simp_all
    from D i have E: "cand_patches c = patches_from 0 (concat deltas)"
      "length (concat deltas) = cand_bodyBytes c div 4" "cand_bodyBytes c mod 4 = 0"
      "length (concat (children commands c i)) = cand_bodyBytes c"
      "length (concat (children commands c (Suc i))) = cand_bodyBytes c"
      "words (concat (children commands c (Suc i))) =
         map2 (+) (words (concat (children commands c i))) (concat deltas)"
      by (simp_all add: loop_deltas_def)
    have "\<forall>p \<in> set (cand_patches c). patch_in (concat (children commands c i)) p"
      using patches_in [OF D sm] E(4) by (metis patch_in_def)
    note ap = apply_patches [OF tr this _ E(1)]
    have "fold (apply_patch encoded tbl) [0..<length (cand_patches c)] (concat (children commands c i)) =
      concat (children commands c (Suc i))"
      using ap sm E(2-6) by (intro words_inj) simp_all
    moreover have "Suc i + n = cand_iterations c" "0 < n" using Suc.prems Suc by simp_all
    note Suc.IH [OF this]
    ultimately show ?thesis by (simp add: up add.assoc)
  qed
qed simp

lemma patches_fit:
  assumes "loop_deltas commands c deltas" and "cand_bodyBytes c \<le> 2048" and "0 < cand_iterations c"
  shows "\<forall>p \<in> set (cand_patches c). patch_fits (concat (children commands c 0)) (offsets_from 0 (children commands c 0)) p"
proof
  fix p assume "p \<in> set (cand_patches c)"
  from patches_in [OF assms(1,2) this] obtain j where j: "j < length (concat deltas)" "concat deltas ! j \<noteq> 0"
    "unat (patch_bodyWordOffset p) = j" "j * 4 + 4 \<le> cand_bodyBytes c" .
  from assms(1) have "list_all2 (\<lambda>e d. length d = length e div 4 \<and> header_ok e) (children commands c 0) deltas"
    "list_all keeps_header deltas" "length (concat (children commands c 0)) = cand_bodyBytes c"
    using assms(3) by (simp_all add: loop_deltas_def)
  with patchable [OF this(1,2) j(1,2), of "[]"] j
  show "patch_fits (concat (children commands c 0)) (offsets_from 0 (children commands c 0)) p"
    by (simp add: patch_fits_def Let_def)
qed

section \<open>One step of the expander\<close>

lemma loop_ok_sizes:
  assumes ok: "loop_ok commands executable c"
  shows "cand_descriptorBytes c mod 32 = 0" "32 + 8 * length (cand_patches c) \<le> cand_descriptorBytes c"
    "cand_descriptorBytes c < 2 ^ 16" "cand_bodyBytes c \<le> 2048" "cand_descriptorBytes c + cand_bodyBytes c \<le> 2048"
    "length (cand_patches c) \<le> 24"
proof -
  have n: "length (cand_patches c) \<le> 24" using ok by (simp add: loop_ok_def MaxAffineLoopPatches_def)
  have d: "cand_descriptorBytes c = (length (cand_patches c) * 8 + 63) div 32 * 32"
    using ok Align32_value [OF n] by (simp add: loop_ok_def)
  show "cand_descriptorBytes c mod 32 = 0" "32 + 8 * length (cand_patches c) \<le> cand_descriptorBytes c"
    unfolding d by simp_all
  show "cand_descriptorBytes c + cand_bodyBytes c \<le> 2048"
    using ok by (simp add: loop_ok_def MaxAffineLoopRecordBytes_def)
  then show "cand_descriptorBytes c < 2 ^ 16" "cand_bodyBytes c \<le> 2048" by simp_all
  show "length (cand_patches c) \<le> 24" by (rule n)
qed

lemma small_words:
  "n < 2 ^ 32 \<Longrightarrow> unat (word_of_nat n :: u32) = n" "n < 2 ^ 16 \<Longrightarrow> unat (word_of_nat n :: u16) = n"
  by (simp_all add: unat_of_nat)

lemma loop_ok_counts:
  assumes ok: "loop_ok commands executable c" and ex: "executable < 2 ^ 32"
  shows "cand_iterations c < 2 ^ 32" "2 \<le> cand_iterations c" "1 \<le> cand_bodyCommands c" "cand_bodyCommands c \<le> 16"
proof -
  from ok show b: "2 \<le> cand_iterations c" "1 \<le> cand_bodyCommands c" "cand_bodyCommands c \<le> 16"
    by (simp_all add: loop_ok_def MaxAffineLoopBodyCommands_def)
  from ok have "cand_iterations c * cand_bodyCommands c \<le> executable" by (simp add: loop_ok_def)
  moreover have "cand_iterations c * 1 \<le> cand_iterations c * cand_bodyCommands c"
    by (rule mult_left_mono) (use b in simp_all)
  ultimately show "cand_iterations c < 2 ^ 32" using ex by linarith
qed

lemma loop_body_ok:
  fixes pre rest :: bytes and first :: SemanticCommand and c :: Candidate and commands :: "SemanticCommand list"
  assumes enc: "stream_encoded commands executable" and ok: "loop_ok commands executable c"
    and ex: "executable < 2 ^ 32"
  defines "bs \<equiv> pre @ loop_record first c @ concat (children commands c 0) @ rest"
  assumes len: "length pre + cand_descriptorBytes c + cand_bodyBytes c < 2 ^ 32"
  shows "loop_body bs (length pre) = Some (concat (children commands c 0))"
proof -
  from loop_deltas_ex [OF enc ok] obtain deltas where D: "loop_deltas commands c deltas" .
  note sz = loop_ok_sizes [OF ok] and ct = loop_ok_counts [OF ok ex]
  note rd = loop_record_reads [of pre first c "concat (children commands c 0) @ rest", folded bs_def]
  define o' where "o' = length pre"
  have body: "length (concat (children commands c 0)) = cand_bodyBytes c"
    using D ct by (simp add: loop_deltas_def)
  have lbs: "length bs = o' + cand_descriptorBytes c + cand_bodyBytes c + length rest"
    using sz body by (simp add: bs_def length_loop_record o'_def)
  have vals: "read16n bs (o' + 2) = cand_descriptorBytes c" "Read32 bs (o' + 4) = 0"
    "read32n bs (o' + 16) = cand_iterations c" "read32n bs (o' + 20) = cand_bodyCommands c"
    "read32n bs (o' + 24) = cand_bodyBytes c" "read32n bs (o' + 28) = length (cand_patches c)"
    unfolding o'_def rd using sz ct by (simp_all add: small_words)
  have bs: "bs = (pre @ loop_record first c) @ concat (children commands c 0) @ rest"
    and lpre: "length (pre @ loop_record first c) = o' + cand_descriptorBytes c"
    using sz by (simp_all add: bs_def length_loop_record o'_def)
  have vb: "ValidateBody bs (o' + cand_descriptorBytes c) (cand_bodyBytes c) (cand_bodyCommands c) =
      Some (offsets_from 0 (children commands c 0))"
    using ValidateBody_concat [OF children_ok [OF enc ok], of 0 "pre @ loop_record first c" rest] ct len
    unfolding bs lpre body by (simp add: children_def o'_def)
  have tk: "take (cand_bodyBytes c) (drop (o' + cand_descriptorBytes c) bs) = concat (children commands c 0)"
    unfolding bs lpre [symmetric] using body by simp
  have tr: "table_reads bs (o' + 32) (cand_patches c)"
    unfolding table_reads_def bs_def o'_def by (auto simp only: loop_record_patches)
  have "sorted_wrt (\<lambda>p q. unat (patch_bodyWordOffset p) < unat (patch_bodyWordOffset q)) (cand_patches c)"
    using D sz patches_from_sorted [of 0 "concat deltas"] by (simp add: loop_deltas_def)
  with patches_fit [OF D] sz ct body
  have vp: "valid_patches bs (o' + 32) (concat (children commands c 0))
      (offsets_from 0 (children commands c 0)) [0..<length (cand_patches c)] 0"
    by (intro valid_patches_ok [OF tr]) simp_all
  have al: "unat (Align32 (word_of_nat (32 + length (cand_patches c) * 8))) = cand_descriptorBytes c"
    using ok by (simp add: loop_ok_def)
  have w: "wrap32 (cand_descriptorBytes c + cand_bodyBytes c) = cand_descriptorBytes c + cand_bodyBytes c"
    using sz by (simp add: wrap32_def)
  show ?thesis
    unfolding loop_body_def o'_def [symmetric] vals Let_def sizeof_CommandAffineLoopV2_def
      sizeof_CommandAffinePatchV2_def al w vb option.case tk
    using vp sz ct lbs by (simp add: MaxAffineLoopPatches_def MaxAffineLoopBodyCommands_def
        MaxAffineLoopRecordBytes_def)
qed

lemma expand_loop_record:
  fixes pre rest :: bytes and first :: SemanticCommand and c :: Candidate and commands :: "SemanticCommand list"
  assumes enc: "stream_encoded commands executable" and ok: "loop_ok commands executable c"
    and ex: "executable < 2 ^ 32"
  defines "bs \<equiv> pre @ loop_record first c @ concat (children commands c 0) @ rest"
  assumes len: "length pre + cand_descriptorBytes c + cand_bodyBytes c < 2 ^ 32"
  shows "expand_loop bs (length pre) expanded n =
    expand_loop bs (length pre + (cand_descriptorBytes c + cand_bodyBytes c))
      (expanded @ concat (map (\<lambda>i. concat (children commands c i)) [0..<cand_iterations c]))
      (wrap32 (n + cand_iterations c * cand_bodyCommands c))"
proof -
  from loop_deltas_ex [OF enc ok] obtain deltas where D: "loop_deltas commands c deltas" .
  note sz = loop_ok_sizes [OF ok] and ct = loop_ok_counts [OF ok ex]
  note rd = loop_record_reads [of pre first c "concat (children commands c 0) @ rest", folded bs_def]
  have body: "length (concat (children commands c 0)) = cand_bodyBytes c"
    using D ct by (simp add: loop_deltas_def)
  have lbs: "length bs = length pre + cand_descriptorBytes c + cand_bodyBytes c + length rest"
    using sz body by (simp add: bs_def length_loop_record)
  have vals: "Read16 bs (length pre) = CommandType_code AffineLoop"
    "read16n bs (length pre + 2) = cand_descriptorBytes c"
    "read32n bs (length pre + 16) = cand_iterations c" "read32n bs (length pre + 20) = cand_bodyCommands c"
    "read32n bs (length pre + 24) = cand_bodyBytes c" "read32n bs (length pre + 28) = length (cand_patches c)"
    unfolding rd using sz ct by (simp_all add: small_words)
  have tr: "table_reads bs (length pre + 32) (cand_patches c)"
    unfolding table_reads_def bs_def by (auto simp only: loop_record_patches)
  have lb: "loop_body bs (length pre) = Some (concat (children commands c 0))"
    unfolding bs_def using loop_body_ok [OF enc ok ex len] .
  have un: "unroll bs (length pre + sizeof_CommandAffineLoopV2) (length (cand_patches c)) (cand_bodyCommands c)
      (cand_iterations c) (concat (children commands c 0)) expanded n =
    (expanded @ concat (map (\<lambda>i. concat (children commands c i)) [0..<cand_iterations c]),
      wrap32 (n + cand_iterations c * cand_bodyCommands c))"
    using unroll_bodies [OF D tr, of 0 "cand_iterations c"] sz ct by (simp add: sizeof_CommandAffineLoopV2_def)
  show ?thesis
    using sz lbs by (subst expand_loop.simps)
      (simp add: vals lb un Let_def sizeof_CommandHeaderV2_def del: CommandType_code.simps add_2_eq_Suc')
qed

lemma expand_single:
  fixes pre rest e :: bytes
  assumes "header_ok e"
  defines "bs \<equiv> pre @ e @ rest"
  shows "expand_loop bs (length pre) expanded n =
    expand_loop bs (length pre + length e) (expanded @ e) (wrap32 (n + 1))"
proof -
  have h: "16 \<le> length e" "length e mod 32 = 0" "read16n e 2 = length e"
    "Read16 e 0 \<noteq> CommandType_code End" "Read16 e 0 \<noteq> CommandType_code AffineLoop"
    using assms(1) unfolding header_ok_def by blast+
  have rd: "Read16 bs (length pre) = Read16 e 0" "Read16 bs (length pre + 2) = Read16 e 2"
    using Read16_in [of 0 e pre rest] Read16_in [of 2 e pre rest] h(1) by (simp_all add: bs_def)
  have lbs: "length bs = length pre + length e + length rest" and tk: "take (length e) (drop (length pre) bs) = e"
    by (simp_all add: bs_def)
  show ?thesis
    using h(1,2,4,5) lbs by (subst expand_loop.simps)
      (auto simp add: rd h(3) tk Let_def sizeof_CommandHeaderV2_def simp del: CommandType_code.simps add_2_eq_Suc')
qed

lemma expand_end:
  fixes pre e :: bytes
  assumes "16 \<le> length e" "length e mod 32 = 0" "read16n e 2 = length e" "Read16 e 0 = CommandType_code End"
  shows "expand_loop (pre @ e) (length pre) expanded n = Some (expanded @ e, n)"
proof -
  have rd: "Read16 (pre @ e) (length pre) = CommandType_code End" "Read16 (pre @ e) (length pre + 2) = Read16 e 2"
    using Read16_in [of 0 e pre "[]"] Read16_in [of 2 e pre "[]"] assms by simp_all
  show ?thesis
    using assms(1,2) by (subst expand_loop.simps)
      (auto simp add: rd assms(3) Let_def sizeof_CommandHeaderV2_def simp del: add_2_eq_Suc')
qed

end
