(* ===== verification/NAI_CompactCorrect.thy ===== *)
theory NAI_CompactCorrect
  imports NAI_ExpandProof
begin

text \<open>
  The dynamic program and the writer together.  \<open>path\<close> is a segmentation of a prefix of the stream
  into single commands and candidates, with the bytes and the command count it saves; the table of
  the code holds a best path for every prefix.  \<open>walk\<close> is the segmentation of the rest of the stream
  that the marked candidates stand for; emitting a walk writes exactly its bytes, and expanding them
  gives back the commands.
\<close>

section \<open>The table of best scores\<close>

definition add_score :: "Score \<Rightarrow> Candidate \<Rightarrow> Score" where
  "add_score s c = \<lparr>score_savedBytes = score_savedBytes s + cand_savedBytes c,
     score_encodedReduction = score_encodedReduction s + cand_encodedReduction c\<rparr>"

definition zero_score :: Score where
  "zero_score = \<lparr>score_savedBytes = 0, score_encodedReduction = 0\<rparr>"

lemma Better_irrefl [simp]: "\<not> Better s s"
  by (simp add: Better_def)

lemma Better_trans: "Better x y \<Longrightarrow> Better y z \<Longrightarrow> Better x z"
  by (auto simp: Better_def)

lemma not_Better_trans: "\<not> Better x y \<Longrightarrow> \<not> Better y z \<Longrightarrow> \<not> Better x z"
  by (auto simp: Better_def)

lemma Better_add: "Better (add_score x c) (add_score y c) \<longleftrightarrow> Better x y"
  by (auto simp: Better_def add_score_def)

lemma not_Better_zero [simp]: "\<not> Better zero_score s"
  by (simp add: Better_def zero_score_def)

definition table_ok :: "Candidate list list \<Rightarrow> nat \<Rightarrow> bool" where
  "table_ok candidates n \<longleftrightarrow> length candidates = n \<and>
     (\<forall>b < n. \<forall>c \<in> set (candidates ! b). cand_begin c = b \<and> b < cand_end c \<and> cand_end c \<le> n)"

inductive path :: "Candidate list list \<Rightarrow> nat \<Rightarrow> nat \<Rightarrow> Score \<Rightarrow> bool" for candidates n where
  path_start: "path candidates n 0 zero_score"
| path_single: "path candidates n b s \<Longrightarrow> b < n \<Longrightarrow> path candidates n (Suc b) s"
| path_loop: "path candidates n b s \<Longrightarrow> b < n \<Longrightarrow> c \<in> set (candidates ! b) \<Longrightarrow>
    path candidates n (cand_end c) (add_score s c)"

text \<open>An entry of the table explains its score by the entry it points back to.\<close>

definition entry_ok :: "Candidate list list \<Rightarrow> choice_table \<Rightarrow> nat \<Rightarrow> nat \<Rightarrow> bool" where
  "entry_ok candidates t k e \<longleftrightarrow>
     ct_previous t ! e < e \<and> ct_previous t ! e < k \<and>
     (case ct_selected t ! e of
        None \<Rightarrow> e = Suc (ct_previous t ! e) \<and> ct_best t ! e = ct_best t ! (ct_previous t ! e)
      | Some i \<Rightarrow> i < length (candidates ! (ct_previous t ! e)) \<and>
          cand_end (candidates ! (ct_previous t ! e) ! i) = e \<and>
          ct_best t ! e = add_score (ct_best t ! (ct_previous t ! e)) (candidates ! (ct_previous t ! e) ! i))"

definition table_inv :: "Candidate list list \<Rightarrow> nat \<Rightarrow> nat \<Rightarrow> choice_table \<Rightarrow> bool" where
  "table_inv candidates n k t \<longleftrightarrow>
     length (ct_best t) = Suc n \<and> length (ct_previous t) = Suc n \<and> length (ct_selected t) = Suc n \<and>
     ct_best t ! 0 = zero_score \<and>
     (\<forall>e. 0 < e \<longrightarrow> e \<le> n \<longrightarrow> entry_ok candidates t k e \<or> (k < e \<and> ct_best t ! e = zero_score)) \<and>
     (\<forall>b < k. \<not> Better (ct_best t ! b) (ct_best t ! Suc b)) \<and>
     (\<forall>b < k. \<forall>c \<in> set (candidates ! b). \<not> Better (add_score (ct_best t ! b) c) (ct_best t ! cand_end c))"

text \<open>The invariant in the middle of step \<open>k\<close>, when the candidates of \<open>tried\<close> have been tried.\<close>

definition step_inv :: "Candidate list list \<Rightarrow> nat \<Rightarrow> nat \<Rightarrow> Candidate set \<Rightarrow> choice_table \<Rightarrow> bool" where
  "step_inv candidates n k tried t \<longleftrightarrow>
     length (ct_best t) = Suc n \<and> length (ct_previous t) = Suc n \<and> length (ct_selected t) = Suc n \<and>
     ct_best t ! 0 = zero_score \<and>
     (\<forall>e. 0 < e \<longrightarrow> e \<le> n \<longrightarrow> entry_ok candidates t (Suc k) e \<or> (Suc k < e \<and> ct_best t ! e = zero_score)) \<and>
     (\<forall>b < Suc k. \<not> Better (ct_best t ! b) (ct_best t ! Suc b)) \<and>
     (\<forall>b < k. \<forall>c \<in> set (candidates ! b). \<not> Better (add_score (ct_best t ! b) c) (ct_best t ! cand_end c)) \<and>
     (\<forall>c \<in> tried. \<not> Better (add_score (ct_best t ! k) c) (ct_best t ! cand_end c))"

text \<open>Replacing the entry of a later prefix by a better one keeps what is known about the others.\<close>

definition set_entry :: "nat \<Rightarrow> Score \<Rightarrow> nat \<Rightarrow> nat option \<Rightarrow> choice_table \<Rightarrow> choice_table" where
  "set_entry e s p sel t = \<lparr>ct_best = (ct_best t)[e := s], ct_previous = (ct_previous t)[e := p],
     ct_selected = (ct_selected t)[e := sel]\<rparr>"

lemma entry_ok_other:
  assumes "entry_ok candidates t k e'" and "e' \<noteq> e" and "k \<le> e" and "k \<le> k'"
  shows "entry_ok candidates (set_entry e s p sel t) k' e'"
proof -
  from assms have "ct_previous t ! e' \<noteq> e" by (auto simp: entry_ok_def)
  with assms show ?thesis by (auto simp: entry_ok_def set_entry_def split: option.splits)
qed

lemma not_Better_raise: "\<not> Better x y \<Longrightarrow> Better z y \<Longrightarrow> \<not> Better x z"
  by (auto simp: Better_def)

lemma set_entry_best [simp]:
  "e' \<noteq> e \<Longrightarrow> ct_best (set_entry e s p sel t) ! e' = ct_best t ! e'"
  "e < length (ct_best t) \<Longrightarrow> ct_best (set_entry e s p sel t) ! e = s"
  by (simp_all add: set_entry_def)

lemma step_inv_set_entry:
  assumes inv: "step_inv candidates n k tried t" and tok: "table_ok candidates n"
    and kn: "k < n" and i: "i < length (candidates ! k)" and c: "c = candidates ! k ! i"
    and better: "Better (add_score (ct_best t ! k) c) (ct_best t ! cand_end c)"
    and tried: "tried \<subseteq> set (candidates ! k)"
  shows "step_inv candidates n k (insert c tried)
    (set_entry (cand_end c) (add_score (ct_best t ! k) c) k (Some i) t)"
proof -
  define e s where "e = cand_end c" and "s = add_score (ct_best t ! k) c"
  define t' where "t' = set_entry e s k (Some i) t"
  have "c \<in> set (candidates ! k)" using i c by simp
  then have e: "k < e" "e \<le> n" using tok kn by (auto simp: table_ok_def e_def)
  from inv have len: "length (ct_best t) = Suc n" "length (ct_previous t) = Suc n" "length (ct_selected t) = Suc n"
    and z: "ct_best t ! 0 = zero_score"
    and en: "\<And>e. 0 < e \<Longrightarrow> e \<le> n \<Longrightarrow> entry_ok candidates t (Suc k) e \<or> (Suc k < e \<and> ct_best t ! e = zero_score)"
    and sg: "\<And>b. b < Suc k \<Longrightarrow> \<not> Better (ct_best t ! b) (ct_best t ! Suc b)"
    and lp: "\<And>b c. b < k \<Longrightarrow> c \<in> set (candidates ! b) \<Longrightarrow> \<not> Better (add_score (ct_best t ! b) c) (ct_best t ! cand_end c)"
    and tr: "\<And>c. c \<in> tried \<Longrightarrow> \<not> Better (add_score (ct_best t ! k) c) (ct_best t ! cand_end c)"
    unfolding step_inv_def by blast+
  have low: "ct_best t' ! b = ct_best t ! b" if "b \<le> k" for b using that e by (simp add: t'_def)
  have new: "ct_best t' ! e = s" using e len by (simp add: t'_def)
  have up: "\<not> Better x (ct_best t' ! e')" if "\<not> Better x (ct_best t ! e')" for x e'
  proof (cases "e' = e")
    case True
    with not_Better_raise [OF that] better new show ?thesis by (simp add: e_def s_def)
  next
    case False
    with that show ?thesis by (simp add: t'_def)
  qed
  have "entry_ok candidates t' (Suc k) e"
    using e len i c low [of k] new by (auto simp: entry_ok_def t'_def set_entry_def e_def s_def)
  then have en': "entry_ok candidates t' (Suc k) e' \<or> (Suc k < e' \<and> ct_best t' ! e' = zero_score)"
    if "0 < e'" "e' \<le> n" for e'
    using en [OF that] entry_ok_other [of candidates t "Suc k" e' e "Suc k" s k "Some i"] e
    by (cases "e' = e") (auto simp: t'_def)
  have "step_inv candidates n k (insert c tried) t'"
    unfolding step_inv_def
  proof (intro conjI allI impI ballI)
    show "length (ct_best t') = Suc n" "length (ct_previous t') = Suc n" "length (ct_selected t') = Suc n"
      using len by (simp_all add: t'_def set_entry_def)
    show "ct_best t' ! 0 = zero_score" using z low by simp
    show "entry_ok candidates t' (Suc k) e' \<or> (Suc k < e' \<and> ct_best t' ! e' = zero_score)"
      if "0 < e'" "e' \<le> n" for e' using en' [OF that] .
    show "\<not> Better (ct_best t' ! b) (ct_best t' ! Suc b)" if "b < Suc k" for b
      using up [OF sg [OF that]] low that by simp
    show "\<not> Better (add_score (ct_best t' ! b) d) (ct_best t' ! cand_end d)"
      if "b < k" "d \<in> set (candidates ! b)" for b d
      using up [OF lp [OF that]] low that by simp
    show "\<not> Better (add_score (ct_best t' ! k) d) (ct_best t' ! cand_end d)" if "d \<in> insert c tried" for d
      using that up [OF tr] low [of k] new by (auto simp: e_def s_def)
  qed
  then show ?thesis by (simp add: t'_def e_def s_def)
qed

lemma try_candidate_inv:
  assumes inv: "step_inv candidates n k tried t" and tok: "table_ok candidates n"
    and kn: "k < n" and i: "i < length (candidates ! k)" and tried: "tried \<subseteq> set (candidates ! k)"
  shows "step_inv candidates n k (insert (candidates ! k ! i) tried)
    (try_candidate k (i, candidates ! k ! i) t)"
proof (cases "Better (add_score (ct_best t ! k) (candidates ! k ! i)) (ct_best t ! cand_end (candidates ! k ! i))")
  case True
  with step_inv_set_entry [OF inv tok kn i refl True tried] show ?thesis
    by (simp add: try_candidate_def Let_def add_score_def set_entry_def)
next
  case False
  with inv show ?thesis
    by (simp add: try_candidate_def Let_def add_score_def [symmetric]) (simp add: step_inv_def)
qed

lemma try_candidates_inv:
  assumes tok: "table_ok candidates n" and kn: "k < n" and inv: "step_inv candidates n k {} t"
  shows "j \<le> length (candidates ! k) \<Longrightarrow>
    step_inv candidates n k (set (take j (candidates ! k)))
      (fold (try_candidate k) (take j (enumerate 0 (candidates ! k))) t)"
proof (induction j)
  case (Suc j)
  define cs where "cs = candidates ! k"
  have j: "j < length cs" using Suc.prems by (simp add: cs_def)
  then have "take (Suc j) (enumerate 0 cs) = take j (enumerate 0 cs) @ [(j, cs ! j)]"
    by (simp add: take_Suc_conv_app_nth nth_enumerate_eq)
  moreover have "set (take (Suc j) cs) = insert (cs ! j) (set (take j cs))"
    using j by (simp add: take_Suc_conv_app_nth)
  ultimately show ?case
    using try_candidate_inv [OF Suc.IH tok kn] j Suc.prems set_take_subset [of j cs]
    by (simp add: cs_def)
qed (use inv in simp)

lemma keep_single_inv:
  assumes tok: "table_ok candidates n" and kn: "k < n" and inv: "table_inv candidates n k t"
  shows "step_inv candidates n k {} (keep_single k t)"
proof -
  from inv have len: "length (ct_best t) = Suc n" "length (ct_previous t) = Suc n" "length (ct_selected t) = Suc n"
    and z: "ct_best t ! 0 = zero_score"
    and en: "\<And>e. 0 < e \<Longrightarrow> e \<le> n \<Longrightarrow> entry_ok candidates t k e \<or> (k < e \<and> ct_best t ! e = zero_score)"
    and sg: "\<And>b. b < k \<Longrightarrow> \<not> Better (ct_best t ! b) (ct_best t ! Suc b)"
    and lp: "\<And>b c. b < k \<Longrightarrow> c \<in> set (candidates ! b) \<Longrightarrow> \<not> Better (add_score (ct_best t ! b) c) (ct_best t ! cand_end c)"
    unfolding table_inv_def by blast+
  have mono: "entry_ok candidates t (Suc k) e" if "entry_ok candidates t k e" for e
    using that by (auto simp: entry_ok_def split: option.splits)
  show ?thesis
  proof (cases "Better (ct_best t ! Suc k) (ct_best t ! k)")
    case True
    then have nz: "ct_best t ! Suc k \<noteq> zero_score" by auto
    have "entry_ok candidates t (Suc k) e \<or> (Suc k < e \<and> ct_best t ! e = zero_score)" if "0 < e" "e \<le> n" for e
      using en [OF that] mono nz by (cases "e = Suc k") auto
    moreover have "\<not> Better (ct_best t ! k) (ct_best t ! Suc k)" using True by (auto simp: Better_def)
    ultimately show ?thesis using True len z sg lp by (auto simp: step_inv_def keep_single_def less_Suc_eq)
  next
    case False
    define t' where "t' = set_entry (Suc k) (ct_best t ! k) k None t"
    have ks: "keep_single k t = t'" using False by (simp add: keep_single_def t'_def set_entry_def)
    have new: "ct_best t' ! Suc k = ct_best t ! k" using kn len by (simp add: t'_def)
    have low: "ct_best t' ! b = ct_best t ! b" if "b \<noteq> Suc k" for b using that by (simp add: t'_def)
    have up: "\<not> Better x (ct_best t' ! e')" if "\<not> Better x (ct_best t ! e')" for x e'
      using that not_Better_trans [OF _ False] new low by (cases "e' = Suc k") auto
    have ek: "entry_ok candidates t' (Suc k) (Suc k)"
      using kn len new low [of k] by (simp add: entry_ok_def t'_def set_entry_def)
    have "entry_ok candidates t' (Suc k) e \<or> (Suc k < e \<and> ct_best t' ! e = zero_score)" if "0 < e" "e \<le> n" for e
      using en [OF that] ek low [of e] entry_ok_other [of candidates t k e "Suc k" "Suc k" "ct_best t ! k" k None]
      by (cases "e = Suc k") (auto simp: t'_def)
    then show ?thesis
      unfolding ks step_inv_def using up [OF sg] up [OF lp] low z new len
      by (auto simp: less_Suc_eq t'_def set_entry_def)
  qed
qed

lemma choose_step_inv:
  assumes tok: "table_ok candidates n" and kn: "k < n" and inv: "table_inv candidates n k t"
  shows "table_inv candidates n (Suc k) (choose_step candidates k t)"
proof -
  have "take (length (candidates ! k)) (enumerate 0 (candidates ! k)) = enumerate 0 (candidates ! k)" by simp
  with try_candidates_inv [OF tok kn keep_single_inv [OF tok kn inv] order_refl]
  have "step_inv candidates n k (set (candidates ! k)) (choose_step candidates k t)"
    by (simp add: choose_step_def)
  then show ?thesis by (auto simp: step_inv_def table_inv_def less_Suc_eq)
qed

lemma choose_table_inv:
  assumes tok: "table_ok candidates n"
  shows "table_inv candidates n n (choose_table candidates n)"
proof -
  have "table_inv candidates n k (fold (choose_step candidates) [0..<k] (initial_table n))" if "k \<le> n" for k
    using that
  proof (induction k)
    case 0
    show ?case by (auto simp: table_inv_def initial_table_def zero_score_def simp del: replicate.simps)
  next
    case (Suc k)
    with choose_step_inv [OF tok, of k] show ?case by simp
  qed
  then show ?thesis by (simp add: choose_table_def)
qed

lemma best_is_optimal:
  assumes inv: "table_inv candidates n n t" and p: "path candidates n e s"
  shows "\<not> Better s (ct_best t ! e)"
  using p
proof induction
  case path_start
  show ?case by simp
next
  case (path_single b s)
  with inv have "\<not> Better (ct_best t ! b) (ct_best t ! Suc b)" by (simp add: table_inv_def)
  with not_Better_trans [OF path_single.IH] show ?case by blast
next
  case (path_loop b s c)
  with inv have "\<not> Better (add_score (ct_best t ! b) c) (ct_best t ! cand_end c)" by (simp add: table_inv_def)
  moreover from path_loop have "\<not> Better (add_score s c) (add_score (ct_best t ! b) c)" by (simp add: Better_add)
  ultimately show ?case using not_Better_trans by blast
qed

lemma best_is_path:
  assumes inv: "table_inv candidates n n t" and tok: "table_ok candidates n"
  shows "e \<le> n \<Longrightarrow> path candidates n e (ct_best t ! e)"
proof (induction e rule: less_induct)
  case (less e)
  define b where "b = ct_previous t ! e"
  show ?case
  proof (cases "e = 0")
    case True
    with inv show ?thesis by (simp add: table_inv_def path_start)
  next
    case False
    with inv less.prems have ok: "entry_ok candidates t n e" by (auto simp: table_inv_def)
    then have b: "b < e" "b < n" by (simp_all add: entry_ok_def b_def)
    from less.IH [OF b(1)] b have p: "path candidates n b (ct_best t ! b)" by simp
    show ?thesis
    proof (cases "ct_selected t ! e")
      case None
      with ok path_single [OF p b(2)] show ?thesis by (simp add: entry_ok_def b_def)
    next
      case (Some i)
      with ok have "i < length (candidates ! b)" "cand_end (candidates ! b ! i) = e"
        "ct_best t ! e = add_score (ct_best t ! b) (candidates ! b ! i)"
        by (simp_all add: entry_ok_def b_def)
      with path_loop [OF p b(2), of "candidates ! b ! i"] show ?thesis by simp
    qed
  qed
qed

section \<open>Marking the chosen candidates\<close>

inductive walk :: "Candidate list list \<Rightarrow> nat \<Rightarrow> Candidate option list \<Rightarrow> nat \<Rightarrow> Score \<Rightarrow> bool"
  for candidates n chosen where
  walk_end: "walk candidates n chosen n zero_score"
| walk_single: "b < n \<Longrightarrow> chosen ! b = None \<Longrightarrow> walk candidates n chosen (Suc b) s \<Longrightarrow>
    walk candidates n chosen b s"
| walk_loop: "b < n \<Longrightarrow> chosen ! b = Some c \<Longrightarrow> c \<in> set (candidates ! b) \<Longrightarrow>
    walk candidates n chosen (cand_end c) s \<Longrightarrow> walk candidates n chosen b (add_score s c)"

lemma walk_update:
  assumes "walk candidates n chosen e s" and "table_ok candidates n" and "b < e"
  shows "walk candidates n (chosen[b := x]) e s"
  using assms(1,3)
proof induction
  case (walk_loop e c s)
  with assms(2) have "e < cand_end c" by (auto simp: table_ok_def)
  with walk_loop show ?case by (intro walk.walk_loop) auto
qed (auto intro: walk.intros)

definition plus_score :: "Score \<Rightarrow> Score \<Rightarrow> Score" where
  "plus_score x y = \<lparr>score_savedBytes = score_savedBytes x + score_savedBytes y,
     score_encodedReduction = score_encodedReduction x + score_encodedReduction y\<rparr>"

lemma plus_score_add: "plus_score (add_score x c) y = plus_score x (add_score y c)"
  by (simp add: plus_score_def add_score_def)

lemma plus_score_zero [simp]: "plus_score zero_score y = y" "plus_score x zero_score = x"
  by (simp_all add: plus_score_def zero_score_def)

lemma mark_chosen_step:
  "e \<noteq> 0 \<Longrightarrow> mark_chosen candidates t e chosen = mark_chosen candidates t (ct_previous t ! e)
     (case ct_selected t ! e of None \<Rightarrow> chosen
      | Some i \<Rightarrow> chosen[ct_previous t ! e := Some (candidates ! (ct_previous t ! e) ! i)])"
  by (subst mark_chosen.simps) (simp add: Let_def)

lemma mark_chosen_walk:
  assumes inv: "table_inv candidates n n t" and tok: "table_ok candidates n"
  shows "e \<le> n \<Longrightarrow> length chosen = n \<Longrightarrow> \<forall>b < e. chosen ! b = None \<Longrightarrow> walk candidates n chosen e s \<Longrightarrow>
    \<exists>chosen'. mark_chosen candidates t e chosen = Some chosen' \<and>
      walk candidates n chosen' 0 (plus_score (ct_best t ! e) s)"
proof (induction e arbitrary: chosen s rule: less_induct)
  case (less e)
  define b where "b = ct_previous t ! e"
  show ?case
  proof (cases "e = 0")
    case True
    with inv less.prems show ?thesis by (simp add: mark_chosen.simps table_inv_def)
  next
    case False
    with inv less.prems have ok: "entry_ok candidates t n e" by (auto simp: table_inv_def)
    then have b: "b < e" "b < n" by (simp_all add: entry_ok_def b_def)
    show ?thesis
    proof (cases "ct_selected t ! e")
      case None
      with ok have e: "e = Suc b" "ct_best t ! e = ct_best t ! b" by (simp_all add: entry_ok_def b_def)
      have none: "chosen ! b = None" "\<forall>b' < b. chosen ! b' = None" using less.prems(3) b(1) by simp_all
      have "walk candidates n chosen b s"
        using less.prems(4) unfolding e(1) by (rule walk_single [OF b(2) none(1)])
      from less.IH [OF b(1) _ less.prems(2) none(2) this] b(2)
      obtain chosen' where "mark_chosen candidates t b chosen = Some chosen'"
        "walk candidates n chosen' 0 (plus_score (ct_best t ! b) s)" by auto
      with e(2) None show ?thesis
        unfolding mark_chosen_step [OF False] b_def [symmetric] by simp
    next
      case (Some i)
      define c where "c = candidates ! b ! i"
      from Some ok have c: "i < length (candidates ! b)" "cand_end c = e"
        "ct_best t ! e = add_score (ct_best t ! b) c"
        by (simp_all add: entry_ok_def b_def c_def)
      have "walk candidates n (chosen[b := Some c]) b (add_score s c)"
        using walk_update [OF less.prems(4) tok b(1)] less.prems(2) b c
        by (intro walk_loop) (auto simp: c_def)
      from less.IH [OF b(1) _ _ _ this] less.prems b
      obtain chosen' where "mark_chosen candidates t b (chosen[b := Some c]) = Some chosen'"
        "walk candidates n chosen' 0 (plus_score (ct_best t ! b) (add_score s c))" by auto
      with c(3) Some show ?thesis
        unfolding mark_chosen_step [OF False] b_def [symmetric] by (simp add: plus_score_add c_def)
    qed
  qed
qed

section \<open>Writing and expanding a walk\<close>

definition encodings :: "SemanticCommand list \<Rightarrow> nat \<Rightarrow> nat \<Rightarrow> bytes" where
  "encodings commands i j = concat (map (\<lambda>k. cmd_encoding (commands ! k)) [i..<j])"

lemma length_encodings [simp]: "length (encodings commands i j) = bytes_of commands i j"
  by (simp add: encodings_def bytes_of_def length_concat o_def)

lemma encodings_split: "i \<le> j \<Longrightarrow> j \<le> k \<Longrightarrow> encodings commands i k = encodings commands i j @ encodings commands j k"
proof -
  assume "i \<le> j" and "j \<le> k"
  then have "[i..<k] = [i..<j] @ [j..<k]" using upt_add_eq_append [of i j "k - j"] by simp
  then show ?thesis by (simp only: encodings_def map_append concat_append)
qed

lemma bytes_of_split: "i \<le> j \<Longrightarrow> j \<le> k \<Longrightarrow> bytes_of commands i k = bytes_of commands i j + bytes_of commands j k"
proof -
  assume "i \<le> j" and "j \<le> k"
  from arg_cong [OF encodings_split [OF this, of commands], where f = length] show ?thesis by simp
qed

lemma encodings_Suc: "i < j \<Longrightarrow> encodings commands i j = cmd_encoding (commands ! i) @ encodings commands (Suc i) j"
  by (simp add: encodings_def upt_conv_Cons)

lemma children_encodings:
  "concat (children commands c i) =
   encodings commands (cand_begin c + i * cand_bodyCommands c) (cand_begin c + Suc i * cand_bodyCommands c)"
proof -
  define b where "b = cand_begin c + i * cand_bodyCommands c"
  have "[b..<b + cand_bodyCommands c] = map (\<lambda>k. b + k) [0..<cand_bodyCommands c]"
    by (simp add: map_add_upt add.commute)
  moreover have "cand_begin c + Suc i * cand_bodyCommands c = b + cand_bodyCommands c" by (simp add: b_def)
  ultimately show ?thesis
    by (simp add: children_def encodings_def comp_def flip: b_def del: upt_Suc mult_Suc map_map add: map_map)
qed

lemma repetitions_encodings:
  "concat (map (\<lambda>i. concat (children commands c i)) [0..<n]) =
   encodings commands (cand_begin c) (cand_begin c + n * cand_bodyCommands c)"
proof (induction n)
  case 0
  show ?case by (simp add: encodings_def)
next
  case (Suc n)
  have "encodings commands (cand_begin c) (cand_begin c + Suc n * cand_bodyCommands c) =
    encodings commands (cand_begin c) (cand_begin c + n * cand_bodyCommands c) @ concat (children commands c n)"
    unfolding children_encodings by (rule encodings_split) simp_all
  with Suc show ?case by simp
qed

lemma loop_ok_balance:
  assumes "loop_ok commands n c"
  shows "cand_descriptorBytes c + cand_savedBytes c = (cand_iterations c - 1) * cand_bodyBytes c"
    and "cand_end c = cand_begin c + cand_iterations c * cand_bodyCommands c" and "cand_end c \<le> n"
    and "2 \<le> cand_iterations c" and "1 \<le> cand_bodyCommands c"
    and "cand_encodedReduction c = (cand_iterations c - 1) * cand_bodyCommands c - 1"
  using assms unfolding loop_ok_def by blast+

lemma loop_ok_body:
  "loop_ok commands n c \<Longrightarrow>
   cand_bodyBytes c = bytes_of commands (cand_begin c) (cand_begin c + cand_bodyCommands c)"
  unfolding loop_ok_def by blast

lemma loop_bytes:
  assumes enc: "stream_encoded commands n" and ok: "loop_ok commands n c"
  shows "bytes_of commands (cand_begin c) (cand_end c) = cand_descriptorBytes c + cand_bodyBytes c + cand_savedBytes c"
proof -
  from loop_deltas_ex [OF enc ok] obtain deltas where D: "loop_deltas commands c deltas" .
  have "length (concat (map (\<lambda>i. concat (children commands c i)) [0..<m])) = m * cand_bodyBytes c"
    if "m \<le> cand_iterations c" for m
    using that D by (induction m) (simp_all add: loop_deltas_def)
  from this [OF order_refl] have "bytes_of commands (cand_begin c) (cand_end c) = cand_iterations c * cand_bodyBytes c"
    using loop_ok_balance(2) [OF ok] arg_cong [OF repetitions_encodings, where f = length] by simp
  moreover have "cand_iterations c * cand_bodyBytes c = (cand_iterations c - 1) * cand_bodyBytes c + cand_bodyBytes c"
    using loop_ok_balance(4) [OF ok] by (cases "cand_iterations c") simp_all
  ultimately show ?thesis using loop_ok_balance(1) [OF ok] by simp
qed

text \<open>The tail that a walk from \<open>b\<close> writes, and what is known about it.\<close>

definition tail_ok :: "SemanticCommand list \<Rightarrow> nat \<Rightarrow> nat \<Rightarrow> Score \<Rightarrow> bytes \<Rightarrow> bool" where
  "tail_ok commands n b s tail \<longleftrightarrow>
     length tail + score_savedBytes s = bytes_of commands b n \<and>
     (\<forall>pre rest expanded m. length pre + length tail < 2 ^ 32 \<longrightarrow> m < 2 ^ 32 \<longrightarrow>
        expand_loop (pre @ tail @ rest) (length pre) expanded m =
        expand_loop (pre @ tail @ rest) (length pre + length tail) (expanded @ encodings commands b n)
          (wrap32 (m + (n - b))))"

lemma wrap32_less [simp]: "wrap32 m < 2 ^ 32"
  by (simp add: wrap32_def)

lemma tail_okD:
  "tail_ok commands n b s tail \<Longrightarrow> length pre + length tail < 2 ^ 32 \<Longrightarrow> m < 2 ^ 32 \<Longrightarrow>
   expand_loop (pre @ tail @ rest) (length pre) expanded m =
   expand_loop (pre @ tail @ rest) (length pre + length tail) (expanded @ encodings commands b n)
     (wrap32 (m + (n - b)))"
  unfolding tail_ok_def by blast

lemma tail_ok_single:
  assumes enc: "stream_encoded commands n" and b: "b < n" and t: "tail_ok commands n (Suc b) s tail"
  shows "tail_ok commands n b s (cmd_encoding (commands ! b) @ tail)"
  unfolding tail_ok_def
proof (intro conjI allI impI)
  define e where "e = cmd_encoding (commands ! b)"
  show "length (cmd_encoding (commands ! b) @ tail) + score_savedBytes s = bytes_of commands b n"
    using t b arg_cong [OF encodings_Suc [OF b], where f = length] by (simp add: tail_ok_def)
  fix pre rest expanded :: bytes and m :: nat
  assume len: "length pre + length (cmd_encoding (commands ! b) @ tail) < 2 ^ 32"
  have "expand_loop (pre @ e @ tail @ rest) (length pre) expanded m =
      expand_loop (pre @ e @ tail @ rest) (length pre + length e) (expanded @ e) (wrap32 (m + 1))"
    by (rule expand_single) (simp add: e_def encoded_header_ok [OF enc b])
  also have "\<dots> = expand_loop ((pre @ e) @ tail @ rest) (length (pre @ e) + length tail)
      ((expanded @ e) @ encodings commands (Suc b) n) (wrap32 (wrap32 (m + 1) + (n - Suc b)))"
    using tail_okD [OF t _ wrap32_less, of "pre @ e" rest "expanded @ e" "m + 1"] len by (simp add: e_def)
  also have "\<dots> = expand_loop (pre @ e @ tail @ rest) (length pre + length (e @ tail))
      (expanded @ encodings commands b n) (wrap32 (m + (n - b)))"
  proof -
    have "m + 1 + (n - Suc b) = m + (n - b)" using b by simp
    then have "wrap32 (wrap32 (m + 1) + (n - Suc b)) = wrap32 (m + (n - b))" by (simp only: wrap32_add)
    then show ?thesis by (simp only: encodings_Suc [OF b] e_def length_append append_assoc add.assoc)
  qed
  finally show "expand_loop (pre @ (cmd_encoding (commands ! b) @ tail) @ rest) (length pre) expanded m =
      expand_loop (pre @ (cmd_encoding (commands ! b) @ tail) @ rest)
        (length pre + length (cmd_encoding (commands ! b) @ tail)) (expanded @ encodings commands b n)
        (wrap32 (m + (n - b)))"
    by (simp add: e_def)
qed

lemma tail_ok_loop:
  assumes enc: "stream_encoded commands n" and n: "n < 2 ^ 32" and ok: "loop_ok commands n c"
    and t: "tail_ok commands n (cand_end c) s tail"
  shows "tail_ok commands n (cand_begin c) (add_score s c)
    (loop_record first c @ concat (children commands c 0) @ tail)"
  unfolding tail_ok_def
proof (intro conjI allI impI)
  from loop_deltas_ex [OF enc ok] obtain deltas where D: "loop_deltas commands c deltas" .
  note sz = loop_ok_sizes [OF ok] and bal = loop_ok_balance [OF ok]
  define k where "k = cand_iterations c * cand_bodyCommands c"
  have body: "length (concat (children commands c 0)) = cand_bodyBytes c"
    using D bal(4) by (simp add: loop_deltas_def)
  have rec: "length (loop_record first c) = cand_descriptorBytes c"
    using sz by (simp add: length_loop_record)
  have le: "cand_begin c \<le> cand_end c" "cand_end c \<le> n" using bal by simp_all
  have "length tail + score_savedBytes s = bytes_of commands (cand_end c) n" using t by (simp add: tail_ok_def)
  then show "length (loop_record first c @ concat (children commands c 0) @ tail) +
      score_savedBytes (add_score s c) = bytes_of commands (cand_begin c) n"
    using loop_bytes [OF enc ok] bytes_of_split [OF le] body rec by (simp add: add_score_def)
  fix pre rest expanded :: bytes and m :: nat
  assume len: "length pre + length (loop_record first c @ concat (children commands c 0) @ tail) < 2 ^ 32"
  define r where "r = loop_record first c @ concat (children commands c 0)"
  have lr: "length r = cand_descriptorBytes c + cand_bodyBytes c" using body rec by (simp add: r_def)
  have bs: "pre @ loop_record first c @ concat (children commands c 0) @ tail @ rest = (pre @ r) @ tail @ rest"
    by (simp add: r_def)
  have "expand_loop (pre @ loop_record first c @ concat (children commands c 0) @ tail @ rest) (length pre) expanded m =
    expand_loop ((pre @ r) @ tail @ rest) (length (pre @ r))
      (expanded @ encodings commands (cand_begin c) (cand_end c)) (wrap32 (m + k))"
    using expand_loop_record [OF enc ok n, of pre first "tail @ rest" expanded m] len body rec bal(2)
    by (simp only: bs [symmetric] length_append lr repetitions_encodings k_def add.assoc)
  also have "\<dots> = expand_loop ((pre @ r) @ tail @ rest) (length (pre @ r) + length tail)
      ((expanded @ encodings commands (cand_begin c) (cand_end c)) @ encodings commands (cand_end c) n)
      (wrap32 (wrap32 (m + k) + (n - cand_end c)))"
    using len by (intro tail_okD [OF t _ wrap32_less]) (simp add: r_def)
  also have "wrap32 (wrap32 (m + k) + (n - cand_end c)) = wrap32 (m + (n - cand_begin c))"
  proof -
    have "m + k + (n - cand_end c) = m + (n - cand_begin c)" using le bal(2) by (simp add: k_def)
    then show ?thesis by (simp only: wrap32_add)
  qed
  finally show "expand_loop (pre @ (loop_record first c @ concat (children commands c 0) @ tail) @ rest)
      (length pre) expanded m =
    expand_loop (pre @ (loop_record first c @ concat (children commands c 0) @ tail) @ rest)
      (length pre + length (loop_record first c @ concat (children commands c 0) @ tail))
      (expanded @ encodings commands (cand_begin c) n) (wrap32 (m + (n - cand_begin c)))"
    by (simp add: r_def encodings_split [OF le] add.assoc)
qed

lemma emit_stream_walk:
  assumes w: "walk candidates n chosen b s"
    and enc: "stream_encoded commands n" and n: "n < 2 ^ 32" and tok: "table_ok candidates n"
    and loops: "\<And>b c. b < n \<Longrightarrow> c \<in> set (candidates ! b) \<Longrightarrow> loop_ok commands n c"
  shows "\<exists>tail. tail_ok commands n b s tail \<and>
    (\<forall>encoded stats. length encoded + bytes_of commands b n < 2 ^ 32 \<longrightarrow>
      (\<exists>stats'. emit_stream commands chosen n b encoded stats = Some (encoded @ tail, stats') \<and>
        cs_encodedCommands stats' + score_encodedReduction s = cs_encodedCommands stats + (n - b) \<and>
        cs_logicalCommands stats' = cs_logicalCommands stats \<and> cs_bytesBefore stats' = cs_bytesBefore stats))"
  using w
proof induction
  case walk_end
  show ?case
    by (rule exI [where x = "[]"])
      (simp add: tail_ok_def emit_stream.simps bytes_of_def encodings_def zero_score_def wrap32_def)
next
  case (walk_single b s)
  then obtain tail where t: "tail_ok commands n (Suc b) s tail"
    and em: "\<And>encoded stats. length encoded + bytes_of commands (Suc b) n < 2 ^ 32 \<Longrightarrow>
      \<exists>stats'. emit_stream commands chosen n (Suc b) encoded stats = Some (encoded @ tail, stats') \<and>
        cs_encodedCommands stats' + score_encodedReduction s = cs_encodedCommands stats + (n - Suc b) \<and>
        cs_logicalCommands stats' = cs_logicalCommands stats \<and> cs_bytesBefore stats' = cs_bytesBefore stats"
    by blast
  define e where "e = cmd_encoding (commands ! b)"
  have len: "bytes_of commands b n = length e + bytes_of commands (Suc b) n"
    using arg_cong [OF encodings_Suc [OF walk_single(1)], where f = length] by (simp add: e_def)
  show ?case
  proof (rule exI [where x = "e @ tail"], intro conjI allI impI)
    show "tail_ok commands n b s (e @ tail)"
      unfolding e_def by (rule tail_ok_single [OF enc walk_single(1) t])
    fix encoded :: bytes and stats :: CommandCompactionStats
    assume lt: "length encoded + bytes_of commands b n < 2 ^ 32"
    define stats0 where "stats0 = stats\<lparr>cs_encodedCommands := cs_encodedCommands stats + 1\<rparr>"
    have "emit_stream commands chosen n b encoded stats = emit_stream commands chosen n (Suc b) (encoded @ e) stats0"
      using walk_single(1,2) by (subst emit_stream.simps) (simp add: e_def stats0_def)
    with em [of "encoded @ e" stats0] lt len walk_single(1)
    show "\<exists>stats'. emit_stream commands chosen n b encoded stats = Some (encoded @ e @ tail, stats') \<and>
        cs_encodedCommands stats' + score_encodedReduction s = cs_encodedCommands stats + (n - b) \<and>
        cs_logicalCommands stats' = cs_logicalCommands stats \<and> cs_bytesBefore stats' = cs_bytesBefore stats"
      by (auto simp: stats0_def)
  qed
next
  case (walk_loop b c s)
  then obtain tail where t: "tail_ok commands n (cand_end c) s tail"
    and em: "\<And>encoded stats. length encoded + bytes_of commands (cand_end c) n < 2 ^ 32 \<Longrightarrow>
      \<exists>stats'. emit_stream commands chosen n (cand_end c) encoded stats = Some (encoded @ tail, stats') \<and>
        cs_encodedCommands stats' + score_encodedReduction s = cs_encodedCommands stats + (n - cand_end c) \<and>
        cs_logicalCommands stats' = cs_logicalCommands stats \<and> cs_bytesBefore stats' = cs_bytesBefore stats"
    by blast
  have ok: "loop_ok commands n c" by (rule loops [OF walk_loop(1,3)])
  have cb: "cand_begin c = b" using tok walk_loop(1,3) by (auto simp: table_ok_def)
  note bal = loop_ok_balance [OF ok] and sz = loop_ok_sizes [OF ok]
  define r where "r = loop_record (commands ! b) c @ concat (children commands c 0)"
  have lr: "length r + cand_savedBytes c = bytes_of commands b (cand_end c)"
    using loop_bytes [OF enc ok] sz children_encodings [of commands c 0] loop_ok_body [OF ok]
    by (simp add: r_def length_loop_record cb)
  have le: "b \<le> cand_end c" "cand_end c \<le> n" using bal cb by simp_all
  show ?case
  proof (rule exI [where x = "r @ tail"], intro conjI allI impI)
    show "tail_ok commands n b (add_score s c) (r @ tail)"
      using tail_ok_loop [OF enc n ok t] by (simp add: r_def cb)
    fix encoded :: bytes and stats :: CommandCompactionStats
    assume lt: "length encoded + bytes_of commands b n < 2 ^ 32"
    define stats0 where "stats0 = stats\<lparr>cs_encodedCommands := cs_encodedCommands stats + cand_bodyCommands c + 1,
      cs_loops := cs_loops stats + 1,
      cs_loopedCommands := cs_loopedCommands stats + cand_bodyCommands c * cand_iterations c\<rparr>"
    have wl: "write_loop commands b c encoded = encoded @ r"
      using lt sz by (subst write_loop_eq) (simp_all add: r_def children_def cb)
    have "emit_stream commands chosen n b encoded stats =
        emit_stream commands chosen n (cand_end c) (encoded @ r) stats0"
      using walk_loop(1,2) by (subst emit_stream.simps) (simp add: wl stats0_def)
    moreover have "length (encoded @ r) + bytes_of commands (cand_end c) n < 2 ^ 32"
      using lt lr bytes_of_split [OF le, of commands] by simp
    moreover have "cand_bodyCommands c + 1 + (n - cand_end c) + cand_encodedReduction c = n - b"
    proof -
      obtain i where i: "cand_iterations c = Suc (Suc i)" 
        using bal(4) by (metis One_nat_def add_2_eq_Suc le_Suc_ex)
      define body where "body = cand_bodyCommands c"
      have "cand_end c = b + (body + body + i * body)" "cand_encodedReduction c = body + i * body - 1" "1 \<le> body"
        using bal(2,5,6) by (simp_all add: i cb body_def)
      with le(2) show ?thesis unfolding body_def [symmetric] by linarith
    qed
    ultimately show "\<exists>stats'. emit_stream commands chosen n b encoded stats = Some (encoded @ r @ tail, stats') \<and>
        cs_encodedCommands stats' + score_encodedReduction (add_score s c) = cs_encodedCommands stats + (n - b) \<and>
        cs_logicalCommands stats' = cs_logicalCommands stats \<and> cs_bytesBefore stats' = cs_bytesBefore stats"
      using em [of "encoded @ r" stats0] by (auto simp: stats0_def add_score_def)
  qed
qed

section \<open>Compaction\<close>

definition compactable :: "SemanticCommand list \<Rightarrow> bool" where
  "compactable commands \<longleftrightarrow> commands \<noteq> [] \<and> cmd_type (last commands) = End \<and> encoded_ok (last commands) \<and>
     stream_encoded commands (length commands - 1) \<and>
     length (SerializeSemanticCommandStream commands) < 2 ^ 32"

definition candidate_table :: "SemanticCommand list \<Rightarrow> Candidate list list" where
  "candidate_table commands = map (candidates_at commands (length commands - 1)) [0..<length commands - 1]"

lemma Serialize_encodings:
  assumes "commands \<noteq> []"
  shows "SerializeSemanticCommandStream commands =
    encodings commands 0 (length commands - 1) @ cmd_encoding (last commands)"
proof -
  have "map (\<lambda>k. commands ! k) [0..<length commands - 1] = butlast commands"
    by (intro nth_equalityI) (simp_all add: nth_butlast)
  then have "encodings commands 0 (length commands - 1) = concat (map cmd_encoding (butlast commands))"
    by (simp add: encodings_def flip: map_map [unfolded comp_def])
  moreover have "SerializeSemanticCommandStream commands =
      concat (map cmd_encoding (butlast commands @ [last commands]))"
    by (simp add: SerializeSemanticCommandStream_def append_butlast_last_id [OF assms])
  ultimately show ?thesis by simp
qed

lemma bytes_before:
  "fold (\<lambda>c n. wrap32 (n + length (cmd_encoding c))) commands m = wrap32 (m + length (SerializeSemanticCommandStream commands))"
  if "m < 2 ^ 32" for m
  using that
proof (induction commands arbitrary: m)
  case Nil
  then show ?case by (simp add: SerializeSemanticCommandStream_def wrap32_def)
next
  case (Cons c commands)
  from Cons.IH [OF wrap32_less] show ?case
    by (simp add: SerializeSemanticCommandStream_def add.assoc)
qed

lemma candidate_facts:
  assumes c: "compactable commands" and b: "b < length commands - 1"
    and cand: "cand \<in> set (candidate_table commands ! b)"
  shows "loop_ok commands (length commands - 1) cand" and "cand_begin cand = b"
proof -
  define n where "n = length commands - 1"
  from c have enc: "stream_encoded commands n" and last: "encoded_ok (last commands)" and ne: "commands \<noteq> []"
    by (simp_all add: compactable_def n_def)
  have ok: "encoded_ok (commands ! k)" if "k < length commands" for k
  proof (cases "k < n")
    case True
    with enc show ?thesis by (simp add: stream_encoded_def)
  next
    case False
    with that have "k = length commands - 1" by (simp add: n_def)
    with last ne show ?thesis by (simp add: last_conv_nth)
  qed
  then have lens: "\<forall>d \<in> set commands. length (cmd_encoding d) < 2 ^ 16"
    using encoded_ok_facts(1) by (metis in_set_conv_nth)
  from cand b have "cand \<in> set (candidates_at commands n b)" by (simp add: candidate_table_def n_def)
  then obtain body where body: "1 \<le> body" "body \<le> MaxAffineLoopBodyCommands"
    and bc: "BuildCandidate commands b body n = Some cand"
    by (auto simp: candidates_at_def List.map_filter_def split: if_splits)
  from BuildCandidate_Some [OF bc body lens]
  show "loop_ok commands (length commands - 1) cand" "cand_begin cand = b" by (simp_all add: n_def)
qed

lemma candidate_table_ok:
  assumes "compactable commands"
  shows "table_ok (candidate_table commands) (length commands - 1)"
  unfolding table_ok_def
proof (intro conjI allI impI ballI)
  show "length (candidate_table commands) = length commands - 1" by (simp add: candidate_table_def)
  fix b c assume b: "b < length commands - 1" and c: "c \<in> set (candidate_table commands ! b)"
  note facts = candidate_facts [OF assms b c]
  from facts(2) show "cand_begin c = b" .
  note bal = loop_ok_balance [OF facts(1)]
  from bal(4,5) have "0 < cand_iterations c * cand_bodyCommands c" by simp
  with bal(2) facts(2) show "b < cand_end c" by simp
  from bal(3) show "cand_end c \<le> length commands - 1" .
qed

lemma compactable_count:
  assumes "compactable commands"
  shows "length commands - 1 < 2 ^ 32"
proof -
  define n where "n = length commands - 1"
  from assms have enc: "stream_encoded commands n" and ne: "commands \<noteq> []"
    and len: "length (SerializeSemanticCommandStream commands) < 2 ^ 32" by (simp_all add: compactable_def n_def)
  have "k * 32 \<le> bytes_of commands 0 k" if "k \<le> n" for k
    using that
  proof (induction k)
    case (Suc k)
    have "32 \<le> length (cmd_encoding (commands ! k))"
      using enc Suc.prems encoded_ok_facts(3) by (simp add: stream_encoded_def)
    with Suc show ?case by (simp add: bytes_of_def)
  qed simp
  from this [OF order_refl] len Serialize_encodings [OF ne] show ?thesis by (simp add: n_def)
qed

definition compacted :: "SemanticCommand list \<Rightarrow> bytes \<Rightarrow> CommandCompactionStats \<Rightarrow> Score \<Rightarrow> bool" where
  "compacted commands encoded stats s \<longleftrightarrow>
     ExpandAffineCommandStream encoded =
       Inr (SerializeSemanticCommandStream commands, length commands - 1) \<and>
     cs_bytesBefore stats = length (SerializeSemanticCommandStream commands) \<and>
     cs_bytesAfter stats = length encoded \<and> cs_bytesAfter stats + score_savedBytes s = cs_bytesBefore stats \<and>
     cs_logicalCommands stats = length commands - 1 \<and>
     cs_encodedCommands stats + score_encodedReduction s = cs_logicalCommands stats \<and>
     path (candidate_table commands) (length commands - 1) (length commands - 1) s \<and>
     (\<forall>s'. path (candidate_table commands) (length commands - 1) (length commands - 1) s' \<longrightarrow> \<not> Better s' s)"

lemma Compact_returns:
  assumes c: "compactable commands"
  shows "\<exists>encoded stats s. CompactAffineCommandStream commands = Some (Inr (encoded, stats)) \<and>
    compacted commands encoded stats s"
proof -
  define n where "n = length commands - 1"
  define cands where "cands = candidate_table commands"
  define t where "t = choose_table cands n"
  define s where "s = ct_best t ! n"
  define e where "e = cmd_encoding (last commands)"
  from c have ne: "commands \<noteq> []" and end': "cmd_type (last commands) = End" and last: "encoded_ok (last commands)"
    and enc: "stream_encoded commands n" and len: "length (SerializeSemanticCommandStream commands) < 2 ^ 32"
    by (simp_all add: compactable_def n_def)
  have n: "n < 2 ^ 32" using compactable_count [OF c] by (simp add: n_def)
  have tok: "table_ok cands n" using candidate_table_ok [OF c] by (simp add: cands_def n_def)
  have inv: "table_inv cands n n t" unfolding t_def by (rule choose_table_inv [OF tok])
  have loops: "\<And>b c. b < n \<Longrightarrow> c \<in> set (cands ! b) \<Longrightarrow> loop_ok commands n c"
    using candidate_facts(1) [OF c] by (simp add: n_def cands_def)
  have ser: "SerializeSemanticCommandStream commands = encodings commands 0 n @ e"
    using Serialize_encodings [OF ne] by (simp add: n_def e_def)
  obtain chosen where mark: "mark_chosen cands t n (replicate n None) = Some chosen"
    and w: "walk cands n chosen 0 s"
    using mark_chosen_walk [OF inv tok order_refl _ _ walk_end, where chosen = "replicate n None"]
    by (auto simp: s_def)
  define stats0 where "stats0 = \<lparr>cs_logicalCommands = n, cs_encodedCommands = 0, cs_loops = 0,
    cs_loopedCommands = 0, cs_bytesBefore = length (SerializeSemanticCommandStream commands), cs_bytesAfter = 0\<rparr>"
  have lt0: "length ([] :: bytes) + bytes_of commands 0 n < 2 ^ 32" using len ser by simp
  obtain tail stats' where t: "tail_ok commands n 0 s tail"
    and em: "emit_stream commands chosen n 0 [] stats0 = Some (tail, stats')"
    and st: "cs_encodedCommands stats' + score_encodedReduction s = n" "cs_logicalCommands stats' = n"
      "cs_bytesBefore stats' = length (SerializeSemanticCommandStream commands)"
  proof -
    from emit_stream_walk [OF w enc n tok] loops obtain tail where t: "tail_ok commands n 0 s tail"
      and em: "\<forall>encoded stats. length encoded + bytes_of commands 0 n < 2 ^ 32 \<longrightarrow>
      (\<exists>stats'. emit_stream commands chosen n 0 encoded stats = Some (encoded @ tail, stats') \<and>
        cs_encodedCommands stats' + score_encodedReduction s = cs_encodedCommands stats + (n - 0) \<and>
        cs_logicalCommands stats' = cs_logicalCommands stats \<and> cs_bytesBefore stats' = cs_bytesBefore stats)"
      by blast
    from em [rule_format, OF lt0, of stats0] t that show thesis by (auto simp: stats0_def)
  qed
  from t have bal: "length tail + score_savedBytes s = bytes_of commands 0 n" by (simp add: tail_ok_def)
  define encoded where "encoded = tail @ e"
  have el: "length encoded + score_savedBytes s = length (SerializeSemanticCommandStream commands)"
    using bal by (simp add: encoded_def ser)
  have lt: "wrap32 (length encoded) = length encoded" using el len by (simp add: wrap32_def)
  have bb: "fold (\<lambda>c n. wrap32 (n + length (cmd_encoding c))) commands 0 =
      length (SerializeSemanticCommandStream commands)"
    using bytes_before [of 0 commands] len by (simp add: wrap32_def)
  have lastb: "score_savedBytes (last (ct_best t)) = score_savedBytes s"
  proof -
    have "length (ct_best t) = Suc n" using inv by (simp add: table_inv_def)
    then show ?thesis by (subst last_conv_nth) (auto simp: s_def)
  qed
  define stats where "stats = stats'\<lparr>cs_bytesAfter := length encoded\<rparr>"
  have res: "CompactAffineCommandStream commands = Some (Inr (encoded, stats))"
  proof -
    have ct: "map (candidates_at commands n) [0..<n] = cands"
      by (simp add: cands_def candidate_table_def n_def)
    have cond: "\<not> (length (SerializeSemanticCommandStream commands) < length encoded \<or>
      length (SerializeSemanticCommandStream commands) - length encoded \<noteq> score_savedBytes s)" using el by simp
    show ?thesis
      using ne end' cond
      unfolding CompactAffineCommandStream_def Let_def n_def [symmetric] ct t_def [symmetric] bb mark
        option.case stats0_def [symmetric] em prod.case e_def [symmetric] encoded_def [symmetric] lt lastb
      by (simp add: stats_def)
  qed
  have "expand_loop (tail @ e) 0 [] 0 = expand_loop (tail @ e) (length tail) (encodings commands 0 n) (wrap32 n)"
    using tail_okD [OF t, where pre = "[]" and m = 0 and rest = e and expanded = "[]"] el len
    by (simp add: encoded_def)
  also have "\<dots> = Some (encodings commands 0 n @ e, n)"
    using expand_end [of e tail] last end' n by (simp add: encoded_ok_def e_def wrap32_def)
  finally have "ExpandAffineCommandStream encoded = Inr (SerializeSemanticCommandStream commands, n)"
    by (simp add: ExpandAffineCommandStream_def encoded_def ser)
  with st el best_is_path [OF inv tok order_refl] best_is_optimal [OF inv]
  have "compacted commands encoded stats s"
    unfolding compacted_def n_def [symmetric] cands_def [symmetric] by (simp add: stats_def s_def)
  with res show ?thesis by blast
qed

text \<open>Decoded streams in the form the generator hands over.\<close>

definition ends_once :: "SemanticCommand list \<Rightarrow> bool" where
  "ends_once cmds \<longleftrightarrow> cmds \<noteq> [] \<and> cmd_type (last cmds) = End \<and>
     (\<forall>k < length cmds - 1. cmd_type (cmds ! k) \<noteq> End) \<and>
     (\<forall>k < length cmds. length (cmd_encoding (cmds ! k)) mod 32 = 0)"

lemma decoded_compactable:
  assumes dec: "DecodeSemanticCommandStream bs = Inr cmds" and e: "ends_once cmds" and len: "length bs < 2 ^ 32"
  shows "compactable cmds" and "bs = SerializeSemanticCommandStream cmds"
proof -
  from dec show bs: "bs = SerializeSemanticCommandStream cmds" by (simp add: DecodeSemanticCommandStream_iff)
  have enc: "encoded_ok (cmds ! k) \<and> cmd_type (cmds ! k) \<noteq> AffineLoop" if "k < length cmds" for k
  proof -
    from dec have "stream_ok 0 cmds" by (simp add: DecodeSemanticCommandStream_iff)
    from stream_ok_decoded [OF this that] e that show ?thesis
      by (simp add: decoded_ok_def command_bytes_ok_def encoded_ok_def ends_once_def)
  qed
  from e have ne: "cmds \<noteq> []" by (simp add: ends_once_def)
  have "encoded_ok (last cmds)" using enc [of "length cmds - 1"] ne by (simp add: last_conv_nth)
  moreover have "stream_encoded cmds (length cmds - 1)"
    using enc e by (simp add: stream_encoded_def ends_once_def)
  ultimately show "compactable cmds" using e len bs by (simp add: compactable_def ends_once_def)
qed

end
