(* ===== verification/NAI_PassSamples.thy ===== *)
theory NAI_PassSamples
  imports NAI_Samples NAI_ResidencyProof NAI_CompactCorrect
begin

text \<open>
  Inputs for the passes: a stream of five equal parameter loads (which the compactor turns into a
  loop), a repeated external load, a repeated parameter load and a repeated lookup-table command.
\<close>

section \<open>A stream to compact\<close>

definition sample_end32 :: bytes where
  "sample_end32 = command_bytes 0 32 0 [0, 0, 0, 0]"

definition rq_command :: SemanticCommand where
  "rq_command = blank_command\<lparr>cmd_type := RQLoad, cmd_layerId := 1, cmd_tileId := 2,
     cmd_stateAccesses := [\<lparr>st_state = Quantization, st_instance = 0, st_mode = Write,
       st_valueIdentity = 7, st_generation = 0\<rparr>], cmd_encoding := sample_rq\<rparr>"

definition end32_command :: SemanticCommand where
  "end32_command = blank_command\<lparr>cmd_type := End, cmd_layerId := 1, cmd_tileId := 2, cmd_encoding := sample_end32\<rparr>"

definition loop_commands :: "SemanticCommand list" where
  "loop_commands = [rq_command, rq_command, rq_command, rq_command, rq_command, end32_command]"

lemma end32_facts: "length sample_end32 = 32" "Read16 sample_end32 0 = 0" "Read16 sample_end32 2 = 32"
  by code_simp+

lemma rq_encoded: "encoded_ok rq_command"
  by (simp add: encoded_ok_def rq_command_def sample_reads)

lemma end32_encoded: "encoded_ok end32_command"
  by (simp add: encoded_ok_def end32_command_def blank_command_def end32_facts)

lemma loop_commands_compactable: "compactable loop_commands"
proof -
  have nth: "loop_commands ! k = rq_command" if "k < 5" for k
    using that by (simp add: loop_commands_def less_Suc_eq numeral_eq_Suc) (elim disjE; simp)
  have "stream_encoded loop_commands (length loop_commands - 1)"
    using nth rq_encoded
    by (simp add: stream_encoded_def) (simp add: loop_commands_def rq_command_def numeral_eq_Suc)
  then show ?thesis
    using end32_encoded
    by (simp add: compactable_def loop_commands_def SerializeSemanticCommandStream_def end32_facts)
      (simp add: end32_command_def rq_command_def blank_command_def end32_facts)
qed

lemma loop_commands_compact:
  "\<exists>encoded stats. CompactAffineCommandStream loop_commands = Some (Inr (encoded, stats))"
  using Compact_returns [OF loop_commands_compactable] by blast

section \<open>Repeated commands\<close>

text \<open>A concrete machine: a load copies the common length of its ranges byte by byte.\<close>

definition range_copies :: "ResidentTransfer \<Rightarrow> (location \<times> location) list" where
  "range_copies t =
     map (\<lambda>k. ((acc_region (rt_destination t), acc_index (rt_destination t), acc_begin (rt_destination t) + k),
               (acc_region (rt_source t), acc_index (rt_source t), acc_begin (rt_source t) + k)))
       [0..<min (acc_end (rt_destination t) - acc_begin (rt_destination t))
                 (acc_end (rt_source t) - acc_begin (rt_source t))]"

definition range_run :: "SemanticCommand \<Rightarrow> (nat, nat) machine_state \<Rightarrow> (nat, nat) machine_state" where
  "range_run c s = (if is_load c then (copy_all (range_copies (transfer_of c)) (fst s), snd s) else s)"

lemma range_machine: "load_machine range_run range_copies"
  unfolding load_machine_def
proof (intro conjI allI ballI impI)
  fix t p assume "p \<in> set (range_copies t)"
  then show "covers (rt_destination t) (fst p)" "covers (rt_source t) (snd p)"
    by (auto simp: range_copies_def covers_def)
next
  fix t c assume "matches c t"
  then show "range_copies (transfer_of c) = range_copies t"
    by (simp add: matches_def same_range_def range_copies_def transfer_of_def)
qed (auto simp: range_run_def is_load_def transfer_of_def fun_eq_iff)

definition repeated_loads :: "SemanticCommand list" where
  "repeated_loads = [sample_dma_command, sample_dma_command]"

lemma repeated_loads_result:
  "\<exists>stats. OptimizeDMAResidency repeated_loads = Inr ([sample_dma_command], stats) \<and>
     ds_inputLoads stats = 2 \<and> ds_redundantFeatureLoads stats = 1"
proof -
  have l: "is_load sample_dma_command"
    by (simp add: is_load_def sample_dma_command_def)
  have m: "matches sample_dma_command (transfer_of sample_dma_command)"
    by (simp add: matches_def transfer_of_def same_range_def)
  have o': "\<not> Overlaps (cmd_memoryAccesses sample_dma_command ! 0) (cmd_memoryAccesses sample_dma_command ! 1)"
    by (simp add: sample_dma_command_def Overlaps_def SameStorage_def)
  have "reindex [sample_dma_command] = [sample_dma_command]"
    by (simp add: reindex_def sample_dma_command_def)
  then show ?thesis
    using l m o'
    by (simp add: OptimizeDMAResidency_def repeated_loads_def invalidate_def Let_def no_dma_stats_def count_redundant_def)
      (simp add: sample_dma_command_def)
qed

lemma repeated_qparams_result:
  "\<exists>stats. OptimizeQParamResidency [rq_command, rq_command] = Inr ([rq_command], stats)"
proof -
  have "quantization_write rq_command = Some \<lparr>st_state = Quantization, st_instance = 0, st_mode = Write,
      st_valueIdentity = 7, st_generation = 0\<rparr>" "cmd_type rq_command = RQLoad"
    by (simp_all add: quantization_write_def rq_command_def)
  moreover have "reindex [rq_command] = [rq_command]" by (simp add: reindex_def rq_command_def blank_command_def)
  ultimately show ?thesis by (simp add: OptimizeQParamResidency_def Let_def)
qed

definition lut_sample :: SemanticCommand where
  "lut_sample = blank_command\<lparr>cmd_type := AFULut,
     cmd_memoryAccesses := replicate 3 \<lparr>acc_region = 6, acc_index = 0, acc_begin = 0, acc_end = 32,
       acc_mode = Read, acc_bankPhase = 0, acc_content = []\<rparr>,
     cmd_stateAccesses := [\<lparr>st_state = AFULutTable, st_instance = 0, st_mode = Write,
       st_valueIdentity = 9, st_generation = 0\<rparr>], cmd_encoding := replicate 64 0\<rparr>"

lemma lut_sample_result:
  "\<exists>out stats. OptimizeAFULutResidency [lut_sample, lut_sample] = Inr (out, stats)"
proof -
  define a where "a = \<lparr>st_state = AFULutTable, st_instance = 0, st_mode = Write,
       st_valueIdentity = 9, st_generation = 0\<rparr>"
  have "lut_state lut_sample = Some a" "cmd_type lut_sample = AFULut" "length (cmd_memoryAccesses lut_sample) = 3"
    "cmd_flags lut_sample = 0" "st_valueIdentity a = 9"
    by (simp_all add: lut_state_def lut_sample_def a_def blank_command_def)
  then show ?thesis
    by (simp add: OptimizeAFULutResidency_def lut_command_def Let_def with_lut_mode_def with_flags_def)
qed

section \<open>A decoded stream to compact\<close>

lemma end32_bytes_ok: "command_bytes_ok sample_end32"
  by code_simp

lemma end32_reads: "Read32 sample_end32 4 = 0" "Read32 sample_end32 8 = 1" "Read32 sample_end32 12 = 2"
  by code_simp+

definition decoded_end32 :: SemanticCommand where
  "decoded_end32 = (sample_end_command 0)\<lparr>cmd_encoding := sample_end32\<rparr>"

lemma end32_decodes: "DecodeSemanticCommandStream sample_end32 = Inr [decoded_end32]"
proof -
  have h: "header_command sample_end32 0 = blank_command\<lparr>cmd_type := End, cmd_layerId := 1, cmd_tileId := 2,
      cmd_sourceCommandIndex := 0, cmd_encoding := sample_end32\<rparr>"
    by (simp add: header_command_def blank_command_def end32_facts end32_reads CommandType_of_def CommandTypes_def)
  have "DecodeKnownCommand (header_command sample_end32 0) = Some decoded_end32"
    unfolding h by (simp add: DecodeKnownCommand_def decode_payload_def IsDMA_def IsSystolic_def blank_command_def
        DecodeControl_def AddResource_def sample_end_command_def decoded_end32_def)
  then show ?thesis
    using end32_bytes_ok
    by (simp add: DecodeSemanticCommandStream_iff SerializeSemanticCommandStream_def) (simp add: decoded_end32_def)
qed

lemma end32_ends_once: "ends_once [decoded_end32]"
  by (simp add: ends_once_def decoded_end32_def sample_end_command_def end32_facts)

section \<open>Two parameter blocks with one identity\<close>

text \<open>The identity of a parameter load is a 64-bit hash of its index, count and block, so two
  different blocks can share it; the residency pass then drops the second load.\<close>

definition rq_bytes :: "u32 \<Rightarrow> u32 \<Rightarrow> u32 \<Rightarrow> bytes" where
  "rq_bytes index count block =
     put_fields [F16 5, F16 32, F32 0, F32 1, F32 2, F32 index, F32 count, F32 block, F32 0]"

definition rq_identity :: u64 where "rq_identity = HashWords (rq_bytes 33890 119 0) 16 3"

lemma rq_hashes:
  "HashWords (rq_bytes 33890 119 0) 16 3 = rq_identity"
  "HashWords (rq_bytes 33889 1143 976175) 16 3 = rq_identity" "rq_identity \<noteq> 0"
  unfolding rq_identity_def by code_simp+

lemma rq_reads:
  "Read16 (rq_bytes 33890 119 0) 0 = 5" "Read32 (rq_bytes 33890 119 0) 20 \<noteq> 0"
  "Read16 (rq_bytes 33889 1143 976175) 0 = 5" "Read32 (rq_bytes 33889 1143 976175) 20 \<noteq> 0"
  "take (read16n (rq_bytes 33890 119 0) 2) (rq_bytes 33890 119 0) = rq_bytes 33890 119 0"
  "take (read16n (rq_bytes 33889 1143 976175) 2) (rq_bytes 33889 1143 976175) = rq_bytes 33889 1143 976175"
  by code_simp+

lemma decode_rq:
  assumes "Read16 bs 0 = 5" "Read32 bs 20 \<noteq> 0" "take (read16n bs 2) bs = bs" "HashWords bs 16 3 = rq_identity"
  shows "\<exists>c. DecodeKnownCommand (header_command bs i) = Some c \<and> cmd_type c = RQLoad \<and>
    cmd_encoding c = bs \<and> cmd_sourceCommandIndex c = word_of_nat i \<and> qparam_identity c = Some rq_identity"
  using assms
  by (simp add: DecodeKnownCommand_def decode_payload_def header_command_def blank_command_def CommandType_of_def
      CommandTypes_def CommandType_code_def IsDMA_def IsSystolic_def DecodeRQLoad_def AddState_def AddResource_def qparam_identity_def
      quantization_write_def Let_def)

lemma qparam_identity_collision:
  "\<exists>c d stats. DecodeKnownCommand (header_command (rq_bytes 33890 119 0) 0) = Some c \<and>
    DecodeKnownCommand (header_command (rq_bytes 33889 1143 976175) 1) = Some d \<and>
    OptimizeQParamResidency [c, d] = Inr ([c], stats)"
proof -
  from decode_rq [OF rq_reads(1,2,5) rq_hashes(1), of 0] obtain c where
    c: "DecodeKnownCommand (header_command (rq_bytes 33890 119 0) 0) = Some c" "cmd_type c = RQLoad"
      "cmd_sourceCommandIndex c = 0" "qparam_identity c = Some rq_identity" by auto
  from decode_rq [OF rq_reads(3,4,6) rq_hashes(2), of 1] obtain d where
    d: "DecodeKnownCommand (header_command (rq_bytes 33889 1143 976175) 1) = Some d" "cmd_type d = RQLoad"
      "qparam_identity d = Some rq_identity" by auto
  obtain q where q: "quantization_write c = Some q" "st_valueIdentity q = rq_identity"
    using c(4) by (auto simp: qparam_identity_def)
  obtain r where r: "quantization_write d = Some r" "st_valueIdentity r = rq_identity"
    using d(3) by (auto simp: qparam_identity_def)
  have "reindex [c] = [c]" using c(3) by (simp add: reindex_def)
  then have "\<exists>stats. OptimizeQParamResidency [c, d] = Inr ([c], stats)"
    using c(2) d(2) q r rq_hashes(3) by (simp add: OptimizeQParamResidency_def Let_def)
  then show ?thesis using c(1) d(1) by blast
qed

end
