(* ===== verification/NAI_Writer.thy ===== *)
theory NAI_Writer
  imports NAI_Abi NAI_Dependency "HOL-Library.Signed_Division"
begin

text \<open>
  The package writer: \<^verbatim>\<open>compiler/neural_ai_writer.cpp\<close> and \<^verbatim>\<open>neural_ai_writer.hpp\<close>.

  \<open>WriteNeuralAIModel\<close> checks an artifact, lays its five payloads out behind a header and a section
  table and returns the package bytes, or the first failed check as a \<open>write_error\<close>.  \<open>Pad32\<close>
  converts the vector's size to \<open>int\<close> as the code does.  The lemmas show where each payload is in
  the package and that the payload tables decode to the vectors of the artifact.
\<close>

section \<open>Appending fields\<close>

definition Append16 :: "bytes \<Rightarrow> u16 \<Rightarrow> bytes" where
  "Append16 output v = output @ [ucast v, ucast (drop_bit 8 v)]"

definition Append32 :: "bytes \<Rightarrow> u32 \<Rightarrow> bytes" where
  "Append32 output v =
     output @ [ucast v, ucast (drop_bit 8 v), ucast (drop_bit 16 v), ucast (drop_bit 24 v)]"

definition list4 :: "'a \<times> 'a \<times> 'a \<times> 'a \<Rightarrow> 'a list" where
  "list4 t = (case t of (a, b, c, d) \<Rightarrow> [a, b, c, d])"

definition AppendTensor :: "bytes \<Rightarrow> TensorV1 \<Rightarrow> bytes" where
  "AppendTensor output v =
     (let o1 = Append32 (Append32 output (ten_tensorId v)) (ten_flags v);
          o2 = Append16 (Append16 (Append16 (Append16 o1 (ten_dataType v)) (ten_layout v)) (ten_rank v))
                 (ten_reserved0 v);
          o3 = foldl Append32 o2 (list4 (ten_dimensions v));
          o4 = Append32 (Append32 (Append32 (Append32 o3 (ten_byteSize v)) (ten_alignment v))
                 (ten_scratchOffset v)) (ten_qparamIndex v)
      in foldl Append32 o4 (list4 (ten_reserved v)))"

definition AppendBinding :: "bytes \<Rightarrow> BindingV1 \<Rightarrow> bytes" where
  "AppendBinding output v =
     (let o1 = Append16 (Append16 (Append16 (Append16 (Append16 (Append16 output (bind_direction v))
                 (bind_index v)) (bind_dataType v)) (bind_layout v)) (bind_rank v)) (bind_reserved0 v);
          o2 = Append32 o1 (bind_tensorId v);
          o3 = foldl Append32 o2 (list4 (bind_dimensions v));
          o4 = Append32 (Append32 (Append32 (Append32 o3 (bind_byteSize v)) (bind_scaleBits v))
                 (bind_zeroPoint v)) (bind_flags v)
      in foldl Append32 o4 (list4 (bind_reserved v)))"

definition AppendQParam :: "bytes \<Rightarrow> QParamV1 \<Rightarrow> bytes" where
  "AppendQParam output v =
     (let o1 = Append32 (Append32 (Append32 (Append32 (Append32 (Append32 output (qp_bias v))
                 (qp_multiplier v)) (qp_shift v)) (qp_zeroPoint v)) (qp_clampMin v)) (qp_clampMax v)
      in foldl Append32 o1 [fst (qp_reserved v), snd (qp_reserved v)])"

section \<open>Padding\<close>

text \<open>\<^verbatim>\<open>RoundAway\<close> of \<^verbatim>\<open>common/numeric_util.hpp\<close> at \<open>int\<close> (remainder with the dividend's sign) and \<open>uint32_t\<close>.\<close>

definition RoundAway_int :: "int \<Rightarrow> int \<Rightarrow> int" where
  "RoundAway_int v align =
     (let r = v smod align
      in if r = 0 then v else if r < 0 then v - (align + r) else v + (align - r))"

definition RoundAway_u32 :: "u32 \<Rightarrow> u32 \<Rightarrow> u32" where
  "RoundAway_u32 v align = (let r = v mod align in if r = 0 then v else v + (align - r))"

text \<open>
  \<open>int(data.size())\<close> is the low 32 bits as a signed number.  A negative size makes \<open>resize\<close> throw
  and a result of \<open>2 ^ 31\<close> overflows \<open>int\<close>; both are \<open>None\<close>.
\<close>

definition Pad32 :: "bytes \<Rightarrow> bytes option" where
  "Pad32 data =
     (let n = RoundAway_int (signed_take_bit 31 (int (length data))) (uint Alignment)
      in if n < 0 \<or> 2 ^ 31 \<le> n then None
         else Some (take (nat n) data @ replicate (nat n - length data) 0))"

section \<open>Public bindings\<close>

fun product_axes :: "u64 \<Rightarrow> u32 list \<Rightarrow> u64 option" where
  "product_axes elements [] = Some elements"
| "product_axes elements (d # ds) =
     (if d = 0 then None else product_axes (elements * ucast d) ds)"

definition element_bytes :: "u16 \<Rightarrow> u32" where
  "element_bytes t =
     (if t = DataType_code Int8 then 1 else if t = DataType_code Int32 then 4 else 0)"

definition ProductBytes :: "BindingV1 \<Rightarrow> u32 option" where
  "ProductBytes b =
     (if bind_rank b = 0 \<or> 4 < bind_rank b then None
      else case product_axes 1 (take (unat (bind_rank b)) (list4 (bind_dimensions b))) of
          None \<Rightarrow> None
        | Some elements \<Rightarrow>
            (let eb = element_bytes (bind_dataType b); result = elements * ucast eb
             in if eb = 0 \<or> 0xFFFFFFFF < result then None else Some (ucast result)))"

section \<open>The artifact and the writer\<close>

record CompiledNeuralAIArtifact =
  art_commands :: bytes
  art_compactCommands :: bytes
  art_constants :: bytes
  art_tensors :: "TensorV1 list"
  art_bindings :: "BindingV1 list"
  art_qparams :: "QParamV1 list"
  art_semanticCommands :: "SemanticCommand list"
  art_commandDependencies :: CommandDependencyGraph
  art_commandCount :: u32
  art_encodedCommandCount :: u32
  art_commandBytesBeforeCompaction :: u32
  art_requiredTCDMBytes :: u32

record SectionPayload =
  sp_type :: SectionType
  sp_elementCount :: u32
  sp_bytes :: bytes

datatype write_error =
    CommandsNotAligned
  | TCDMExceeded
  | BindingSizeInvalid
  | BindingLayoutInvalid
  | BindingDirectionInvalid
  | PackageTooLarge
  | ResizeRejected

record binding_counts =
  bc_input :: u32
  bc_output :: u32
  bc_l2Temporary :: u32

definition count_binding :: "binding_counts \<Rightarrow> BindingV1 \<Rightarrow> write_error + binding_counts" where
  "count_binding c b =
     (let publicIO = bind_direction b = BindingDirection_code Input \<or>
            bind_direction b = BindingDirection_code Output
      in if ProductBytes b \<noteq> Some (bind_byteSize b) then Inl BindingSizeInvalid
         else if publicIO \<and> bind_rank b = 4 \<and> bind_layout b \<noteq> TensorLayout_code NHWC
           then Inl BindingLayoutInvalid
         else if bind_direction b = BindingDirection_code Input
           then Inr (c\<lparr>bc_input := bc_input c + 1\<rparr>)
         else if bind_direction b = BindingDirection_code Output
           then Inr (c\<lparr>bc_output := bc_output c + 1\<rparr>)
         else if bind_direction b = BindingDirection_code L2Temporary \<and> bind_index b = 0 \<and>
             bc_l2Temporary c = 0
           then Inr (c\<lparr>bc_l2Temporary := bc_l2Temporary c + 1\<rparr>)
         else Inl BindingDirectionInvalid)"

fun count_bindings :: "binding_counts \<Rightarrow> BindingV1 list \<Rightarrow> write_error + binding_counts" where
  "count_bindings c [] = Inr c"
| "count_bindings c (b # bs) =
     (case count_binding c b of Inl e \<Rightarrow> Inl e | Inr c' \<Rightarrow> count_bindings c' bs)"

definition packageCommands :: "CompiledNeuralAIArtifact \<Rightarrow> bytes" where
  "packageCommands a = (if art_compactCommands a = [] then art_commands a else art_compactCommands a)"

definition artifact_payloads :: "CompiledNeuralAIArtifact \<Rightarrow> SectionPayload list" where
  "artifact_payloads a =
     [\<lparr>sp_type = Commands, sp_elementCount = art_commandCount a, sp_bytes = packageCommands a\<rparr>,
      \<lparr>sp_type = Constants, sp_elementCount = 0, sp_bytes = art_constants a\<rparr>,
      \<lparr>sp_type = Tensors, sp_elementCount = word_of_nat (length (art_tensors a)),
       sp_bytes = foldl AppendTensor [] (art_tensors a)\<rparr>,
      \<lparr>sp_type = Bindings, sp_elementCount = word_of_nat (length (art_bindings a)),
       sp_bytes = foldl AppendBinding [] (art_bindings a)\<rparr>,
      \<lparr>sp_type = QParams, sp_elementCount = word_of_nat (length (art_qparams a)),
       sp_bytes = foldl AppendQParam [] (art_qparams a)\<rparr>]"

fun pad_payloads :: "SectionPayload list \<Rightarrow> SectionPayload list option" where
  "pad_payloads [] = Some []"
| "pad_payloads (p # ps) =
     (case Pad32 (sp_bytes p) of None \<Rightarrow> None
      | Some bs \<Rightarrow> (case pad_payloads ps of None \<Rightarrow> None
          | Some qs \<Rightarrow> Some (p\<lparr>sp_bytes := bs\<rparr> # qs)))"

fun place_sections :: "u32 \<Rightarrow> SectionPayload list \<Rightarrow> (SectionV1 list \<times> u32) option" where
  "place_sections offset [] = Some ([], offset)"
| "place_sections offset (p # ps) =
     (if unat (0xFFFFFFFF - offset) < length (sp_bytes p) then None
      else case place_sections (offset + word_of_nat (length (sp_bytes p))) ps of
          None \<Rightarrow> None
        | Some (ss, end_offset) \<Rightarrow>
            Some (\<lparr>sec_type = SectionType_code (sp_type p), sec_flags = 0, sec_offset = offset,
                   sec_size = word_of_nat (length (sp_bytes p)), sec_alignment = Alignment,
                   sec_elementCount = sp_elementCount p, sec_reserved = (0, 0)\<rparr> # ss, end_offset))"

definition sectionTableOffset :: u32 where
  "sectionTableOffset = word_of_nat sizeof_ModelHeaderV1"

definition package_header ::
    "CompiledNeuralAIArtifact \<Rightarrow> binding_counts \<Rightarrow> SectionV1 list \<Rightarrow> u32 \<Rightarrow> ModelHeaderV1" where
  "package_header a c ss offset =
     \<lparr>mh_magic = ModelMagic, mh_abiMajor = AbiMajor, mh_abiMinor = AbiMinor,
      mh_targetId = TargetId, mh_flags = 0, mh_totalBytes = offset,
      mh_sectionCount = word_of_nat (length ss), mh_sectionTableOffset = sectionTableOffset,
      mh_entryCommandOffset = sec_offset (ss ! 0), mh_commandCount = art_commandCount a,
      mh_requiredTCDMBytes = RoundAway_u32 (art_requiredTCDMBytes a) Alignment,
      mh_requiredTCDMAlignment = Alignment, mh_inputCount = bc_input c,
      mh_outputCount = bc_output c, mh_reserved = (0, 0, 0)\<rparr>"

definition WriteNeuralAIModel :: "CompiledNeuralAIArtifact \<Rightarrow> write_error + bytes" where
  "WriteNeuralAIModel a =
     (if packageCommands a = [] \<or> length (packageCommands a) mod unat Alignment \<noteq> 0
        then Inl CommandsNotAligned
      else if 0x0007F000 < art_requiredTCDMBytes a then Inl TCDMExceeded
      else case count_bindings \<lparr>bc_input = 0, bc_output = 0, bc_l2Temporary = 0\<rparr> (art_bindings a) of
          Inl e \<Rightarrow> Inl e
        | Inr c \<Rightarrow> (case pad_payloads (artifact_payloads a) of
              None \<Rightarrow> Inl ResizeRejected
            | Some ps \<Rightarrow>
                (case place_sections
                        (sectionTableOffset + word_of_nat (length ps * sizeof_SectionV1)) ps of
                   None \<Rightarrow> Inl PackageTooLarge
                 | Some (ss, offset) \<Rightarrow>
                     Inr (Serialize_ModelHeaderV1 (package_header a c ss offset) @
                          concat (map Serialize_SectionV1 ss) @ concat (map sp_bytes ps)))))"

section \<open>The record tables\<close>

lemma Append_eq [simp]: "Append16 output v = output @ put16 v" "Append32 output w = output @ put32 w"
  by (simp_all add: Append16_def Append32_def put16_def put32_def)

lemma list4_simps [simp]: "list4 (a, b, c, d) = [a, b, c, d]"
  by (simp add: list4_def)

definition parse_TensorV1 :: "bytes \<Rightarrow> TensorV1" where
  "parse_TensorV1 bs =
     \<lparr>ten_tensorId = Read32 bs 0, ten_flags = Read32 bs 4, ten_dataType = Read16 bs 8,
      ten_layout = Read16 bs 10, ten_rank = Read16 bs 12, ten_reserved0 = Read16 bs 14,
      ten_dimensions = (Read32 bs 16, Read32 bs 20, Read32 bs 24, Read32 bs 28),
      ten_byteSize = Read32 bs 32, ten_alignment = Read32 bs 36, ten_scratchOffset = Read32 bs 40,
      ten_qparamIndex = Read32 bs 44,
      ten_reserved = (Read32 bs 48, Read32 bs 52, Read32 bs 56, Read32 bs 60)\<rparr>"

definition parse_BindingV1 :: "bytes \<Rightarrow> BindingV1" where
  "parse_BindingV1 bs =
     \<lparr>bind_direction = Read16 bs 0, bind_index = Read16 bs 2, bind_dataType = Read16 bs 4,
      bind_layout = Read16 bs 6, bind_rank = Read16 bs 8, bind_reserved0 = Read16 bs 10,
      bind_tensorId = Read32 bs 12,
      bind_dimensions = (Read32 bs 16, Read32 bs 20, Read32 bs 24, Read32 bs 28),
      bind_byteSize = Read32 bs 32, bind_scaleBits = Read32 bs 36, bind_zeroPoint = Read32 bs 40,
      bind_flags = Read32 bs 44,
      bind_reserved = (Read32 bs 48, Read32 bs 52, Read32 bs 56, Read32 bs 60)\<rparr>"

definition parse_QParamV1 :: "bytes \<Rightarrow> QParamV1" where
  "parse_QParamV1 bs =
     \<lparr>qp_bias = Read32 bs 0, qp_multiplier = Read32 bs 4, qp_shift = Read32 bs 8,
      qp_zeroPoint = Read32 bs 12, qp_clampMin = Read32 bs 16, qp_clampMax = Read32 bs 20,
      qp_reserved = (Read32 bs 24, Read32 bs 28)\<rparr>"

definition tensor_fields :: "TensorV1 \<Rightarrow> field list" where
  "tensor_fields v =
     [F32 (ten_tensorId v), F32 (ten_flags v), F16 (ten_dataType v), F16 (ten_layout v),
      F16 (ten_rank v), F16 (ten_reserved0 v)] @ map F32 (list4 (ten_dimensions v)) @
     [F32 (ten_byteSize v), F32 (ten_alignment v), F32 (ten_scratchOffset v),
      F32 (ten_qparamIndex v)] @ map F32 (list4 (ten_reserved v))"

definition binding_fields :: "BindingV1 \<Rightarrow> field list" where
  "binding_fields v =
     [F16 (bind_direction v), F16 (bind_index v), F16 (bind_dataType v), F16 (bind_layout v),
      F16 (bind_rank v), F16 (bind_reserved0 v), F32 (bind_tensorId v)] @
     map F32 (list4 (bind_dimensions v)) @
     [F32 (bind_byteSize v), F32 (bind_scaleBits v), F32 (bind_zeroPoint v), F32 (bind_flags v)] @
     map F32 (list4 (bind_reserved v))"

declare put_fields_append [simp]

lemma foldl_Append32: "foldl Append32 out ws = out @ put_fields (map F32 ws)"
  by (induction ws arbitrary: out) simp_all

lemma AppendTensor_eq: "AppendTensor out v = out @ put_fields (tensor_fields v)"
  by (simp add: AppendTensor_def tensor_fields_def foldl_Append32 Let_def)

lemma AppendBinding_eq: "AppendBinding out v = out @ put_fields (binding_fields v)"
  by (simp add: AppendBinding_def binding_fields_def foldl_Append32 Let_def)

interpretation tensor_codec: byte_codec "AppendTensor []" parse_TensorV1 64
proof unfold_locales
  fix x :: TensorV1 and rest
  show "length (AppendTensor [] x) = 64"
    by (simp add: AppendTensor_eq tensor_fields_def list4_def split: prod.split)
  show "parse_TensorV1 (AppendTensor [] x @ rest) = x"
  proof (cases x)
    case (fields i f t l r z d n g o' q e)
    obtain d1 d2 d3 d4 e1 e2 e3 e4 where "d = (d1, d2, d3, d4)" "e = (e1, e2, e3, e4)"
      by (cases d; cases e)
    then show ?thesis
      unfolding fields AppendTensor_eq tensor_fields_def by (simp add: parse_TensorV1_def codec_simps)
  qed
qed

interpretation binding_codec: byte_codec "AppendBinding []" parse_BindingV1 64
proof unfold_locales
  fix x :: BindingV1 and rest
  show "length (AppendBinding [] x) = 64"
    by (simp add: AppendBinding_eq binding_fields_def list4_def split: prod.split)
  show "parse_BindingV1 (AppendBinding [] x @ rest) = x"
  proof (cases x)
    case (fields i f t l r z j d n g o' q e)
    obtain d1 d2 d3 d4 e1 e2 e3 e4 where "d = (d1, d2, d3, d4)" "e = (e1, e2, e3, e4)"
      by (cases d; cases e)
    then show ?thesis
      unfolding fields AppendBinding_eq binding_fields_def by (simp add: parse_BindingV1_def codec_simps)
  qed
qed

interpretation qparam_codec: byte_codec "AppendQParam []" parse_QParamV1 32
proof unfold_locales
  fix x :: QParamV1 and rest
  show "length (AppendQParam [] x) = 32"
    by (cases x) (auto simp: AppendQParam_def Let_def)
  show "parse_QParamV1 (AppendQParam [] x @ rest) = x"
    by (cases x) (auto simp: AppendQParam_def Let_def parse_QParamV1_def codec_simps)
qed

lemma foldl_appends:
  assumes "\<And>out x. f out x = out @ f [] x"
  shows "foldl f out xs = out @ concat (map (f []) xs)"
proof (induction xs arbitrary: out)
  case (Cons x xs)
  show ?case using Cons.IH [of "f out x"] assms [of out x] by simp
qed simp

lemma table_bytes:
  "foldl AppendTensor [] ts = concat (map (AppendTensor []) ts)"
  "foldl AppendBinding [] bs = concat (map (AppendBinding []) bs)"
  "foldl AppendQParam [] qs = concat (map (AppendQParam []) qs)"
  using foldl_appends [of AppendTensor "[]" ts] foldl_appends [of AppendBinding "[]" bs]
    foldl_appends [of AppendQParam "[]" qs]
  by (simp_all add: AppendTensor_eq AppendBinding_eq AppendQParam_def Let_def)

section \<open>Padding\<close>

definition padding :: "nat \<Rightarrow> nat" where
  "padding n = (32 - n mod 32) mod 32"

lemma padding_cases:
  obtains q where "n = 32 * q" "padding n = 0"
  | q r where "n = 32 * q + r" "0 < r" "r < 32" "padding n = 32 - r"
proof (cases "n mod 32 = 0")
  case True
  then show ?thesis using that(1) [of "n div 32"] by (auto simp: padding_def)
next
  case False
  then have "n = 32 * (n div 32) + n mod 32" "0 < n mod 32" "n mod 32 < 32" by simp_all
  then show ?thesis using that(2) [of "n div 32" "n mod 32"] by (simp add: padding_def)
qed

lemma padding_dvd: "32 dvd n + padding n"
  by (rule padding_cases [of n]) auto

lemma padding_less: "padding n < 32"
  by (simp add: padding_def)

lemma padding_aligned: "n mod 32 = 0 \<Longrightarrow> padding n = 0"
  by (simp add: padding_def)

lemma RoundAway_int_nonneg:
  assumes "0 \<le> v"
  shows "RoundAway_int v 32 = int (nat v + padding (nat v))"
proof -
  have "v smod 32 = int (nat v mod 32)"
    unfolding smod_int_alt_def using assms by (simp add: zmod_int sgn_if)
  then show ?thesis
    using assms by (cases "nat v mod 32 = 0")
      (auto simp: RoundAway_int_def Let_def padding_def of_nat_diff)
qed

lemma RoundAway_int_neg:
  assumes "v < 0"
  shows "RoundAway_int v 32 < 0"
proof -
  have "v smod 32 = - ((- v) mod 32)"
    unfolding smod_int_alt_def using assms by (simp add: sgn_if)
  moreover have "0 \<le> (- v) mod 32" by simp
  ultimately show ?thesis
    using assms unfolding RoundAway_int_def Let_def
    by (smt (verit) pos_mod_bound)
qed

lemma RoundAway_u32_32:
  assumes "unat v \<le> 2 ^ 32 - 32"
  shows "unat (RoundAway_u32 v 32) = unat v + padding (unat v)"
proof -
  have r: "unat (v mod 32) = unat v mod 32"
    by (simp add: unat_mod_distrib)
  then have d: "unat (32 - v mod 32) = 32 - unat v mod 32"
    by (subst unat_sub) (simp_all add: word_le_nat_alt)
  show ?thesis
  proof (cases "unat v mod 32 = 0")
    case True
    with r have "v mod 32 = 0" by (metis unat_eq_0)
    with True show ?thesis by (simp add: RoundAway_u32_def padding_def)
  next
    case False
    with r have "v mod 32 \<noteq> 0" by (metis unat_0)
    moreover from False assms have "unat v + (32 - unat v mod 32) < 2 ^ 32"
      by (cases "unat v mod 32") auto
    ultimately show ?thesis
      using False d by (simp add: RoundAway_u32_def padding_def unat_word_ariths)
  qed
qed

lemma Pad32_aligned:
  assumes "Pad32 data = Some bs"
  shows "32 dvd length bs" and "length bs < 2 ^ 31"
proof -
  define v where "v = signed_take_bit 31 (int (length data))"
  define n where "n = RoundAway_int v 32"
  from assms have n: "0 \<le> n" "n < 2 ^ 31"
      and bs: "bs = take (nat n) data @ replicate (nat n - length data) 0"
    by (auto simp: Pad32_def Let_def n_def v_def Alignment_def split: if_splits)
  with RoundAway_int_neg [of v] have "0 \<le> v" by (force simp: n_def)
  then have "32 dvd nat n"
    using padding_dvd [of "nat v"] by (simp add: n_def RoundAway_int_nonneg nat_add_distrib)
  moreover have "length bs = nat n" by (simp add: bs)
  ultimately show "32 dvd length bs" "length bs < 2 ^ 31" using n by auto
qed

lemma int_mod_wrap: "2147483648 + (x + 2147483648) mod 4294967296 = x"
  if "2147483648 \<le> x" "x < 4294967296" for x :: int
proof -
  have "(x + 2147483648) mod 4294967296 = (x - 2147483648 + 4294967296 * 1) mod 4294967296"
    by (simp add: add.commute)
  also have "\<dots> = x - 2147483648"
    unfolding mod_mult_self2 using that by (intro mod_pos_pos_trivial) simp_all
  finally show ?thesis by simp
qed

lemma Pad32_eq:
  assumes "length data < 2 ^ 32"
  shows "Pad32 data =
    (if length data \<le> 2 ^ 31 - 32 then Some (data @ replicate (padding (length data)) 0) else None)"
proof (cases "length data < 2 ^ 31")
  case True
  then have "signed_take_bit 31 (int (length data)) = int (length data)"
    by (intro signed_take_bit_int_eq_self) auto
  moreover have "length data + padding (length data) < 2 ^ 31 \<longleftrightarrow> length data \<le> 2 ^ 31 - 32"
    by (rule padding_cases [of "length data"]) (use True in auto)
  ultimately show ?thesis
    by (simp add: Pad32_def Alignment_def RoundAway_int_nonneg Let_def nat_int_add) linarith
next
  case False
  then have "signed_take_bit 31 (int (length data)) = int (length data) - 2 ^ 32"
    using assms by (simp add: signed_take_bit_eq_take_bit_shift take_bit_int_def
        int_mod_wrap)
  then have "signed_take_bit 31 (int (length data)) < 0"
    using assms by simp
  from RoundAway_int_neg [OF this] False show ?thesis
    by (simp add: Pad32_def Alignment_def Let_def)
qed

section \<open>Placing the sections\<close>

definition payload_sizes :: "SectionPayload list \<Rightarrow> nat" where
  "payload_sizes ps = sum_list (map (\<lambda>p. length (sp_bytes p)) ps)"

lemma payload_sizes_simps [simp]:
  "payload_sizes [] = 0" "payload_sizes (p # ps) = length (sp_bytes p) + payload_sizes ps"
  by (simp_all add: payload_sizes_def)

lemma length_payloads [simp]: "length (concat (map sp_bytes ps)) = payload_sizes ps"
  by (induction ps) simp_all

definition placed :: "nat \<Rightarrow> SectionPayload \<Rightarrow> SectionV1 \<Rightarrow> bool" where
  "placed offset p s \<longleftrightarrow>
     sec_type s = SectionType_code (sp_type p) \<and> sec_flags s = 0 \<and> unat (sec_offset s) = offset \<and>
     unat (sec_size s) = length (sp_bytes p) \<and> sec_alignment s = Alignment \<and>
     sec_elementCount s = sp_elementCount p \<and> sec_reserved s = (0, 0)"

lemma unat_room: "unat ((0xFFFFFFFF :: u32) - w) = 2 ^ 32 - 1 - unat w"
proof -
  have "w \<le> 0xFFFFFFFF" using unat_u32_less [of w] by (simp add: word_le_nat_alt)
  then show ?thesis by (simp add: unat_sub)
qed

lemma place_sections_Cons:
  fixes offset p
  defines "n \<equiv> length (sp_bytes p)"
  shows "place_sections offset (p # ps) =
      (if 2 ^ 32 \<le> unat offset + n then None
       else case place_sections (offset + word_of_nat n) ps of None \<Rightarrow> None
         | Some (ss, end_offset) \<Rightarrow>
             Some (\<lparr>sec_type = SectionType_code (sp_type p), sec_flags = 0, sec_offset = offset,
                   sec_size = word_of_nat n, sec_alignment = Alignment,
                   sec_elementCount = sp_elementCount p, sec_reserved = (0, 0)\<rparr> # ss, end_offset))"
proof -
  have "unat (0xFFFFFFFF - offset) < n \<longleftrightarrow> 2 ^ 32 \<le> unat offset + n"
    using unat_u32_less [of offset] by (simp add: unat_room) linarith
  then show ?thesis unfolding n_def by simp
qed

lemma offset_fits:
  assumes "\<not> 2 ^ 32 \<le> unat offset + n"
  shows "unat (offset + word_of_nat n :: u32) = unat offset + n" and "unat (word_of_nat n :: u32) = n"
  using assms by (simp_all add: unat_word_ariths unat_of_nat)

lemma place_sections_iff:
  "place_sections offset ps \<noteq> None \<longleftrightarrow> unat offset + payload_sizes ps < 2 ^ 32"
proof (induction ps arbitrary: offset)
  case Nil
  show ?case using unat_u32_less [of offset] by simp
next
  case (Cons p ps)
  show ?case
  proof (cases "2 ^ 32 \<le> unat offset + length (sp_bytes p)")
    case False
    then show ?thesis
      using Cons.IH [of "offset + word_of_nat (length (sp_bytes p))"] offset_fits(1) [OF False]
      unfolding place_sections_Cons by (auto split: option.splits)
  qed (simp add: place_sections_Cons del: place_sections.simps)
qed

lemma place_sections_placed:
  assumes "place_sections offset ps = Some (ss, t)"
  shows "length ss = length ps \<and> unat t = unat offset + payload_sizes ps \<and>
    (\<forall>i < length ps. placed (unat offset + payload_sizes (take i ps)) (ps ! i) (ss ! i))"
  using assms
proof (induction ps arbitrary: offset ss t)
  case (Cons p ps)
  define n where "n = length (sp_bytes p)"
  from Cons.prems obtain ss' where tail: "place_sections (offset + word_of_nat n) ps = Some (ss', t)"
    and le: "\<not> 2 ^ 32 \<le> unat offset + n"
    and ss: "ss = \<lparr>sec_type = SectionType_code (sp_type p), sec_flags = 0, sec_offset = offset,
         sec_size = word_of_nat n, sec_alignment = Alignment,
         sec_elementCount = sp_elementCount p, sec_reserved = (0, 0)\<rparr> # ss'"
    unfolding place_sections_Cons n_def by (auto split: if_splits option.splits)
  have "placed (unat offset + payload_sizes (take i (p # ps))) ((p # ps) ! i) (ss ! i)"
    if "i < length (p # ps)" for i
  proof (cases i)
    case 0
    then show ?thesis using offset_fits [OF le] by (simp add: ss placed_def n_def)
  next
    case (Suc j)
    then show ?thesis
      using Cons.IH [OF tail] offset_fits [OF le] that by (simp add: ss n_def add.assoc)
  qed
  then show ?case
    using Cons.IH [OF tail] offset_fits [OF le] by (simp add: ss n_def)
qed simp

lemma pad_payloads_iff:
  "pad_payloads ps = Some qs \<longleftrightarrow>
    list_all2 (\<lambda>p q. \<exists>bs. Pad32 (sp_bytes p) = Some bs \<and> q = p\<lparr>sp_bytes := bs\<rparr>) ps qs"
proof (induction ps arbitrary: qs)
  case (Cons p ps)
  show ?case
    by (cases qs) (auto split: option.splits simp: Cons.IH [symmetric])
qed auto

lemma concat_at:
  assumes "i < length ps"
  shows "take (length (sp_bytes (ps ! i)))
      (drop (payload_sizes (take i ps)) (concat (map sp_bytes ps))) = sp_bytes (ps ! i)"
proof -
  have "ps = take i ps @ ps ! i # drop (Suc i) ps"
    using assms by (simp add: id_take_nth_drop)
  then have "concat (map sp_bytes ps) = concat (map sp_bytes (take i ps)) @ sp_bytes (ps ! i) @
      concat (map sp_bytes (drop (Suc i) ps))"
    by (metis concat.simps(2) concat_append list.simps(9) map_append)
  then show ?thesis by simp
qed

section \<open>The bindings\<close>

definition is_direction :: "BindingDirection \<Rightarrow> BindingV1 \<Rightarrow> bool" where
  "is_direction d b \<longleftrightarrow> bind_direction b = BindingDirection_code d"

definition binding_ok :: "BindingV1 \<Rightarrow> bool" where
  "binding_ok b \<longleftrightarrow> ProductBytes b = Some (bind_byteSize b) \<and>
     ((is_direction Input b \<or> is_direction Output b) \<and> (bind_rank b = 4 \<longrightarrow> bind_layout b = 1) \<or>
      is_direction L2Temporary b \<and> bind_index b = 0)"

definition count_direction :: "BindingDirection \<Rightarrow> BindingV1 list \<Rightarrow> nat" where
  "count_direction d bs = length (filter (is_direction d) bs)"

lemma count_direction_simps [simp]:
  "count_direction d [] = 0"
  "count_direction d (b # bs) = (if is_direction d b then 1 else 0) + count_direction d bs"
  by (simp_all add: count_direction_def)

lemma count_binding_cases:
  assumes "bc_l2Temporary c \<le> 1"
  shows "count_binding c b = Inr c' \<longleftrightarrow> binding_ok b \<and>
    (is_direction L2Temporary b \<longrightarrow> bc_l2Temporary c = 0) \<and>
    c' = \<lparr>bc_input = bc_input c + (if is_direction Input b then 1 else 0),
          bc_output = bc_output c + (if is_direction Output b then 1 else 0),
          bc_l2Temporary = bc_l2Temporary c + (if is_direction L2Temporary b then 1 else 0)\<rparr>"
  by (cases c) (auto simp: count_binding_def binding_ok_def is_direction_def Let_def)

lemma count_bindings_iff:
  assumes "bc_l2Temporary c \<le> 1"
  shows "count_bindings c bs = Inr c' \<longleftrightarrow> list_all binding_ok bs \<and>
    unat (bc_l2Temporary c) + count_direction L2Temporary bs \<le> 1 \<and>
    c' = \<lparr>bc_input = bc_input c + word_of_nat (count_direction Input bs),
          bc_output = bc_output c + word_of_nat (count_direction Output bs),
          bc_l2Temporary = bc_l2Temporary c + word_of_nat (count_direction L2Temporary bs)\<rparr>"
  using assms
proof (induction bs arbitrary: c)
  case Nil
  then show ?case by (auto simp: word_le_nat_alt)
next
  case (Cons b bs)
  define c1 where "c1 = \<lparr>bc_input = bc_input c + (if is_direction Input b then 1 else 0),
          bc_output = bc_output c + (if is_direction Output b then 1 else 0),
          bc_l2Temporary = bc_l2Temporary c + (if is_direction L2Temporary b then 1 else 0)\<rparr>"
  show ?case
  proof (cases "binding_ok b \<and> (is_direction L2Temporary b \<longrightarrow> bc_l2Temporary c = 0)")
    case True
    then have "count_binding c b = Inr c1"
      using count_binding_cases [OF Cons.prems] by (simp add: c1_def)
    moreover have "bc_l2Temporary c1 \<le> 1"
      using True Cons.prems by (simp add: c1_def)
    ultimately show ?thesis
      using Cons.IH [of c1] True by (auto simp: c1_def add.assoc)
  next
    case False
    then obtain e where "count_binding c b = Inl e"
      using count_binding_cases [OF Cons.prems] by (cases "count_binding c b") auto
    moreover have "unat (bc_l2Temporary c) + 1 > 1" if "bc_l2Temporary c \<noteq> 0"
      using that by (simp add: unat_gt_0)
    ultimately show ?thesis using False by auto
  qed
qed

section \<open>What the writer produces\<close>

definition artifact_ok :: "CompiledNeuralAIArtifact \<Rightarrow> bool" where
  "artifact_ok a \<longleftrightarrow> packageCommands a \<noteq> [] \<and> 32 dvd length (packageCommands a) \<and>
     unat (art_requiredTCDMBytes a) \<le> 508 * 1024 \<and> list_all binding_ok (art_bindings a) \<and>
     count_direction L2Temporary (art_bindings a) \<le> 1"

definition padded_length :: "bytes \<Rightarrow> nat" where
  "padded_length bs = length bs + padding (length bs)"

definition package_sections :: "bytes \<Rightarrow> SectionV1 list" where
  "package_sections out =
     (let h = parse_ModelHeaderV1 out
      in map (\<lambda>i. parse_SectionV1 (drop (unat (mh_sectionTableOffset h) + 32 * i) out))
           [0..<unat (mh_sectionCount h)])"

definition section_bytes :: "bytes \<Rightarrow> SectionV1 \<Rightarrow> bytes" where
  "section_bytes out s = take (unat (sec_size s)) (drop (unat (sec_offset s)) out)"

definition written_counts :: "CompiledNeuralAIArtifact \<Rightarrow> binding_counts" where
  "written_counts a =
     \<lparr>bc_input = word_of_nat (count_direction Input (art_bindings a)),
      bc_output = word_of_nat (count_direction Output (art_bindings a)),
      bc_l2Temporary = word_of_nat (count_direction L2Temporary (art_bindings a))\<rparr>"

definition written :: "CompiledNeuralAIArtifact \<Rightarrow> SectionPayload list \<Rightarrow> SectionV1 list \<Rightarrow> u32 \<Rightarrow> bytes \<Rightarrow> bool" where
  "written a ps ss t out \<longleftrightarrow>
     pad_payloads (artifact_payloads a) = Some ps \<and> place_sections 224 ps = Some (ss, t) \<and>
     out = Serialize_ModelHeaderV1 (package_header a (written_counts a) ss t) @
       concat (map Serialize_SectionV1 ss) @ concat (map sp_bytes ps)"

lemma pad_payloads_length: "pad_payloads ps = Some qs \<Longrightarrow> length qs = length ps"
  by (auto simp: pad_payloads_iff dest: list_all2_lengthD)

lemma tcdm_iff: "\<not> 0x0007F000 < w \<longleftrightarrow> unat (w :: u32) \<le> 508 * 1024"
  by (simp add: word_less_nat_alt not_less)

lemma WriteNeuralAIModel_Inr:
  "WriteNeuralAIModel a = Inr out \<longleftrightarrow> artifact_ok a \<and> (\<exists>ps ss t. written a ps ss t out)"
proof -
  have table: "sectionTableOffset + word_of_nat (length ps * sizeof_SectionV1) = 224"
    if "pad_payloads (artifact_payloads a) = Some ps" for ps
    using pad_payloads_length [OF that]
    by (simp add: artifact_payloads_def sectionTableOffset_def sizeof_ModelHeaderV1_def
        sizeof_SectionV1_def)
  have counts: "count_bindings \<lparr>bc_input = 0, bc_output = 0, bc_l2Temporary = 0\<rparr> (art_bindings a) = Inr c
      \<longleftrightarrow> list_all binding_ok (art_bindings a) \<and> count_direction L2Temporary (art_bindings a) \<le> 1 \<and>
        c = written_counts a" for c
    by (subst count_bindings_iff) (simp_all add: written_counts_def)
  have al: "length (packageCommands a) mod unat Alignment \<noteq> 0 \<longleftrightarrow> \<not> 32 dvd length (packageCommands a)"
    by (simp add: Alignment_def dvd_eq_mod_eq_0)
  show ?thesis
  proof (cases "pad_payloads (artifact_payloads a)")
    case None
    then show ?thesis
      by (auto simp: WriteNeuralAIModel_def written_def split: sum.splits)
  next
    case (Some ps)
    show ?thesis
    proof (cases "count_bindings \<lparr>bc_input = 0, bc_output = 0, bc_l2Temporary = 0\<rparr> (art_bindings a)")
      case (Inl e)
      with counts [of "written_counts a"] Some show ?thesis
        by (auto simp: WriteNeuralAIModel_def artifact_ok_def)
    next
      case (Inr c)
      with counts [of c] Some show ?thesis
        unfolding WriteNeuralAIModel_def artifact_ok_def written_def al tcdm_iff [symmetric]
        by (auto simp: table [OF Some] simp del: of_nat_mult split: option.splits prod.splits)
    qed
  qed
qed

lemma written_lengths:
  assumes "written a ps ss t out"
  shows "length ps = 5" and "length ss = 5" and "unat t = 224 + payload_sizes ps"
    and "length out = unat t"
proof -
  from assms have "pad_payloads (artifact_payloads a) = Some ps" by (simp add: written_def)
  from pad_payloads_length [OF this] show ps: "length ps = 5"
    by (simp add: artifact_payloads_def)
  from assms have "place_sections 224 ps = Some (ss, t)" by (simp add: written_def)
  from place_sections_placed [OF this] ps show "length ss = 5" "unat t = 224 + payload_sizes ps"
    by simp_all
  with assms show "length out = unat t"
    by (simp add: written_def header_codec.enc_length section_codec.table_length)
qed

lemma written_placed:
  assumes "written a ps ss t out" and "i < 5"
  shows "placed (224 + payload_sizes (take i ps)) (ps ! i) (ss ! i)"
proof -
  from assms(1) have "place_sections 224 ps = Some (ss, t)" by (simp add: written_def)
  from place_sections_placed [OF this] written_lengths(1) [OF assms(1)] assms(2) show ?thesis by simp
qed

lemma written_header:
  assumes "written a ps ss t out"
  shows "parse_ModelHeaderV1 out = package_header a (written_counts a) ss t"
  using assms by (simp add: written_def header_codec.dec_enc)

lemma written_sections:
  assumes "written a ps ss t out"
  shows "package_sections out = ss"
proof -
  have "drop (64 + 32 * i) out =
      drop (32 * i) (concat (map Serialize_SectionV1 ss) @ concat (map sp_bytes ps))" for i
    using assms by (simp add: written_def header_codec.enc_length)
  then show ?thesis
    using section_codec.table_decode [of ss "concat (map sp_bytes ps)"] written_lengths(2) [OF assms]
    by (simp add: package_sections_def written_header [OF assms] package_header_def
        sectionTableOffset_def sizeof_ModelHeaderV1_def unat_of_nat)
qed

lemma written_section_bytes:
  assumes "written a ps ss t out" and "i < 5"
  shows "section_bytes out (ss ! i) = sp_bytes (ps ! i)"
proof -
  have "drop (224 + k) out = drop k (concat (map sp_bytes ps))" for k
    using assms(1) written_lengths(2) [OF assms(1)]
    by (simp add: written_def header_codec.enc_length section_codec.table_length)
  then show ?thesis
    using written_placed [OF assms] concat_at [of i ps] written_lengths(1) [OF assms(1)] assms(2)
    by (simp add: section_bytes_def placed_def)
qed

lemma written_aligned:
  assumes "written a ps ss t out" and "p \<in> set ps"
  shows "32 dvd length (sp_bytes p)"
  using assms Pad32_aligned(1) unfolding written_def pad_payloads_iff
  by (fastforce simp: list_all2_conv_all_nth in_set_conv_nth)

lemma payload_sizes_dvd: "(\<And>p. p \<in> set ps \<Longrightarrow> 32 dvd length (sp_bytes p)) \<Longrightarrow> 32 dvd payload_sizes ps"
  by (induction ps) auto

lemma payload_sizes_take: "payload_sizes (take i ps) + payload_sizes (drop i ps) = payload_sizes ps"
  by (metis append_take_drop_id map_append payload_sizes_def sum_list_append)

lemma written_layout:
  assumes "written a ps ss t out"
  shows "package_layout_ok (package_header a (written_counts a) ss t) ss"
proof -
  note len = written_lengths [OF assms]
  have dvd: "32 dvd payload_sizes (take i ps)" for i
    using written_aligned [OF assms] by (intro payload_sizes_dvd) (auto dest: in_set_takeD)
  have dvd_ps: "32 dvd payload_sizes ps"
    using dvd [of "length ps"] by simp
  have "section_layout_ok (unat t) (ss ! i)" if "i < 5" for i
  proof -
    have "payload_sizes (drop i ps) = length (sp_bytes (ps ! i)) + payload_sizes (drop (Suc i) ps)"
      using that len(1) by (simp add: Cons_nth_drop_Suc [symmetric])
    then have "payload_sizes (take i ps) + length (sp_bytes (ps ! i)) \<le> payload_sizes ps"
      using payload_sizes_take [of i ps] by simp
    moreover have "32 dvd length (sp_bytes (ps ! i))"
      using written_aligned [OF assms] that len(1) by simp
    ultimately show ?thesis
      using written_placed [OF assms that] dvd [of i] len(3)
      by (simp add: section_layout_ok_def placed_def Alignment_def)
  qed
  then have "list_all (section_layout_ok (unat t)) ss"
    using len(2) by (simp add: list_all_length)
  moreover have "32 dvd unat t" using len(3) dvd_ps by simp
  ultimately show ?thesis
    using len by (simp add: package_layout_ok_def package_header_def sectionTableOffset_def
        sizeof_ModelHeaderV1_def Alignment_def unat_of_nat)
qed

section \<open>The payloads of an artifact that fits\<close>

definition artifact_fits :: "CompiledNeuralAIArtifact \<Rightarrow> bool" where
  "artifact_fits a \<longleftrightarrow>
     list_all (\<lambda>p. length (sp_bytes p) \<le> 2 ^ 31 - 32) (artifact_payloads a) \<and>
     224 + sum_list (map (\<lambda>p. padded_length (sp_bytes p)) (artifact_payloads a)) < 2 ^ 32"

definition payloads_addressable :: "CompiledNeuralAIArtifact \<Rightarrow> bool" where
  "payloads_addressable a \<longleftrightarrow> list_all (\<lambda>p. length (sp_bytes p) < 2 ^ 32) (artifact_payloads a)"

definition decode_table :: "nat \<Rightarrow> (bytes \<Rightarrow> 'a) \<Rightarrow> bytes \<Rightarrow> u32 \<Rightarrow> 'a list" where
  "decode_table sz dec bs n = map (\<lambda>i. dec (drop (sz * i) bs)) [0..<unat n]"

lemma pad_payloads_fits:
  assumes "list_all (\<lambda>p. length (sp_bytes p) < 2 ^ 32) ps"
  shows "pad_payloads ps =
    (if list_all (\<lambda>p. length (sp_bytes p) \<le> 2 ^ 31 - 32) ps
     then Some (map (\<lambda>p. p\<lparr>sp_bytes := sp_bytes p @ replicate (padding (length (sp_bytes p))) 0\<rparr>) ps)
     else None)"
  using assms by (induction ps) (auto simp: Pad32_eq)

lemma written_payload:
  assumes "written a ps ss t out" and "payloads_addressable a" and "i < 5"
  shows "section_bytes out (ss ! i) = sp_bytes (artifact_payloads a ! i) @
      replicate (padding (length (sp_bytes (artifact_payloads a ! i)))) 0"
    and "sec_type (ss ! i) = SectionType_code (sp_type (artifact_payloads a ! i))"
    and "sec_elementCount (ss ! i) = sp_elementCount (artifact_payloads a ! i)"
proof -
  have five: "length (artifact_payloads a) = 5" by (simp add: artifact_payloads_def)
  have "ps ! i = (artifact_payloads a ! i)\<lparr>sp_bytes := sp_bytes (artifact_payloads a ! i) @
      replicate (padding (length (sp_bytes (artifact_payloads a ! i)))) 0\<rparr>"
    using assms five pad_payloads_fits [of "artifact_payloads a"]
    by (auto simp: written_def payloads_addressable_def split: if_splits)
  then show "section_bytes out (ss ! i) = sp_bytes (artifact_payloads a ! i) @
      replicate (padding (length (sp_bytes (artifact_payloads a ! i)))) 0"
    and "sec_type (ss ! i) = SectionType_code (sp_type (artifact_payloads a ! i))"
    and "sec_elementCount (ss ! i) = sp_elementCount (artifact_payloads a ! i)"
    using written_section_bytes [OF assms(1,3)] written_placed [OF assms(1,3)]
    by (simp_all add: placed_def)
qed

lemma written_exists:
  assumes "payloads_addressable a"
  shows "(\<exists>ps ss t out. written a ps ss t out) \<longleftrightarrow> artifact_fits a"
proof -
  define f where "f = (\<lambda>p :: SectionPayload. p\<lparr>sp_bytes := sp_bytes p @ replicate (padding (length (sp_bytes p))) 0\<rparr>)"
  have sizes: "payload_sizes (map f ps) = sum_list (map (\<lambda>p. padded_length (sp_bytes p)) ps)" for ps
    by (induction ps) (simp_all add: f_def padded_length_def)
  show ?thesis
    using pad_payloads_fits [of "artifact_payloads a"] assms
      place_sections_iff [of 224 "map f (artifact_payloads a)"]
    by (auto simp: written_def artifact_fits_def payloads_addressable_def sizes simp flip: f_def)
qed

lemma decode_tables:
  assumes "payloads_addressable a"
  shows "decode_table 64 parse_TensorV1 (concat (map (AppendTensor []) (art_tensors a)) @ rest)
      (word_of_nat (length (art_tensors a))) = art_tensors a"
    and "decode_table 64 parse_BindingV1 (concat (map (AppendBinding []) (art_bindings a)) @ rest)
      (word_of_nat (length (art_bindings a))) = art_bindings a"
    and "decode_table 32 parse_QParamV1 (concat (map (AppendQParam []) (art_qparams a)) @ rest)
      (word_of_nat (length (art_qparams a))) = art_qparams a"
  using assms tensor_codec.table_decode binding_codec.table_decode qparam_codec.table_decode
  by (simp_all add: decode_table_def payloads_addressable_def artifact_payloads_def table_bytes
      tensor_codec.table_length binding_codec.table_length qparam_codec.table_length unat_of_nat)

section \<open>The byte size of a binding\<close>

definition axis_product :: "BindingV1 \<Rightarrow> nat" where
  "axis_product b = prod_list (map unat (take (unat (bind_rank b)) (list4 (bind_dimensions b))))"

lemma product_axes_eq:
  "product_axes e ds = (if 0 \<in> set ds then None else Some (e * prod_list (map ucast ds)))"
  by (induction ds arbitrary: e) (auto simp: mult.assoc)

lemma unat_prod_list:
  "unat (prod_list (map ucast ds) :: u64) = prod_list (map (\<lambda>d. unat (d :: u32)) ds) mod 2 ^ 64"
proof (induction ds)
  case (Cons d ds)
  have "unat (ucast d :: u64) = unat d"
    using unat_u32_less [of d] by (simp add: unsigned_ucast_eq take_bit_nat_eq_self)
  then show ?case by (simp add: unat_word_ariths Cons.IH mod_mult_right_eq)
qed simp

lemma ProductBytes_iff:
  assumes "axis_product b * 4 < 2 ^ 64"
  shows "ProductBytes b = Some n \<longleftrightarrow> bind_rank b \<noteq> 0 \<and> bind_rank b \<le> 4 \<and>
    axis_product b \<noteq> 0 \<and> element_bytes (bind_dataType b) \<noteq> 0 \<and>
    unat n = axis_product b * unat (element_bytes (bind_dataType b))"
proof -
  define ds where "ds = take (unat (bind_rank b)) (list4 (bind_dimensions b))"
  define eb where "eb = element_bytes (bind_dataType b)"
  define r where "r = (prod_list (map ucast ds) :: u64) * ucast eb"
  have eb: "eb = 0 \<or> eb = 1 \<or> eb = 4" by (simp add: eb_def element_bytes_def)
  have ax: "axis_product b = prod_list (map unat ds)" by (simp add: axis_product_def ds_def)
  have zero: "0 \<in> set ds \<longleftrightarrow> axis_product b = 0"
    by (auto simp: ax prod_list_zero_iff unat_eq_0)
  have "unat (prod_list (map ucast ds) :: u64) = axis_product b"
    using assms by (simp add: unat_prod_list ax)
  then have r: "unat r = axis_product b * unat eb"
    using eb assms by (auto simp: r_def unat_word_ariths)
  have "0xFFFFFFFF < r \<longleftrightarrow> 2 ^ 32 \<le> unat r"
    by (simp add: word_less_nat_alt) linarith
  then have cast: "(\<not> 0xFFFFFFFF < r \<and> ucast r = n) \<longleftrightarrow> unat n = unat r"
    using unat_u32_less [of n]
    by (auto simp: unsigned_ucast_eq take_bit_nat_eq_self word_unat_eq_iff)
  show ?thesis
    using cast zero r unfolding ProductBytes_def ds_def [symmetric] eb_def [symmetric] product_axes_eq
    by (auto simp: Let_def r_def not_le not_less)
qed

section \<open>A sample artifact\<close>

definition sample_binding :: "u32 \<Rightarrow> u32 \<Rightarrow> BindingV1" where
  "sample_binding dim bytes =
     \<lparr>bind_direction = 1, bind_index = 0, bind_dataType = 4, bind_layout = 1, bind_rank = 4,
      bind_reserved0 = 0, bind_tensorId = 0, bind_dimensions = (dim, dim, dim, dim),
      bind_byteSize = bytes, bind_scaleBits = 0, bind_zeroPoint = 0, bind_flags = 0,
      bind_reserved = (0, 0, 0, 0)\<rparr>"

definition sample_artifact :: CompiledNeuralAIArtifact where
  "sample_artifact =
     \<lparr>art_commands = replicate 32 0, art_compactCommands = [], art_constants = [1, 2, 3],
      art_tensors = [], art_bindings = [sample_binding 2 64],
      art_qparams = [\<lparr>qp_bias = 5, qp_multiplier = 3, qp_shift = 1, qp_zeroPoint = 0,
        qp_clampMin = 0, qp_clampMax = 9, qp_reserved = (0, 0)\<rparr>],
      art_semanticCommands = [],
      art_commandDependencies = \<lparr>g_edges = [], g_predecessors = [], g_successors = []\<rparr>,
      art_commandCount = 1, art_encodedCommandCount = 1, art_commandBytesBeforeCompaction = 32,
      art_requiredTCDMBytes = 100\<rparr>"

lemma sample_payloads:
  "map (\<lambda>p. length (sp_bytes p)) (artifact_payloads sample_artifact) = [32, 3, 0, 64, 32]"
  by (simp add: artifact_payloads_def packageCommands_def sample_artifact_def table_bytes
      binding_codec.enc_length qparam_codec.enc_length)

lemma sample_binding_ok: "binding_ok (sample_binding 2 64)"
  by (simp add: binding_ok_def is_direction_def ProductBytes_iff axis_product_def sample_binding_def
      element_bytes_def)

lemma sample_artifact_ok: "artifact_ok sample_artifact"
  using sample_binding_ok
  by (simp add: artifact_ok_def packageCommands_def sample_artifact_def count_direction_def)

lemma sample_artifact_fits: "artifact_fits sample_artifact" "payloads_addressable sample_artifact"
proof -
  have "map (\<lambda>p. padded_length (sp_bytes p)) (artifact_payloads sample_artifact) = [32, 32, 0, 64, 32]"
    using arg_cong [OF sample_payloads, of "map (\<lambda>n. n + padding n)"]
    by (simp add: padded_length_def padding_def comp_def)
  moreover have "list_all (\<lambda>n. n \<le> 2 ^ 31 - 32)
      (map (\<lambda>p. length (sp_bytes p)) (artifact_payloads sample_artifact))"
    unfolding sample_payloads by simp
  ultimately show "artifact_fits sample_artifact"
    by (simp add: artifact_fits_def list.pred_map comp_def)
  have "list_all (\<lambda>n. n < 2 ^ 32)
      (map (\<lambda>p. length (sp_bytes p)) (artifact_payloads sample_artifact))"
    unfolding sample_payloads by simp
  then show "payloads_addressable sample_artifact"
    by (simp add: payloads_addressable_def list.pred_map comp_def)
qed

lemma sample_written: "\<exists>out. WriteNeuralAIModel sample_artifact = Inr out"
  using written_exists [of sample_artifact] sample_artifact_fits sample_artifact_ok
  by (auto simp: WriteNeuralAIModel_Inr)

section \<open>Properties of the writer\<close>

text \<open>C31: whatever the writer returns is a valid package.  The layout validator accepts its header
  and section table, the header records the length of the package, the entry point is the first
  section, the sections follow the section table back to back in order and fill the package, and the
  header carries the artifact's command count and its scratch size rounded up to the alignment.\<close>

theorem writer_valid_package:
  assumes "WriteNeuralAIModel a = Inr out"
  shows "let h = parse_ModelHeaderV1 out; ss = package_sections out in
    ValidateModelLayout h (Some ss) (length ss) = Inr () \<and> length ss = 5 \<and>
    unat (mh_totalBytes h) = length out \<and> mh_entryCommandOffset h = sec_offset (ss ! 0) \<and>
    mh_commandCount h = art_commandCount a \<and>
    unat (mh_requiredTCDMBytes h) =
      unat (art_requiredTCDMBytes a) + padding (unat (art_requiredTCDMBytes a)) \<and>
    map (\<lambda>s. unat (sec_offset s)) ss @ [length out] =
      map (\<lambda>i. 224 + sum_list (map (\<lambda>s. unat (sec_size s)) (take i ss))) [0..<6]"
proof -
  from assms obtain ps ss t where w: "written a ps ss t out" and ok: "artifact_ok a"
    by (auto simp: WriteNeuralAIModel_Inr)
  note len = written_lengths [OF w]
  define n where "n = unat (art_requiredTCDMBytes a)"
  have sizes: "map (\<lambda>s. unat (sec_size s)) ss = map (\<lambda>p. length (sp_bytes p)) ps"
    using written_placed [OF w] len by (intro nth_equalityI) (auto simp: placed_def)
  have tail: "224 + sum_list (map (\<lambda>s. unat (sec_size s)) (take i ss)) =
      (if i < 5 then unat (sec_offset (ss ! i)) else length out)" if "i < 6" for i
    using written_placed [OF w, of i] len that
    by (auto simp: placed_def payload_sizes_def sizes take_map [symmetric] not_less)
  have "map (\<lambda>s. unat (sec_offset s)) ss @ [length out] =
      map (\<lambda>i. 224 + sum_list (map (\<lambda>s. unat (sec_size s)) (take i ss))) [0..<6]"
    using len by (intro nth_equalityI) (auto simp: tail nth_append less_Suc_eq_le)
  moreover have "unat (RoundAway_u32 (art_requiredTCDMBytes a) 32) = n + padding n"
    using ok by (simp add: artifact_ok_def n_def RoundAway_u32_32)
  ultimately show ?thesis
    using written_layout [OF w] len
    by (simp add: written_header [OF w] written_sections [OF w] ValidateModelLayout_iff Let_def
        package_header_def n_def Alignment_def)
qed

theorem writer_valid_package_witness:
  "\<exists>out. WriteNeuralAIModel sample_artifact = Inr out \<and>
    unat (mh_totalBytes (parse_ModelHeaderV1 out)) = length out \<and>
    ValidateModelLayout (parse_ModelHeaderV1 out) (Some (package_sections out))
      (length (package_sections out)) = Inr ()"
  using sample_written writer_valid_package [of sample_artifact] unfolding Let_def by blast

text \<open>C32: nothing is lost in a package.  If every payload is shorter than 4 GiB, the sections of a
  written package are the commands, constants, tensors, bindings and quantization parameters in this
  order; the command section is the command stream itself, the constant section is the constants
  followed by fewer than 32 zero bytes, and decoding the three tables with the element counts of
  their sections gives back the artifact's tensors, bindings and quantization parameters.\<close>

theorem writer_contents:
  assumes "WriteNeuralAIModel a = Inr out" and "payloads_addressable a"
  shows "let ss = package_sections out; table = (\<lambda>i. section_bytes out (ss ! i));
      n = (\<lambda>i. sec_elementCount (ss ! i)) in
    map sec_type ss = map SectionType_code [Commands, Constants, Tensors, Bindings, QParams] \<and>
    table 0 = packageCommands a \<and> n 0 = art_commandCount a \<and>
    (\<exists>k < 32. table 1 = art_constants a @ replicate k 0) \<and>
    decode_table 64 parse_TensorV1 (table 2) (n 2) = art_tensors a \<and>
    decode_table 64 parse_BindingV1 (table 3) (n 3) = art_bindings a \<and>
    decode_table 32 parse_QParamV1 (table 4) (n 4) = art_qparams a"
proof -
  from assms(1) obtain ps ss t where w: "written a ps ss t out" and ok: "artifact_ok a"
    by (auto simp: WriteNeuralAIModel_Inr)
  note sec = written_payload [OF w assms(2)]
  have "map sec_type ss = map SectionType_code [Commands, Constants, Tensors, Bindings, QParams]"
    using sec(2) written_lengths(2) [OF w]
    by (intro nth_equalityI) (auto simp: artifact_payloads_def nth_Cons' less_Suc_eq)
  moreover have "section_bytes out (ss ! 0) = packageCommands a"
    using sec(1) [of 0] ok by (simp add: artifact_payloads_def artifact_ok_def padding_aligned)
  moreover have "section_bytes out (ss ! 1) =
      art_constants a @ replicate (padding (length (art_constants a))) 0"
    using sec(1) [of 1] by (simp add: artifact_payloads_def)
  ultimately show ?thesis
    using sec(1) [of 2] sec(1) [of 3] sec(1) [of 4] sec(3) [of 0] sec(3) [of 2] sec(3) [of 3] sec(3) [of 4]
    by (auto simp: Let_def written_sections [OF w] artifact_payloads_def table_bytes
        decode_tables [OF assms(2)] padding_less)
qed

theorem writer_contents_witness:
  "\<exists>out. WriteNeuralAIModel sample_artifact = Inr out \<and>
    section_bytes out (package_sections out ! 0) = replicate 32 0 \<and>
    decode_table 64 parse_BindingV1 (section_bytes out (package_sections out ! 3))
      (sec_elementCount (package_sections out ! 3)) = [sample_binding 2 64]"
proof -
  from sample_written obtain out where out: "WriteNeuralAIModel sample_artifact = Inr out" by blast
  from writer_contents [OF out sample_artifact_fits(2)] out show ?thesis
    by (auto simp: Let_def packageCommands_def sample_artifact_def)
qed



text \<open>The compact byte size of a binding is exact as long as its 64-bit element product does not
  overflow: it exists exactly for ranks one to four, positive dimensions and a known element type,
  and then it is the product of the dimensions and the element size, provided that fits 32 bits.\<close>

lemma product_bytes_exact:
  assumes "axis_product b * 4 < 2 ^ 64"
  shows "ProductBytes b = Some n \<longleftrightarrow> bind_rank b \<noteq> 0 \<and> bind_rank b \<le> 4 \<and>
    axis_product b \<noteq> 0 \<and> element_bytes (bind_dataType b) \<noteq> 0 \<and>
    unat n = axis_product b * unat (element_bytes (bind_dataType b))"
  using ProductBytes_iff [OF assms] .

lemma product_bytes_exact_witness: "ProductBytes (sample_binding 3 324) = Some 324"
  using product_bytes_exact [of "sample_binding 3 324" 324]
  by (simp add: axis_product_def sample_binding_def element_bytes_def DataType_code_def)

text \<open>The 64-bit product does overflow: four dimensions of 65536 have \<open>2 ^ 64\<close> elements, the wrapped
  product is zero, and such a binding passes the size check with a byte size of zero.\<close>

lemma product_bytes_wraps:
  "axis_product (sample_binding 65536 0) = 2 ^ 64"
  "ProductBytes (sample_binding 65536 0) = Some 0"
  "binding_ok (sample_binding 65536 0)"
proof -
  show "axis_product (sample_binding 65536 0) = 2 ^ 64"
    by (simp add: axis_product_def sample_binding_def)
  have "ProductBytes (sample_binding 65536 0) = Some 0"
    by (simp add: ProductBytes_def sample_binding_def element_bytes_def DataType_code_def Let_def)
  then show "ProductBytes (sample_binding 65536 0) = Some 0" "binding_ok (sample_binding 65536 0)"
    by (simp_all add: binding_ok_def is_direction_def) (simp_all add: sample_binding_def)
qed

end
