(* ===== verification/NAI_Weights.thy ===== *)
theory NAI_Weights
  imports NAI_Writer
begin

text \<open>
  The weight encoder: \<^verbatim>\<open>architecture/neuralai/neural_ai_weight_encoder.cpp\<close> and the operation modes of
  \<^verbatim>\<open>neural_ai_op_config.hpp\<close>.

  A weight buffer is a function from byte index to the signed byte stored there (\<open>None\<close> for
  \<open>nullptr\<close>), shapes and strides are OHWI records, and the nested packing loops are folds whose
  state is the zero-filled vector and the running output index.  Exceptions are values of
  \<open>encode_error\<close>.  \<open>CalculateQuantizedMultiplier\<close> works on doubles; it is the parameter
  \<open>calculate\<close>, and the lemmas hold for every such function.
  \<open>matrix_SetSource\<close> does not reject non-positive kernel sizes; the lemmas assume positive ones.
\<close>

section \<open>Operation modes and data types\<close>

datatype NeuralAIOpMode = Unsupported | FullyConnectedRow32 | MatMulRow32
  | Conv2DRgbLinebufRequant | Conv2DPointwiseC32Requant | Conv2DLinebufC32S1Requant
  | Conv2DLinebufC32S2Requant | DepthwiseC32S1Requant | DepthwiseC32S2Requant | AFULutI8 | AddI8
  | AFUGlobalAvgPoolC32 | UpsampleNearestC32 | MaxPoolK5S1P2C32 | ConcatC32 | HeadPackC32ToCHW
  | Dfl16

text \<open>The codes of \<^verbatim>\<open>DataType::Int8\<close>, \<^verbatim>\<open>Int32\<close>, \<^verbatim>\<open>Int64\<close> (\<^verbatim>\<open>common/data_type.hpp\<close>) and \<^verbatim>\<open>WeightFormat::Default\<close>.\<close>

definition DataType_Int8 :: u16 where "DataType_Int8 = 0x908"
definition DataType_Int32 :: u16 where "DataType_Int32 = 0x920"
definition DataType_Int64 :: u16 where "DataType_Int64 = 0x940"
definition WeightFormat_Default :: u16 where "WeightFormat_Default = 1"

datatype encode_error =
    InvalidGemmDimensions
  | InvalidMatrixSource
  | InvalidDepthwiseSource
  | TwoChannelAxes
  | InvalidQuantizationSource
  | ClampOrder
  | ClampNotUniform
  | ScaleNotRepresentable
  | BiasOutOfRange
  | ShiftOutOfRange
  | ClampInvalid
  | UnsupportedEncodingConfig
  | WeightsNotInt8
  | UnsupportedScaleSource
  | WeightOutOfRange

section \<open>Packing loops\<close>

text \<open>One turn of an innermost loop: store a value at the output index if there is one, advance.\<close>

definition emit :: "'v option \<Rightarrow> 'v list \<times> nat \<Rightarrow> 'v list \<times> nat" where
  "emit v s = (case s of (packed, output) \<Rightarrow>
     ((case v of None \<Rightarrow> packed | Some x \<Rightarrow> packed[output := x]), output + 1))"

definition gemm_lane :: "(nat \<Rightarrow> u8) \<Rightarrow> int \<Rightarrow> int \<Rightarrow> nat \<Rightarrow> nat \<Rightarrow> nat \<Rightarrow> nat \<Rightarrow> u8 option" where
  "gemm_lane weightsKN depthK depthN nGroup kGroup kLane nLane =
     (let k = kGroup * 32 + kLane; n = nGroup * 32 + nLane
      in if int k < depthK \<and> int n < depthN then Some (weightsKN (k * nat depthN + n)) else None)"

definition PackGEMM32Weights :: "(nat \<Rightarrow> u8) option \<Rightarrow> int \<Rightarrow> int \<Rightarrow> encode_error + bytes" where
  "PackGEMM32Weights buffer depthK depthN =
     (case buffer of None \<Rightarrow> Inl InvalidGemmDimensions
      | Some weightsKN \<Rightarrow>
          if depthK \<le> 0 \<or> depthN \<le> 0 then Inl InvalidGemmDimensions
          else (let kGroups = nat (RoundAway_int depthK 32) div 32;
                    nGroups = nat (RoundAway_int depthN 32) div 32
                in Inr (fst (fold (\<lambda>nGroup. fold (\<lambda>kGroup. fold (\<lambda>kLane. fold (\<lambda>nLane.
                       emit (gemm_lane weightsKN depthK depthN nGroup kGroup kLane nLane))
                       [0..<32]) [0..<32]) [0..<kGroups]) [0..<nGroups]
                     (replicate (kGroups * nGroups * 32 * 32) 0, 0)))))"

section \<open>Weight sources\<close>

record Shape4 =
  shape_batch :: int
  shape_height :: int
  shape_width :: int
  shape_depth :: int

definition Dot :: "Shape4 \<Rightarrow> Shape4 \<Rightarrow> int" where
  "Dot s t = shape_batch s * shape_batch t + shape_height s * shape_height t +
     shape_width s * shape_width t + shape_depth s * shape_depth t"

definition shape4 :: "int \<Rightarrow> int \<Rightarrow> int \<Rightarrow> int \<Rightarrow> Shape4" where
  "shape4 o' h w i = \<lparr>shape_batch = o', shape_height = h, shape_width = w, shape_depth = i\<rparr>"

record WeightTransformParam =
  wt_o :: int
  wt_h :: int
  wt_w :: int
  wt_i :: int

type_synonym weight_transform = "(WeightTransformParam \<Rightarrow> int \<Rightarrow> int) option"
type_synonym weight_buffer = "int \<Rightarrow> u8"

definition transform_weight :: "weight_transform \<Rightarrow> int \<Rightarrow> int \<Rightarrow> int \<Rightarrow> int \<Rightarrow> int \<Rightarrow> int" where
  "transform_weight transform o' h w i value =
     (case transform of None \<Rightarrow> value
      | Some f \<Rightarrow> f \<lparr>wt_o = o', wt_h = h, wt_w = w, wt_i = i\<rparr> value)"

record VolumeSource =
  vs_packed :: "16 word list"
  vs_sourceElements :: int
  vs_position :: nat

definition matrix_weight ::
    "weight_transform \<Rightarrow> weight_buffer \<Rightarrow> int \<Rightarrow> Shape4 \<Rightarrow> int \<Rightarrow> int \<Rightarrow> int \<Rightarrow> int \<Rightarrow> 16 word" where
  "matrix_weight transform source depthOffset strides n h w i =
     (let o' = depthOffset + n
      in word_of_int (transform_weight transform o' h w i (sint (source (Dot (shape4 o' h w i) strides)))))"

definition grouped_lane ::
    "weight_transform \<Rightarrow> weight_buffer \<Rightarrow> int \<Rightarrow> Shape4 \<Rightarrow> Shape4 \<Rightarrow>
     nat \<Rightarrow> nat \<Rightarrow> nat \<Rightarrow> nat \<Rightarrow> nat \<Rightarrow> nat \<Rightarrow> 16 word option" where
  "grouped_lane transform source depthOffset shape strides nGroup inputGroup h w iLane nLane =
     (let i = inputGroup * 32 + iLane; n = nGroup * 32 + nLane
      in if int i < shape_depth shape \<and> int n < shape_batch shape
         then Some (matrix_weight transform source depthOffset strides (int n) (int h) (int w) (int i))
         else None)"

definition linear_lane ::
    "weight_transform \<Rightarrow> weight_buffer \<Rightarrow> int \<Rightarrow> Shape4 \<Rightarrow> Shape4 \<Rightarrow>
     nat \<Rightarrow> nat \<Rightarrow> nat \<Rightarrow> nat \<Rightarrow> 16 word option" where
  "linear_lane transform source depthOffset shape strides nGroup kGroup kLane nLane =
     (let k = int (kGroup * 32 + kLane); n = int (nGroup * 32 + nLane);
          kernelElements = shape_height shape * shape_width shape * shape_depth shape;
          h = k div (shape_width shape * shape_depth shape);
          wi = k mod (shape_width shape * shape_depth shape);
          w = wi div shape_depth shape; i = wi mod shape_depth shape
      in if k < kernelElements \<and> n < shape_batch shape
         then Some (matrix_weight transform source depthOffset strides n h w i) else None)"

definition matrix_SetSource ::
    "weight_transform \<Rightarrow> bool \<Rightarrow> weight_buffer option \<Rightarrow> int \<Rightarrow> Shape4 \<Rightarrow> Shape4 \<Rightarrow> int \<Rightarrow>
     encode_error + VolumeSource" where
  "matrix_SetSource transform groupedK3 buffer depthOffset shape strides streamIndex =
     (case buffer of None \<Rightarrow> Inl InvalidMatrixSource
      | Some source \<Rightarrow>
          if streamIndex \<noteq> 0 \<or> shape_batch shape \<le> 0 \<or> shape_depth shape \<le> 0
          then Inl InvalidMatrixSource
          else
            (let outputDepth = shape_batch shape; kernelHeight = nat (shape_height shape);
                 kernelWidth = nat (shape_width shape); inputChannels = shape_depth shape;
                 kernelElements = shape_height shape * shape_width shape * inputChannels;
                 kGroups = nat (RoundAway_int kernelElements 32) div 32;
                 nGroups = nat (RoundAway_int outputDepth 32) div 32;
                 inputGroups = nat (RoundAway_int inputChannels 32) div 32;
                 groupedK = (if groupedK3
                   then nat (shape_height shape * shape_width shape * RoundAway_int inputChannels 32)
                   else kGroups * 32);
                 encodedKGroups = (if groupedK3 then groupedK div 32 else kGroups);
                 lane_loop = (if groupedK3
                   then fold (\<lambda>nGroup. fold (\<lambda>inputGroup. fold (\<lambda>h. fold (\<lambda>w. fold (\<lambda>iLane. fold (\<lambda>nLane.
                       emit (grouped_lane transform source depthOffset shape strides
                         nGroup inputGroup h w iLane nLane))
                       [0..<32]) [0..<32]) [0..<kernelWidth]) [0..<kernelHeight]) [0..<inputGroups])
                       [0..<nGroups]
                   else fold (\<lambda>nGroup. fold (\<lambda>kGroup. fold (\<lambda>kLane. fold (\<lambda>nLane.
                       emit (linear_lane transform source depthOffset shape strides
                         nGroup kGroup kLane nLane))
                       [0..<32]) [0..<32]) [0..<kGroups]) [0..<nGroups])
             in Inr \<lparr>vs_packed = fst (lane_loop (replicate (encodedKGroups * nGroups * 32 * 32) 0, 0)),
                     vs_sourceElements = outputDepth * kernelElements, vs_position = 0\<rparr>))"

definition depthwise_lane ::
    "weight_transform \<Rightarrow> weight_buffer \<Rightarrow> int \<Rightarrow> Shape4 \<Rightarrow> Shape4 \<Rightarrow>
     nat \<Rightarrow> nat \<Rightarrow> nat \<Rightarrow> nat \<Rightarrow> 16 word option" where
  "depthwise_lane transform source depthOffset shape strides channelGroup h w lane =
     (let channel = int (channelGroup * 32 + lane);
          channels = max (shape_batch shape) (shape_depth shape);
          globalChannel = depthOffset + channel;
          o' = (if 1 < shape_batch shape then globalChannel else 0);
          i = (if 1 < shape_depth shape then globalChannel else 0)
      in if channel < channels
         then Some (word_of_int (transform_weight transform globalChannel (int h) (int w) globalChannel
                      (sint (source (Dot (shape4 o' (int h) (int w) i) strides)))))
         else None)"

definition depthwise_SetSource ::
    "weight_transform \<Rightarrow> weight_buffer option \<Rightarrow> int \<Rightarrow> Shape4 \<Rightarrow> Shape4 \<Rightarrow> int \<Rightarrow>
     encode_error + VolumeSource" where
  "depthwise_SetSource transform buffer depthOffset shape strides streamIndex =
     (case buffer of None \<Rightarrow> Inl InvalidDepthwiseSource
      | Some source \<Rightarrow>
          if streamIndex \<noteq> 0 \<or> depthOffset < 0 \<or> shape_batch shape \<le> 0 \<or> shape_height shape \<le> 0 \<or>
             shape_width shape \<le> 0 \<or> shape_depth shape \<le> 0 then Inl InvalidDepthwiseSource
          else if shape_batch shape \<noteq> 1 \<and> shape_depth shape \<noteq> 1 then Inl TwoChannelAxes
          else
            (let channels = max (shape_batch shape) (shape_depth shape);
                 kh = nat (shape_height shape); kw = nat (shape_width shape);
                 groups = nat (RoundAway_int channels 32) div 32
             in Inr \<lparr>vs_packed = fst (fold (\<lambda>channelGroup. fold (\<lambda>h. fold (\<lambda>w. fold (\<lambda>lane.
                       emit (depthwise_lane transform source depthOffset shape strides channelGroup h w lane))
                       [0..<32]) [0..<kw]) [0..<kh]) [0..<groups]
                       (replicate (groups * kh * kw * 32) 0, 0)),
                     vs_sourceElements = channels * shape_height shape * shape_width shape,
                     vs_position = 0\<rparr>))"

definition VolumeSource_Get :: "nat \<Rightarrow> VolumeSource \<Rightarrow> 16 word list \<times> VolumeSource" where
  "VolumeSource_Get count vs =
     (let available = length (vs_packed vs) - vs_position vs; c = min count available
      in (take c (drop (vs_position vs) (vs_packed vs)), vs\<lparr>vs_position := vs_position vs + c\<rparr>))"

section \<open>Encoding the weights\<close>

record WeightsInfo =
  wi_sourceSize :: int
  wi_encodedSize :: int
  wi_zeroCount :: int
  wi_distinctValues :: int
  wi_streams :: int
  wi_weightsUsed :: "u64 list"

definition empty_info :: "int \<Rightarrow> WeightsInfo" where
  "empty_info sourceElements =
     \<lparr>wi_sourceSize = sourceElements, wi_encodedSize = 0, wi_zeroCount = 0, wi_distinctValues = 0,
      wi_streams = 0, wi_weightsUsed = replicate 8 0\<rparr>"

definition encode_value :: "16 word \<Rightarrow> WeightsInfo \<times> bytes \<Rightarrow> encode_error + WeightsInfo \<times> bytes" where
  "encode_value v s =
     (case s of (info, result) \<Rightarrow>
        let value = sint v; used = nat (value + 256); k = used div 64
        in if value < - 128 \<or> 127 < value then Inl WeightOutOfRange
           else Inr (info\<lparr>wi_zeroCount := wi_zeroCount info + (if value = 0 then 1 else 0),
                 wi_weightsUsed := (wi_weightsUsed info)[k := set_bit (used mod 64) (wi_weightsUsed info ! k)]\<rparr>,
               result @ [word_of_int value]))"

fun encode_values :: "16 word list \<Rightarrow> WeightsInfo \<times> bytes \<Rightarrow> encode_error + WeightsInfo \<times> bytes" where
  "encode_values [] s = Inr s"
| "encode_values (v # vs) s =
     (case encode_value v s of Inl e \<Rightarrow> Inl e | Inr s' \<Rightarrow> encode_values vs s')"

function encode_chunks :: "VolumeSource \<Rightarrow> WeightsInfo \<times> bytes \<Rightarrow> encode_error + WeightsInfo \<times> bytes" where
  "encode_chunks source s =
     (case VolumeSource_Get 1024 source of (values, source') \<Rightarrow>
        if values = [] then Inr s
        else case encode_values values s of Inl e \<Rightarrow> Inl e | Inr s' \<Rightarrow> encode_chunks source' s')"
  by auto

termination
  by (relation "measure (\<lambda>(source, s). length (vs_packed source) - vs_position source)")
    (auto simp: VolumeSource_Get_def Let_def)

definition EncodeWeights :: "VolumeSource \<Rightarrow> bytes \<Rightarrow> encode_error + WeightsInfo \<times> bytes" where
  "EncodeWeights source result =
     (case encode_chunks source (empty_info (vs_sourceElements source), result) of
        Inl e \<Rightarrow> Inl e
      | Inr (info, result') \<Rightarrow>
          Inr (info\<lparr>wi_encodedSize := int (length result' - length result)\<rparr>, result'))"

section \<open>Quantization parameters\<close>

record QuantizedScale =
  qs_scale :: int
  qs_shift :: int

datatype QuantizationType = TFLITE | EXPLICIT

record Quantization =
  q_type :: QuantizationType
  q_scales :: "QuantizedScale list"
  q_zeroPoints :: "int list"
  q_quantMin :: "int list"
  q_quantMax :: "int list"
  q_dimension :: int

text \<open>\<open>qsrc_biases\<close> reads the bias buffer at the element width of its type.\<close>

record QParamSource =
  qsrc_biasType :: u16
  qsrc_quantization :: Quantization
  qsrc_biases :: "(int \<Rightarrow> int) option"
  qsrc_biasCount :: int
  qsrc_depthOffset :: int
  qsrc_depthLength :: int

definition new_QParamSource :: "u16 \<Rightarrow> Quantization \<Rightarrow> QParamSource" where
  "new_QParamSource biasType q = \<lparr>qsrc_biasType = biasType, qsrc_quantization = q, qsrc_biases = None, qsrc_biasCount = 0,
     qsrc_depthOffset = 0, qsrc_depthLength = 0\<rparr>"

definition Bias :: "QParamSource \<Rightarrow> int \<Rightarrow> int" where
  "Bias s index = (case qsrc_biases s of None \<Rightarrow> 0 | Some b \<Rightarrow> b (index mod qsrc_biasCount s))"

definition at_channel :: "'a list \<Rightarrow> int \<Rightarrow> 'a" where
  "at_channel xs channel = xs ! (nat channel mod length xs)"

definition qparam_SetSource ::
    "QParamSource \<Rightarrow> (int \<Rightarrow> int) option \<Rightarrow> int \<Rightarrow> int \<Rightarrow> int \<Rightarrow> int \<Rightarrow> encode_error + QParamSource" where
  "qparam_SetSource s buffer biasCount depthOffset depthLength streamIndex =
     (if streamIndex \<noteq> 0 \<or> biasCount \<le> 0 \<or> depthOffset < 0 \<or> depthLength \<le> 0
      then Inl InvalidQuantizationSource
      else Inr (s\<lparr>qsrc_biases := buffer, qsrc_biasCount := biasCount,
                  qsrc_depthOffset := depthOffset, qsrc_depthLength := depthLength\<rparr>))"

definition qparam_Elements :: "QParamSource \<Rightarrow> int" where
  "qparam_Elements s = RoundAway_int (qsrc_depthLength s) 32"

definition qparam_Get :: "QParamSource \<Rightarrow> int \<Rightarrow> (int \<times> QuantizedScale) list" where
  "qparam_Get s count =
     map (\<lambda>index. let channel = qsrc_depthOffset s + int index
            in (Bias s channel, at_channel (q_scales (qsrc_quantization s)) channel))
       [0..<nat (min count (qsrc_depthLength s))]"

definition clamp :: "int \<Rightarrow> int \<Rightarrow> int \<Rightarrow> int" where
  "clamp v lo hi = (if v < lo then lo else if hi < v then hi else v)"

definition requested_min :: "Quantization \<Rightarrow> int \<Rightarrow> int" where
  "requested_min q channel = (if q_quantMin q = [] then - 128 else at_channel (q_quantMin q) channel)"

definition requested_max :: "Quantization \<Rightarrow> int \<Rightarrow> int" where
  "requested_max q channel = (if q_quantMax q = [] then 127 else at_channel (q_quantMax q) channel)"

definition clamp_pair :: "QParamSource \<Rightarrow> int \<Rightarrow> int \<times> int" where
  "clamp_pair s lane =
     (let channel = qsrc_depthOffset s + min lane (qsrc_depthLength s - 1); q = qsrc_quantization s
      in (clamp (requested_min q channel) (- 128) 127, clamp (requested_max q channel) (- 128) 127))"

fun check_lanes :: "QParamSource \<Rightarrow> int \<times> int \<Rightarrow> int list \<Rightarrow> encode_error + unit" where
  "check_lanes s block_clamp [] = Inr ()"
| "check_lanes s block_clamp (lane # lanes) =
     (let c = clamp_pair s lane
      in if snd c < fst c then Inl ClampOrder
         else if fst c \<noteq> fst block_clamp \<or> snd c \<noteq> snd block_clamp then Inl ClampNotUniform
         else check_lanes s block_clamp lanes)"

fun check_blocks :: "QParamSource \<Rightarrow> nat list \<Rightarrow> encode_error + unit" where
  "check_blocks s [] = Inr ()"
| "check_blocks s (b # bs) =
     (let blockStart = 32 * int b
      in case check_lanes s (clamp_pair s blockStart)
             [blockStart..min (blockStart + 32) (qparam_Elements s) - 1] of
           Inl e \<Rightarrow> Inl e
         | Inr u \<Rightarrow> check_blocks s bs)"

definition lane_scale ::
    "(QuantizedScale \<Rightarrow> QuantizedScale option) \<Rightarrow> QParamSource \<Rightarrow> int \<Rightarrow> QuantizedScale option" where
  "lane_scale calculate s index =
     (let padding = qsrc_depthLength s \<le> index;
          channel = qsrc_depthOffset s + min index (qsrc_depthLength s - 1);
          scale = (if padding then \<lparr>qs_scale = 0, qs_shift = 0\<rparr>
            else at_channel (q_scales (qsrc_quantization s)) channel)
      in if \<not> padding \<and> (qs_shift scale < 0 \<or> 31 < qs_shift scale) then calculate scale
         else Some scale)"

definition fits_int32 :: "int \<Rightarrow> bool" where
  "fits_int32 v \<longleftrightarrow> \<not> (v < - (2 ^ 31) \<or> 2 ^ 31 - 1 < v)"

definition encode_lane ::
    "(QuantizedScale \<Rightarrow> QuantizedScale option) \<Rightarrow> QParamSource \<Rightarrow> int \<Rightarrow> bytes \<Rightarrow> encode_error + bytes" where
  "encode_lane calculate s index result =
     (let padding = qsrc_depthLength s \<le> index; q = qsrc_quantization s;
          channel = qsrc_depthOffset s + min index (qsrc_depthLength s - 1)
      in case lane_scale calculate s index of
           None \<Rightarrow> Inl ScaleNotRepresentable
         | Some scale \<Rightarrow>
             (let bias = (if padding then 0 else Bias s channel);
                  zeroPoint = (if padding \<or> q_zeroPoints q = [] then 0
                    else at_channel (q_zeroPoints q) channel);
                  clampChannel = (if qsrc_depthLength s = 0 then 0
                    else qsrc_depthOffset s + min index (qsrc_depthLength s - 1));
                  requestedClampMin = requested_min q clampChannel;
                  requestedClampMax = requested_max q clampChannel;
                  clampMin = clamp requestedClampMin (- 128) 127;
                  clampMax = clamp requestedClampMax (- 128) 127
              in if requestedClampMax < requestedClampMin then Inl ClampOrder
                 else if \<not> fits_int32 bias then Inl BiasOutOfRange
                 else if qs_shift scale < 0 \<or> 31 < qs_shift scale then Inl ShiftOutOfRange
                 else if \<not> fits_int32 clampMin \<or> \<not> fits_int32 clampMax \<or> clampMax < clampMin
                   then Inl ClampInvalid
                 else Inr (foldl Append32 result
                        [word_of_int bias, word_of_int (qs_scale scale), word_of_int (qs_shift scale),
                         word_of_int zeroPoint, word_of_int clampMin, word_of_int clampMax, 0, 0])))"

fun encode_lanes ::
    "(QuantizedScale \<Rightarrow> QuantizedScale option) \<Rightarrow> QParamSource \<Rightarrow> nat list \<Rightarrow> bytes \<Rightarrow> encode_error + bytes" where
  "encode_lanes calculate s [] result = Inr result"
| "encode_lanes calculate s (index # is) result =
     (case encode_lane calculate s (int index) result of Inl e \<Rightarrow> Inl e
      | Inr result' \<Rightarrow> encode_lanes calculate s is result')"

definition sizeof_QParamV1 :: int where "sizeof_QParamV1 = 32"

definition qparam_Encode ::
    "(QuantizedScale \<Rightarrow> QuantizedScale option) \<Rightarrow> QParamSource \<Rightarrow> bytes \<Rightarrow> bool \<Rightarrow> encode_error + int \<times> bytes" where
  "qparam_Encode calculate s result measureOnly =
     (let elements = qparam_Elements s
      in if measureOnly then Inr (elements * sizeof_QParamV1, result)
         else case check_blocks s [0..<nat ((elements + 31) div 32)] of
             Inl e \<Rightarrow> Inl e
           | Inr u \<Rightarrow> (case encode_lanes calculate s [0..<nat elements] result of
                 Inl e \<Rightarrow> Inl e
               | Inr result' \<Rightarrow> Inr (elements * sizeof_QParamV1, result')))"

section \<open>The encoder\<close>

record EncodingConfig =
  ec_ifmType :: u16
  ec_format :: u16
  ec_mode :: NeuralAIOpMode

text \<open>\<open>opCfg\<close> is the mode of the operation's configuration, \<open>None\<close> for a null pointer.\<close>

definition GetEncodingConfig :: "NeuralAIOpMode option \<Rightarrow> u16 \<Rightarrow> u16 \<Rightarrow> encode_error + EncodingConfig" where
  "GetEncodingConfig opCfg ifmType format =
     (case opCfg of None \<Rightarrow> Inl UnsupportedEncodingConfig
      | Some mode \<Rightarrow>
          if ifmType \<noteq> DataType_Int8 \<or> format \<noteq> WeightFormat_Default then Inl UnsupportedEncodingConfig
          else Inr \<lparr>ec_ifmType = ifmType, ec_format = format, ec_mode = mode\<rparr>)"

datatype weight_source_kind = DepthwiseWeightSource | MatrixWeightSource bool

definition GetWeightSource :: "EncodingConfig \<Rightarrow> u16 \<Rightarrow> encode_error + weight_source_kind" where
  "GetWeightSource config weightType =
     (if weightType \<noteq> DataType_Int8 then Inl WeightsNotInt8
      else if ec_mode config = DepthwiseC32S1Requant \<or> ec_mode config = DepthwiseC32S2Requant
        then Inr DepthwiseWeightSource
      else Inr (MatrixWeightSource (ec_mode config = Conv2DLinebufC32S1Requant \<or>
                  ec_mode config = Conv2DLinebufC32S2Requant)))"

definition GetScaleSource :: "u16 \<Rightarrow> Quantization \<Rightarrow> encode_error + QParamSource" where
  "GetScaleSource scaleType explicitQuant =
     (if (scaleType \<noteq> DataType_Int32 \<and> scaleType \<noteq> DataType_Int64) \<or> q_scales explicitQuant = []
      then Inl UnsupportedScaleSource else Inr (new_QParamSource scaleType explicitQuant))"

end
