(* ===== verification/NAI_WeightProof.thy ===== *)
theory NAI_WeightProof
  imports NAI_Weights
begin

text \<open>
  Facts about the weight encoder: what a nest of packing loops leaves at every index, the layouts of
  the three weight sources as index formulas, and the encoder as a map over the packed values.
\<close>

section \<open>Nested packing loops\<close>

definition filled :: "'v \<Rightarrow> 'v option list \<Rightarrow> 'v list" where
  "filled z vs = map (\<lambda>v. case v of None \<Rightarrow> z | Some x \<Rightarrow> x) vs"

lemma fold_emit:
  "fold emit vs (pre @ replicate (length vs) z, length pre) = (pre @ filled z vs, length pre + length vs)"
proof (induction vs arbitrary: pre)
  case (Cons v vs)
  have "emit v (pre @ replicate (length (v # vs)) z, length pre) =
      ((pre @ filled z [v]) @ replicate (length vs) z, length (pre @ filled z [v]))"
    by (cases v) (simp_all add: emit_def filled_def)
  with Cons.IH [of "pre @ filled z [v]"] show ?case
    by (simp add: filled_def)
qed (simp add: filled_def)

lemma fold_emit_zero: "length vs = n \<Longrightarrow> fst (fold emit vs (replicate n z, 0)) = filled z vs"
  using fold_emit [of vs "[]" z] by simp

lemma fold_emit_map: "fold (\<lambda>x. emit (g x)) xs = fold emit (map g xs)"
  by (simp add: fold_map comp_def)

lemma fold_emit_nest:
  assumes "\<And>a. f a = fold emit (vs a)"
  shows "fold f as = fold emit (concat (map vs as))"
  using assms by (induction as) auto

text \<open>\<open>rows n L row\<close> is the concatenation of \<open>n\<close> rows of length \<open>L\<close>; it is read at row and column.\<close>

definition rows :: "nat \<Rightarrow> (nat \<Rightarrow> 'v list) \<Rightarrow> 'v list" where
  "rows n row = concat (map row [0..<n])"

lemma rows_length: "(\<And>a. length (row a) = L) \<Longrightarrow> length (rows n row) = n * L"
  unfolding rows_def by (induction n) auto

lemma row_bound: "a < n \<Longrightarrow> b < L \<Longrightarrow> a * L + b < n * L" for a b n L :: nat
proof -
  assume "a < n" "b < L"
  then have "a * L + b < Suc a * L" by simp
  also have "\<dots> \<le> n * L" using \<open>a < n\<close> by (intro mult_le_mono1) simp
  finally show ?thesis .
qed


lemma rows_nth:
  assumes "\<And>a. length (row a) = L" and "a < n" and "b < L"
  shows "rows n row ! (a * L + b) = row a ! b"
  using assms(2)
proof (induction n)
  case (Suc n)
  have split: "rows (Suc n) row = rows n row @ row n" by (simp add: rows_def)
  show ?case
  proof (cases "a = n")
    case True
    with rows_length [OF assms(1), where n = n] show ?thesis
      by (simp add: split nth_append)
  next
    case False
    with Suc.prems have "a < n" by simp
    with Suc.IH row_bound [OF this assms(3)] rows_length [OF assms(1), where n = n] show ?thesis
      by (simp add: split nth_append)
  qed
qed simp

lemma fold_rows:
  assumes "\<And>a. f a = fold emit (row a)"
  shows "fold f [0..<n] = fold emit (rows n row)"
  unfolding rows_def using assms by (rule fold_emit_nest)

definition rows4 :: "nat \<Rightarrow> nat \<Rightarrow> nat \<Rightarrow> nat \<Rightarrow> (nat \<Rightarrow> nat \<Rightarrow> nat \<Rightarrow> nat \<Rightarrow> 'v) \<Rightarrow> 'v list" where
  "rows4 A B C D g = rows A (\<lambda>a. rows B (\<lambda>b. rows C (\<lambda>c. map (g a b c) [0..<D])))"

lemma rows4_length: "length (rows4 A B C D g) = A * (B * (C * D))"
  unfolding rows4_def by (intro rows_length) simp

lemma rows4_nth:
  assumes "a < A" "b < B" "c < C" "d < D"
  shows "rows4 A B C D g ! (((a * B + b) * C + c) * D + d) = g a b c d"
proof -
  have "((a * B + b) * C + c) * D + d = a * (B * (C * D)) + (b * (C * D) + (c * D + d))"
    by (simp add: algebra_simps)
  also have "rows4 A B C D g ! \<dots> = rows B (\<lambda>b. rows C (\<lambda>c. map (g a b c) [0..<D])) ! (b * (C * D) + (c * D + d))"
    unfolding rows4_def by (intro rows_nth rows_length row_bound assms) simp
  also have "\<dots> = rows C (\<lambda>c. map (g a b c) [0..<D]) ! (c * D + d)"
    by (intro rows_nth rows_length row_bound assms) simp
  also have "\<dots> = map (g a b c) [0..<D] ! d"
    by (intro rows_nth assms) simp
  finally show ?thesis using assms(4) by simp
qed

lemma loops4:
  "fold (\<lambda>a. fold (\<lambda>b. fold (\<lambda>c. fold (\<lambda>d. emit (g a b c d)) [0..<D]) [0..<C]) [0..<B]) [0..<A] =
    fold emit (rows4 A B C D g)"
  unfolding rows4_def by (intro fold_rows fold_emit_map)

lemma loops6:
  "fold (\<lambda>a. fold (\<lambda>b. fold (\<lambda>c. fold (\<lambda>d. fold (\<lambda>e. fold (\<lambda>f. emit (g a b c d e f)) [0..<F]) [0..<E])
      [0..<D]) [0..<C]) [0..<B]) [0..<A] =
    fold emit (rows A (\<lambda>a. rows B (\<lambda>b. rows4 C D E F (g a b))))"
  unfolding rows4_def by (intro fold_rows fold_emit_map)

lemma rows6_nth:
  assumes "a < A" "b < B" "c < C" "d < D" "e < E" "f < F"
  shows "rows A (\<lambda>a. rows B (\<lambda>b. rows4 C D E F (g a b))) !
      (((((a * B + b) * C + c) * D + d) * E + e) * F + f) = g a b c d e f"
proof -
  define L where "L = C * (D * (E * F))"
  define r where "r = ((c * D + d) * E + e) * F + f"
  have r: "r = c * (D * (E * F)) + (d * (E * F) + (e * F + f))"
    by (simp add: r_def algebra_simps)
  have "r < L"
    unfolding r L_def by (intro row_bound assms)
  have "((((a * B + b) * C + c) * D + d) * E + e) * F + f = a * (B * L) + (b * L + r)"
    by (simp add: L_def r algebra_simps)
  also have "rows A (\<lambda>a. rows B (\<lambda>b. rows4 C D E F (g a b))) ! \<dots> =
      rows B (\<lambda>b. rows4 C D E F (g a b)) ! (b * L + r)"
    by (intro rows_nth rows_length row_bound assms \<open>r < L\<close>) (simp add: rows4_length L_def)
  also have "\<dots> = rows4 C D E F (g a b) ! r"
    by (intro rows_nth assms \<open>r < L\<close>) (simp add: rows4_length L_def)
  finally show ?thesis
    using rows4_nth [OF assms(3-6), of "g a b"] by (simp add: r_def)
qed

section \<open>Layouts of the packed weights\<close>

definition groups32 :: "int \<Rightarrow> nat" where
  "groups32 d = (nat d + 31) div 32"

lemma RoundAway_groups:
  assumes "0 \<le> d"
  shows "nat (RoundAway_int d 32) = 32 * groups32 d"
proof -
  have ceil: "(32 * q + r + 31) div 32 = Suc q" if "0 < r" "r < 32" for q r :: nat
    by (rule div_nat_eqI) (use that in simp_all)
  have "nat d + padding (nat d) = 32 * ((nat d + 31) div 32)"
    by (rule padding_cases [of "nat d"]) (simp_all add: ceil)
  then show ?thesis unfolding RoundAway_int_nonneg [OF assms] nat_int groups32_def .
qed

lemma RoundAway_groups_div: "0 \<le> d \<Longrightarrow> nat (RoundAway_int d 32) div 32 = groups32 d"
  by (simp add: RoundAway_groups)


text \<open>Where the weight of output channel \<open>n\<close> and reduction index \<open>k\<close> is stored: tiles of 32 by 32,
  output groups outermost, with the reduction index as the row of a tile.\<close>

definition tile_index :: "nat \<Rightarrow> nat \<Rightarrow> nat \<Rightarrow> nat" where
  "tile_index kGroups n k = ((n div 32 * kGroups + k div 32) * 32 + k mod 32) * 32 + n mod 32"

lemma tiles_nth:
  assumes "n < 32 * nGroups" and "k < 32 * kGroups"
  shows "rows4 nGroups kGroups 32 32 g ! tile_index kGroups n k =
    g (n div 32) (k div 32) (k mod 32) (n mod 32)"
  unfolding tile_index_def using assms by (intro rows4_nth) (simp_all add: less_mult_imp_div_less mult.commute)

lemma tile_index_bound:
  assumes "n < 32 * nGroups" and "k < 32 * kGroups"
  shows "tile_index kGroups n k < nGroups * (kGroups * (32 * 32))"
proof -
  have "tile_index kGroups n k < nGroups * kGroups * 32 * 32"
    unfolding tile_index_def using assms
    by (intro row_bound) (simp_all add: less_mult_imp_div_less mult.commute)
  then show ?thesis by (simp add: mult.assoc)
qed

definition optional :: "'v \<Rightarrow> 'v option \<Rightarrow> 'v" where
  "optional z v = (case v of None \<Rightarrow> z | Some x \<Rightarrow> x)"

lemma filled_eq: "filled z vs = map (optional z) vs"
  by (simp add: filled_def optional_def)

lemma PackGEMM32Weights_eq:
  assumes "0 < depthK" "0 < depthN"
  shows "PackGEMM32Weights (Some w) depthK depthN =
    Inr (filled 0 (rows4 (groups32 depthN) (groups32 depthK) 32 32 (gemm_lane w depthK depthN)))"
  using assms by (simp add: PackGEMM32Weights_def RoundAway_groups_div loops4 Let_def)
    (rule fold_emit_zero, simp add: rows4_length)


lemma grouped_SetSource_eq:
  assumes "0 < shape_batch shape" "0 < shape_height shape" "0 < shape_width shape" "0 < shape_depth shape"
  shows "matrix_SetSource transform True (Some source) off shape strides 0 =
    Inr \<lparr>vs_packed = filled 0 (rows (groups32 (shape_batch shape)) (\<lambda>a. rows (groups32 (shape_depth shape))
           (\<lambda>b. rows4 (nat (shape_height shape)) (nat (shape_width shape)) 32 32
             (grouped_lane transform source off shape strides a b)))),
         vs_sourceElements = shape_batch shape *
           (shape_height shape * shape_width shape * shape_depth shape), vs_position = 0\<rparr>"
proof -
  have "RoundAway_int (shape_depth shape) 32 = int (32 * groups32 (shape_depth shape))"
    using RoundAway_groups [of "shape_depth shape"] RoundAway_int_nonneg [of "shape_depth shape"] assms(4)
    by (metis int_nat_eq of_nat_0_le_iff order_less_imp_le)
  then have "nat (shape_height shape * shape_width shape * RoundAway_int (shape_depth shape) 32) div 32 =
      nat (shape_height shape) * nat (shape_width shape) * groups32 (shape_depth shape)"
    using assms by (simp add: nat_mult_distrib)
  then show ?thesis
    using assms
    by (simp add: matrix_SetSource_def RoundAway_groups_div loops6 Let_def)
      (rule fold_emit_zero, subst rows_length, rule rows_length, rule rows4_length, simp)
qed

lemma depthwise_SetSource_eq:
  assumes "0 < shape_batch shape" "0 < shape_height shape" "0 < shape_width shape" "0 < shape_depth shape"
    and "shape_batch shape = 1 \<or> shape_depth shape = 1" and "0 \<le> off"
  defines "C \<equiv> max (shape_batch shape) (shape_depth shape)"
  shows "depthwise_SetSource transform (Some source) off shape strides 0 =
    Inr \<lparr>vs_packed = filled 0 (rows4 (groups32 C) (nat (shape_height shape)) (nat (shape_width shape)) 32
           (depthwise_lane transform source off shape strides)),
         vs_sourceElements = C * shape_height shape * shape_width shape, vs_position = 0\<rparr>"
proof -
  have "0 \<le> C" using assms by (simp add: C_def)
  then show ?thesis
    using assms(1-6)
    by (simp add: depthwise_SetSource_def RoundAway_groups_div loops4 Let_def flip: C_def)
      (rule fold_emit_zero, simp add: rows4_length)
qed

section \<open>Encoding\<close>

definition in_int8 :: "16 word \<Rightarrow> bool" where
  "in_int8 v \<longleftrightarrow> - 128 \<le> sint v \<and> sint v \<le> 127"

definition used_bit :: "u64 list \<Rightarrow> int \<Rightarrow> bool" where
  "used_bit used x = bit (used ! (nat (x + 256) div 64)) (nat (x + 256) mod 64)"

definition mark_used :: "16 word \<Rightarrow> u64 list \<Rightarrow> u64 list" where
  "mark_used v used = used[nat (sint v + 256) div 64 :=
     set_bit (nat (sint v + 256) mod 64) (used ! (nat (sint v + 256) div 64))]"

lemma encode_values_append:
  "encode_values (xs @ ys) s = (case encode_values xs s of Inl e \<Rightarrow> Inl e | Inr s' \<Rightarrow> encode_values ys s')"
  by (induction xs arbitrary: s) (auto split: sum.split)

declare encode_chunks.simps [simp del]

lemma encode_chunks_eq: "encode_chunks source s = encode_values (drop (vs_position source) (vs_packed source)) s"
proof (induction source s rule: encode_chunks.induct)
  case (1 source s)
  define vals where "vals = take 1024 (drop (vs_position source) (vs_packed source))"
  define source' where "source' = source\<lparr>vs_position := vs_position source + length vals\<rparr>"
  have get: "VolumeSource_Get 1024 source = (vals, source')"
    by (cases "length (vs_packed source) - vs_position source \<le> 1024")
      (simp_all add: VolumeSource_Get_def vals_def source'_def Let_def)
  have rest: "drop (vs_position source) (vs_packed source) =
      vals @ drop (vs_position source') (vs_packed source')"
  proof -
    define xs where "xs = drop (vs_position source) (vs_packed source)"
    have "drop (vs_position source') (vs_packed source') = drop (length vals) xs"
      by (simp add: source'_def xs_def add.commute)
    moreover have "xs = vals @ drop (length vals) xs"
      by (cases "length xs \<le> 1024") (simp_all add: vals_def flip: xs_def)
    ultimately show ?thesis by (simp add: xs_def)
  qed
  show ?case
  proof (cases "vals = []")
    case True
    then have "drop (vs_position source) (vs_packed source) = []"
      by (simp add: vals_def)
    with True get show ?thesis by (simp add: encode_chunks.simps [of source s])
  next
    case False
    with 1 get show ?thesis
      unfolding rest encode_values_append
      by (subst encode_chunks.simps) (auto split: sum.split)
  qed
qed

lemma encode_value_eq:
  "encode_value v (info, result) =
    (if in_int8 v
     then Inr (info\<lparr>wi_zeroCount := wi_zeroCount info + (if v = 0 then 1 else 0),
                   wi_weightsUsed := mark_used v (wi_weightsUsed info)\<rparr>,
               result @ [word_of_int (sint v)])
     else Inl WeightOutOfRange)"
  by (simp add: encode_value_def Let_def in_int8_def mark_used_def signed_eq_0_iff not_less)

lemma encode_values_eq:
  "encode_values vs (info, result) =
    (if list_all in_int8 vs
     then Inr (info\<lparr>wi_zeroCount := wi_zeroCount info + int (length (filter (\<lambda>v. v = 0) vs)),
                   wi_weightsUsed := fold mark_used vs (wi_weightsUsed info)\<rparr>,
               result @ map (\<lambda>v. word_of_int (sint v)) vs)
     else Inl WeightOutOfRange)"
proof (induction vs arbitrary: info result)
  case (Cons v vs)
  show ?case
    by (simp add: encode_value_eq Cons.IH)
qed simp

lemma used_bit_mark:
  assumes "length used = 8" "in_int8 v" "- 128 \<le> x" "x \<le> 127"
  shows "used_bit (mark_used v used) x \<longleftrightarrow> x = sint v \<or> used_bit used x"
proof -
  define m where "m = nat (sint v + 256)"
  define n where "n = nat (x + 256)"
  have eq: "x = sint v \<longleftrightarrow> n = m"
    using assms by (auto simp: m_def n_def in_int8_def)
  have "m < 512" "n < 512" using assms by (auto simp: m_def n_def in_int8_def)
  then have div: "m div 64 < 8" "n div 64 < 8" by (simp_all add: less_mult_imp_div_less)
  have "n = m" if "n div 64 = m div 64" "n mod 64 = m mod 64"
    by (metis div_mult_mod_eq that)
  then have nm: "n = m \<longleftrightarrow> n div 64 = m div 64 \<and> n mod 64 = m mod 64" by blast
  have bit: "bit (set_bit i w) j \<longleftrightarrow> j = i \<or> bit w j" if "j < 64" for w :: u64 and i j
    using that by (auto simp: bit_set_bit_iff)
  have "bit (used[m div 64 := set_bit (m mod 64) (used ! (m div 64))] ! (n div 64)) (n mod 64) \<longleftrightarrow>
      (n div 64 = m div 64 \<and> n mod 64 = m mod 64) \<or> bit (used ! (n div 64)) (n mod 64)"
    by (cases "n div 64 = m div 64") (simp_all add: bit div assms(1))
  then show ?thesis
    unfolding eq used_bit_def mark_used_def m_def [symmetric] n_def [symmetric] nm .
qed

lemma used_bits:
  assumes "length used = 8" "list_all in_int8 vs" "- 128 \<le> x" "x \<le> 127"
  shows "used_bit (fold mark_used vs used) x \<longleftrightarrow> x \<in> sint ` set vs \<or> used_bit used x"
  using assms
proof (induction vs arbitrary: used)
  case (Cons v vs)
  then show ?case
    using used_bit_mark [of used v x] Cons.IH [of "mark_used v used"] by (auto simp: mark_used_def)
qed simp

lemma used_bit_empty: "- 128 \<le> x \<Longrightarrow> x \<le> 127 \<Longrightarrow> \<not> used_bit (replicate 8 0) x"
  by (simp add: used_bit_def less_mult_imp_div_less)

lemma EncodeWeights_eq:
  assumes "vs_position source = 0"
  shows "EncodeWeights source result =
    (if list_all in_int8 (vs_packed source)
     then Inr ((empty_info (vs_sourceElements source))\<lparr>
          wi_encodedSize := int (length (vs_packed source)),
          wi_zeroCount := int (length (filter (\<lambda>v. v = 0) (vs_packed source))),
          wi_weightsUsed := fold mark_used (vs_packed source) (replicate 8 0)\<rparr>,
        result @ map (\<lambda>v. word_of_int (sint v)) (vs_packed source))
     else Inl WeightOutOfRange)"
  by (simp add: EncodeWeights_def encode_chunks_eq encode_values_eq assms empty_info_def)

section \<open>Weights in the encoded stream\<close>

lemma rows_all: "(\<And>a. a < n \<Longrightarrow> list_all P (row a)) \<Longrightarrow> list_all P (rows n row)"
  by (auto simp: rows_def list_all_iff)

lemma rows4_all:
  assumes "\<And>a b c d. a < A \<Longrightarrow> b < B \<Longrightarrow> c < C \<Longrightarrow> d < D \<Longrightarrow> P (g a b c d)"
  shows "list_all P (rows4 A B C D g)"
  unfolding rows4_def by (intro rows_all) (auto simp: list_all_iff assms)

lemma sint_int8:
  assumes "- 128 \<le> x" "x \<le> 127"
  shows "sint (word_of_int x :: 16 word) = x"
  using assms by (simp add: sint_sbintrunc' signed_take_bit_int_eq_self)

lemma in_int8_word_of_int: "- 128 \<le> x \<Longrightarrow> x \<le> 127 \<Longrightarrow> in_int8 (word_of_int x)"
  by (simp add: in_int8_def sint_int8)

text \<open>A lane holds nothing or a weight in the range of a signed byte.\<close>

definition lane_ok :: "16 word option \<Rightarrow> bool" where
  "lane_ok v \<longleftrightarrow> (case v of None \<Rightarrow> True | Some x \<Rightarrow> in_int8 x)"

definition lane_byte :: "16 word option \<Rightarrow> u8" where
  "lane_byte v = (case v of None \<Rightarrow> 0 | Some x \<Rightarrow> word_of_int (sint x))"

lemma EncodeWeights_lanes:
  assumes "vs_packed source = filled 0 lanes" and "vs_position source = 0" and "list_all lane_ok lanes"
  shows "\<exists>info. EncodeWeights source result = Inr (info, result @ map lane_byte lanes) \<and>
    wi_sourceSize info = vs_sourceElements source \<and> wi_encodedSize info = int (length lanes)"
proof -
  have "list_all in_int8 (filled 0 lanes)"
    using assms(3) by (auto simp: filled_eq list_all_iff lane_ok_def optional_def in_int8_def split: option.splits)
  moreover have "map (\<lambda>v. word_of_int (sint v)) (filled 0 lanes) = map lane_byte lanes"
    by (auto simp: filled_eq lane_byte_def optional_def split: option.split)
  ultimately show ?thesis
    by (simp add: EncodeWeights_eq assms(1,2) filled_def empty_info_def)
qed

definition weight_at ::
    "weight_transform \<Rightarrow> weight_buffer \<Rightarrow> int \<Rightarrow> Shape4 \<Rightarrow> nat \<Rightarrow> nat \<Rightarrow> nat \<Rightarrow> nat \<Rightarrow> int" where
  "weight_at transform source off strides n h w i =
     transform_weight transform (off + int n) (int h) (int w) (int i)
       (sint (source (Dot (shape4 (off + int n) (int h) (int w) (int i)) strides)))"

definition weights_in_range ::
    "weight_transform \<Rightarrow> weight_buffer \<Rightarrow> int \<Rightarrow> Shape4 \<Rightarrow> nat \<Rightarrow> nat \<Rightarrow> nat \<Rightarrow> nat \<Rightarrow> bool" where
  "weights_in_range transform source off strides N H W I \<longleftrightarrow>
     (\<forall>n < N. \<forall>h < H. \<forall>w < W. \<forall>i < I. - 128 \<le> weight_at transform source off strides n h w i \<and>
        weight_at transform source off strides n h w i \<le> 127)"













text \<open>Another layout: input groups outside the kernel positions, one tile for each of them.\<close>

definition grouped_index :: "nat \<Rightarrow> nat \<Rightarrow> nat \<Rightarrow> nat \<Rightarrow> nat \<Rightarrow> nat \<Rightarrow> nat \<Rightarrow> nat" where
  "grouped_index inputGroups H W n h w i =
     ((((n div 32 * inputGroups + i div 32) * H + h) * W + w) * 32 + i mod 32) * 32 + n mod 32"

definition grouped_lanes ::
    "weight_transform \<Rightarrow> weight_buffer \<Rightarrow> int \<Rightarrow> Shape4 \<Rightarrow> nat \<Rightarrow> nat \<Rightarrow> nat \<Rightarrow> nat \<Rightarrow> 16 word option list" where
  "grouped_lanes transform source off strides N H W I =
     rows (groups32 (int N)) (\<lambda>a. rows (groups32 (int I)) (\<lambda>b. rows4 H W 32 32
       (grouped_lane transform source off (shape4 (int N) (int H) (int W) (int I)) strides a b)))"

lemma grouped_lane_eq:
  "grouped_lane transform source off (shape4 (int N) (int H) (int W) (int I)) strides a b h w c d =
    (if b * 32 + c < I \<and> a * 32 + d < N
     then Some (word_of_int (weight_at transform source off strides (a * 32 + d) h w (b * 32 + c))) else None)"
proof -
  have "int b * 32 + int c < int I \<longleftrightarrow> b * 32 + c < I" "int a * 32 + int d < int N \<longleftrightarrow> a * 32 + d < N"
    by linarith+
  then show ?thesis
    by (simp add: grouped_lane_def matrix_weight_def weight_at_def shape4_def Let_def)
qed

lemma length_grouped_lanes:
  "length (grouped_lanes transform source off strides N H W I) =
     groups32 (int N) * (groups32 (int I) * (H * (W * (32 * 32))))"
  unfolding grouped_lanes_def by (intro rows_length rows4_length)

lemma grouped_lanes_ok:
  assumes "weights_in_range transform source off strides N H W I"
  shows "list_all lane_ok (grouped_lanes transform source off strides N H W I)"
  unfolding grouped_lanes_def grouped_lane_eq
  by (intro rows_all rows4_all)
    (use assms in \<open>auto simp: lane_ok_def weights_in_range_def intro!: in_int8_word_of_int\<close>)

lemma grouped_index_bound:
  assumes "n < 32 * nGroups" "i < 32 * inputGroups" "h < H" "w < W"
  shows "grouped_index inputGroups H W n h w i < nGroups * (inputGroups * (H * (W * (32 * 32))))"
proof -
  have "grouped_index inputGroups H W n h w i < nGroups * inputGroups * H * W * 32 * 32"
    unfolding grouped_index_def using assms
    by (intro row_bound) (simp_all add: less_mult_imp_div_less mult.commute)
  then show ?thesis by (simp add: mult.assoc)
qed

lemma grouped_lanes_nth:
  assumes "weights_in_range transform source off strides N H W I"
    and "n < 32 * groups32 (int N)" "i < 32 * groups32 (int I)" "h < H" "w < W"
  shows "map lane_byte (grouped_lanes transform source off strides N H W I) !
    grouped_index (groups32 (int I)) H W n h w i =
    (if n < N \<and> i < I then word_of_int (weight_at transform source off strides n h w i) else 0)"
proof -
  have "grouped_lanes transform source off strides N H W I ! grouped_index (groups32 (int I)) H W n h w i =
      (if i < I \<and> n < N then Some (word_of_int (weight_at transform source off strides n h w i)) else None)"
    unfolding grouped_lanes_def grouped_lane_eq grouped_index_def
    by (subst rows6_nth) (use assms(2-5) in \<open>simp_all add: less_mult_imp_div_less mult.commute\<close>)
  moreover have "- 128 \<le> weight_at transform source off strides n h w i \<and>
      weight_at transform source off strides n h w i \<le> 127" if "n < N" "i < I"
    using assms that unfolding weights_in_range_def by blast
  ultimately show ?thesis
    using grouped_index_bound [OF assms(2-5)] by (simp add: length_grouped_lanes lane_byte_def sint_int8)
qed

text \<open>The grouped layout of the line buffer kernels.  Under the same hypotheses the byte at the
  grouped index of every output channel, kernel position and input channel of the padded channel
  groups is the weight, or zero in the padding.\<close>

lemma grouped_weights_encoded:
  assumes "0 < N" "0 < H" "0 < W" "0 < I" and "weights_in_range transform source off strides N H W I"
  shows "\<exists>src info bs.
    matrix_SetSource transform True (Some source) off (shape4 (int N) (int H) (int W) (int I)) strides 0 = Inr src \<and>
    EncodeWeights src result = Inr (info, result @ bs) \<and>
    wi_sourceSize info = int (N * H * W * I) \<and> wi_encodedSize info = int (length bs) \<and>
    length bs = 1024 * (groups32 (int N) * groups32 (int I) * H * W) \<and>
    (\<forall>n < 32 * groups32 (int N). \<forall>h < H. \<forall>w < W. \<forall>i < 32 * groups32 (int I).
       bs ! grouped_index (groups32 (int I)) H W n h w i =
         (if n < N \<and> i < I then word_of_int (weight_at transform source off strides n h w i) else 0))"
proof -
  define lanes where "lanes = grouped_lanes transform source off strides N H W I"
  define src where "src = \<lparr>vs_packed = filled 0 lanes, vs_sourceElements = int (N * H * W * I), vs_position = 0\<rparr>"
  have "matrix_SetSource transform True (Some source) off (shape4 (int N) (int H) (int W) (int I)) strides 0 = Inr src"
    using assms(1-4) by (subst grouped_SetSource_eq)
      (simp_all add: shape4_def src_def lanes_def grouped_lanes_def mult.assoc)
  moreover obtain info where "EncodeWeights src result = Inr (info, result @ map lane_byte lanes)"
    "wi_sourceSize info = int (N * H * W * I)" "wi_encodedSize info = int (length lanes)"
    using EncodeWeights_lanes [of src lanes] grouped_lanes_ok [OF assms(5)]
    by (auto simp: src_def lanes_def)
  ultimately show ?thesis
    using grouped_lanes_nth [OF assms(5)]
    by (intro exI [where x = src] exI [where x = info] exI [where x = "map lane_byte lanes"])
      (simp add: lanes_def length_grouped_lanes)
qed

lemma grouped_weights_encoded_witness:
  "\<exists>src info bs.
    matrix_SetSource None True (Some (\<lambda>j. 7)) 0 (shape4 1 1 1 1) (shape4 1 1 1 1) 0 = Inr src \<and>
    EncodeWeights src [9] = Inr (info, [9] @ bs) \<and> length bs = 1024 \<and> bs ! 0 = 7"
  using grouped_weights_encoded [of 1 1 1 1 None "\<lambda>j. 7" 0 "shape4 1 1 1 1" "[9]"]
  by (force simp: weights_in_range_def weight_at_def transform_weight_def groups32_def grouped_index_def)

text \<open>The depthwise layout: one row of 32 lanes per channel group and kernel position.\<close>

definition depthwise_index :: "nat \<Rightarrow> nat \<Rightarrow> nat \<Rightarrow> nat \<Rightarrow> nat \<Rightarrow> nat" where
  "depthwise_index H W c h w = ((c div 32 * H + h) * W + w) * 32 + c mod 32"

definition depthwise_weight ::
    "weight_transform \<Rightarrow> weight_buffer \<Rightarrow> int \<Rightarrow> Shape4 \<Rightarrow> Shape4 \<Rightarrow> nat \<Rightarrow> nat \<Rightarrow> nat \<Rightarrow> int" where
  "depthwise_weight transform source off shape strides c h w =
     (let ch = off + int c; o' = (if 1 < shape_batch shape then ch else 0);
          i = (if 1 < shape_depth shape then ch else 0)
      in transform_weight transform ch (int h) (int w) ch
           (sint (source (Dot (shape4 o' (int h) (int w) i) strides))))"

definition depthwise_lanes ::
    "weight_transform \<Rightarrow> weight_buffer \<Rightarrow> int \<Rightarrow> Shape4 \<Rightarrow> Shape4 \<Rightarrow> nat \<Rightarrow> nat \<Rightarrow> nat \<Rightarrow> 16 word option list" where
  "depthwise_lanes transform source off shape strides C H W =
     rows4 (groups32 (int C)) H W 32 (depthwise_lane transform source off shape strides)"

definition depthwise_in_range ::
    "weight_transform \<Rightarrow> weight_buffer \<Rightarrow> int \<Rightarrow> Shape4 \<Rightarrow> Shape4 \<Rightarrow> nat \<Rightarrow> nat \<Rightarrow> nat \<Rightarrow> bool" where
  "depthwise_in_range transform source off shape strides C H W \<longleftrightarrow>
     (\<forall>c < C. \<forall>h < H. \<forall>w < W. - 128 \<le> depthwise_weight transform source off shape strides c h w \<and>
        depthwise_weight transform source off shape strides c h w \<le> 127)"

lemma depthwise_lane_eq:
  assumes "max (shape_batch shape) (shape_depth shape) = int C"
  shows "depthwise_lane transform source off shape strides a h w d =
    (if a * 32 + d < C
     then Some (word_of_int (depthwise_weight transform source off shape strides (a * 32 + d) h w)) else None)"
proof -
  have "int a * 32 + int d < int C \<longleftrightarrow> a * 32 + d < C" by linarith
  then show ?thesis
    by (simp add: depthwise_lane_def depthwise_weight_def Let_def assms)
qed

lemma depthwise_index_bound:
  assumes "c < 32 * groups" "h < H" "w < W"
  shows "depthwise_index H W c h w < groups * (H * (W * 32))"
proof -
  have "depthwise_index H W c h w < groups * H * W * 32"
    unfolding depthwise_index_def using assms
    by (intro row_bound) (simp_all add: less_mult_imp_div_less mult.commute)
  then show ?thesis by (simp add: mult.assoc)
qed

lemma depthwise_lanes_ok:
  assumes "max (shape_batch shape) (shape_depth shape) = int C"
    and "depthwise_in_range transform source off shape strides C H W"
  shows "list_all lane_ok (depthwise_lanes transform source off shape strides C H W)"
  unfolding depthwise_lanes_def depthwise_lane_eq [OF assms(1)]
  by (intro rows4_all)
    (use assms(2) in \<open>auto simp: lane_ok_def depthwise_in_range_def intro!: in_int8_word_of_int\<close>)

lemma depthwise_lanes_nth:
  assumes "max (shape_batch shape) (shape_depth shape) = int C"
    and "depthwise_in_range transform source off shape strides C H W"
    and "c < 32 * groups32 (int C)" "h < H" "w < W"
  shows "map lane_byte (depthwise_lanes transform source off shape strides C H W) ! depthwise_index H W c h w =
    (if c < C then word_of_int (depthwise_weight transform source off shape strides c h w) else 0)"
proof -
  have "depthwise_lanes transform source off shape strides C H W ! depthwise_index H W c h w =
      (if c < C then Some (word_of_int (depthwise_weight transform source off shape strides c h w)) else None)"
    unfolding depthwise_lanes_def depthwise_lane_eq [OF assms(1)] depthwise_index_def
    by (subst rows4_nth) (use assms(3-5) in \<open>simp_all add: less_mult_imp_div_less mult.commute\<close>)
  moreover have "- 128 \<le> depthwise_weight transform source off shape strides c h w \<and>
      depthwise_weight transform source off shape strides c h w \<le> 127" if "c < C"
    using assms(2,4,5) that unfolding depthwise_in_range_def by blast
  ultimately show ?thesis
    using depthwise_index_bound [OF assms(3-5)]
    by (simp add: depthwise_lanes_def rows4_length lane_byte_def sint_int8)
qed

text \<open>The depthwise layout.  For a shape with one channel axis the byte at the depthwise index of
  every channel of the padded groups and every kernel position is the channel's weight there, read
  through the axis that carries the channels, or zero in the padding.\<close>

lemma depthwise_weights_encoded:
  assumes "0 < shape_batch shape" "0 < shape_depth shape" "shape_batch shape = 1 \<or> shape_depth shape = 1"
    and "shape_height shape = int H" "shape_width shape = int W" "0 < H" "0 < W" "0 \<le> off"
    and "max (shape_batch shape) (shape_depth shape) = int C"
    and "depthwise_in_range transform source off shape strides C H W"
  shows "\<exists>src info bs. depthwise_SetSource transform (Some source) off shape strides 0 = Inr src \<and>
    EncodeWeights src result = Inr (info, result @ bs) \<and>
    wi_sourceSize info = int (C * H * W) \<and> wi_encodedSize info = int (length bs) \<and>
    length bs = 32 * (groups32 (int C) * H * W) \<and>
    (\<forall>c < 32 * groups32 (int C). \<forall>h < H. \<forall>w < W. bs ! depthwise_index H W c h w =
       (if c < C then word_of_int (depthwise_weight transform source off shape strides c h w) else 0))"
proof -
  define lanes where "lanes = depthwise_lanes transform source off shape strides C H W"
  define src where "src = \<lparr>vs_packed = filled 0 lanes, vs_sourceElements = int (C * H * W), vs_position = 0\<rparr>"
  have "depthwise_SetSource transform (Some source) off shape strides 0 = Inr src"
    using assms(1-9) by (subst depthwise_SetSource_eq)
      (simp_all add: src_def lanes_def depthwise_lanes_def)
  moreover obtain info where "EncodeWeights src result = Inr (info, result @ map lane_byte lanes)"
    "wi_sourceSize info = int (C * H * W)" "wi_encodedSize info = int (length lanes)"
    using EncodeWeights_lanes [of src lanes] depthwise_lanes_ok [OF assms(9,10)]
    by (auto simp: src_def lanes_def)
  ultimately show ?thesis
    using depthwise_lanes_nth [OF assms(9,10)]
    by (intro exI [where x = src] exI [where x = info] exI [where x = "map lane_byte lanes"])
      (simp add: lanes_def depthwise_lanes_def rows4_length)
qed

lemma depthwise_weights_encoded_witness:
  "\<exists>src info bs.
    depthwise_SetSource None (Some (\<lambda>j. 7)) 0 (shape4 1 1 1 2) (shape4 1 1 1 1) 0 = Inr src \<and>
    EncodeWeights src [9] = Inr (info, [9] @ bs) \<and> length bs = 32 \<and> bs ! 0 = 7"
  using depthwise_weights_encoded [of "shape4 1 1 1 2" 1 1 0 2 None "\<lambda>j. 7" "shape4 1 1 1 1" "[9]"]
  by (force simp: depthwise_in_range_def depthwise_weight_def transform_weight_def groups32_def
      depthwise_index_def shape4_def Let_def)

text \<open>Packing a GEMM weight matrix.  For positive sizes the result has a whole number of tiles, the
  byte at the tile index of column \<open>n\<close> and row \<open>k\<close> is the element \<open>k * N + n\<close> of the row-major matrix,
  and the bytes of the padding rows and columns are zero.\<close>

lemma pack_gemm32_layout:
  assumes "0 < depthK" and "0 < depthN"
  shows "\<exists>bs. PackGEMM32Weights (Some wts) depthK depthN = Inr bs \<and>
    length bs = 1024 * (groups32 depthN * groups32 depthK) \<and>
    (\<forall>n < 32 * groups32 depthN. \<forall>k < 32 * groups32 depthK. bs ! tile_index (groups32 depthK) n k =
       (if int k < depthK \<and> int n < depthN then wts (k * nat depthN + n) else 0))"
proof -
  define bs where "bs = filled 0 (rows4 (groups32 depthN) (groups32 depthK) 32 32 (gemm_lane wts depthK depthN))"
  have lane: "gemm_lane wts depthK depthN (n div 32) (k div 32) (k mod 32) (n mod 32) =
      (if int k < depthK \<and> int n < depthN then Some (wts (k * nat depthN + n)) else None)" for n k
    unfolding gemm_lane_def Let_def div_mult_mod_eq ..
  have "bs ! tile_index (groups32 depthK) n k =
      (if int k < depthK \<and> int n < depthN then wts (k * nat depthN + n) else 0)"
    if "n < 32 * groups32 depthN" "k < 32 * groups32 depthK" for n k
    using tile_index_bound [OF that]
    by (simp add: bs_def filled_eq rows4_length tiles_nth [OF that] lane optional_def)
  moreover have "PackGEMM32Weights (Some wts) depthK depthN = Inr bs"
    using assms by (simp add: bs_def PackGEMM32Weights_eq)
  ultimately show ?thesis
    by (simp add: bs_def filled_def rows4_length)
qed

lemma pack_gemm32_layout_witness:
  "\<exists>bs. PackGEMM32Weights (Some (\<lambda>j. word_of_nat j)) 3 2 = Inr bs \<and> length bs = 1024 \<and>
    bs ! 33 = 3 \<and> bs ! 34 = 0"
  using pack_gemm32_layout [of 3 2 "\<lambda>j. word_of_nat j"]
  by (force simp: groups32_def tile_index_def dest: spec [of _ 1] spec [of _ 2])

text \<open>The weight encoder on any freshly set source.  It succeeds exactly when every packed value
  is in the range of a signed byte; then it appends one byte per value with the value's low byte, counts
  the zero values, and sets the bit of a value in the table of used weights exactly when it occurs.\<close>

lemma encode_weights_exact:
  assumes "vs_position source = 0"
  shows "if list_all in_int8 (vs_packed source)
    then \<exists>info. EncodeWeights source result =
        Inr (info, result @ map (\<lambda>v. word_of_int (sint v)) (vs_packed source)) \<and>
      wi_encodedSize info = int (length (vs_packed source)) \<and>
      wi_zeroCount info = int (count_list (vs_packed source) 0) \<and>
      {x. - 128 \<le> x \<and> x \<le> 127 \<and> used_bit (wi_weightsUsed info) x} = sint ` set (vs_packed source)
    else EncodeWeights source result = Inl WeightOutOfRange"
proof (cases "list_all in_int8 (vs_packed source)")
  case True
  have "{x. - 128 \<le> x \<and> x \<le> 127 \<and> used_bit (fold mark_used (vs_packed source) (replicate 8 0)) x} =
      sint ` set (vs_packed source)"
    using True by (auto simp: used_bits used_bit_empty in_int8_def list_all_iff)
  moreover have "count_list vs 0 = length (filter (\<lambda>v. v = 0) vs)" for vs :: "16 word list"
    by (induction vs) simp_all
  ultimately show ?thesis
    using True by (simp add: EncodeWeights_eq [OF assms] empty_info_def)
qed (simp add: EncodeWeights_eq [OF assms])

lemma encode_weights_exact_witness:
  "\<exists>info. EncodeWeights \<lparr>vs_packed = [5, 0, - 1], vs_sourceElements = 3, vs_position = 0\<rparr> [] =
      Inr (info, [5, 0, 255]) \<and> wi_zeroCount info = 1"
  using encode_weights_exact [of "\<lparr>vs_packed = [5, 0, - 1], vs_sourceElements = 3, vs_position = 0\<rparr>" "[]"]
  by (auto simp: in_int8_def)

section \<open>Quantization parameters\<close>

definition lane_channel :: "QParamSource \<Rightarrow> int \<Rightarrow> int" where
  "lane_channel s j = qsrc_depthOffset s + min j (qsrc_depthLength s - 1)"

definition lane_bias :: "QParamSource \<Rightarrow> int \<Rightarrow> int" where
  "lane_bias s j = (if qsrc_depthLength s \<le> j then 0 else Bias s (lane_channel s j))"

definition lane_zeroPoint :: "QParamSource \<Rightarrow> int \<Rightarrow> int" where
  "lane_zeroPoint s j =
     (if qsrc_depthLength s \<le> j \<or> q_zeroPoints (qsrc_quantization s) = [] then 0
      else at_channel (q_zeroPoints (qsrc_quantization s)) (lane_channel s j))"

definition lane_record :: "QParamSource \<Rightarrow> int \<Rightarrow> QuantizedScale \<Rightarrow> QParamV1" where
  "lane_record s j scale =
     \<lparr>qp_bias = word_of_int (lane_bias s j), qp_multiplier = word_of_int (qs_scale scale),
      qp_shift = word_of_int (qs_shift scale), qp_zeroPoint = word_of_int (lane_zeroPoint s j),
      qp_clampMin = word_of_int (fst (clamp_pair s j)), qp_clampMax = word_of_int (snd (clamp_pair s j)),
      qp_reserved = (0, 0)\<rparr>"

definition lane_encodes :: "(QuantizedScale \<Rightarrow> QuantizedScale option) \<Rightarrow> QParamSource \<Rightarrow> int \<Rightarrow> QParamV1 \<Rightarrow> bool" where
  "lane_encodes calculate s j q \<longleftrightarrow> (\<exists>scale. lane_scale calculate s j = Some scale \<and>
     0 \<le> qs_shift scale \<and> qs_shift scale \<le> 31 \<and> fits_int32 (lane_bias s j) \<and>
     fst (clamp_pair s j) \<le> snd (clamp_pair s j) \<and> q = lane_record s j scale)"

lemma clamp_bounds: "- 128 \<le> clamp v (- 128) 127" "clamp v (- 128) 127 \<le> 127"
  by (simp_all add: clamp_def)

lemma clamp_mono: "v \<le> w \<Longrightarrow> clamp v lo hi \<le> clamp w lo hi" if "lo \<le> hi"
  using that by (simp add: clamp_def)

lemma clamp_fits: "fits_int32 (clamp v (- 128) 127)"
  using clamp_bounds [of v] by (simp add: fits_int32_def)

lemma encode_lane_Inr:
  assumes "encode_lane calculate s j result = Inr out" and "0 < qsrc_depthLength s"
  shows "\<exists>q. lane_encodes calculate s j q \<and> out = result @ AppendQParam [] q"
proof -
  from assms obtain scale where scale: "lane_scale calculate s j = Some scale"
    by (auto simp: encode_lane_def Let_def split: option.splits)
  have chan: "qsrc_depthOffset s + min j (qsrc_depthLength s - 1) = lane_channel s j"
    by (simp add: lane_channel_def)
  have pair: "fst (clamp_pair s j) = clamp (requested_min (qsrc_quantization s) (lane_channel s j)) (- 128) 127"
    "snd (clamp_pair s j) = clamp (requested_max (qsrc_quantization s) (lane_channel s j)) (- 128) 127"
    by (simp_all add: clamp_pair_def lane_channel_def Let_def)
  have "out = result @ AppendQParam [] (lane_record s j scale)" "0 \<le> qs_shift scale" "qs_shift scale \<le> 31"
    "fits_int32 (lane_bias s j)"
    "requested_min (qsrc_quantization s) (lane_channel s j) \<le> requested_max (qsrc_quantization s) (lane_channel s j)"
    using assms scale
    unfolding encode_lane_def chan AppendQParam_def lane_record_def pair
    by (auto simp: Let_def lane_bias_def lane_zeroPoint_def not_less split: if_splits)
  then show ?thesis
    unfolding lane_encodes_def pair using scale by (auto intro!: clamp_mono)
qed

lemma encode_lanes_Inr:
  assumes "encode_lanes calculate s js result = Inr out" and "0 < qsrc_depthLength s"
  shows "\<exists>qs. list_all2 (\<lambda>j q. lane_encodes calculate s (int j) q) js qs \<and>
    out = result @ concat (map (AppendQParam []) qs)"
  using assms(1)
proof (induction js arbitrary: result)
  case (Cons j js)
  then obtain out1 where lane: "encode_lane calculate s (int j) result = Inr out1"
    and rest: "encode_lanes calculate s js out1 = Inr out"
    by (auto split: sum.splits)
  from encode_lane_Inr [OF lane assms(2)] obtain q where
    q: "lane_encodes calculate s (int j) q" "out1 = result @ AppendQParam [] q" by blast
  from Cons.IH [OF rest] obtain qs where
    "list_all2 (\<lambda>j q. lane_encodes calculate s (int j) q) js qs" "out = out1 @ concat (map (AppendQParam []) qs)"
    by blast
  with q show ?case by (intro exI [where x = "q # qs"]) simp
qed simp

lemma check_lanes_Inr:
  "check_lanes s c lanes = Inr () \<Longrightarrow> lane \<in> set lanes \<Longrightarrow> clamp_pair s lane = c"
  by (induction lanes) (auto simp: Let_def prod_eq_iff split: if_splits)

lemma sum_bind_Inr:
  "(case x of Inl e \<Rightarrow> Inl e | Inr (u :: unit) \<Rightarrow> y) = Inr z \<longleftrightarrow> x = Inr () \<and> y = Inr z"
  by (cases x) simp_all

lemma check_blocks_Inr:
  assumes "check_blocks s bs = Inr ()" and "b \<in> set bs"
    and "32 * int b \<le> lane" "lane < 32 * int b + 32" "lane < qparam_Elements s"
  shows "clamp_pair s lane = clamp_pair s (32 * int b)"
  using assms(1,2)
proof (induction bs)
  case (Cons b' bs)
  have "check_lanes s (clamp_pair s (32 * int b'))
      [32 * int b'..min (32 * int b' + 32) (qparam_Elements s) - 1] = Inr ()"
    and "check_blocks s bs = Inr ()"
    using Cons.prems(1) unfolding check_blocks.simps Let_def sum_bind_Inr by auto
  with check_lanes_Inr [where lane = lane] Cons.IH Cons.prems(2) assms(3-5)
  show ?case by (cases "b = b'") auto
qed simp

lemma sint_fits: "fits_int32 v \<Longrightarrow> sint (word_of_int v :: u32) = v"
  unfolding fits_int32_def sint_sbintrunc' by (intro signed_take_bit_int_eq_self) simp_all

text \<open>What the record of a lane says: the bias, multiplier and shift of its channel or an all-zero
  padding lane, and the clamps of the first lane of its block of 32.\<close>

definition lane_params :: "(QuantizedScale \<Rightarrow> QuantizedScale option) \<Rightarrow> QParamSource \<Rightarrow> nat \<Rightarrow> QParamV1 \<Rightarrow> bool" where
  "lane_params calculate s j q \<longleftrightarrow>
     (if int j < qsrc_depthLength s
      then (\<exists>scale. lane_scale calculate s (int j) = Some scale \<and>
         sint (qp_bias q) = Bias s (qsrc_depthOffset s + int j) \<and>
         qp_multiplier q = word_of_int (qs_scale scale) \<and>
         int (unat (qp_shift q)) = qs_shift scale \<and> unat (qp_shift q) \<le> 31)
      else qp_bias q = 0 \<and> qp_multiplier q = 0 \<and> qp_shift q = 0 \<and> qp_zeroPoint q = 0) \<and>
     (sint (qp_clampMin q), sint (qp_clampMax q)) = clamp_pair s (32 * (int j div 32)) \<and>
     - 128 \<le> sint (qp_clampMin q) \<and> sint (qp_clampMin q) \<le> sint (qp_clampMax q) \<and>
     sint (qp_clampMax q) \<le> 127"

lemma lane_encodes_params:
  assumes "lane_encodes calculate s (int j) q" and "clamp_pair s (int j) = clamp_pair s (32 * (int j div 32))"
  shows "lane_params calculate s j q"
proof -
  from assms(1) obtain scale where sc: "lane_scale calculate s (int j) = Some scale"
    "0 \<le> qs_shift scale" "qs_shift scale \<le> 31" "fits_int32 (lane_bias s (int j))"
    "fst (clamp_pair s (int j)) \<le> snd (clamp_pair s (int j))" and q: "q = lane_record s (int j) scale"
    by (auto simp: lane_encodes_def)
  have fits: "fits_int32 (fst (clamp_pair s (int j)))" "fits_int32 (snd (clamp_pair s (int j)))"
    "- 128 \<le> fst (clamp_pair s (int j))" "snd (clamp_pair s (int j)) \<le> 127"
    by (simp_all add: clamp_pair_def Let_def clamp_fits clamp_bounds)
  define sh where "sh = (word_of_int (qs_shift scale) :: u32)"
  have shift: "int (unat sh) = qs_shift scale"
    using sc(2,3) by (simp add: sh_def uint_word_of_int_eq take_bit_int_eq_self)
  then have "unat sh \<le> 31" using sc(3) by linarith
  moreover have "scale = \<lparr>qs_scale = 0, qs_shift = 0\<rparr>" if "\<not> int j < qsrc_depthLength s"
    using sc(1) that by (auto simp: lane_scale_def Let_def)
  ultimately show ?thesis
    using sc fits shift unfolding lane_params_def assms(2) [symmetric] sh_def
    by (auto simp: q lane_record_def sint_fits lane_bias_def lane_channel_def lane_zeroPoint_def
        prod_eq_iff sh_def simp del: of_nat_unat)
qed

text \<open>C35: the quantization parameters.  The measured size is the encoded size.  A successful encoding
  appends one record of 32 bytes per lane of the padded channel range: a channel's lane carries its
  bias without loss, the multiplier and the shift of its scale with a shift of at most 31, padding
  lanes are zero, and every lane of a block of 32 carries the same ordered clamp pair of signed bytes,
  the contract the header comment of the loop states.\<close>

theorem qparam_encode_correct:
  assumes "qparam_Encode calculate s result False = Inr (n, out)" and "0 < qsrc_depthLength s"
  shows "qparam_Encode calculate s result True = Inr (n, result) \<and>
    (\<exists>qs. out = result @ concat (map (AppendQParam []) qs) \<and>
       length qs = 32 * groups32 (qsrc_depthLength s) \<and> n = 32 * int (length qs) \<and>
       (\<forall>j < length qs. lane_params calculate s j (qs ! j)))"
proof -
  define m where "m = groups32 (qsrc_depthLength s)"
  have el: "qparam_Elements s = 32 * int m"
    using RoundAway_groups [of "qsrc_depthLength s"] RoundAway_int_nonneg [of "qsrc_depthLength s"] assms(2)
    unfolding qparam_Elements_def m_def by linarith
  have blocks: "check_blocks s [0..<m] = Inr ()"
    and lanes: "encode_lanes calculate s [0..<32 * m] result = Inr out" and n: "n = 32 * int m * 32"
    using assms(1) by (auto simp: qparam_Encode_def el sizeof_QParamV1_def nat_mult_distrib Let_def split: sum.splits)
  from encode_lanes_Inr [OF lanes assms(2)] obtain qs where
    qs: "list_all2 (\<lambda>j q. lane_encodes calculate s (int j) q) [0..<32 * m] qs"
    and out: "out = result @ concat (map (AppendQParam []) qs)" by blast
  have len: "length qs = 32 * m" using list_all2_lengthD [OF qs] by simp
  have "lane_params calculate s j (qs ! j)" if "j < length qs" for j
  proof (rule lane_encodes_params)
    show "lane_encodes calculate s (int j) (qs ! j)"
      using list_all2_nthD [OF qs, of j] that len by simp
    have "clamp_pair s (int j) = clamp_pair s (32 * int (j div 32))"
      using that len by (intro check_blocks_Inr [OF blocks]) (auto simp: el)
    then show "clamp_pair s (int j) = clamp_pair s (32 * (int j div 32))" by (simp add: zdiv_int)
  qed
  moreover have "qparam_Encode calculate s result True = Inr (n, result)"
    by (simp add: qparam_Encode_def el n sizeof_QParamV1_def)
  ultimately show ?thesis using out len n by (auto simp: m_def)
qed

definition sample_qparams :: QParamSource where
  "sample_qparams = \<lparr>qsrc_biasType = DataType_Int32, qsrc_quantization = \<lparr>q_type = EXPLICIT, q_scales = [\<lparr>qs_scale = 3, qs_shift = 1\<rparr>], q_zeroPoints = [],
     q_quantMin = [], q_quantMax = [], q_dimension = 0\<rparr>, qsrc_biases = Some (\<lambda>i. 5), qsrc_biasCount = 1,
     qsrc_depthOffset = 0, qsrc_depthLength = 1\<rparr>"

lemma sample_qparams_encodes: "\<exists>n out. qparam_Encode Some sample_qparams [] False = Inr (n, out)"
proof -
  have el: "qparam_Elements sample_qparams = 32"
    by (simp add: qparam_Elements_def sample_qparams_def RoundAway_int_nonneg padding_def)
  have pair: "clamp_pair sample_qparams lane = (- 128, 127)" for lane
    by (simp add: clamp_pair_def sample_qparams_def requested_min_def requested_max_def clamp_def)
  have "check_lanes sample_qparams (- 128, 127) lanes = Inr ()" for lanes
    by (induction lanes) (simp_all add: pair)
  then have "check_blocks sample_qparams [0..<1] = Inr ()"
    by (simp add: pair)
  moreover have "\<exists>out. encode_lanes Some sample_qparams js result = Inr out" for js result
  proof (induction js arbitrary: result)
    case (Cons j js)
    have "\<exists>out. encode_lane Some sample_qparams (int j) result = Inr out"
      by (auto simp: encode_lane_def lane_scale_def sample_qparams_def Let_def requested_min_def
          requested_max_def clamp_def fits_int32_def Bias_def at_channel_def)
    with Cons.IH show ?case by force
  qed simp
  then obtain out where "encode_lanes Some sample_qparams [0..<32] [] = Inr out" by blast
  ultimately show ?thesis
    by (simp add: qparam_Encode_def Let_def el del: upt_rec_numeral check_blocks.simps upt_Suc)
qed

theorem qparam_encode_correct_witness:
  "\<exists>n out. qparam_Encode Some sample_qparams [] False = Inr (n, out) \<and>
    qparam_Encode Some sample_qparams [] True = Inr (n, [])"
proof -
  obtain n out where e: "qparam_Encode Some sample_qparams [] False = Inr (n, out)"
    using sample_qparams_encodes by blast
  have "0 < qsrc_depthLength sample_qparams" by (simp add: sample_qparams_def)
  from qparam_encode_correct [OF e this] e show ?thesis by blast
qed

end
