(* ===== verification/NAI_Quantization.thy ===== *)
theory NAI_Quantization
  imports NAI_Weights
begin

text \<open>
  Fixed-point requantization: \<^verbatim>\<open>architecture/neuralai/neural_ai_quantization.cpp\<close>.

  \<open>RoundDivideAwayFromZero\<close> works on 64-bit words as the code does.  The 128-bit arithmetic of
  \<open>Requantize\<close> is exact on integers: \<open>requantize_fits_128\<close> bounds every intermediate value.  The
  functions on doubles (\<open>CalculateQuantizedMultiplier\<close>, \<open>GenerateQuantizationParameters\<close>) are not
  modelled.  The specification is \<open>rounded_quotient\<close>: nearest integer, ties away from zero.
\<close>

definition RoundDivideAwayFromZero :: "64 word \<Rightarrow> u32 \<Rightarrow> 64 word" where
  "RoundDivideAwayFromZero v shift =
     (if shift = 0 then v
      else if 63 < shift then 0
      else
        (let magnitude = (if sint v < 0 then (- (v + 1)) + 1 else v);
             half = push_bit (unat shift - 1) 1;
             rounded = drop_bit (unat shift) (magnitude + half);
             int64_max = 2 ^ 63 - 1
         in if 0 \<le> sint v then (if int64_max < rounded then int64_max else rounded)
            else if int64_max + 1 < rounded then - (2 ^ 63)
            else if rounded = int64_max + 1 then - (2 ^ 63) else - rounded))"

definition Requantize :: "int \<Rightarrow> QuantizedScale \<Rightarrow> int \<Rightarrow> int \<Rightarrow> int \<Rightarrow> int" where
  "Requantize accumulator scale zeroPoint clampMin clampMax =
     (if qs_shift scale < 0 \<or> 31 < qs_shift scale \<or> clampMax < clampMin then 0
      else
        (let product = accumulator * qs_scale scale;
             half = (if qs_shift scale = 0 then 0 else 2 ^ (nat (qs_shift scale) - 1));
             magnitude = (if product < 0 then - product else product);
             roundedMagnitude = (if qs_shift scale = 0 then magnitude
               else drop_bit (nat (qs_shift scale)) (magnitude + half));
             scaled = (if product < 0 then - roundedMagnitude else roundedMagnitude);
             shifted = scaled + zeroPoint
         in clamp shifted clampMin clampMax))"

section \<open>Rounding to nearest, ties away from zero\<close>

definition rounded_quotient :: "int \<Rightarrow> nat \<Rightarrow> int \<Rightarrow> bool" where
  "rounded_quotient v s r \<longleftrightarrow> 2 * \<bar>2 ^ s * r - v\<bar> \<le> 2 ^ s \<and>
     (2 * \<bar>2 ^ s * r - v\<bar> = 2 ^ s \<longrightarrow> \<bar>v\<bar> < \<bar>2 ^ s * r\<bar>)"

definition round_away :: "int \<Rightarrow> nat \<Rightarrow> int" where
  "round_away v s = sgn v * ((2 * \<bar>v\<bar> + 2 ^ s) div (2 * 2 ^ s))"

text \<open>The linear facts behind the rounding lemmas, with the products as variables.\<close>

lemma near_intro:
  fixes d p v m :: int
  assumes "0 \<le> m" "m < 2 * d" "2 * (p - v) = d - m" "0 \<le> v" "0 < d"
  shows "2 * \<bar>p - v\<bar> \<le> d \<and> (2 * \<bar>p - v\<bar> = d \<longrightarrow> \<bar>v\<bar> < \<bar>p\<bar>)"
  using assms by (auto simp: abs_if split: if_splits)

lemma near_gap:
  fixes d p p' v w :: int
  assumes "2 * \<bar>p - v\<bar> \<le> d" "2 * \<bar>p' - w\<bar> \<le> d" "p' + d \<le> p" "v \<le> w"
  shows "2 * (p - v) = d \<and> 2 * (w - p') = d \<and> v = w"
  using assms by (auto simp: abs_if split: if_splits)

lemma near_tie:
  fixes d p p' v :: int
  assumes "2 * (p - v) = d" "2 * (v - p') = d" "0 < d" "\<bar>v\<bar> < \<bar>p\<bar>" "\<bar>v\<bar> < \<bar>p'\<bar>"
  shows "p < d \<and> 0 < p"
  using assms by (auto simp: abs_if split: if_splits)

lemma near_bound:
  fixes d p v b :: int
  assumes "b + d \<le> \<bar>p\<bar>" "2 * \<bar>p - v\<bar> \<le> d" "\<bar>v\<bar> \<le> b" "0 < d"
  shows False
  using assms by (auto simp: abs_if split: if_splits)

lemma round_away_neg: "round_away (- v) s = - round_away v s"
  by (simp add: round_away_def)

lemma rounded_quotient_neg: "rounded_quotient (- v) s (- r) = rounded_quotient v s r"
  by (simp add: rounded_quotient_def abs_minus_commute)

lemma rounded_quotient_nonneg:
  assumes "0 \<le> v"
  shows "rounded_quotient v s ((2 * v + 2 ^ s) div (2 * 2 ^ s))"
proof -
  define d where "d = (2 :: int) ^ s"
  define q where "q = (2 * v + d) div (2 * d)"
  define m where "m = (2 * v + d) mod (2 * d)"
  have "0 < d" by (simp add: d_def)
  then have m: "0 \<le> m" "m < 2 * d" by (simp_all add: m_def)
  have "2 * d * q + m = 2 * v + d" by (simp add: q_def m_def)
  then have diff: "2 * (d * q - v) = d - m" by (simp add: algebra_simps)
  show ?thesis
    unfolding rounded_quotient_def d_def [symmetric] q_def [symmetric]
    by (rule near_intro [OF m diff assms \<open>0 < d\<close>])
qed

lemma round_away_correct: "rounded_quotient v s (round_away v s)"
proof (cases "0 \<le> v")
  case True
  have "rounded_quotient 0 s 0" by (simp add: rounded_quotient_def)
  with True rounded_quotient_nonneg [OF True, of s] show ?thesis
    by (cases "v = 0") (simp_all add: round_away_def)
next
  case False
  then have "rounded_quotient (- v) s (round_away (- v) s)"
    using rounded_quotient_nonneg [of "- v" s] by (simp add: round_away_def)
  then show ?thesis by (simp add: round_away_neg rounded_quotient_neg)
qed

lemma rounded_quotient_less:
  assumes "rounded_quotient v s r" and "rounded_quotient v s r'"
  shows "r \<le> r'"
proof (rule ccontr)
  assume "\<not> r \<le> r'"
  then have "r' + 1 \<le> r" by simp
  define d where "d = (2 :: int) ^ s"
  have "0 < d" by (simp add: d_def)
  have near: "2 * \<bar>d * r - v\<bar> \<le> d" "2 * \<bar>d * r' - v\<bar> \<le> d"
    and ties: "2 * \<bar>d * r - v\<bar> = d \<longrightarrow> \<bar>v\<bar> < \<bar>d * r\<bar>" "2 * \<bar>d * r' - v\<bar> = d \<longrightarrow> \<bar>v\<bar> < \<bar>d * r'\<bar>"
    using assms unfolding rounded_quotient_def d_def [symmetric] by blast+
  have "d * (r' + 1) \<le> d * r"
    using \<open>r' + 1 \<le> r\<close> \<open>0 < d\<close> by (intro mult_left_mono) simp_all
  then have gap: "d * r' + d \<le> d * r" by (simp add: distrib_left)
  from near_gap [OF near this order_refl]
  have eq: "2 * (d * r - v) = d" "2 * (v - d * r') = d" by blast+
  then have "\<bar>v\<bar> < \<bar>d * r\<bar>" "\<bar>v\<bar> < \<bar>d * r'\<bar>" using ties \<open>0 < d\<close> by auto
  from near_tie [OF eq \<open>0 < d\<close> this] have "d * r < d * 1" "d * 0 < d * r" by simp_all
  then have "r < 1" "0 < r" using \<open>0 < d\<close> by (simp_all only: mult_less_cancel_left_pos)
  then show False by simp
qed

lemma rounded_quotient_unique: "rounded_quotient v s r \<Longrightarrow> r = round_away v s"
  using rounded_quotient_less round_away_correct by (meson order_antisym)

lemma round_away_half:
  assumes "0 < s" and "0 \<le> v"
  shows "(v + 2 ^ (s - 1)) div 2 ^ s = round_away v s"
proof -
  define h where "h = (2 :: int) ^ (s - 1)"
  have "0 < h" by (simp add: h_def)
  have s: "(2 :: int) ^ s = 2 * h" using assms(1) by (cases s) (simp_all add: h_def)
  have "(2 * v + 2 * h) div (2 * (2 * h)) = (v + h) div (2 * h)"
    unfolding distrib_left [symmetric] by (rule div_mult_mult1) simp
  moreover have "h div (2 * h) = 0" using \<open>0 < h\<close> by (intro div_pos_pos_trivial) simp_all
  ultimately show ?thesis
    using assms(2) unfolding round_away_def s h_def [symmetric]
    by (cases "v = 0") (simp_all only: abs_of_nonneg add_0 sgn_0 mult_zero_left, simp add: sgn_if)
qed

lemma round_away_zero: "round_away v 0 = v"
  by (simp add: round_away_def) (simp add: sgn_if abs_if)

lemma round_away_bound:
  assumes "\<bar>v\<bar> \<le> 2 ^ s * b" and "0 \<le> b"
  shows "\<bar>round_away v s\<bar> \<le> b"
proof (rule ccontr)
  assume "\<not> \<bar>round_away v s\<bar> \<le> b"
  define d where "d = (2 :: int) ^ s"
  define r where "r = round_away v s"
  have "0 < d" by (simp add: d_def)
  have "b + 1 \<le> \<bar>r\<bar>" using \<open>\<not> _\<close> by (simp add: r_def)
  then have "d * (b + 1) \<le> d * \<bar>r\<bar>" using \<open>0 < d\<close> by (intro mult_left_mono) simp_all
  moreover have "d * \<bar>r\<bar> = \<bar>d * r\<bar>" using \<open>0 < d\<close> by (simp add: abs_mult)
  ultimately have "d * b + d \<le> \<bar>d * r\<bar>" by (simp add: distrib_left)
  moreover have "2 * \<bar>d * r - v\<bar> \<le> d"
    using round_away_correct [of v s] unfolding rounded_quotient_def d_def r_def by blast
  ultimately show False
    using assms(1) \<open>0 < d\<close> unfolding d_def [symmetric] by (rule near_bound)
qed

lemma round_away_mono: "v \<le> w \<Longrightarrow> round_away v s \<le> round_away w s"
proof (rule ccontr)
  assume vw: "v \<le> w" and "\<not> round_away v s \<le> round_away w s"
  define d where "d = (2 :: int) ^ s"
  have "0 < d" by (simp add: d_def)
  have "d * (round_away w s + 1) \<le> d * round_away v s"
    using \<open>\<not> _\<close> \<open>0 < d\<close> by (intro mult_left_mono) simp_all
  then have gap: "d * round_away w s + d \<le> d * round_away v s" by (simp add: distrib_left)
  have "2 * \<bar>d * round_away v s - v\<bar> \<le> d" "2 * \<bar>d * round_away w s - w\<bar> \<le> d"
    using round_away_correct [of v s] round_away_correct [of w s]
    unfolding rounded_quotient_def d_def by blast+
  from near_gap [OF this gap vw] have "v = w" by blast
  with \<open>\<not> _\<close> show False by simp
qed

section \<open>The 64-bit routine\<close>

lemma uint_of_sint: "uint v = (if sint v < 0 then sint v + 2 ^ 64 else sint v)" for v :: "64 word"
proof -
  have "- (2 ^ 63) \<le> sint v" "sint v < 2 ^ 63"
    using sint_ge [of v] sint_lt [of v] by simp_all
  moreover have "uint v = sint v mod 2 ^ 64"
    by (simp add: uint_sint take_bit_int_def)
  moreover have "sint v mod 2 ^ 64 = (sint v + 2 ^ 64) mod 2 ^ 64" by simp
  ultimately show ?thesis
    by (cases "sint v < 0") (simp_all del: mod_add_self2 add: mod_pos_pos_trivial)
qed

lemma magnitude_word:
  "uint (if sint v < 0 then (- (v + 1)) + 1 else v) = \<bar>sint v\<bar>" for v :: "64 word"
proof -
  have "uint (- v) = - sint v" if "sint v < 0"
  proof -
    have "- (2 ^ 63) \<le> sint v" using sint_ge [of v] by simp
    moreover have "uint (- v) = (- uint v) mod 2 ^ 64" by (simp add: uint_word_ariths)
    moreover have "(- uint v) mod 2 ^ 64 = (- sint v) mod 2 ^ 64"
      using that by (simp add: uint_of_sint)
    ultimately show ?thesis using that by simp
  qed
  then show ?thesis by (auto simp: uint_of_sint)
qed

text \<open>The value the code computes: the rounded magnitude with the sign of the argument.\<close>

lemma rounded_word:
  fixes v :: "64 word"
  assumes "0 < unat shift" "unat shift \<le> 63"
  defines "magnitude \<equiv> (if sint v < 0 then (- (v + 1)) + 1 else v)"
  shows "uint (drop_bit (unat shift) (magnitude + push_bit (unat shift - 1) 1)) =
    round_away \<bar>sint v\<bar> (unat shift)"
    and "round_away \<bar>sint v\<bar> (unat shift) \<le> 2 ^ 62"
proof -
  define k where "k = unat shift"
  have k: "0 < k" "k \<le> 63" using assms by (simp_all add: k_def)
  have bound: "\<bar>sint v\<bar> \<le> 2 ^ 63"
    using sint_ge [of v] sint_lt [of v] by simp
  have m: "uint magnitude = \<bar>sint v\<bar>" unfolding magnitude_def by (rule magnitude_word)
  have half: "uint (push_bit (k - 1) 1 :: u64) = 2 ^ (k - 1)"
    using k by (subst unsigned_push_bit_eq) (simp add: push_bit_eq_mult take_bit_int_eq_self)
  have "(2 :: int) ^ (k - 1) \<le> 2 ^ 62" using k by (intro power_increasing) simp_all
  then have small: "(\<bar>sint v\<bar> + 2 ^ (k - 1)) mod 2 ^ 64 = \<bar>sint v\<bar> + 2 ^ (k - 1)"
    using bound by (intro mod_pos_pos_trivial) simp_all
  then have "uint (magnitude + push_bit (k - 1) 1) = \<bar>sint v\<bar> + 2 ^ (k - 1)"
    unfolding uint_word_ariths m half by simp
  then show "uint (drop_bit (unat shift) (magnitude + push_bit (unat shift - 1) 1)) =
      round_away \<bar>sint v\<bar> (unat shift)"
    using round_away_half [OF k(1), of "\<bar>sint v\<bar>"] k small
    unfolding k_def [symmetric] unsigned_drop_bit_eq by (simp add: drop_bit_eq_div take_bit_int_def)
  have "(2 :: int) ^ 63 \<le> 2 ^ k * 2 ^ 62"
    using k power_increasing [of 63 "k + 62" "2 :: int"] by (simp add: power_add)
  then have "\<bar>\<bar>sint v\<bar>\<bar> \<le> 2 ^ k * 2 ^ 62" using bound by linarith
  from round_away_bound [OF this] show "round_away \<bar>sint v\<bar> (unat shift) \<le> 2 ^ 62"
    by (simp add: k_def)
qed

lemma RoundDivide_eq:
  assumes "unat shift \<le> 63"
  shows "sint (RoundDivideAwayFromZero v shift) = round_away (sint v) (unat shift)"
proof (cases "shift = 0")
  case True
  then show ?thesis by (simp add: RoundDivideAwayFromZero_def round_away_zero)
next
  case False
  then have k: "0 < unat shift" by (simp add: unat_gt_0)
  define rounded where "rounded = drop_bit (unat shift)
    ((if sint v < 0 then (- (v + 1)) + 1 else v) + push_bit (unat shift - 1) 1)"
  note r = rounded_word [OF k assms, of v, folded rounded_def]
  have small: "uint rounded \<le> 2 ^ 62" using r by simp
  have "\<not> 63 < shift" using assms by (simp add: word_less_nat_alt)
  moreover have "\<not> 2 ^ 63 - 1 < rounded" "\<not> 2 ^ 63 - 1 + 1 < rounded" "rounded \<noteq> 2 ^ 63 - 1 + 1"
    using small by (auto simp: word_less_def)
  ultimately have code: "RoundDivideAwayFromZero v shift = (if 0 \<le> sint v then rounded else - rounded)"
    using False unfolding RoundDivideAwayFromZero_def Let_def rounded_def [symmetric] by simp
  have "sint rounded = uint rounded"
    using small uint_of_sint [of rounded] sint_ge [of rounded] by (simp split: if_splits)
  moreover have "sint (- rounded) = - uint rounded"
  proof -
    have "uint (- rounded) = (- uint rounded) mod 2 ^ 64" by (simp add: uint_word_ariths)
    then show ?thesis
      using small uint_of_sint [of "- rounded"] sint_lt [of "- rounded"] sint_ge [of "- rounded"]
      by (cases "rounded = 0") (auto simp: zmod_zminus1_eq_if split: if_splits)
  qed
  moreover have "round_away (sint v) (unat shift) = - round_away \<bar>sint v\<bar> (unat shift)" if "sint v < 0"
    using that round_away_neg [of "sint v"] by simp
  ultimately show ?thesis using code r(1) by auto
qed

section \<open>Properties\<close>

text \<open>C36: \<open>RoundDivideAwayFromZero\<close> rounds the quotient by \<open>2 ^ shift\<close> to the nearest integer with
  ties away from zero, for every 64-bit value and every shift below 64; nothing overflows.\<close>

theorem round_divide_nearest:
  assumes "unat shift \<le> 63"
  shows "rounded_quotient (sint v) (unat shift) (sint (RoundDivideAwayFromZero v shift)) \<and>
    (\<forall>r. rounded_quotient (sint v) (unat shift) r \<longrightarrow> r = sint (RoundDivideAwayFromZero v shift))"
  using RoundDivide_eq [OF assms] round_away_correct rounded_quotient_unique by simp

theorem round_divide_nearest_witness:
  "rounded_quotient (- 3) 1 (sint (RoundDivideAwayFromZero (- 3) 1)) \<and> rounded_quotient (- 3) 1 (- 2)"
  using round_divide_nearest [of 1 "- 3"] by (simp add: rounded_quotient_def)

text \<open>Shifts of 64 and more give 0; at 64 the minimum value is half a unit away and should be \<open>-1\<close>.\<close>

lemma round_divide_shift_64:
  "RoundDivideAwayFromZero (- (2 ^ 63)) 64 = 0" "rounded_quotient (- (2 ^ 63)) 64 (- 1)"
  "\<not> rounded_quotient (- (2 ^ 63)) 64 0"
  by (simp_all add: RoundDivideAwayFromZero_def rounded_quotient_def)

lemma Requantize_eq:
  assumes "0 \<le> qs_shift scale" "qs_shift scale \<le> 31" "lo \<le> hi"
  shows "Requantize acc scale zp lo hi =
    clamp (round_away (acc * qs_scale scale) (nat (qs_shift scale)) + zp) lo hi"
proof -
  define p where "p = acc * qs_scale scale"
  define k where "k = nat (qs_shift scale)"
  have k0: "qs_shift scale = 0 \<longleftrightarrow> k = 0" using assms(1) by (simp add: k_def)
  have "round_away p k = - round_away (- p) k" using round_away_neg [of p k] by simp
  moreover have "(\<bar>p\<bar> + 2 ^ (k - 1)) div 2 ^ k = round_away \<bar>p\<bar> k" if "0 < k"
    using round_away_half [OF that] by simp
  ultimately show ?thesis
    using assms unfolding Requantize_def Let_def k0 p_def [symmetric] k_def [symmetric]
    by (cases "p < 0") (auto simp: drop_bit_eq_div round_away_zero add.commute)
qed

text \<open>C37: \<open>Requantize\<close> computes the real rescaling.  For a shift in range and ordered clamps the result
  is the clamped sum of the zero point and the nearest integer to the scaled accumulator with ties
  away from zero, it lies between the clamps, and it is monotone in the accumulator for non-negative
  multipliers.\<close>

theorem requantize_correct:
  assumes "0 \<le> qs_shift scale" and "qs_shift scale \<le> 31" and "lo \<le> hi"
  shows "\<exists>r. rounded_quotient (acc * qs_scale scale) (nat (qs_shift scale)) r \<and>
      Requantize acc scale zp lo hi = max lo (min hi (r + zp)) \<and>
      lo \<le> Requantize acc scale zp lo hi \<and> Requantize acc scale zp lo hi \<le> hi \<and>
      (0 \<le> qs_scale scale \<longrightarrow> acc \<le> acc' \<longrightarrow> Requantize acc scale zp lo hi \<le> Requantize acc' scale zp lo hi)"
proof -
  have "clamp x lo hi = max lo (min hi x)" for x using assms(3) by (simp add: clamp_def max_def min_def)
  moreover have "round_away (acc * qs_scale scale) (nat (qs_shift scale)) \<le>
      round_away (acc' * qs_scale scale) (nat (qs_shift scale))" if "0 \<le> qs_scale scale" "acc \<le> acc'"
    using that by (intro round_away_mono mult_right_mono)
  ultimately show ?thesis
    using assms(3) unfolding Requantize_eq [OF assms]
    by (intro exI [where x = "round_away (acc * qs_scale scale) (nat (qs_shift scale))"])
      (auto simp: round_away_correct max_def min_def)
qed

theorem requantize_correct_witness:
  "\<exists>r. rounded_quotient (7 * 3) 1 r \<and>
    Requantize 7 \<lparr>qs_scale = 3, qs_shift = 1\<rparr> 2 (- 128) 127 = max (- 128) (min 127 (r + 2))"
  using requantize_correct [of "\<lparr>qs_scale = 3, qs_shift = 1\<rparr>" "- 128" 127 7 2 7] by auto

text \<open>The two routines agree.  When the product fits 64 bits, requantization is the 64-bit rounding
  division followed by the zero point and the clamp.\<close>

lemma requantize_round_divide:
  assumes "0 \<le> qs_shift scale" and "qs_shift scale \<le> 31" and "lo \<le> hi"
    and "- (2 ^ 63) \<le> acc * qs_scale scale" and "acc * qs_scale scale < 2 ^ 63"
  shows "Requantize acc scale zp lo hi =
    clamp (sint (RoundDivideAwayFromZero (word_of_int (acc * qs_scale scale))
      (word_of_int (qs_shift scale))) + zp) lo hi"
proof -
  have "unat (word_of_int (qs_shift scale) :: u32) = nat (qs_shift scale)"
    using assms(1,2) by (simp add: unat_eq_nat_uint uint_word_of_int_eq take_bit_int_eq_self)
  moreover have "sint (word_of_int (acc * qs_scale scale) :: 64 word) = acc * qs_scale scale"
    using assms(4,5) by (simp add: sint_sbintrunc' signed_take_bit_int_eq_self del: of_int_mult)
  ultimately show ?thesis
    using assms(1,2) RoundDivide_eq [of "word_of_int (qs_shift scale)" "word_of_int (acc * qs_scale scale)"]
    by (simp add: Requantize_eq [OF assms(1-3)])
qed

text \<open>The intermediate values of the 128-bit computation on 64- and 32-bit inputs stay below \<open>2 ^ 96\<close>.\<close>

lemma requantize_fits_128:
  assumes "\<bar>acc\<bar> \<le> 2 ^ 63" "\<bar>qs_scale scale\<bar> \<le> 2 ^ 31" "\<bar>zp\<bar> \<le> 2 ^ 31" "qs_shift scale \<le> 31"
  shows "\<bar>acc * qs_scale scale\<bar> + 2 ^ nat (qs_shift scale) + \<bar>zp\<bar> < 2 ^ 96"
proof -
  have "\<bar>acc * qs_scale scale\<bar> \<le> 2 ^ 63 * 2 ^ 31"
    unfolding abs_mult using assms(1,2) by (intro mult_mono) simp_all
  moreover have "(2 :: int) ^ nat (qs_shift scale) \<le> 2 ^ 31"
    using assms(4) by (intro power_increasing) simp_all
  ultimately show ?thesis using assms(3) by simp
qed

end
