(* ===== verification/NAI_Linebuffer.thy ===== *)
theory NAI_Linebuffer
  imports NAI_Weights
begin

text \<open>
  The line buffer planner: \<^verbatim>\<open>architecture/neuralai/neural_ai_linebuffer_planner.hpp\<close> and \<^verbatim>\<open>.cpp\<close>.

  A shape is the list of its axes, outermost first.  \<open>int\<close> values are integers, \<open>uint64_t\<close> values
  are 64-bit words that wrap, and every checked conversion to 32 or 16 bits is an error value.
  \<open>PlanStripeStaging\<close> has a loop whose progress depends on the storage height, so it is a partial
  function; that it returns is a theorem.
\<close>

section \<open>Shapes and checked conversions\<close>

type_synonym Shape = "int list"

definition Batch :: "Shape \<Rightarrow> int" where "Batch s = rev s ! 3"
definition Height :: "Shape \<Rightarrow> int" where "Height s = rev s ! 2"
definition Width :: "Shape \<Rightarrow> int" where "Width s = rev s ! 1"
definition Depth :: "Shape \<Rightarrow> int" where "Depth s = rev s ! 0"

datatype plan_error =
    AddressTooLarge
  | U32TooLarge string
  | U16TooLarge string
  | PsumStrideOverlapsRows
  | InvalidPlannerInput
  | ExceedsTCDMBudget
  | StagingNotRankFour
  | InvalidStagingInput
  | StagingNotFullDepth
  | StagingAlreadyCompact
  | StagingNotCompact
  | StagingStorageTooShallow

definition check :: "plan_error + 'a \<Rightarrow> ('a \<Rightarrow> plan_error + 'b) \<Rightarrow> plan_error + 'b" where
  "check x f = (case x of Inl e \<Rightarrow> Inl e | Inr v \<Rightarrow> f v)"

definition C32 :: int where "C32 = 32"

definition u64_of :: "int \<Rightarrow> u64" where "u64_of i = word_of_int i"

definition CheckedAddress :: "u64 \<Rightarrow> plan_error + u32" where
  "CheckedAddress v = (if 0xFFFFFFFF < v then Inl AddressTooLarge else Inr (ucast v))"

definition CheckedU32 :: "u64 \<Rightarrow> string \<Rightarrow> plan_error + u32" where
  "CheckedU32 v what = (if 0xFFFFFFFF < v then Inl (U32TooLarge what) else Inr (ucast v))"

definition CheckedU16 :: "int \<Rightarrow> string \<Rightarrow> plan_error + u16" where
  "CheckedU16 v what = (if v < 0 \<or> 0xFFFF < v then Inl (U16TooLarge what) else Inr (word_of_int v))"

section \<open>Jobs\<close>

definition KGEN_SCHEDULE_NONE :: u16 where "KGEN_SCHEDULE_NONE = 0"
definition KGEN_SCHEDULE_C32_GROUP_STATIONARY :: u16 where "KGEN_SCHEDULE_C32_GROUP_STATIONARY = 1"
definition KGEN_SCHEDULE_GENERIC_LINEAR_K32 :: u16 where "KGEN_SCHEDULE_GENERIC_LINEAR_K32 = 2"

record SystolicLinebufCfg =
  lb_inputBase :: u32
  lb_inputH :: u16
  lb_inputW :: u16
  lb_inputC :: u16
  lb_outputW :: u16
  lb_strideH :: u16
  lb_strideW :: u16
  lb_padH :: u16
  lb_padW :: u16
  lb_rowStrideBytes :: u32
  lb_pixelStrideBytes :: u32
  lb_owStepBytes :: u32
  lb_ohStepBytes :: u32
  lb_kernelH :: u16
  lb_kernelW :: u16
  lb_cBase :: u16
  lb_laneBase :: u16
  lb_coalesce :: u16
  lb_kgen :: u16
  lb_pool :: u16
  lb_c32Fast :: u16
  lb_depthwise :: u16
  lb_c32GroupStationary :: u16
  lb_blockValidBytes :: u16
  lb_kSeedKh :: u16
  lb_kSeedKw :: u16
  lb_kSeedIc :: u16
  lb_kTiles :: u32
  lb_spatialM :: u32
  lb_channelAddrOffset :: u32
  lb_coalesceKBytes :: u32

record SystolicGemm32Req =
  gr_weightAddr :: u32
  gr_ifmAddr :: u32
  gr_psumAddr :: u32
  gr_ofmAddr :: u32
  gr_dimM :: u32
  gr_accumEn :: u32
  gr_ofmRowStrideBytes :: u32
  gr_ofmTileCols :: u32
  gr_psumRowStrideBytes :: u32

record LinebufferJob =
  job_linebuf :: SystolicLinebufCfg
  job_gemm :: SystolicGemm32Req
  job_rows :: u32
  job_kTiles :: u32

record LinebufferPlannerInput =
  in_logicalIfm :: Shape
  in_logicalOfm :: Shape
  in_ifmBase :: u32
  in_ofmBase :: u32
  in_weightBase :: u32
  in_psumBase :: u32
  in_kernelH :: int
  in_kernelW :: int
  in_strideH :: int
  in_strideW :: int
  in_padTop :: int
  in_padLeft :: int
  in_padBottom :: int
  in_padRight :: int
  in_ic :: int
  in_oc :: int
  in_groupIndex :: int
  in_inputGroupIndex :: int
  in_outputGroupIndex :: int
  in_validLaneCount :: int
  in_ifmPixelStride :: int
  in_maxM :: int
  in_tcdmBudget :: int
  in_alreadyLiveBytes :: int
  in_rollingBuffers :: bool
  in_isDepthwise :: bool
  in_accumMode :: int

text \<open>The window of a tile along one axis: first input line, number of lines and leading padding.\<close>

definition tile_window :: "int \<Rightarrow> int \<Rightarrow> int \<Rightarrow> int \<Rightarrow> int \<Rightarrow> int \<Rightarrow> int \<times> int \<times> int" where
  "tile_window base tile stride pad kernelSize limit =
     (let requestedFirst = base * stride - pad;
          requestedLast = (base + tile - 1) * stride - pad + kernelSize - 1;
          first = clamp requestedFirst 0 (limit - 1);
          last = clamp requestedLast 0 (limit - 1)
      in (first, max 0 (last - first + 1), max 0 (first - requestedFirst)))"

definition inputCStride :: "LinebufferPlannerInput \<Rightarrow> int" where
  "inputCStride inp = (if 0 < in_ifmPixelStride inp then in_ifmPixelStride inp else in_ic inp)"

definition MakeJob :: "LinebufferPlannerInput \<Rightarrow> int \<Rightarrow> int \<Rightarrow> int \<Rightarrow> int \<Rightarrow> plan_error + LinebufferJob" where
  "MakeJob inp ohBase owBase tileOh tileOw =
     (let ifmH = Height (in_logicalIfm inp); ifmW = Width (in_logicalIfm inp);
          ofmW = Width (in_logicalOfm inp); cStride = inputCStride inp;
          inputRowStride64 = u64_of ifmW * u64_of cStride;
          (firstY, tileInputH, padH) =
            tile_window ohBase tileOh (in_strideH inp) (in_padTop inp) (in_kernelH inp) ifmH;
          (firstX, tileInputW, padW) =
            tile_window owBase tileOw (in_strideW inp) (in_padLeft inp) (in_kernelW inp) ifmW;
          valid = clamp (in_validLaneCount inp) 1 C32;
          inputGroup = (if in_inputGroupIndex inp \<noteq> 0 then in_inputGroupIndex inp else in_groupIndex inp);
          outputGroup = max 0 (in_outputGroupIndex inp);
          groupBase = max 0 inputGroup * C32;
          kTotal = u64_of (in_kernelH inp) * u64_of (in_kernelW inp) * u64_of (in_ic inp);
          kTiles64 = (kTotal + u64_of C32 - 1) div u64_of C32;
          c32Fast = (cStride = C32 \<and> C32 \<le> in_ic inp \<and> in_ic inp mod C32 = 0 \<and> valid = C32 \<and>
            groupBase mod C32 = 0 \<and> in_ifmBase inp mod 32 = 0);
          coalesce = (1 < in_kernelH inp * in_kernelW inp);
          kgen = (coalesce \<and> 1 < kTiles64);
          groupStationary = (c32Fast \<and> coalesce \<and> kgen \<and> C32 \<le> Depth (in_logicalIfm inp) \<and> 0 \<le> inputGroup);
          genericLinearK32 = (\<not> c32Fast \<and> coalesce \<and> kgen \<and> cStride = C32 \<and> in_ic inp = C32 \<and>
            groupBase mod C32 = 0);
          groupPlaneBytes = u64_of ifmH * u64_of ifmW * u64_of C32;
          c32BlockedInput = (cStride = C32);
          inputGroupOffset = (if c32BlockedInput then u64_of (max 0 inputGroup) * groupPlaneBytes
            else u64_of groupBase);
          inputAddress = ucast (in_ifmBase inp) + inputGroupOffset + u64_of firstY * inputRowStride64 +
            u64_of firstX * u64_of cStride;
          outputGroupOffset = u64_of outputGroup * u64_of (Height (in_logicalOfm inp)) * u64_of ofmW * u64_of C32;
          outputAddress = ucast (in_ofmBase inp) + outputGroupOffset +
            (u64_of ohBase * u64_of ofmW + u64_of owBase) * u64_of C32;
          flag = (\<lambda>b. if b then 1 else 0)
      in check (CheckedU32 inputRowStride64 ''row stride'') (\<lambda>inputRowStride.
         check (CheckedAddress inputAddress) (\<lambda>c_inputBase.
         check (CheckedU16 tileInputH ''input height'') (\<lambda>c_inputH.
         check (CheckedU16 tileInputW ''input width'') (\<lambda>c_inputW.
         check (CheckedU16 (in_ic inp) ''input channels'') (\<lambda>c_inputC.
         check (CheckedU16 tileOw ''output width'') (\<lambda>c_outputW.
         check (CheckedU16 (in_strideH inp) ''height stride'') (\<lambda>c_strideH.
         check (CheckedU16 (in_strideW inp) ''width stride'') (\<lambda>c_strideW.
         check (CheckedU16 padH ''height padding'') (\<lambda>c_padH.
         check (CheckedU16 padW ''width padding'') (\<lambda>c_padW.
         check (CheckedU32 (u64_of cStride) ''pixel stride'') (\<lambda>c_pixel.
         check (CheckedU32 (u64_of (in_strideW inp) * u64_of cStride) ''output-W step'') (\<lambda>c_owStep.
         check (CheckedU32 (u64_of (in_strideH inp) * inputRowStride64) ''output-H step'') (\<lambda>c_ohStep.
         check (CheckedU16 (in_kernelH inp) ''kernel height'') (\<lambda>c_kernelH.
         check (CheckedU16 (in_kernelW inp) ''kernel width'') (\<lambda>c_kernelW.
         check (CheckedU16 (groupBase mod C32) ''lane base'') (\<lambda>c_laneBase.
         check (CheckedU16 valid ''valid channel bytes'') (\<lambda>c_valid.
         check (CheckedU32 kTiles64 ''K-tile count'') (\<lambda>c_kTiles.
         check (CheckedU32 (u64_of tileOh * u64_of tileOw) ''spatial M'') (\<lambda>c_spatialM.
         check (CheckedU32 (if groupStationary then groupPlaneBytes else inputGroupOffset)
                 ''channel address offset'') (\<lambda>c_channel.
         check (CheckedU32 (u64_of (in_kernelH inp) * u64_of (in_kernelW inp) * u64_of valid)
                 ''coalesced K bytes'') (\<lambda>c_coalesceK.
         check (CheckedAddress (ucast (in_weightBase inp))) (\<lambda>c_weight.
         check (CheckedAddress (ucast (in_psumBase inp))) (\<lambda>c_psum.
         check (CheckedAddress outputAddress) (\<lambda>c_ofm.
         check (CheckedU32 (u64_of tileOh * u64_of tileOw) ''GEMM M'') (\<lambda>c_dimM.
         check (CheckedU32 (u64_of ofmW * u64_of C32) ''OFM row stride'') (\<lambda>c_ofmRow.
         check (CheckedU32 (u64_of tileOw) ''OFM tile columns'') (\<lambda>c_ofmCols.
         check (CheckedU32 (u64_of tileOw * u64_of C32 * 4) ''PSum row stride'') (\<lambda>c_psumRow.
           Inr \<lparr>job_linebuf =
                 \<lparr>lb_inputBase = c_inputBase, lb_inputH = c_inputH, lb_inputW = c_inputW,
                  lb_inputC = c_inputC, lb_outputW = c_outputW, lb_strideH = c_strideH,
                  lb_strideW = c_strideW, lb_padH = c_padH, lb_padW = c_padW,
                  lb_rowStrideBytes = inputRowStride, lb_pixelStrideBytes = c_pixel,
                  lb_owStepBytes = c_owStep, lb_ohStepBytes = c_ohStep, lb_kernelH = c_kernelH,
                  lb_kernelW = c_kernelW, lb_cBase = 0, lb_laneBase = c_laneBase,
                  lb_coalesce = flag coalesce, lb_kgen = flag kgen, lb_pool = 0,
                  lb_c32Fast = flag c32Fast, lb_depthwise = flag (in_isDepthwise inp),
                  lb_c32GroupStationary =
                    (if groupStationary then KGEN_SCHEDULE_C32_GROUP_STATIONARY
                     else if genericLinearK32 then KGEN_SCHEDULE_GENERIC_LINEAR_K32
                     else KGEN_SCHEDULE_NONE),
                  lb_blockValidBytes = c_valid, lb_kSeedKh = 0, lb_kSeedKw = 0, lb_kSeedIc = 0,
                  lb_kTiles = c_kTiles, lb_spatialM = c_spatialM, lb_channelAddrOffset = c_channel,
                  lb_coalesceKBytes = c_coalesceK\<rparr>,
                job_gemm =
                 \<lparr>gr_weightAddr = c_weight, gr_ifmAddr = 0, gr_psumAddr = c_psum, gr_ofmAddr = c_ofm,
                  gr_dimM = c_dimM,
                  gr_accumEn = (if in_accumMode inp \<noteq> 0 then word_of_int (in_accumMode inp)
                    else if 0 < inputGroup then 1 else 0),
                  gr_ofmRowStrideBytes = c_ofmRow, gr_ofmTileCols = c_ofmCols,
                  gr_psumRowStrideBytes = c_psumRow\<rparr>,
                job_rows = c_dimM, job_kTiles = c_kTiles\<rparr>)))))))))))))))))))))))))))))"

section \<open>Footprints and the plan\<close>

definition LinebufferExternalPsumBytes :: "LinebufferJob \<Rightarrow> plan_error + u32" where
  "LinebufferExternalPsumBytes job =
     (let lb = job_linebuf job; g = job_gemm job;
          automaticSpill = (lb_coalesce lb \<noteq> 0 \<and> lb_kgen lb \<noteq> 0 \<and>
            lb_c32GroupStationary lb \<noteq> KGEN_SCHEDULE_NONE \<and> 1 < lb_kTiles lb \<and> 256 < gr_dimM g);
          rows = (ucast (gr_dimM g) :: u64); cols = ucast (gr_ofmTileCols g);
          stride = ucast (gr_psumRowStrideBytes g)
      in if gr_accumEn g = 0 \<and> \<not> automaticSpill then Inr 0
         else if rows = 0 then Inr 0
         else if cols = 0 \<or> stride = 0 then CheckedU32 (rows * 128) ''PSUM footprint''
         else if stride < cols * 128 then Inl PsumStrideOverlapsRows
         else CheckedU32 (((rows - 1) div cols) * stride + ((rows - 1) mod cols + 1) * 128) ''PSUM footprint'')"

record LinebufferTileFootprint =
  fp_ifmBytes :: u32
  fp_ofmBytes :: u32
  fp_weightBytes :: u32
  fp_psumBytes :: u32
  fp_totalBytes :: u32

definition weight_tile_bytes :: "LinebufferPlannerInput \<Rightarrow> u64" where
  "weight_tile_bytes inp = u64_of (in_kernelH inp) * u64_of (in_kernelW inp) *
     u64_of (if in_isDepthwise inp then C32 else C32 * C32)"

definition RollingFootprint ::
    "LinebufferPlannerInput \<Rightarrow> LinebufferJob \<Rightarrow> plan_error + LinebufferTileFootprint" where
  "RollingFootprint inp job =
     (let inputRowBytes = u64_of (Width (in_logicalIfm inp)) * u64_of (inputCStride inp);
          outputRowBytes = u64_of (Width (in_logicalOfm inp)) * u64_of C32;
          outputW = ucast (lb_outputW (job_linebuf job));
          outputRows = (ucast (job_rows job) + outputW - 1) div outputW;
          ifmBytes = ucast (lb_inputH (job_linebuf job)) * inputRowBytes;
          ofmBytes = outputRows * outputRowBytes;
          weightBytes = weight_tile_bytes inp
      in check (LinebufferExternalPsumBytes job) (\<lambda>psum.
           let psumBytes = ucast psum;
               totalBytes = u64_of (max 0 (in_alreadyLiveBytes inp)) + ifmBytes + ofmBytes +
                 weightBytes + psumBytes
           in check (CheckedU32 ifmBytes ''rolling IFM footprint'') (\<lambda>i.
              check (CheckedU32 ofmBytes ''rolling OFM footprint'') (\<lambda>o'.
              check (CheckedU32 weightBytes ''rolling weight footprint'') (\<lambda>w.
              check (CheckedU32 psumBytes ''rolling partial-sum footprint'') (\<lambda>p.
              check (CheckedU32 totalBytes ''rolling total footprint'') (\<lambda>t.
                Inr \<lparr>fp_ifmBytes = i, fp_ofmBytes = o', fp_weightBytes = w, fp_psumBytes = p,
                     fp_totalBytes = t\<rparr>)))))))"

text \<open>The positions of \<^verbatim>\<open>for (pos = start; pos < limit; pos += step)\<close> for a positive step.\<close>

function tile_starts :: "int \<Rightarrow> int \<Rightarrow> int \<Rightarrow> int list" where
  "tile_starts pos step limit =
     (if pos < limit \<and> 0 < step then pos # tile_starts (pos + step) step limit else [])"
  by auto

termination
  by (relation "measure (\<lambda>(pos, step, limit). nat (limit - pos))") auto

definition tile_size :: "LinebufferPlannerInput \<Rightarrow> int \<times> int" where
  "tile_size inp =
     (let outputH = Height (in_logicalOfm inp); outputW = Width (in_logicalOfm inp);
          maxM = in_maxM inp;
          maxTileW = min outputW 640;
          tileH0 = min outputH (max 1 (maxM div (max 1 maxTileW)));
          tileH1 = (if tileH0 = 0 then 1 else tileH0);
          tileW0 = min maxTileW (max 1 (maxM div tileH1));
          tileW = (if tileW0 = 0 then 1 else tileW0);
          tileH = (if maxM < tileH1 * tileW then max 1 (maxM div tileW) else tileH1)
      in (tileH, tileW))"

definition plan_tiles :: "LinebufferPlannerInput \<Rightarrow> (int \<times> int \<times> int \<times> int) list" where
  "plan_tiles inp =
     (let outputH = Height (in_logicalOfm inp); outputW = Width (in_logicalOfm inp);
          (tileH, tileW) = tile_size inp
      in concat (map (\<lambda>oh. map (\<lambda>ow. (oh, ow, min tileH (outputH - oh), min tileW (outputW - ow)))
           (tile_starts 0 tileW outputW)) (tile_starts 0 tileH outputH)))"

fun make_jobs :: "LinebufferPlannerInput \<Rightarrow> (int \<times> int \<times> int \<times> int) list \<Rightarrow> plan_error + LinebufferJob list" where
  "make_jobs inp [] = Inr []"
| "make_jobs inp ((oh, ow, h, w) # ts) =
     check (MakeJob inp oh ow h w) (\<lambda>job. check (make_jobs inp ts) (\<lambda>jobs. Inr (job # jobs)))"

fun max_bytes :: "(LinebufferJob \<Rightarrow> plan_error + u32) \<Rightarrow> LinebufferJob list \<Rightarrow> u64 \<Rightarrow> plan_error + u64" where
  "max_bytes f [] required = Inr required"
| "max_bytes f (job # jobs) required =
     check (f job) (\<lambda>b. max_bytes f jobs (max required (ucast b)))"

definition required_bytes :: "LinebufferPlannerInput \<Rightarrow> LinebufferJob list \<Rightarrow> plan_error + u64" where
  "required_bytes inp jobs =
     (if in_rollingBuffers inp
      then max_bytes (\<lambda>job. check (RollingFootprint inp job) (\<lambda>f. Inr (fp_totalBytes f))) jobs 0
      else
        (let (tileH, tileW) = tile_size inp;
             ifmBytes = u64_of (Height (in_logicalIfm inp)) * u64_of (Width (in_logicalIfm inp)) *
               u64_of (max (in_ic inp) C32);
             ofmBytes = u64_of tileH * u64_of tileW * u64_of C32
         in check (max_bytes LinebufferExternalPsumBytes jobs 0) (\<lambda>psumBytes.
              Inr (u64_of (max 0 (in_alreadyLiveBytes inp)) + ifmBytes + ofmBytes +
                weight_tile_bytes inp + psumBytes))))"

definition planner_input_invalid :: "LinebufferPlannerInput \<Rightarrow> bool" where
  "planner_input_invalid inp \<longleftrightarrow>
     Batch (in_logicalIfm inp) \<noteq> 1 \<or> Batch (in_logicalOfm inp) \<noteq> 1 \<or> in_kernelH inp \<le> 0 \<or>
     in_kernelW inp \<le> 0 \<or> 5 < in_kernelH inp \<or> 5 < in_kernelW inp \<or> in_strideH inp < 1 \<or>
     in_strideW inp < 1 \<or> 2 < in_strideH inp \<or> 2 < in_strideW inp \<or> in_ic inp \<le> 0 \<or>
     in_oc inp \<le> 0 \<or> Height (in_logicalIfm inp) \<le> 0 \<or> Width (in_logicalIfm inp) \<le> 0 \<or>
     Height (in_logicalOfm inp) \<le> 0 \<or> Width (in_logicalOfm inp) \<le> 0 \<or> in_maxM inp \<le> 0 \<or>
     in_groupIndex inp < 0 \<or> in_inputGroupIndex inp < 0 \<or> in_outputGroupIndex inp < 0 \<or>
     in_accumMode inp < 0 \<or> 3 < in_accumMode inp \<or> in_validLaneCount inp \<le> 0 \<or>
     C32 < in_validLaneCount inp"

definition Plan :: "LinebufferPlannerInput \<Rightarrow> plan_error + LinebufferJob list" where
  "Plan inp =
     (if planner_input_invalid inp then Inl InvalidPlannerInput
      else check (make_jobs inp (plan_tiles inp)) (\<lambda>jobs.
           check (required_bytes inp jobs) (\<lambda>required.
             if 0 < in_tcdmBudget inp \<and> u64_of (in_tcdmBudget inp) < required
             then Inl ExceedsTCDMBudget else Inr jobs)))"

section \<open>Staging a stripe\<close>

record StripeStagingCopy =
  cp_source :: u32
  cp_destination :: u32
  cp_length :: u32
  cp_sourceStride :: u32
  cp_destinationStride :: u32
  cp_repetitions :: u32
  cp_sourceStride3 :: u32
  cp_destinationStride3 :: u32
  cp_repetitions3 :: u32

record StripeStagingInput =
  st_logicalIfm :: Shape
  st_storageIfm :: Shape
  st_areaStart :: Shape
  st_areaEnd :: Shape
  st_sourceBase :: u32
  st_stagingBase :: u32
  st_padTop :: int
  st_padLeft :: int
  st_padBottom :: int
  st_padRight :: int
  st_channels :: int
  st_directNhwc :: bool
  st_compactNhwc :: bool

record StripeStagingPlan =
  sp_stagedIfm :: Shape
  sp_bytes :: u32
  sp_copies :: "StripeStagingCopy list"

definition areaShape :: "StripeStagingInput \<Rightarrow> Shape" where
  "areaShape inp = map2 (-) (st_areaEnd inp) (st_areaStart inp)"

definition staging_ranks_ok :: "StripeStagingInput \<Rightarrow> bool" where
  "staging_ranks_ok inp \<longleftrightarrow> length (st_logicalIfm inp) = 4 \<and> length (st_storageIfm inp) = 4 \<and>
     length (st_areaStart inp) = 4 \<and> length (st_areaEnd inp) = 4"

definition staging_invalid :: "StripeStagingInput \<Rightarrow> bool" where
  "staging_invalid inp \<longleftrightarrow>
     (let logical = st_logicalIfm inp; storage = st_storageIfm inp; start = st_areaStart inp;
          area = areaShape inp
      in Batch logical \<noteq> 1 \<or> Batch storage \<noteq> 1 \<or> Batch start \<noteq> 0 \<or> Batch area \<noteq> 1 \<or>
         st_channels inp \<le> 0 \<or> Height area \<le> 0 \<or> Width area \<le> 0 \<or> Height start < 0 \<or>
         Width start < 0 \<or> Height logical < Height start + Height area \<or>
         Width logical < Width start + Width area \<or> Height storage \<le> 0 \<or>
         Width storage \<noteq> Width logical \<or> st_padTop inp < 0 \<or> st_padLeft inp < 0 \<or>
         st_padBottom inp < 0 \<or> st_padRight inp < 0)"

definition stagedH :: "StripeStagingInput \<Rightarrow> int" where
  "stagedH inp = st_padTop inp + Height (areaShape inp) + st_padBottom inp"

definition stagedW :: "StripeStagingInput \<Rightarrow> int" where
  "stagedW inp = st_padLeft inp + Width (areaShape inp) + st_padRight inp"

definition storedChannels :: "StripeStagingInput \<Rightarrow> int" where
  "storedChannels inp =
     (if st_directNhwc inp then st_channels inp else RoundAway_int (st_channels inp) C32)"

definition compactSource :: "StripeStagingInput \<Rightarrow> bool" where
  "compactSource inp \<longleftrightarrow> \<not> st_directNhwc inp \<and> st_compactNhwc inp"

definition sourcePixelBytes :: "StripeStagingInput \<Rightarrow> u32" where
  "sourcePixelBytes inp = word_of_int (if st_directNhwc inp then st_channels inp
     else if compactSource inp then st_channels inp else C32)"

definition destinationPixelBytes :: "StripeStagingInput \<Rightarrow> u32" where
  "destinationPixelBytes inp = word_of_int (if st_directNhwc inp then st_channels inp else C32)"

definition staging_groups :: "StripeStagingInput \<Rightarrow> int" where
  "staging_groups inp = (if st_directNhwc inp then 1 else storedChannels inp div C32)"

record staging_strides =
  ss_sourceRow :: u32
  ss_destinationRow :: u32
  ss_sourcePlane :: u32
  ss_destinationPlane :: u32

definition groupChannels :: "StripeStagingInput \<Rightarrow> int \<Rightarrow> u32" where
  "groupChannels inp gr = word_of_int (if st_directNhwc inp then st_channels inp
     else min C32 (st_channels inp - gr * C32))"

definition staging_copy ::
    "StripeStagingInput \<Rightarrow> staging_strides \<Rightarrow> int \<Rightarrow> int \<Rightarrow> int \<Rightarrow> int \<Rightarrow> plan_error + StripeStagingCopy" where
  "staging_copy inp ss gr copiedRows sourceY repetitions =
     (let pixelStrided = (\<not> st_directNhwc inp \<and> (compactSource inp \<or> groupChannels inp gr < 32));
          areaW = Width (areaShape inp);
          source = ucast (st_sourceBase inp) +
            (if compactSource inp then u64_of (gr * C32) else u64_of gr * ucast (ss_sourcePlane ss)) +
            u64_of sourceY * ucast (ss_sourceRow ss) +
            u64_of (Width (st_areaStart inp)) * ucast (sourcePixelBytes inp);
          destination = ucast (st_stagingBase inp) + u64_of gr * ucast (ss_destinationPlane ss) +
            u64_of (st_padTop inp + copiedRows) * ucast (ss_destinationRow ss) +
            u64_of (st_padLeft inp) * ucast (destinationPixelBytes inp)
      in if pixelStrided
         then check (CheckedAddress source) (\<lambda>s. check (CheckedAddress destination) (\<lambda>d.
                Inr \<lparr>cp_source = s, cp_destination = d, cp_length = groupChannels inp gr,
                     cp_sourceStride = sourcePixelBytes inp, cp_destinationStride = 32,
                     cp_repetitions = word_of_int areaW, cp_sourceStride3 = ss_sourceRow ss,
                     cp_destinationStride3 = ss_destinationRow ss,
                     cp_repetitions3 = word_of_int repetitions\<rparr>))
         else check (CheckedAddress source) (\<lambda>s. check (CheckedAddress destination) (\<lambda>d.
              check (CheckedU32 (u64_of areaW * ucast (sourcePixelBytes inp)) ''stripe row copy size'') (\<lambda>l.
                Inr \<lparr>cp_source = s, cp_destination = d, cp_length = l, cp_sourceStride = ss_sourceRow ss,
                     cp_destinationStride = ss_destinationRow ss,
                     cp_repetitions = word_of_int repetitions, cp_sourceStride3 = 0,
                     cp_destinationStride3 = 0, cp_repetitions3 = 0\<rparr>))))"

partial_function (option) stage_rows ::
    "StripeStagingInput \<Rightarrow> staging_strides \<Rightarrow> int \<Rightarrow> int \<Rightarrow> StripeStagingCopy list \<Rightarrow>
     (plan_error + StripeStagingCopy list) option" where
  "stage_rows inp ss gr copiedRows copies =
     (if \<not> copiedRows < Height (areaShape inp) then Some (Inr copies)
      else
        (let sourceY = (Height (st_areaStart inp) + copiedRows) mod Height (st_storageIfm inp);
             repetitions = min (Height (areaShape inp) - copiedRows) (Height (st_storageIfm inp) - sourceY)
         in case staging_copy inp ss gr copiedRows sourceY repetitions of
              Inl e \<Rightarrow> Some (Inl e)
            | Inr c \<Rightarrow> stage_rows inp ss gr (copiedRows + repetitions) (copies @ [c])))"

declare stage_rows.simps [code]

fun stage_groups ::
    "StripeStagingInput \<Rightarrow> staging_strides \<Rightarrow> int list \<Rightarrow> StripeStagingCopy list \<Rightarrow>
     (plan_error + StripeStagingCopy list) option" where
  "stage_groups inp ss [] copies = Some (Inr copies)"
| "stage_groups inp ss (gr # gs) copies =
     (case stage_rows inp ss gr 0 copies of
        None \<Rightarrow> None
      | Some (Inl e) \<Rightarrow> Some (Inl e)
      | Some (Inr copies') \<Rightarrow> stage_groups inp ss gs copies')"

definition staging_strides_of :: "StripeStagingInput \<Rightarrow> plan_error + staging_strides" where
  "staging_strides_of inp =
     check (CheckedU32 (u64_of (Width (st_storageIfm inp)) * ucast (sourcePixelBytes inp))
       ''stripe source row stride'') (\<lambda>sourceRow.
     check (CheckedU32 (u64_of (stagedW inp) * ucast (destinationPixelBytes inp))
       ''stripe destination row stride'') (\<lambda>destinationRow.
     check (CheckedU32 (u64_of (Height (st_storageIfm inp)) * ucast sourceRow)
       ''stripe source plane size'') (\<lambda>sourcePlane.
     check (CheckedU32 (u64_of (stagedH inp) * ucast destinationRow)
       ''stripe destination plane size'') (\<lambda>destinationPlane.
       Inr \<lparr>ss_sourceRow = sourceRow, ss_destinationRow = destinationRow,
            ss_sourcePlane = sourcePlane, ss_destinationPlane = destinationPlane\<rparr>))))"

definition PlanStripeStaging :: "StripeStagingInput \<Rightarrow> (plan_error + StripeStagingPlan) option" where
  "PlanStripeStaging inp =
     (if \<not> staging_ranks_ok inp then Some (Inl StagingNotRankFour)
      else if staging_invalid inp then Some (Inl InvalidStagingInput)
      else if Depth (st_areaStart inp) \<noteq> 0 \<or> Depth (areaShape inp) \<noteq> st_channels inp
        then Some (Inl StagingNotFullDepth)
      else if st_directNhwc inp \<and> st_compactNhwc inp then Some (Inl StagingAlreadyCompact)
      else if (st_directNhwc inp \<or> compactSource inp) \<and> Depth (st_storageIfm inp) \<noteq> st_channels inp
        then Some (Inl StagingNotCompact)
      else if \<not> st_directNhwc inp \<and> \<not> compactSource inp \<and> Depth (st_storageIfm inp) < st_channels inp
        then Some (Inl StagingStorageTooShallow)
      else case check (CheckedU32 (u64_of (stagedH inp) * u64_of (stagedW inp) * u64_of (storedChannels inp))
                 ''stripe staging size'') (\<lambda>bytes. check (staging_strides_of inp) (\<lambda>ss. Inr (bytes, ss))) of
          Inl e \<Rightarrow> Some (Inl e)
        | Inr (bytes, ss) \<Rightarrow>
            (case stage_groups inp ss [0..staging_groups inp - 1] [] of
               None \<Rightarrow> None
             | Some (Inl e) \<Rightarrow> Some (Inl e)
             | Some (Inr copies) \<Rightarrow>
                 Some (Inr \<lparr>sp_stagedIfm = [1, stagedH inp, stagedW inp, st_channels inp],
                            sp_bytes = bytes, sp_copies = copies\<rparr>)))"

end
