(* ===== verification/NAI_LinebufferProof.thy ===== *)
theory NAI_LinebufferProof
  imports NAI_Linebuffer "HOL-Library.Multiset"
begin

text \<open>
  Facts about the line buffer planner: the tiles of a plan partition the output feature map, and
  every job reads exactly the input pixels that its output positions need.
\<close>

section \<open>Checked conversions\<close>

lemma check_Inr: "check x f = Inr r \<longleftrightarrow> (\<exists>v. x = Inr v \<and> f v = Inr r)"
  by (simp add: check_def split: sum.splits)

lemma CheckedAddress_Inr: "CheckedAddress v = Inr r \<longleftrightarrow> v \<le> 0xFFFFFFFF \<and> r = ucast v"
  by (auto simp: CheckedAddress_def)

lemma CheckedU32_Inr: "CheckedU32 v what = Inr r \<longleftrightarrow> v \<le> 0xFFFFFFFF \<and> r = ucast v"
  by (auto simp: CheckedU32_def)

lemma CheckedU16_Inr: "CheckedU16 v what = Inr r \<longleftrightarrow> 0 \<le> v \<and> v \<le> 0xFFFF \<and> r = word_of_int v"
  by (auto simp: CheckedU16_def)

lemmas checked_Inr = check_Inr CheckedAddress_Inr CheckedU32_Inr CheckedU16_Inr

lemma uint_ucast_u32: "v \<le> 0xFFFFFFFF \<Longrightarrow> uint (ucast (v :: u64) :: u32) = uint v"
  by (simp add: unsigned_ucast_eq take_bit_eq_mod word_le_def)

lemma uint_u64_of: "0 \<le> i \<Longrightarrow> i < 2 ^ 64 \<Longrightarrow> uint (u64_of i) = i"
  by (simp add: u64_of_def uint_word_of_int)

lemma uint_u16_of_int: "0 \<le> i \<Longrightarrow> i \<le> 0xFFFF \<Longrightarrow> uint (word_of_int i :: u16) = i"
  by (simp add: uint_word_of_int)

lemma u64_of_ring:
  "u64_of a + u64_of b = u64_of (a + b)" "u64_of a * u64_of b = u64_of (a * b)"
  "ucast (w :: u32) = u64_of (uint w)"
  by (simp_all only: u64_of_def of_int_add of_int_mult ucast_eq)

text \<open>A checked 64-bit sum that did not wrap is the integer it stands for.\<close>

lemma checked_int:
  assumes "u64_of i \<le> 0xFFFFFFFF" and "0 \<le> i" and "i < 2 ^ 64"
  shows "uint (ucast (u64_of i) :: u32) = i" "i \<le> 0xFFFFFFFF"
proof -
  show "uint (ucast (u64_of i) :: u32) = i" using uint_ucast_u32 [OF assms(1)] uint_u64_of [OF assms(2,3)] by simp
  show "i \<le> 0xFFFFFFFF" using assms(1) uint_u64_of [OF assms(2,3)] by (simp add: word_le_def)
qed

section \<open>The fields of a job\<close>

definition output_offset :: "LinebufferPlannerInput \<Rightarrow> int" where
  "output_offset inp =
     max 0 (in_outputGroupIndex inp) * Height (in_logicalOfm inp) * Width (in_logicalOfm inp) * 32"

definition input_offset :: "LinebufferPlannerInput \<Rightarrow> int" where
  "input_offset inp =
     (let g = max 0 (if in_inputGroupIndex inp \<noteq> 0 then in_inputGroupIndex inp else in_groupIndex inp)
      in if inputCStride inp = 32 then g * (Height (in_logicalIfm inp) * Width (in_logicalIfm inp) * 32)
         else g * 32)"

definition row_window :: "LinebufferPlannerInput \<Rightarrow> int \<Rightarrow> int \<Rightarrow> int \<times> int \<times> int" where
  "row_window inp oh h =
     tile_window oh h (in_strideH inp) (in_padTop inp) (in_kernelH inp) (Height (in_logicalIfm inp))"

definition column_window :: "LinebufferPlannerInput \<Rightarrow> int \<Rightarrow> int \<Rightarrow> int \<times> int \<times> int" where
  "column_window inp ow w =
     tile_window ow w (in_strideW inp) (in_padLeft inp) (in_kernelW inp) (Width (in_logicalIfm inp))"

definition checked32 :: "u32 \<Rightarrow> int \<Rightarrow> bool" where
  "checked32 v i \<longleftrightarrow> u64_of i \<le> 0xFFFFFFFF \<and> v = ucast (u64_of i)"

definition checked16 :: "u16 \<Rightarrow> int \<Rightarrow> bool" where
  "checked16 v i \<longleftrightarrow> 0 \<le> i \<and> i \<le> 0xFFFF \<and> v = word_of_int i"

lemma checked32_int: "checked32 v i \<Longrightarrow> 0 \<le> i \<Longrightarrow> i < 2 ^ 64 \<Longrightarrow> uint v = i"
  by (simp add: checked32_def checked_int)

lemma checked16_int: "checked16 v i \<Longrightarrow> uint v = i"
  by (simp add: checked16_def uint_u16_of_int)

lemma group_offset_eq:
  "(if a then u64_of i else u64_of j) = u64_of (if a then i else j)"
  by simp

lemma MakeJob_output:
  assumes "MakeJob inp oh ow h w = Inr job"
  shows "checked32 (gr_ofmAddr (job_gemm job)) (uint (in_ofmBase inp) + output_offset inp +
      (oh * Width (in_logicalOfm inp) + ow) * 32)"
    "checked32 (gr_dimM (job_gemm job)) (h * w)"
    "checked32 (gr_ofmTileCols (job_gemm job)) w"
    "checked32 (gr_ofmRowStrideBytes (job_gemm job)) (Width (in_logicalOfm inp) * 32)"
  using assms
  unfolding MakeJob_def Let_def case_prod_beta check_Inr sum.inject checked32_def output_offset_def C32_def
  by (elim exE conjE, hypsubst, simp only: CheckedU32_Inr CheckedAddress_Inr u64_of_ring
      SystolicGemm32Req.simps LinebufferJob.simps)+

lemma MakeJob_input:
  assumes "MakeJob inp oh ow h w = Inr job"
  shows "checked32 (lb_inputBase (job_linebuf job)) (uint (in_ifmBase inp) + input_offset inp +
      fst (row_window inp oh h) * (Width (in_logicalIfm inp) * inputCStride inp) +
      fst (column_window inp ow w) * inputCStride inp)"
    "checked32 (lb_rowStrideBytes (job_linebuf job)) (Width (in_logicalIfm inp) * inputCStride inp)"
    "checked32 (lb_pixelStrideBytes (job_linebuf job)) (inputCStride inp)"
    "checked16 (lb_inputH (job_linebuf job)) (fst (snd (row_window inp oh h)))"
    "checked16 (lb_padH (job_linebuf job)) (snd (snd (row_window inp oh h)))"
    "checked16 (lb_inputW (job_linebuf job)) (fst (snd (column_window inp ow w)))"
    "checked16 (lb_padW (job_linebuf job)) (snd (snd (column_window inp ow w)))"
    "checked16 (lb_strideH (job_linebuf job)) (in_strideH inp)"
    "checked16 (lb_strideW (job_linebuf job)) (in_strideW inp)"
    "checked16 (lb_outputW (job_linebuf job)) w"
  using assms
  unfolding MakeJob_def Let_def case_prod_beta check_Inr sum.inject checked32_def checked16_def C32_def
    input_offset_def row_window_def column_window_def
  by (elim exE conjE, hypsubst, simp only: CheckedU32_Inr CheckedAddress_Inr CheckedU16_Inr u64_of_ring
      group_offset_eq SystolicLinebufCfg.simps LinebufferJob.simps)+

section \<open>The tiles partition the output\<close>

declare tile_starts.simps [simp del]

lemma upto_join:
  fixes i j k :: int
  assumes "i \<le> j" and "j \<le> k + 1"
  shows "[i..k] = [i..j - 1] @ [j..k]"
proof (cases "j \<le> k")
  case True
  then show ?thesis using upto_split1 [of i j k] assms by simp
next
  case False
  then have "j = k + 1" using assms by simp
  then show ?thesis by simp
qed

lemma upto_shift: "map (\<lambda>x. k + x) [a..b] = [k + a..k + b]" for k a b :: int
proof (induction a b rule: upto.induct)
  case (1 a b)
  then show ?case by (cases "a \<le> b") (simp_all add: upto_rec1 [of a b] upto_rec1 [of "k + a" "k + b"] add.assoc)
qed

text \<open>The blocks of one axis, one after the other, are the axis.\<close>

lemma tile_starts_split:
  assumes "0 < s" and "p \<le> L"
  shows "concat (map (\<lambda>a. [a..a + min s (L - a) - 1]) (tile_starts p s L)) = [p..L - 1]"
  using assms
proof (induction p s L rule: tile_starts.induct)
  case (1 p s L)
  show ?case
  proof (cases "p < L")
    case True
    then have step: "tile_starts p s L = p # tile_starts (p + s) s L"
      using \<open>0 < s\<close> by (simp add: tile_starts.simps [of p])
    show ?thesis
    proof (cases "p + s \<le> L")
      case True
      then have "concat (map (\<lambda>a. [a..a + min s (L - a) - 1]) (tile_starts (p + s) s L)) = [p + s..L - 1]"
        using 1 \<open>p < L\<close> by simp
      moreover have "[p..L - 1] = [p..p + s - 1] @ [p + s..L - 1]"
        using True \<open>0 < s\<close> by (intro upto_join) auto
      ultimately show ?thesis using True by (simp add: step min_def)
    next
      case False
      then have "tile_starts (p + s) s L = []" by (simp add: tile_starts.simps [of "p + s"])
      then show ?thesis using False by (simp add: step min_def)
    qed
  next
    case False
    then have "tile_starts p s L = []" by (simp add: tile_starts.simps [of p])
    then show ?thesis using False \<open>p \<le> L\<close> by simp
  qed
qed

lemma tile_starts_range: "a \<in> set (tile_starts p s L) \<Longrightarrow> p \<le> a \<and> a < L"
proof (induction p s L rule: tile_starts.induct)
  case (1 p s L)
  then show ?case by (subst (asm) (2) tile_starts.simps) (fastforce split: if_splits)
qed

text \<open>Exchanging two nested loops changes the order of the results only.\<close>

lemma mset_concat_append:
  "mset (concat (map (\<lambda>x. f x @ g x) xs)) = mset (concat (map f xs)) + mset (concat (map g xs))"
  by (induction xs) simp_all

lemma mset_loops_swap:
  "mset (concat (map (\<lambda>a. concat (map (\<lambda>b. f a b) bs)) as)) =
   mset (concat (map (\<lambda>b. concat (map (\<lambda>a. f a b) as)) bs))"
proof (induction as)
  case Nil
  then show ?case by (induction bs) simp_all
next
  case (Cons a as)
  then show ?case by (simp add: mset_concat_append)
qed

lemma concat_concat_map: "concat (map (\<lambda>x. concat (map g (f x))) xs) = concat (map g (concat (map f xs)))"
  by (induction xs) simp_all

lemma concat_concat: "concat (concat (map f xs)) = concat (map (\<lambda>x. concat (f x)) xs)"
  by (induction xs) simp_all

lemma mset_concat_cong:
  "(\<And>x. x \<in> set xs \<Longrightarrow> mset (f x) = mset (g x)) \<Longrightarrow> mset (concat (map f xs)) = mset (concat (map g xs))"
  by (induction xs) simp_all

text \<open>The pixels of a tile as positions in the row-major output.\<close>

definition tile_pixels :: "int \<Rightarrow> int \<times> int \<times> int \<times> int \<Rightarrow> int list" where
  "tile_pixels W t = (case t of (oh, ow, h, w) \<Rightarrow>
     concat (map (\<lambda>y. map (\<lambda>x. y * W + x) [ow..ow + w - 1]) [oh..oh + h - 1]))"

lemma rows_of_pixels:
  assumes "0 \<le> W" and "0 \<le> H"
  shows "concat (map (\<lambda>y. map (\<lambda>x. y * W + x) [0..W - 1]) [0..H - 1]) = [0..H * W - 1]"
  using assms(2)
proof (induction H rule: int_ge_induct)
  case base
  then show ?case by simp
next
  case (step H)
  have "[0..H + 1 - 1] = [0..H - 1] @ [H]"
    using step.hyps by (simp add: upto_rec2)
  moreover have "map (\<lambda>x. H * W + x) [0..W - 1] = [H * W..H * W + W - 1]"
    using upto_shift [of "H * W" 0 "W - 1"] by (simp add: add_diff_eq)
  moreover have "[0..(H + 1) * W - 1] = [0..H * W - 1] @ [H * W..H * W + W - 1]"
  proof -
    have "0 \<le> H * W" using assms(1) step.hyps by simp
    then have "[0..H * W + W - 1] = [0..H * W - 1] @ [H * W..H * W + W - 1]"
      using assms(1) by (intro upto_join) auto
    then show ?thesis by (simp add: distrib_right)
  qed
  ultimately show ?case using step.IH by simp
qed

definition tiles_of :: "int \<Rightarrow> int \<Rightarrow> int \<Rightarrow> int \<Rightarrow> (int \<times> int \<times> int \<times> int) list" where
  "tiles_of H W sh sw =
     concat (map (\<lambda>oh. map (\<lambda>ow. (oh, ow, min sh (H - oh), min sw (W - ow)))
       (tile_starts 0 sw W)) (tile_starts 0 sh H))"

lemma plan_tiles_eq:
  "plan_tiles inp = tiles_of (Height (in_logicalOfm inp)) (Width (in_logicalOfm inp))
     (fst (tile_size inp)) (snd (tile_size inp))"
  by (simp add: plan_tiles_def tiles_of_def Let_def case_prod_beta)

lemma tiles_partition:
  assumes "0 \<le> H" "0 \<le> W" "0 < sh" "0 < sw"
  shows "mset (concat (map (tile_pixels W) (tiles_of H W sh sw))) = mset [0..H * W - 1]"
proof -
  define row where "row y = (\<lambda>ow. map (\<lambda>x. y * W + x) [ow..ow + min sw (W - ow) - 1])" for y
  have row: "concat (map (row y) (tile_starts 0 sw W)) = map (\<lambda>x. y * W + x) [0..W - 1]" for y
  proof -
    have "concat (map (row y) (tile_starts 0 sw W)) =
        map (\<lambda>x. y * W + x) (concat (map (\<lambda>a. [a..a + min sw (W - a) - 1]) (tile_starts 0 sw W)))"
      by (simp add: row_def map_concat comp_def)
    then show ?thesis using tile_starts_split [OF \<open>0 < sw\<close> \<open>0 \<le> W\<close>] by simp
  qed
  have "mset (concat (map (tile_pixels W) (tiles_of H W sh sw))) =
      mset (concat (map (\<lambda>oh. concat (map (\<lambda>ow. concat (map (\<lambda>y. row y ow) [oh..oh + min sh (H - oh) - 1]))
        (tile_starts 0 sw W))) (tile_starts 0 sh H)))"
    by (simp add: tiles_of_def map_concat comp_def tile_pixels_def row_def concat_concat)
  also have "\<dots> = mset (concat (map (\<lambda>oh. concat (map (\<lambda>y. concat (map (row y) (tile_starts 0 sw W)))
        [oh..oh + min sh (H - oh) - 1])) (tile_starts 0 sh H)))"
    by (intro mset_concat_cong mset_loops_swap)
  also have "\<dots> = mset (concat (map (\<lambda>y. map (\<lambda>x. y * W + x) [0..W - 1]) [0..H - 1]))"
    unfolding row concat_concat_map by (simp add: tile_starts_split [OF \<open>0 < sh\<close> \<open>0 \<le> H\<close>])
  also have "\<dots> = mset [0..H * W - 1]" by (simp add: rows_of_pixels [OF \<open>0 \<le> W\<close> \<open>0 \<le> H\<close>])
  finally show ?thesis .
qed

lemma grid_bounds:
  assumes "(oh, ow, h, w) \<in> set (tiles_of H W sh sw)" and "0 < sh" "0 < sw"
  shows "0 \<le> oh \<and> 0 < h \<and> h \<le> sh \<and> oh + h \<le> H \<and> 0 \<le> ow \<and> 0 < w \<and> w \<le> sw \<and> ow + w \<le> W"
  using assms by (auto simp: tiles_of_def dest!: tile_starts_range)

text \<open>The tile size is positive and a tile fits the partial sums.\<close>

lemma tile_size_bounds:
  assumes "0 < Height (in_logicalOfm inp)" "0 < Width (in_logicalOfm inp)" "0 < in_maxM inp"
  shows "0 < fst (tile_size inp)" "0 < snd (tile_size inp)"
    "fst (tile_size inp) * snd (tile_size inp) \<le> in_maxM inp"
proof -
  define H where "H = Height (in_logicalOfm inp)"
  define M where "M = in_maxM inp"
  define mw where "mw = min (Width (in_logicalOfm inp)) 640"
  define th where "th = min H (max 1 (M div mw))"
  define tw where "tw = min mw (max 1 (M div th))"
  have pos: "0 < H" "0 < M" "0 < mw" using assms by (auto simp: H_def M_def mw_def)
  have th: "0 < th" and tw: "0 < tw" using pos by (auto simp: th_def tw_def)
  have eq: "tile_size inp = (if M < th * tw then max 1 (M div tw) else th, tw)"
  proof -
    have "max 1 mw = mw" and "(th = 0) = False" and "(tw = 0) = False" using pos th tw by auto
    then show ?thesis
      by (simp only: tile_size_def Let_def H_def [symmetric] M_def [symmetric] mw_def [symmetric]
          th_def [symmetric] tw_def [symmetric] if_False)
  qed
  show "0 < fst (tile_size inp)" "0 < snd (tile_size inp)" using th tw by (auto simp: eq)
  have tw_le: "tw \<le> M"
  proof (cases "th \<le> M")
    case True
    then have "1 \<le> M div th" using th by (simp add: pos_imp_zdiv_pos_iff less_imp_le int_one_le_iff_zero_less)
    moreover have "M div th \<le> M" using th pos zdiv_mono2 [of M 1 th] by simp
    ultimately show ?thesis by (simp add: tw_def)
  next
    case False
    then have "M div th = 0" using pos by (simp add: div_pos_pos_trivial)
    then show ?thesis using pos by (simp add: tw_def)
  qed
  have div_mult: "M div tw * tw \<le> M" using div_mult_mod_eq [of M tw] pos_mod_sign [OF tw, of M] by linarith
  have "1 \<le> M div tw" using tw tw_le by (simp add: pos_imp_zdiv_pos_iff int_one_le_iff_zero_less)
  then show "fst (tile_size inp) * snd (tile_size inp) \<le> in_maxM inp"
    using div_mult by (simp add: eq M_def [symmetric])
qed

section \<open>The plan\<close>

text \<open>Where a job writes: the rows of its tile lie \<open>gr_ofmRowStrideBytes\<close> apart, and every output
  position takes 32 bytes.\<close>

definition output_addresses :: "LinebufferJob \<Rightarrow> int list" where
  "output_addresses job =
     (let g = job_gemm job; cols = uint (gr_ofmTileCols g)
      in map (\<lambda>m. uint (gr_ofmAddr g) + (m div cols) * uint (gr_ofmRowStrideBytes g) + (m mod cols) * 32)
           [0..uint (gr_dimM g) - 1])"

text \<open>The C++ \<open>int\<close> fields are in range, and the byte positions of the feature maps fit the 64-bit
  arithmetic.\<close>

definition plan_in_range :: "LinebufferPlannerInput \<Rightarrow> bool" where
  "plan_in_range inp \<longleftrightarrow>
     Height (in_logicalOfm inp) < 2 ^ 31 \<and> Width (in_logicalOfm inp) < 2 ^ 31 \<and>
     Height (in_logicalIfm inp) < 2 ^ 31 \<and> Width (in_logicalIfm inp) < 2 ^ 31 \<and>
     inputCStride inp < 2 ^ 31 \<and>
     output_offset inp + Height (in_logicalOfm inp) * Width (in_logicalOfm inp) * 32 < 2 ^ 63 \<and>
     input_offset inp + Height (in_logicalIfm inp) * (Width (in_logicalIfm inp) * inputCStride inp) < 2 ^ 63"

lemma make_jobs_Inr:
  "make_jobs inp ts = Inr jobs \<Longrightarrow>
   list_all2 (\<lambda>t job. case t of (oh, ow, h, w) \<Rightarrow> MakeJob inp oh ow h w = Inr job) ts jobs"
  by (induction inp ts arbitrary: jobs rule: make_jobs.induct) (auto simp: check_Inr)

lemma Plan_Inr:
  assumes "Plan inp = Inr jobs"
  shows "\<not> planner_input_invalid inp"
    "list_all2 (\<lambda>t job. case t of (oh, ow, h, w) \<Rightarrow> MakeJob inp oh ow h w = Inr job) (plan_tiles inp) jobs"
  using assms by (auto simp: Plan_def check_Inr split: if_splits intro: make_jobs_Inr)

lemma plan_positive:
  assumes "\<not> planner_input_invalid inp"
  shows "0 < Height (in_logicalOfm inp)" "0 < Width (in_logicalOfm inp)" "0 < in_maxM inp"
    "0 < Height (in_logicalIfm inp)" "0 < Width (in_logicalIfm inp)" "0 \<le> in_outputGroupIndex inp"
    "1 \<le> in_strideH inp" "1 \<le> in_strideW inp" "0 < inputCStride inp"
  using assms by (auto simp: planner_input_invalid_def inputCStride_def)

lemma plan_tile_bounds:
  assumes "\<not> planner_input_invalid inp" and "(oh, ow, h, w) \<in> set (plan_tiles inp)"
  shows "0 \<le> oh" "0 < h" "oh + h \<le> Height (in_logicalOfm inp)"
    "0 \<le> ow" "0 < w" "ow + w \<le> Width (in_logicalOfm inp)" "h * w \<le> in_maxM inp"
proof -
  note pos = plan_positive [OF assms(1)]
  note size = tile_size_bounds [OF pos(1-3)]
  have b: "0 \<le> oh \<and> 0 < h \<and> h \<le> fst (tile_size inp) \<and> oh + h \<le> Height (in_logicalOfm inp) \<and>
      0 \<le> ow \<and> 0 < w \<and> w \<le> snd (tile_size inp) \<and> ow + w \<le> Width (in_logicalOfm inp)"
    by (rule grid_bounds [OF assms(2) [unfolded plan_tiles_eq] size(1,2)])
  then show "0 \<le> oh" "0 < h" "oh + h \<le> Height (in_logicalOfm inp)"
    "0 \<le> ow" "0 < w" "ow + w \<le> Width (in_logicalOfm inp)" by blast+
  have "h * w \<le> fst (tile_size inp) * snd (tile_size inp)" using b size by (intro mult_mono) auto
  then show "h * w \<le> in_maxM inp" using size(3) by linarith
qed

lemma tile_below:
  fixes oh :: int
  assumes "0 \<le> oh" "0 < h" "oh + h \<le> H" "0 \<le> ow" "0 < w" "ow + w \<le> W"
  shows "0 \<le> oh * W + ow" "oh * W + ow < H * W" "h * w \<le> H * W" "0 < h * w"
proof -
  show "0 \<le> oh * W + ow" using assms by simp
  have "(oh + 1) * W \<le> H * W" using assms by (intro mult_right_mono) auto
  then show "oh * W + ow < H * W" using assms by (simp add: distrib_right)
  show "h * w \<le> H * W" using assms by (intro mult_mono) auto
  show "0 < h * w" using assms by simp
qed

text \<open>The positions of a row-major block by division and remainder.\<close>

lemma block_div_mod:
  fixes h w :: int
  assumes "0 \<le> h" and "0 < w"
  shows "map (\<lambda>m. f (m div w) (m mod w)) [0..h * w - 1] =
    concat (map (\<lambda>y. map (\<lambda>x. f y x) [0..w - 1]) [0..h - 1])"
proof -
  have "map (\<lambda>m. f (m div w) (m mod w)) [0..h * w - 1] =
      concat (map (\<lambda>y. map (\<lambda>x. f ((y * w + x) div w) ((y * w + x) mod w)) [0..w - 1]) [0..h - 1])"
    using rows_of_pixels [of w h] assms by (simp add: map_concat comp_def flip: rows_of_pixels)
  also have "\<dots> = concat (map (\<lambda>y. map (\<lambda>x. f y x) [0..w - 1]) [0..h - 1])"
    using assms by (intro arg_cong [where f = concat] map_cong refl) auto
  finally show ?thesis .
qed

lemma map_upto_shift: "map f [a..a + n - 1] = map (\<lambda>x. f (a + x)) [0..n - 1]" for a n :: int
  using arg_cong [OF upto_shift [of a 0 "n - 1"], of "map f"] by (simp add: add_diff_eq comp_def)

lemma address_range:
  fixes b off p n :: int
  assumes "0 \<le> b" "b < 2 ^ 32" "0 \<le> off" "0 \<le> p" "p < n" "off + n * 32 < 2 ^ 63"
  shows "0 \<le> b + off + p * 32" "b + off + p * 32 < 2 ^ 64"
  using assms by simp_all

lemma job_output:
  assumes job: "MakeJob inp oh ow h w = Inr job" and range: "plan_in_range inp"
    and tile: "0 \<le> oh" "0 < h" "oh + h \<le> Height (in_logicalOfm inp)"
      "0 \<le> ow" "0 < w" "ow + w \<le> Width (in_logicalOfm inp)"
    and group: "0 \<le> output_offset inp"
  shows "output_addresses job =
      map (\<lambda>p. uint (in_ofmBase inp) + output_offset inp + 32 * p)
        (tile_pixels (Width (in_logicalOfm inp)) (oh, ow, h, w))"
    "uint (gr_dimM (job_gemm job)) = h * w"
proof -
  define H where "H = Height (in_logicalOfm inp)"
  define W where "W = Width (in_logicalOfm inp)"
  define B where "B = uint (in_ofmBase inp) + output_offset inp"
  note t = tile [folded H_def W_def]
  note below = tile_below [OF t]
  have HW: "output_offset inp + H * W * 32 < 2 ^ 63" "W < 2 ^ 31"
    using range by (simp_all add: plan_in_range_def H_def W_def)
  have base: "0 \<le> uint (in_ofmBase inp)" "uint (in_ofmBase inp) < 2 ^ 32"
    using uint_lt2p [of "in_ofmBase inp"] by simp_all
  note f = MakeJob_output [OF job, folded W_def]
  have addr: "uint (gr_ofmAddr (job_gemm job)) = B + (oh * W + ow) * 32"
    unfolding B_def
    by (rule checked32_int [OF f(1)]) (rule address_range [OF base group below(1,2) HW(1)])+
  show dim: "uint (gr_dimM (job_gemm job)) = h * w"
    using below(3,4) HW group by (intro checked32_int [OF f(2)]) simp_all
  have cols: "uint (gr_ofmTileCols (job_gemm job)) = w"
    using t HW by (intro checked32_int [OF f(3)]) simp_all
  have row: "uint (gr_ofmRowStrideBytes (job_gemm job)) = W * 32"
    using t HW by (intro checked32_int [OF f(4)]) simp_all
  have "output_addresses job =
      map (\<lambda>m. (\<lambda>y x. B + (oh * W + ow) * 32 + y * (W * 32) + x * 32) (m div w) (m mod w)) [0..h * w - 1]"
    by (simp add: output_addresses_def Let_def addr dim cols row)
  also have "\<dots> = concat (map (\<lambda>y. map (\<lambda>x. B + (oh * W + ow) * 32 + y * (W * 32) + x * 32) [0..w - 1])
      [0..h - 1])"
    using t by (intro block_div_mod) simp_all
  also have "\<dots> = map (\<lambda>p. B + 32 * p) (tile_pixels W (oh, ow, h, w))"
    by (simp add: tile_pixels_def map_concat comp_def map_upto_shift algebra_simps)
  finally show "output_addresses job =
      map (\<lambda>p. uint (in_ofmBase inp) + output_offset inp + 32 * p)
        (tile_pixels (Width (in_logicalOfm inp)) (oh, ow, h, w))"
    by (simp add: B_def W_def)
qed

text \<open>C38: the jobs of a plan write every output position of their channel group exactly once: their
  output addresses, taken together, are a permutation of the 32-byte positions of the group's plane,
  and no job has more positions than the partial-sum limit \<open>maxM\<close>.\<close>

theorem plan_partitions_output:
  assumes "Plan inp = Inr jobs" and "plan_in_range inp"
  shows "mset (concat (map output_addresses jobs)) =
      mset (map (\<lambda>p. uint (in_ofmBase inp) + output_offset inp + 32 * p)
        [0..Height (in_logicalOfm inp) * Width (in_logicalOfm inp) - 1]) \<and>
    list_all (\<lambda>job. 0 < uint (gr_dimM (job_gemm job)) \<and> uint (gr_dimM (job_gemm job)) \<le> in_maxM inp) jobs"
proof -
  define H where "H = Height (in_logicalOfm inp)"
  define W where "W = Width (in_logicalOfm inp)"
  define pos where "pos p = uint (in_ofmBase inp) + output_offset inp + 32 * p" for p
  note valid = Plan_Inr(1) [OF assms(1)]
  note p = plan_positive [OF valid]
  have group: "0 \<le> output_offset inp" using p by (simp add: output_offset_def)
  have each: "list_all2 (\<lambda>t job. output_addresses job = map pos (tile_pixels W t) \<and>
      0 < uint (gr_dimM (job_gemm job)) \<and> uint (gr_dimM (job_gemm job)) \<le> in_maxM inp) (plan_tiles inp) jobs"
  proof (rule list.rel_mono_strong [OF Plan_Inr(2) [OF assms(1)]])
    fix t job
    assume t: "t \<in> set (plan_tiles inp)" and "job \<in> set jobs" and tj: "case t of (oh, ow, h, w) \<Rightarrow> MakeJob inp oh ow h w = Inr job"
    obtain oh ow h w where tq: "t = (oh, ow, h, w)" by (cases t)
    note b = plan_tile_bounds [OF valid t [unfolded tq]]
    have "output_addresses job = map pos (tile_pixels W t)" "uint (gr_dimM (job_gemm job)) = h * w"
      using job_output [OF tj [unfolded tq prod.case] assms(2) b(1-6) group] by (simp_all add: tq pos_def W_def)
    then show "output_addresses job = map pos (tile_pixels W t) \<and>
      0 < uint (gr_dimM (job_gemm job)) \<and> uint (gr_dimM (job_gemm job)) \<le> in_maxM inp"
      using b by simp
  qed
  then have "map output_addresses jobs = map (\<lambda>t. map pos (tile_pixels W t)) (plan_tiles inp)"
    by (induction rule: list_all2_induct) simp_all
  then have "mset (concat (map output_addresses jobs)) =
      image_mset pos (mset (concat (map (tile_pixels W) (plan_tiles inp))))"
    by (simp add: map_concat comp_def flip: mset_map)
  also have "\<dots> = image_mset pos (mset [0..H * W - 1])"
    using tiles_partition [of H W "fst (tile_size inp)" "snd (tile_size inp)"] tile_size_bounds(1,2) [OF p(1-3)] p
    by (simp add: plan_tiles_eq H_def W_def)
  finally have "mset (concat (map output_addresses jobs)) = mset (map pos [0..H * W - 1])" by simp
  moreover have "list_all (\<lambda>job. 0 < uint (gr_dimM (job_gemm job)) \<and> uint (gr_dimM (job_gemm job)) \<le> in_maxM inp) jobs"
    using each by (induction rule: list_all2_induct) simp_all
  ultimately show ?thesis unfolding pos_def [abs_def] H_def W_def by (rule conjI)
qed

section \<open>The windows\<close>

lemma window_cases:
  fixes q d D limit :: int
  assumes "0 \<le> d" "d \<le> D" "q \<le> limit - 1" "1 \<le> limit"
  defines "first \<equiv> clamp q 0 (limit - 1)" and "final \<equiv> clamp (q + D) 0 (limit - 1)"
  shows "(0 \<le> d - max 0 (first - q) \<and> d - max 0 (first - q) < max 0 (final - first + 1)) \<longleftrightarrow>
      0 \<le> q + d \<and> q + d < limit"
    "0 \<le> q + d \<Longrightarrow> first + (d - max 0 (first - q)) = q + d"
    "0 \<le> first" "first \<le> limit - 1"
  using assms by (auto simp: clamp_def)

lemma window_position:
  assumes "tile_window base n s pad ks limit = (first, lines, lead)"
    and "0 \<le> r" "r < n" "0 \<le> k" "k < ks" "1 \<le> s" "1 \<le> limit" "base * s - pad \<le> limit - 1"
  shows "(0 \<le> r * s + k - lead \<and> r * s + k - lead < lines) \<longleftrightarrow>
      0 \<le> (base + r) * s + k - pad \<and> (base + r) * s + k - pad < limit"
    "0 \<le> (base + r) * s + k - pad \<Longrightarrow> first + (r * s + k - lead) = (base + r) * s + k - pad"
    "0 \<le> first" "first \<le> limit - 1"
proof -
  define q where "q = base * s - pad"
  define D where "D = (n - 1) * s + ks - 1"
  have rs: "r * s \<le> (n - 1) * s" "0 \<le> r * s" using assms by (auto intro: mult_right_mono)
  have d: "0 \<le> r * s + k" "r * s + k \<le> D" unfolding D_def using assms(4,5) rs by linarith+
  have g: "(base + r) * s + k - pad = q + (r * s + k)" by (simp add: q_def distrib_right)
  have e: "(base + n - 1) * s - pad + ks - 1 = q + D" by (simp add: q_def D_def algebra_simps)
  have w: "first = clamp q 0 (limit - 1)" "lines = max 0 (clamp (q + D) 0 (limit - 1) - first + 1)"
      "lead = max 0 (first - q)"
    using assms(1) unfolding tile_window_def Let_def e q_def [symmetric] by auto
  note c = window_cases [OF d assms(8) [folded q_def] assms(7), folded w(1), folded w(2,3)]
  show "(0 \<le> r * s + k - lead \<and> r * s + k - lead < lines) \<longleftrightarrow>
      0 \<le> (base + r) * s + k - pad \<and> (base + r) * s + k - pad < limit"
    "0 \<le> (base + r) * s + k - pad \<Longrightarrow> first + (r * s + k - lead) = (base + r) * s + k - pad"
    "0 \<le> first" "first \<le> limit - 1"
    using c unfolding g by simp_all
qed

definition local_row :: "LinebufferJob \<Rightarrow> int \<Rightarrow> int \<Rightarrow> int" where
  "local_row job r k = r * uint (lb_strideH (job_linebuf job)) + k - uint (lb_padH (job_linebuf job))"

definition local_column :: "LinebufferJob \<Rightarrow> int \<Rightarrow> int \<Rightarrow> int" where
  "local_column job c k = c * uint (lb_strideW (job_linebuf job)) + k - uint (lb_padW (job_linebuf job))"

definition in_window :: "LinebufferJob \<Rightarrow> int \<Rightarrow> int \<Rightarrow> bool" where
  "in_window job y x \<longleftrightarrow> 0 \<le> y \<and> y < uint (lb_inputH (job_linebuf job)) \<and>
     0 \<le> x \<and> x < uint (lb_inputW (job_linebuf job))"

definition input_address :: "LinebufferJob \<Rightarrow> int \<Rightarrow> int \<Rightarrow> int" where
  "input_address job y x = uint (lb_inputBase (job_linebuf job)) +
     y * uint (lb_rowStrideBytes (job_linebuf job)) + x * uint (lb_pixelStrideBytes (job_linebuf job))"

definition in_ifm :: "LinebufferPlannerInput \<Rightarrow> int \<Rightarrow> int \<Rightarrow> bool" where
  "in_ifm inp y x \<longleftrightarrow> 0 \<le> y \<and> y < Height (in_logicalIfm inp) \<and> 0 \<le> x \<and> x < Width (in_logicalIfm inp)"

definition ifm_address :: "LinebufferPlannerInput \<Rightarrow> int \<Rightarrow> int \<Rightarrow> int" where
  "ifm_address inp y x = uint (in_ifmBase inp) + input_offset inp +
     (y * Width (in_logicalIfm inp) + x) * inputCStride inp"

text \<open>The window of every output position begins before the end of the input.\<close>

definition windows_begin_inside :: "LinebufferPlannerInput \<Rightarrow> bool" where
  "windows_begin_inside inp \<longleftrightarrow>
     (Height (in_logicalOfm inp) - 1) * in_strideH inp - in_padTop inp < Height (in_logicalIfm inp) \<and>
     (Width (in_logicalOfm inp) - 1) * in_strideW inp - in_padLeft inp < Width (in_logicalIfm inp)"

lemma begins_inside:
  fixes s :: int
  assumes "(n - 1) * s - pad < limit" "base < n" "1 \<le> s"
  shows "base * s - pad \<le> limit - 1"
proof -
  have "base * s \<le> (n - 1) * s" using assms by (intro mult_right_mono) auto
  then show ?thesis using assms(1) by linarith
qed

lemma input_base_range:
  fixes b off y x H W cs :: int
  assumes "0 \<le> b" "b < 2 ^ 32" "0 \<le> off" "0 \<le> y" "y \<le> H - 1" "0 \<le> x" "x \<le> W - 1" "0 < cs"
    and "off + H * (W * cs) < 2 ^ 63"
  shows "0 \<le> b + off + y * (W * cs) + x * cs" "b + off + y * (W * cs) + x * cs < 2 ^ 64"
proof -
  have W: "0 \<le> W * cs" using assms by simp
  then have "0 \<le> y * (W * cs)" "0 \<le> x * cs" using assms by simp_all
  then show "0 \<le> b + off + y * (W * cs) + x * cs" using assms by linarith
  have "y * (W * cs) \<le> (H - 1) * (W * cs)" using assms W by (intro mult_right_mono) auto
  moreover have "x * cs \<le> W * cs" using assms by (intro mult_right_mono) auto
  ultimately have "y * (W * cs) + x * cs \<le> H * (W * cs)" by (simp add: algebra_simps)
  then show "b + off + y * (W * cs) + x * cs < 2 ^ 64" using assms(2,9) by simp
qed

lemma input_offset_nonneg: "\<not> planner_input_invalid inp \<Longrightarrow> 0 \<le> input_offset inp"
  by (auto simp: input_offset_def Let_def planner_input_invalid_def)

lemma job_window:
  assumes job: "MakeJob inp oh ow h w = Inr job" and valid: "\<not> planner_input_invalid inp"
    and range: "plan_in_range inp" and inside: "windows_begin_inside inp"
    and tile: "oh + h \<le> Height (in_logicalOfm inp)" "ow + w \<le> Width (in_logicalOfm inp)"
    and pos: "0 \<le> r" "r < h" "0 \<le> c" "c < w" "0 \<le> ky" "ky < in_kernelH inp" "0 \<le> kx" "kx < in_kernelW inp"
  defines "y \<equiv> (oh + r) * in_strideH inp + ky - in_padTop inp"
    and "x \<equiv> (ow + c) * in_strideW inp + kx - in_padLeft inp"
  shows "in_window job (local_row job r ky) (local_column job c kx) \<longleftrightarrow> in_ifm inp y x"
    "in_ifm inp y x \<Longrightarrow> input_address job (local_row job r ky) (local_column job c kx) = ifm_address inp y x"
proof -
  note p = plan_positive [OF valid]
  note f = MakeJob_input [OF job]
  obtain fy th ph where rw: "row_window inp oh h = (fy, th, ph)" by (cases "row_window inp oh h")
  obtain fx tw pw where cw: "column_window inp ow w = (fx, tw, pw)" by (cases "column_window inp ow w")
  have oh: "oh * in_strideH inp - in_padTop inp \<le> Height (in_logicalIfm inp) - 1"
    using inside tile pos p by (intro begins_inside [of "Height (in_logicalOfm inp)"]) (auto simp: windows_begin_inside_def)
  have ow: "ow * in_strideW inp - in_padLeft inp \<le> Width (in_logicalIfm inp) - 1"
    using inside tile pos p by (intro begins_inside [of "Width (in_logicalOfm inp)"]) (auto simp: windows_begin_inside_def)
  note row = window_position [OF rw [unfolded row_window_def] pos(1,2,5,6) p(7) _ oh, folded y_def]
  note col = window_position [OF cw [unfolded column_window_def] pos(3,4,7,8) p(8) _ ow, folded x_def]
  note words = f(4-9) [THEN checked16_int, unfolded rw cw fst_conv snd_conv]
  have ly: "local_row job r ky = r * in_strideH inp + ky - ph" by (simp add: local_row_def words)
  have lx: "local_column job c kx = c * in_strideW inp + kx - pw" by (simp add: local_column_def words)
  show "in_window job (local_row job r ky) (local_column job c kx) \<longleftrightarrow> in_ifm inp y x"
    using row(1) col(1) p by (simp add: in_window_def in_ifm_def ly lx words) blast
  assume inside: "in_ifm inp y x"
  have fy: "fy + local_row job r ky = y" "0 \<le> fy" "fy \<le> Height (in_logicalIfm inp) - 1"
    using row(2-4) p inside by (simp_all add: ly in_ifm_def)
  have fx: "fx + local_column job c kx = x" "0 \<le> fx" "fx \<le> Width (in_logicalIfm inp) - 1"
    using col(2-4) p inside by (simp_all add: lx in_ifm_def)
  have r: "input_offset inp + Height (in_logicalIfm inp) * (Width (in_logicalIfm inp) * inputCStride inp) < 2 ^ 63"
    "Width (in_logicalIfm inp) < 2 ^ 31" "inputCStride inp < 2 ^ 31"
    using range by (simp_all add: plan_in_range_def)
  have b: "0 \<le> uint (in_ifmBase inp)" "uint (in_ifmBase inp) < 2 ^ 32"
    using uint_lt2p [of "in_ifmBase inp"] by simp_all
  have base: "uint (lb_inputBase (job_linebuf job)) = uint (in_ifmBase inp) + input_offset inp +
      fy * (Width (in_logicalIfm inp) * inputCStride inp) + fx * inputCStride inp"
    using f(1) unfolding rw cw fst_conv
    by (rule checked32_int) (rule input_base_range [OF b input_offset_nonneg [OF valid] fy(2,3) fx(2,3) p(9) r(1)])+
  have "0 \<le> Width (in_logicalIfm inp) * inputCStride inp" using p by simp
  moreover have "Width (in_logicalIfm inp) * inputCStride inp < 2 ^ 31 * 2 ^ 31"
    using r(2,3) p by (intro mult_strict_mono) auto
  ultimately have stride: "uint (lb_rowStrideBytes (job_linebuf job)) = Width (in_logicalIfm inp) * inputCStride inp"
    using f(2) by (intro checked32_int) auto
  have pixel: "uint (lb_pixelStrideBytes (job_linebuf job)) = inputCStride inp"
    using f(3) r(3) p by (intro checked32_int) auto
  show "input_address job (local_row job r ky) (local_column job c kx) = ifm_address inp y x"
    unfolding input_address_def ifm_address_def base stride pixel
    by (simp add: fy(1) [symmetric] fx(1) [symmetric] algebra_simps)
qed

text \<open>C39: every job reads exactly the input pixels its output positions need.  For output position
  \<open>(r, c)\<close> of tile \<open>i\<close> and kernel position \<open>(ky, kx)\<close> the local line buffer coordinates fall in the
  window of the job if and only if the pixel of the convolution lies inside the input, and then the
  address formed from the job's base and strides is the address of that pixel in the feature map.\<close>

theorem plan_reads_window:
  assumes "Plan inp = Inr jobs" and "plan_in_range inp" and "windows_begin_inside inp"
    and "i < length jobs" and "plan_tiles inp ! i = (oh, ow, h, w)"
    and "0 \<le> r" "r < h" "0 \<le> c" "c < w" "0 \<le> ky" "ky < in_kernelH inp" "0 \<le> kx" "kx < in_kernelW inp"
    and "y = (oh + r) * in_strideH inp + ky - in_padTop inp"
    and "x = (ow + c) * in_strideW inp + kx - in_padLeft inp"
  shows "(in_window (jobs ! i) (local_row (jobs ! i) r ky) (local_column (jobs ! i) c kx) \<longleftrightarrow> in_ifm inp y x) \<and>
    (in_ifm inp y x \<longrightarrow>
      input_address (jobs ! i) (local_row (jobs ! i) r ky) (local_column (jobs ! i) c kx) = ifm_address inp y x)"
proof -
  note all = Plan_Inr [OF assms(1)]
  have i: "i < length (plan_tiles inp)" using all(2) assms(4) by (simp add: list_all2_lengthD)
  then have "(oh, ow, h, w) \<in> set (plan_tiles inp)" using assms(5) nth_mem by metis
  note b = plan_tile_bounds [OF all(1) this]
  have "MakeJob inp oh ow h w = Inr (jobs ! i)" using list_all2_nthD [OF all(2) i] assms(5) by simp
  from job_window [OF this all(1) assms(2,3) b(3,6) assms(6-13)] show ?thesis
    unfolding assms(14,15) by blast
qed

section \<open>A plan\<close>

definition planner_sample :: LinebufferPlannerInput where
  "planner_sample = \<lparr>in_logicalIfm = [1, 3, 4, 32], in_logicalOfm = [1, 3, 4, 32],
     in_ifmBase = 0x1000, in_ofmBase = 0x4000, in_weightBase = 0x8000, in_psumBase = 0xC000,
     in_kernelH = 3, in_kernelW = 3, in_strideH = 1, in_strideW = 1, in_padTop = 1, in_padLeft = 1,
     in_padBottom = 1, in_padRight = 1, in_ic = 32, in_oc = 32, in_groupIndex = 0,
     in_inputGroupIndex = 0, in_outputGroupIndex = 0, in_validLaneCount = 32, in_ifmPixelStride = 32,
     in_maxM = 6, in_tcdmBudget = 0, in_alreadyLiveBytes = 0, in_rollingBuffers = False,
     in_isDepthwise = False, in_accumMode = 0\<rparr>"

lemma sample_tiles: "plan_tiles planner_sample = [(0, 0, 1, 4), (1, 0, 1, 4), (2, 0, 1, 4)]"
  by code_simp

definition plan_length :: "LinebufferPlannerInput \<Rightarrow> nat option" where
  "plan_length inp = (case Plan inp of Inl _ \<Rightarrow> None | Inr jobs \<Rightarrow> Some (length jobs))"

lemma sample_plan_length: "plan_length planner_sample = Some 3"
  by code_simp

lemma sample_plan: "\<exists>jobs. Plan planner_sample = Inr jobs \<and> length jobs = 3"
  using sample_plan_length by (auto simp: plan_length_def split: sum.splits)

lemma sample_in_range: "plan_in_range planner_sample" "windows_begin_inside planner_sample"
  by code_simp+

theorem plan_partitions_output_witness:
  "\<exists>jobs. Plan planner_sample = Inr jobs \<and> mset (concat (map output_addresses jobs)) =
    mset (map (\<lambda>p. uint (in_ofmBase planner_sample) + output_offset planner_sample + 32 * p)
      [0..Height (in_logicalOfm planner_sample) * Width (in_logicalOfm planner_sample) - 1])"
  using sample_plan plan_partitions_output [OF _ sample_in_range(1)] by blast

theorem plan_reads_window_witness:
  "\<exists>jobs. Plan planner_sample = Inr jobs \<and>
    in_window (jobs ! 1) (local_row (jobs ! 1) 0 0) (local_column (jobs ! 1) 1 0) \<and>
    input_address (jobs ! 1) (local_row (jobs ! 1) 0 0) (local_column (jobs ! 1) 1 0) = 0x1000"
proof -
  from sample_plan obtain jobs where jobs: "Plan planner_sample = Inr jobs" "length jobs = 3" by blast
  have "in_ifm planner_sample 0 0" "ifm_address planner_sample 0 0 = 0x1000"
    "in_kernelH planner_sample = 3" "in_kernelW planner_sample = 3" "in_strideH planner_sample = 1"
    "in_strideW planner_sample = 1" "in_padTop planner_sample = 1" "in_padLeft planner_sample = 1"
    by code_simp+
  then show ?thesis
    using plan_reads_window [OF jobs(1) sample_in_range, of 1 1 0 1 4 0 1 0 0 0 0] jobs
    by (simp add: sample_tiles)
qed

end
