(* ===== verification/NAI_StagingProof.thy ===== *)
theory NAI_StagingProof
  imports NAI_LinebufferProof
begin

text \<open>
  \<^verbatim>\<open>PlanStripeStaging\<close>: it always returns, and its copies move every byte of the stripe, in order,
  from the ring of stored rows to its place in the padded staging tensor.
\<close>

section \<open>Staging a stripe\<close>

text \<open>The bytes a staging copy moves, as pairs of source and destination address in the order of the
  transfer: an optional outer repetition (zero stands for a two-dimensional transfer), an inner
  repetition and a contiguous length.\<close>

definition copy_bytes :: "StripeStagingCopy \<Rightarrow> (int \<times> int) list" where
  "copy_bytes c =
     concat (map (\<lambda>i. concat (map (\<lambda>j. map (\<lambda>b.
         (uint (cp_source c) + i * uint (cp_sourceStride3 c) + j * uint (cp_sourceStride c) + b,
          uint (cp_destination c) + i * uint (cp_destinationStride3 c) + j * uint (cp_destinationStride c) + b))
         [0..uint (cp_length c) - 1]) [0..uint (cp_repetitions c) - 1]))
       [0..max 1 (uint (cp_repetitions3 c)) - 1])"

text \<open>The specification: byte \<open>b\<close> of pixel \<open>(y, x)\<close> of channel group \<open>gr\<close> of the stripe, in the ring of
  stored rows and in the staged tensor.\<close>

definition source_pixel :: "StripeStagingInput \<Rightarrow> int" where
  "source_pixel inp = (if st_directNhwc inp \<or> compactSource inp then st_channels inp else 32)"

definition destination_pixel :: "StripeStagingInput \<Rightarrow> int" where
  "destination_pixel inp = (if st_directNhwc inp then st_channels inp else 32)"

definition group_bytes :: "StripeStagingInput \<Rightarrow> int \<Rightarrow> int" where
  "group_bytes inp gr = (if st_directNhwc inp then st_channels inp else min 32 (st_channels inp - gr * 32))"

definition source_row :: "StripeStagingInput \<Rightarrow> int" where
  "source_row inp = Width (st_storageIfm inp) * source_pixel inp"

definition destination_row :: "StripeStagingInput \<Rightarrow> int" where
  "destination_row inp = stagedW inp * destination_pixel inp"

definition stage_source :: "StripeStagingInput \<Rightarrow> int \<Rightarrow> int \<Rightarrow> int \<Rightarrow> int \<Rightarrow> int" where
  "stage_source inp gr y x b = uint (st_sourceBase inp) +
     (if compactSource inp then gr * 32 else gr * (Height (st_storageIfm inp) * source_row inp)) +
     ((Height (st_areaStart inp) + y) mod Height (st_storageIfm inp)) * source_row inp +
     (Width (st_areaStart inp) + x) * source_pixel inp + b"

definition stage_destination :: "StripeStagingInput \<Rightarrow> int \<Rightarrow> int \<Rightarrow> int \<Rightarrow> int \<Rightarrow> int" where
  "stage_destination inp gr y x b = uint (st_stagingBase inp) +
     gr * (stagedH inp * destination_row inp) + (st_padTop inp + y) * destination_row inp +
     (st_padLeft inp + x) * destination_pixel inp + b"

definition staged_row :: "StripeStagingInput \<Rightarrow> int \<Rightarrow> int \<Rightarrow> (int \<times> int) list" where
  "staged_row inp gr y = concat (map (\<lambda>x. map (\<lambda>b. (stage_source inp gr y x b, stage_destination inp gr y x b))
     [0..group_bytes inp gr - 1]) [0..Width (areaShape inp) - 1])"

definition staged_bytes :: "StripeStagingInput \<Rightarrow> (int \<times> int) list" where
  "staged_bytes inp = concat (map (\<lambda>gr. concat (map (staged_row inp gr) [0..Height (areaShape inp) - 1]))
     [0..staging_groups inp - 1])"

definition staging_in_range :: "StripeStagingInput \<Rightarrow> bool" where
  "staging_in_range inp \<longleftrightarrow> Height (st_storageIfm inp) < 2 ^ 31 \<and> Width (st_storageIfm inp) < 2 ^ 31 \<and>
     stagedH inp < 2 ^ 31 \<and> stagedW inp < 2 ^ 31 \<and> st_channels inp < 2 ^ 31 - 32"

lemma RoundAway_div:
  assumes "0 < c"
  shows "RoundAway_int c 32 div 32 = (c + 31) div 32"
proof -
  define q r where "q = c div 32" and "r = c mod 32"
  have c: "c = 32 * q + r" and r: "0 \<le> r" "r < 32" by (simp_all add: q_def r_def)
  have m: "c smod 32 = r" using assms by (simp add: smod_int_alt_def sgn_if r_def)
  have up: "(32 * q + r + 31) div 32 = q + (r + 31) div 32" using div_mult_self4 [of 32 q "r + 31"] by (simp add: add.assoc)
  show ?thesis
  proof (cases "r = 0")
    case True
    then show ?thesis by (simp add: RoundAway_int_def m Let_def) (simp add: c)
  next
    case False
    then have "(r + 31) div 32 = 1" using r by (intro int_div_pos_eq [of _ _ _ "r - 1"]) simp_all
    moreover have "(32 * q + r + (32 - r)) div 32 = q + 1" by simp
    ultimately show ?thesis using False r(1) up by (simp add: RoundAway_int_def Let_def m) (simp add: c)
  qed
qed

lemma group_count_bounds:
  fixes c gr :: int
  assumes "0 \<le> gr" "gr < (c + 31) div 32" "c < 2 ^ 31 - 32"
  shows "gr * 32 < c" "gr < 2 ^ 27" "0 < min 32 (c - gr * 32)" "min 32 (c - gr * 32) < 2 ^ 31"
proof -
  have "(c + 31) div 32 * 32 \<le> c + 31"
    using div_mult_mod_eq [of "c + 31" 32] pos_mod_sign [of 32 "c + 31"] by linarith
  then show c: "gr * 32 < c" using assms(2) by linarith
  then show "gr < 2 ^ 27" using assms(3) by simp
  show "0 < min 32 (c - gr * 32)" "min 32 (c - gr * 32) < 2 ^ 31" using c by (simp_all add: min_def)
qed

lemma staging_group_bounds:
  assumes "0 < st_channels inp" "st_channels inp < 2 ^ 31 - 32" "0 \<le> gr" "gr < staging_groups inp"
  shows "gr < 2 ^ 27 \<and> 0 < group_bytes inp gr \<and> group_bytes inp gr < 2 ^ 31 \<and>
    (st_directNhwc inp \<longrightarrow> gr = 0) \<and> (\<not> st_directNhwc inp \<longrightarrow> gr * 32 < st_channels inp)"
proof (cases "st_directNhwc inp")
  case True
  then show ?thesis using assms by (simp add: staging_groups_def group_bytes_def)
next
  case False
  then have "gr < (st_channels inp + 31) div 32"
    using assms(1,4) by (simp add: staging_groups_def storedChannels_def C32_def RoundAway_div)
  from group_count_bounds [OF assms(3) this assms(2)] False show ?thesis by (simp add: group_bytes_def)
qed

lemma staging_words:
  assumes "0 < st_channels inp" "st_channels inp < 2 ^ 31 - 32"
  shows "uint (sourcePixelBytes inp) = source_pixel inp" "uint (destinationPixelBytes inp) = destination_pixel inp"
    "0 \<le> gr \<Longrightarrow> gr < staging_groups inp \<Longrightarrow> uint (groupChannels inp gr) = group_bytes inp gr"
proof -
  show "uint (sourcePixelBytes inp) = source_pixel inp"
    using assms by (simp add: sourcePixelBytes_def source_pixel_def C32_def uint_word_of_int)
  show "uint (destinationPixelBytes inp) = destination_pixel inp"
    using assms by (simp add: destinationPixelBytes_def destination_pixel_def C32_def uint_word_of_int)
  assume "0 \<le> gr" "gr < staging_groups inp"
  then have b: "0 < group_bytes inp gr" "group_bytes inp gr < 2 ^ 31"
    using staging_group_bounds [OF assms, of gr] by blast+
  have "groupChannels inp gr = word_of_int (group_bytes inp gr)"
    by (simp add: groupChannels_def group_bytes_def C32_def)
  then show "uint (groupChannels inp gr) = group_bytes inp gr" using b by (simp add: uint_word_of_int)
qed

section \<open>One copy\<close>

definition strides_ok :: "StripeStagingInput \<Rightarrow> staging_strides \<Rightarrow> bool" where
  "strides_ok inp ss \<longleftrightarrow> uint (ss_sourceRow ss) = source_row inp \<and>
     uint (ss_destinationRow ss) = destination_row inp \<and>
     uint (ss_sourcePlane ss) = Height (st_storageIfm inp) * source_row inp \<and>
     uint (ss_destinationPlane ss) = stagedH inp * destination_row inp"

lemma staging_positive:
  assumes "\<not> staging_invalid inp"
  shows "0 < st_channels inp" "0 < Height (areaShape inp)" "0 < Width (areaShape inp)"
    "0 \<le> Height (st_areaStart inp)" "0 \<le> Width (st_areaStart inp)" "0 < Height (st_storageIfm inp)"
    "Width (st_areaStart inp) + Width (areaShape inp) \<le> Width (st_storageIfm inp)"
    "0 \<le> st_padTop inp" "0 \<le> st_padLeft inp" "0 \<le> st_padBottom inp" "0 \<le> st_padRight inp"
  using assms by (auto simp: staging_invalid_def Let_def)

lemma product_range:
  fixes a b :: int
  assumes "0 \<le> a" "a < 2 ^ 31" "0 \<le> b" "b < 2 ^ 32"
  shows "0 \<le> a * b" "a * b < 2 ^ 64"
proof -
  show "0 \<le> a * b" using assms by simp
  have "a * b \<le> 2 ^ 31 * 2 ^ 32" using assms by (intro mult_mono) auto
  then show "a * b < 2 ^ 64" by simp
qed

lemma pixel_range:
  assumes "0 < st_channels inp" "st_channels inp < 2 ^ 31 - 32"
  shows "0 < source_pixel inp \<and> source_pixel inp < 2 ^ 32 \<and> 0 < destination_pixel inp \<and> destination_pixel inp < 2 ^ 32"
  using assms by (simp add: source_pixel_def destination_pixel_def)

lemma strides_facts:
  assumes "staging_strides_of inp = Inr ss" and "\<not> staging_invalid inp" and "staging_in_range inp"
  shows "strides_ok inp ss"
proof -
  note p = staging_positive [OF assms(2)]
  have r: "Height (st_storageIfm inp) < 2 ^ 31" "Width (st_storageIfm inp) < 2 ^ 31" "stagedH inp < 2 ^ 31"
    "stagedW inp < 2 ^ 31" "st_channels inp < 2 ^ 31 - 32"
    using assms(3) by (simp_all add: staging_in_range_def)
  have nn: "0 \<le> Width (st_storageIfm inp)" "0 \<le> Height (st_storageIfm inp)" "0 \<le> stagedH inp" "0 \<le> stagedW inp"
    using p by (simp_all add: stagedH_def stagedW_def)
  note px = pixel_range [OF p(1) r(5)]
  note w = staging_words(1,2) [OF p(1) r(5)]
  have c: "checked32 (ss_sourceRow ss) (source_row inp)" "checked32 (ss_destinationRow ss) (destination_row inp)"
    "checked32 (ss_sourcePlane ss) (Height (st_storageIfm inp) * uint (ss_sourceRow ss))"
    "checked32 (ss_destinationPlane ss) (stagedH inp * uint (ss_destinationRow ss))"
    using assms(1) unfolding staging_strides_of_def check_Inr
    by (auto simp: CheckedU32_Inr u64_of_ring checked32_def w source_row_def destination_row_def)
  have sr: "uint (ss_sourceRow ss) = source_row inp"
    unfolding source_row_def
    by (rule checked32_int [OF c(1) [unfolded source_row_def]]) (use product_range [OF nn(1) r(2)] px in auto)
  have dr: "uint (ss_destinationRow ss) = destination_row inp"
    unfolding destination_row_def
    by (rule checked32_int [OF c(2) [unfolded destination_row_def]]) (use product_range [OF nn(4) r(4)] px in auto)
  have sp: "uint (ss_sourcePlane ss) = Height (st_storageIfm inp) * uint (ss_sourceRow ss)"
    using product_range [OF nn(2) r(1), of "uint (ss_sourceRow ss)"] uint_lt2p [of "ss_sourceRow ss"]
    by (intro checked32_int [OF c(3)]) auto
  have dp: "uint (ss_destinationPlane ss) = stagedH inp * uint (ss_destinationRow ss)"
    using product_range [OF nn(3) r(3), of "uint (ss_destinationRow ss)"] uint_lt2p [of "ss_destinationRow ss"]
    by (intro checked32_int [OF c(4)]) auto
  show ?thesis using sr dr sp dp by (simp add: strides_ok_def)
qed

definition copy_source :: "StripeStagingInput \<Rightarrow> staging_strides \<Rightarrow> int \<Rightarrow> int \<Rightarrow> int" where
  "copy_source inp ss gr sourceY = uint (st_sourceBase inp) +
     (if compactSource inp then gr * 32 else gr * uint (ss_sourcePlane ss)) +
     sourceY * uint (ss_sourceRow ss) + Width (st_areaStart inp) * uint (sourcePixelBytes inp)"

definition copy_destination :: "StripeStagingInput \<Rightarrow> staging_strides \<Rightarrow> int \<Rightarrow> int \<Rightarrow> int" where
  "copy_destination inp ss gr y = uint (st_stagingBase inp) + gr * uint (ss_destinationPlane ss) +
     (st_padTop inp + y) * uint (ss_destinationRow ss) + st_padLeft inp * uint (destinationPixelBytes inp)"

lemma staging_copy_fields:
  assumes "staging_copy inp ss gr copied sourceY reps = Inr c"
  shows "checked32 (cp_source c) (copy_source inp ss gr sourceY) \<and>
    checked32 (cp_destination c) (copy_destination inp ss gr copied) \<and>
    (if \<not> st_directNhwc inp \<and> (compactSource inp \<or> groupChannels inp gr < 32)
     then cp_length c = groupChannels inp gr \<and> cp_sourceStride c = sourcePixelBytes inp \<and>
       cp_destinationStride c = 32 \<and> cp_repetitions c = word_of_int (Width (areaShape inp)) \<and>
       cp_sourceStride3 c = ss_sourceRow ss \<and> cp_destinationStride3 c = ss_destinationRow ss \<and>
       cp_repetitions3 c = word_of_int reps
     else checked32 (cp_length c) (Width (areaShape inp) * uint (sourcePixelBytes inp)) \<and>
       cp_sourceStride c = ss_sourceRow ss \<and> cp_destinationStride c = ss_destinationRow ss \<and>
       cp_repetitions c = word_of_int reps \<and> cp_repetitions3 c = 0)"
proof (cases "\<not> st_directNhwc inp \<and> (compactSource inp \<or> groupChannels inp gr < 32)")
  case True
  have "\<exists>s d. CheckedAddress (u64_of (copy_source inp ss gr sourceY)) = Inr s \<and>
      CheckedAddress (u64_of (copy_destination inp ss gr copied)) = Inr d \<and>
      c = \<lparr>cp_source = s, cp_destination = d, cp_length = groupChannels inp gr,
           cp_sourceStride = sourcePixelBytes inp, cp_destinationStride = 32,
           cp_repetitions = word_of_int (Width (areaShape inp)), cp_sourceStride3 = ss_sourceRow ss,
           cp_destinationStride3 = ss_destinationRow ss, cp_repetitions3 = word_of_int reps\<rparr>"
    using assms unfolding staging_copy_def Let_def copy_source_def copy_destination_def if_P [OF True] check_Inr
    by (simp only: u64_of_ring C32_def group_offset_eq sum.inject) blast
  then show ?thesis unfolding if_P [OF True] by (auto simp: CheckedAddress_Inr checked32_def)
next
  case False
  have "\<exists>s d l. CheckedAddress (u64_of (copy_source inp ss gr sourceY)) = Inr s \<and>
      CheckedAddress (u64_of (copy_destination inp ss gr copied)) = Inr d \<and>
      CheckedU32 (u64_of (Width (areaShape inp) * uint (sourcePixelBytes inp))) ''stripe row copy size'' = Inr l \<and>
      c = \<lparr>cp_source = s, cp_destination = d, cp_length = l, cp_sourceStride = ss_sourceRow ss,
           cp_destinationStride = ss_destinationRow ss, cp_repetitions = word_of_int reps,
           cp_sourceStride3 = 0, cp_destinationStride3 = 0, cp_repetitions3 = 0\<rparr>"
    using assms unfolding staging_copy_def Let_def copy_source_def copy_destination_def if_not_P [OF False] check_Inr
    by (simp only: u64_of_ring C32_def group_offset_eq sum.inject) blast
  then show ?thesis unfolding if_not_P [OF False] by (auto simp: CheckedAddress_Inr CheckedU32_Inr checked32_def)
qed

lemma sum_range4:
  fixes a b c d :: int
  assumes "0 \<le> a" "a < 2 ^ 32" "0 \<le> b" "b < 2 ^ 63" "0 \<le> c" "c < 2 ^ 32" "0 \<le> d" "d < 2 ^ 32"
  shows "0 \<le> a + b + c + d" "a + b + c + d < 2 ^ 64"
  using assms by simp_all

lemma plane_range:
  fixes gr plane :: int
  assumes "0 \<le> gr" "gr < 2 ^ 27" "0 \<le> plane" "plane < 2 ^ 32"
  shows "0 \<le> gr * plane" "gr * plane < 2 ^ 63"
proof -
  show "0 \<le> gr * plane" using assms by simp
  have "gr * plane \<le> 2 ^ 27 * 2 ^ 32" using assms by (intro mult_mono) auto
  then show "gr * plane < 2 ^ 63" by simp
qed

text \<open>A row or column position inside a plane or row is below the 32-bit size of the whole.\<close>

lemma inside_range:
  fixes k n s :: int
  assumes "0 \<le> k" "k \<le> n" "0 \<le> s" "n * s < 2 ^ 32"
  shows "0 \<le> k * s" "k * s < 2 ^ 32"
proof -
  show "0 \<le> k * s" using assms by simp
  have "k * s \<le> n * s" using assms by (intro mult_right_mono) auto
  then show "k * s < 2 ^ 32" using assms(4) by linarith
qed

lemma uint_u32_range: "0 \<le> uint (v :: u32)" "uint v < 2 ^ 32"
  using uint_lt2p [of v] by simp_all

lemma staging_addresses:
  assumes "staging_copy inp ss gr copied sourceY reps = Inr c" and "strides_ok inp ss"
    and "\<not> staging_invalid inp" and "staging_in_range inp"
    and "0 \<le> gr" "gr < staging_groups inp" "0 \<le> copied" "copied < Height (areaShape inp)"
    and "sourceY = (Height (st_areaStart inp) + copied) mod Height (st_storageIfm inp)"
  shows "uint (cp_source c) = stage_source inp gr copied 0 0"
    "uint (cp_destination c) = stage_destination inp gr copied 0 0"
proof -
  note p = staging_positive [OF assms(3)]
  have ch: "st_channels inp < 2 ^ 31 - 32" using assms(4) by (simp add: staging_in_range_def)
  note w = staging_words(1,2) [OF p(1) ch]
  have gr: "gr < 2 ^ 27" "\<not> st_directNhwc inp \<Longrightarrow> gr * 32 < st_channels inp"
    using staging_group_bounds [OF p(1) ch assms(5,6)] by blast+
  note ok = assms(2) [unfolded strides_ok_def]
  note f = staging_copy_fields [OF assms(1)]
  have px: "0 \<le> source_pixel inp" "0 \<le> destination_pixel inp" using pixel_range [OF p(1) ch] by simp_all
  have row: "source_row inp < 2 ^ 32" "Height (st_storageIfm inp) * source_row inp < 2 ^ 32"
      "destination_row inp < 2 ^ 32" "stagedH inp * destination_row inp < 2 ^ 32" "0 \<le> source_row inp" "0 \<le> destination_row inp"
    using ok uint_u32_range [of "ss_sourceRow ss"] uint_u32_range [of "ss_sourcePlane ss"]
      uint_u32_range [of "ss_destinationRow ss"] uint_u32_range [of "ss_destinationPlane ss"] by auto
  have y: "0 \<le> sourceY" "sourceY \<le> Height (st_storageIfm inp)" using p assms(9) by (auto intro: less_imp_le)
  have "0 \<le> (if compactSource inp then gr * 32 else gr * uint (ss_sourcePlane ss)) \<and>
      (if compactSource inp then gr * 32 else gr * uint (ss_sourcePlane ss)) < 2 ^ 63"
    using plane_range [OF assms(5) gr(1) uint_u32_range] assms(5) gr(1) by simp
  then have goff: "0 \<le> (if compactSource inp then gr * 32 else gr * uint (ss_sourcePlane ss))"
      "(if compactSource inp then gr * 32 else gr * uint (ss_sourcePlane ss)) < 2 ^ 63" by blast+
  have x: "0 \<le> Width (st_areaStart inp)" "Width (st_areaStart inp) \<le> Width (st_storageIfm inp)" using p by linarith+
  have d: "0 \<le> st_padTop inp + copied" "st_padTop inp + copied \<le> stagedH inp" "st_padLeft inp \<le> stagedW inp"
    using p assms(7,8) by (simp_all add: stagedH_def stagedW_def)
  have "uint (cp_source c) = copy_source inp ss gr sourceY"
    unfolding copy_source_def
    by (rule checked32_int [OF conjunct1 [OF f, unfolded copy_source_def]])
      (use sum_range4 [OF uint_u32_range [of "st_sourceBase inp"] goff inside_range [OF y row(5,2)]
        inside_range [OF x px(1) row(1) [unfolded source_row_def]]] ok w in simp_all)
  also have "\<dots> = stage_source inp gr copied 0 0"
    using ok w by (simp add: copy_source_def stage_source_def assms(9))
  finally show "uint (cp_source c) = stage_source inp gr copied 0 0" .
  have "uint (cp_destination c) = copy_destination inp ss gr copied"
    unfolding copy_destination_def
    by (rule checked32_int [OF conjunct1 [OF conjunct2 [OF f], unfolded copy_destination_def]])
      (use sum_range4 [OF uint_u32_range [of "st_stagingBase inp"]
        plane_range [OF assms(5) gr(1) uint_u32_range [of "ss_destinationPlane ss"]]
        inside_range [OF d(1,2) row(6,4)] inside_range [OF p(9) d(3) px(2) row(3) [unfolded destination_row_def]]] ok w
       in simp_all)
  also have "\<dots> = stage_destination inp gr copied 0 0"
    using ok w by (simp add: copy_destination_def stage_destination_def)
  finally show "uint (cp_destination c) = stage_destination inp gr copied 0 0" .
qed

lemma staged_row_shift:
  assumes "0 \<le> i" "(Height (st_areaStart inp) + copied) mod Height (st_storageIfm inp) + i < Height (st_storageIfm inp)"
    and "0 < Height (st_storageIfm inp)"
  shows "staged_row inp gr (copied + i) = concat (map (\<lambda>x. map (\<lambda>b.
      (stage_source inp gr copied 0 0 + i * source_row inp + x * source_pixel inp + b,
       stage_destination inp gr copied 0 0 + i * destination_row inp + x * destination_pixel inp + b))
      [0..group_bytes inp gr - 1]) [0..Width (areaShape inp) - 1])"
proof -
  define q S where "q = Height (st_areaStart inp) + copied" and "S = Height (st_storageIfm inp)"
  have "(q + i) mod S = q mod S + i"
  proof -
    have "(q + i) mod S = (q mod S + i) mod S" by (simp add: mod_simps)
    also have "\<dots> = q mod S + i"
      using assms by (intro mod_pos_pos_trivial) (simp_all add: q_def S_def pos_mod_sign add_nonneg_nonneg)
    finally show ?thesis .
  qed
  then have m: "(Height (st_areaStart inp) + (copied + i)) mod Height (st_storageIfm inp) =
      (Height (st_areaStart inp) + copied) mod Height (st_storageIfm inp) + i"
    by (simp add: q_def S_def add.assoc)
  have "stage_source inp gr (copied + i) x b =
      stage_source inp gr copied 0 0 + i * source_row inp + x * source_pixel inp + b" for x b
    unfolding stage_source_def m by (simp add: algebra_simps)
  moreover have "stage_destination inp gr (copied + i) x b =
      stage_destination inp gr copied 0 0 + i * destination_row inp + x * destination_pixel inp + b" for x b
    by (simp add: stage_destination_def algebra_simps)
  ultimately show ?thesis by (simp add: staged_row_def)
qed

text \<open>A contiguous row is its pixels one after the other.\<close>

lemma contiguous_row:
  fixes s d n px :: int
  assumes "0 \<le> n" "0 < px"
  shows "map (\<lambda>b. (s + b, d + b)) [0..n * px - 1] =
    concat (map (\<lambda>x. map (\<lambda>b. (s + x * px + b, d + x * px + b)) [0..px - 1]) [0..n - 1])"
proof -
  have "map (\<lambda>b. (s + b, d + b)) [0..n * px - 1] =
      map (\<lambda>b. (\<lambda>x b. (s + x * px + b, d + x * px + b)) (b div px) (b mod px)) [0..n * px - 1]"
    by (simp add: add.assoc)
  also have "\<dots> = concat (map (\<lambda>x. map (\<lambda>b. (s + x * px + b, d + x * px + b)) [0..px - 1]) [0..n - 1])"
    by (rule block_div_mod [OF assms])
  finally show ?thesis .
qed

lemma staging_copy_bytes:
  assumes copy: "staging_copy inp ss gr copied sourceY reps = Inr c" and ss: "strides_ok inp ss"
    and valid: "\<not> staging_invalid inp" and range: "staging_in_range inp"
    and gr: "0 \<le> gr" "gr < staging_groups inp" and copied: "0 \<le> copied" "copied < Height (areaShape inp)"
    and y: "sourceY = (Height (st_areaStart inp) + copied) mod Height (st_storageIfm inp)"
    and reps: "0 < reps" "reps \<le> Height (st_storageIfm inp) - sourceY"
  shows "copy_bytes c = concat (map (staged_row inp gr) [copied..copied + reps - 1])"
proof -
  note p = staging_positive [OF valid]
  have r: "Height (st_storageIfm inp) < 2 ^ 31" "Width (st_storageIfm inp) < 2 ^ 31" "st_channels inp < 2 ^ 31 - 32"
    using range by (simp_all add: staging_in_range_def)
  note w = staging_words [OF p(1) r(3)]
  note a = staging_addresses [OF copy ss valid range gr copied y]
  note f = conjunct2 [OF conjunct2 [OF staging_copy_fields [OF copy]]]
  have sY: "0 \<le> sourceY" using p y by simp
  have reps31: "reps < 2 ^ 31" using reps(2) sY r(1) by linarith
  have aw: "Width (areaShape inp) < 2 ^ 31" "0 < Width (areaShape inp)" using p r(2) by linarith+
  have ureps: "uint (word_of_int reps :: u32) = reps" "uint (word_of_int (Width (areaShape inp)) :: u32) = Width (areaShape inp)"
    using reps31 reps(1) aw by (simp_all add: uint_word_of_int)
  have strides: "uint (ss_sourceRow ss) = source_row inp" "uint (ss_destinationRow ss) = destination_row inp"
    using ss by (simp_all add: strides_ok_def)
  have shift: "staged_row inp gr (copied + i) = concat (map (\<lambda>x. map (\<lambda>b.
      (stage_source inp gr copied 0 0 + i * source_row inp + x * source_pixel inp + b,
       stage_destination inp gr copied 0 0 + i * destination_row inp + x * destination_pixel inp + b))
      [0..group_bytes inp gr - 1]) [0..Width (areaShape inp) - 1])" if "i \<in> set [0..reps - 1]" for i
    using that reps(2) p(6) unfolding y by (intro staged_row_shift) auto
  have rows: "concat (map (staged_row inp gr) [copied..copied + reps - 1]) =
      concat (map (\<lambda>i. staged_row inp gr (copied + i)) [0..reps - 1])"
    by (simp only: map_upto_shift)
  show ?thesis
  proof (cases "\<not> st_directNhwc inp \<and> (compactSource inp \<or> groupChannels inp gr < 32)")
    case True
    note g = f [unfolded if_P [OF True]]
    have dp: "destination_pixel inp = 32" using True by (simp add: destination_pixel_def)
    have "copy_bytes c = concat (map (\<lambda>i. concat (map (\<lambda>x. map (\<lambda>b.
      (stage_source inp gr copied 0 0 + i * source_row inp + x * source_pixel inp + b,
       stage_destination inp gr copied 0 0 + i * destination_row inp + x * destination_pixel inp + b))
      [0..group_bytes inp gr - 1]) [0..Width (areaShape inp) - 1])) [0..reps - 1])"
      using g reps(1) unfolding copy_bytes_def by (simp add: ureps strides a w(1) w(3) [OF gr] dp)
    also have "\<dots> = concat (map (\<lambda>i. staged_row inp gr (copied + i)) [0..reps - 1])"
      by (intro arg_cong [where f = concat] map_cong refl shift [symmetric])
    finally show ?thesis unfolding rows .
  next
    case False
    note g = f [unfolded if_not_P [OF False]]
    have px: "destination_pixel inp = source_pixel inp" "group_bytes inp gr = source_pixel inp"
    proof -
      have "32 \<le> group_bytes inp gr" if "\<not> st_directNhwc inp"
        using False that w(3) [OF gr] by (simp add: word_less_def)
      then show "destination_pixel inp = source_pixel inp" "group_bytes inp gr = source_pixel inp"
        using False by (auto simp: destination_pixel_def source_pixel_def group_bytes_def)
    qed
    have spx: "0 < source_pixel inp" "source_pixel inp < 2 ^ 32" using pixel_range [OF p(1) r(3)] by simp_all
    have len: "uint (cp_length c) = Width (areaShape inp) * source_pixel inp"
      using g product_range [of "Width (areaShape inp)" "source_pixel inp"] aw spx
      by (intro checked32_int) (auto simp: w(1))
    have "copy_bytes c = concat (map (\<lambda>i. map (\<lambda>b. (stage_source inp gr copied 0 0 + i * source_row inp + b,
        stage_destination inp gr copied 0 0 + i * destination_row inp + b))
        [0..Width (areaShape inp) * source_pixel inp - 1]) [0..reps - 1])"
      using g reps(1) unfolding copy_bytes_def by (simp add: ureps strides a len)
    also have "\<dots> = concat (map (\<lambda>i. staged_row inp gr (copied + i)) [0..reps - 1])"
      using aw(2) spx(1) by (intro arg_cong [where f = concat] map_cong refl)
        (simp only: shift px contiguous_row less_imp_le)
    finally show ?thesis unfolding rows .
  qed
qed

section \<open>The loops\<close>

text \<open>Every turn of the row loop copies at least one row, so it ends; its copies move the remaining rows.\<close>

lemma stage_rows_result:
  assumes "\<not> staging_invalid inp" and "0 \<le> copied" "copied \<le> Height (areaShape inp)"
  shows "\<exists>r. stage_rows inp ss gr copied copies = Some r \<and>
    (\<forall>out. r = Inr out \<longrightarrow> strides_ok inp ss \<longrightarrow> staging_in_range inp \<longrightarrow> 0 \<le> gr \<longrightarrow> gr < staging_groups inp \<longrightarrow>
      (\<exists>cs. out = copies @ cs \<and> concat (map copy_bytes cs) =
        concat (map (staged_row inp gr) [copied..Height (areaShape inp) - 1])))"
  using assms(2,3)
proof (induction "nat (Height (areaShape inp) - copied)" arbitrary: copied copies rule: less_induct)
  case less
  define H where "H = Height (areaShape inp)"
  define sourceY where "sourceY = (Height (st_areaStart inp) + copied) mod Height (st_storageIfm inp)"
  define reps where "reps = min (H - copied) (Height (st_storageIfm inp) - sourceY)"
  note p = staging_positive [OF assms(1)]
  show ?case
  proof (cases "copied < H")
    case False
    then have "H - 1 < copied" by simp
    then show ?thesis using False by (subst stage_rows.simps) (auto simp: H_def)
  next
    case True
    have "sourceY < Height (st_storageIfm inp)" using p(6) by (simp add: sourceY_def)
    then have reps: "0 < reps" "reps \<le> H - copied" "reps \<le> Height (st_storageIfm inp) - sourceY"
      using True by (simp_all add: reps_def)
    have unfold: "stage_rows inp ss gr copied copies =
        (case staging_copy inp ss gr copied sourceY reps of Inl e \<Rightarrow> Some (Inl e)
         | Inr c \<Rightarrow> stage_rows inp ss gr (copied + reps) (copies @ [c]))"
      using True unfolding reps_def sourceY_def H_def by (subst stage_rows.simps) (simp only: Let_def not_True_eq_False if_False simp_thms)
    show ?thesis
    proof (cases "staging_copy inp ss gr copied sourceY reps")
      case (Inl e)
      then show ?thesis by (simp add: unfold)
    next
      case (Inr c)
      have "nat (H - (copied + reps)) < nat (H - copied)" "0 \<le> copied + reps" "copied + reps \<le> H"
        using reps True less.prems by simp_all
      from less.hyps [OF this [unfolded H_def], of "copies @ [c]"] obtain r where
        r: "stage_rows inp ss gr (copied + reps) (copies @ [c]) = Some r" and
        out: "\<And>out. r = Inr out \<Longrightarrow> strides_ok inp ss \<Longrightarrow> staging_in_range inp \<Longrightarrow> 0 \<le> gr \<Longrightarrow>
          gr < staging_groups inp \<Longrightarrow> \<exists>cs. out = (copies @ [c]) @ cs \<and> concat (map copy_bytes cs) =
          concat (map (staged_row inp gr) [copied + reps..H - 1])" unfolding H_def by blast
      have "\<exists>cs. out = copies @ cs \<and>
          concat (map copy_bytes cs) = concat (map (staged_row inp gr) [copied..H - 1])"
        if h: "r = Inr out" "strides_ok inp ss" "staging_in_range inp" "0 \<le> gr" "gr < staging_groups inp" for out
      proof -
        from out [OF h] obtain cs where cs: "out = copies @ c # cs"
          "concat (map copy_bytes cs) = concat (map (staged_row inp gr) [copied + reps..H - 1])" by auto
        have "copy_bytes c = concat (map (staged_row inp gr) [copied..copied + reps - 1])"
          using less.prems True reps
          by (intro staging_copy_bytes [OF Inr h(2) assms(1) h(3-5)]) (simp_all add: H_def sourceY_def)
        moreover have "[copied..H - 1] = [copied..copied + reps - 1] @ [copied + reps..H - 1]"
          using reps by (intro upto_join) simp_all
        ultimately have "concat (map copy_bytes (c # cs)) = concat (map (staged_row inp gr) [copied..H - 1])"
          by (simp add: cs(2))
        then show ?thesis using cs(1) by blast
      qed
      then show ?thesis using r by (simp add: unfold Inr H_def)
    qed
  qed
qed

lemma stage_groups_result:
  assumes "\<not> staging_invalid inp"
  shows "\<exists>r. stage_groups inp ss gs copies = Some r \<and>
    (\<forall>out. r = Inr out \<longrightarrow> strides_ok inp ss \<longrightarrow> staging_in_range inp \<longrightarrow>
      (\<forall>gr \<in> set gs. 0 \<le> gr \<and> gr < staging_groups inp) \<longrightarrow>
      (\<exists>cs. out = copies @ cs \<and> concat (map copy_bytes cs) =
        concat (map (\<lambda>gr. concat (map (staged_row inp gr) [0..Height (areaShape inp) - 1])) gs)))"
proof (induction gs arbitrary: copies)
  case Nil
  then show ?case by simp
next
  case (Cons gr gs)
  have H: "0 \<le> Height (areaShape inp)" using staging_positive(2) [OF assms] by simp
  from stage_rows_result [OF assms order_refl H, of ss gr copies] obtain r where
    r: "stage_rows inp ss gr 0 copies = Some r" and
    out: "\<And>out. r = Inr out \<Longrightarrow> strides_ok inp ss \<Longrightarrow> staging_in_range inp \<Longrightarrow> 0 \<le> gr \<Longrightarrow> gr < staging_groups inp \<Longrightarrow>
      \<exists>cs. out = copies @ cs \<and> concat (map copy_bytes cs) =
        concat (map (staged_row inp gr) [0..Height (areaShape inp) - 1])" by blast
  show ?case
  proof (cases r)
    case (Inl e)
    then show ?thesis by (simp add: r)
  next
    case (Inr mid)
    from Cons.IH [of mid] obtain r' where
      r': "stage_groups inp ss gs mid = Some r'" and
      out': "\<And>out. r' = Inr out \<Longrightarrow> strides_ok inp ss \<Longrightarrow> staging_in_range inp \<Longrightarrow>
        \<forall>gr \<in> set gs. 0 \<le> gr \<and> gr < staging_groups inp \<Longrightarrow>
        \<exists>cs. out = mid @ cs \<and> concat (map copy_bytes cs) =
          concat (map (\<lambda>gr. concat (map (staged_row inp gr) [0..Height (areaShape inp) - 1])) gs)" by blast
    have "\<exists>cs. out = copies @ cs \<and> concat (map copy_bytes cs) =
        concat (map (\<lambda>gr. concat (map (staged_row inp gr) [0..Height (areaShape inp) - 1])) (gr # gs))"
      if h: "r' = Inr out" "strides_ok inp ss" "staging_in_range inp"
        "\<forall>gr \<in> set (gr # gs). 0 \<le> gr \<and> gr < staging_groups inp" for out
    proof -
      from out [OF Inr h(2,3)] h(4) obtain c1 where c1: "mid = copies @ c1"
        "concat (map copy_bytes c1) = concat (map (staged_row inp gr) [0..Height (areaShape inp) - 1])" by auto
      from out' [OF h(1-3)] h(4) obtain c2 where c2: "out = mid @ c2"
        "concat (map copy_bytes c2) =
          concat (map (\<lambda>gr. concat (map (staged_row inp gr) [0..Height (areaShape inp) - 1])) gs)" by auto
      show ?thesis using c1 c2 by (intro exI [of _ "c1 @ c2"]) simp
    qed
    then show ?thesis by (simp add: r Inr r')
  qed
qed

text \<open>C40: staging a stripe always returns (the row loop ends for every input that passes the checks),
  and the copies of a successful plan move exactly the bytes of the stripe, in order of channel
  group, row, pixel and channel: each from its place in the ring of stored rows to its place in the
  padded staging tensor.\<close>

theorem stripe_staging_returns:
  "(\<exists>r. PlanStripeStaging inp = Some r) \<and>
   (\<forall>plan. PlanStripeStaging inp = Some (Inr plan) \<and> staging_in_range inp \<longrightarrow>
      concat (map copy_bytes (sp_copies plan)) = staged_bytes inp)"
proof (cases "staging_invalid inp")
  case True
  then show ?thesis by (simp add: PlanStripeStaging_def)
next
  case valid: False
  have groups: "\<exists>r. stage_groups inp ss [0..staging_groups inp - 1] [] = Some r \<and>
      (\<forall>out. r = Inr out \<longrightarrow> strides_ok inp ss \<longrightarrow> staging_in_range inp \<longrightarrow>
        concat (map copy_bytes out) = staged_bytes inp)" for ss
    using stage_groups_result [OF valid, of ss "[0..staging_groups inp - 1]" "[]"] by (auto simp: staged_bytes_def)
  have "\<exists>r. PlanStripeStaging inp = Some r"
    using groups by (auto simp: PlanStripeStaging_def split: sum.splits option.splits) (metis option.distinct(1))+
  moreover have "concat (map copy_bytes (sp_copies plan)) = staged_bytes inp"
    if plan: "PlanStripeStaging inp = Some (Inr plan)" and range: "staging_in_range inp" for plan
  proof -
    from plan obtain ss where ss: "staging_strides_of inp = Inr ss"
      and g: "stage_groups inp ss [0..staging_groups inp - 1] [] = Some (Inr (sp_copies plan))"
      by (auto simp: PlanStripeStaging_def check_Inr split: if_splits sum.splits option.splits)
    from groups [of ss] g strides_facts [OF ss valid range] range show ?thesis by auto
  qed
  ultimately show ?thesis by blast
qed

section \<open>A stripe\<close>

text \<open>Rows 3 to 5 of an input of 8 rows and 40 channels, in a ring of 4 stored rows, so that every
  channel group takes two copies.\<close>

definition staging_sample :: StripeStagingInput where
  "staging_sample = \<lparr>st_logicalIfm = [1, 8, 4, 40], st_storageIfm = [1, 4, 4, 40],
     st_areaStart = [0, 3, 0, 0], st_areaEnd = [1, 6, 4, 40], st_sourceBase = 0x1000,
     st_stagingBase = 0x4000, st_padTop = 0, st_padLeft = 1, st_padBottom = 0, st_padRight = 1,
     st_channels = 40, st_directNhwc = False, st_compactNhwc = True\<rparr>"

definition copy_count :: "StripeStagingInput \<Rightarrow> nat option" where
  "copy_count inp = (case PlanStripeStaging inp of Some (Inr plan) \<Rightarrow> Some (length (sp_copies plan)) | _ \<Rightarrow> None)"

lemma sample_copy_count: "copy_count staging_sample = Some 4"
  by code_simp

lemma sample_staging_in_range: "staging_in_range staging_sample"
  by code_simp

theorem stripe_staging_returns_witness:
  "\<exists>plan. PlanStripeStaging staging_sample = Some (Inr plan) \<and> length (sp_copies plan) = 4 \<and>
    concat (map copy_bytes (sp_copies plan)) = staged_bytes staging_sample"
  using sample_copy_count sample_staging_in_range stripe_staging_returns [of staging_sample]
  by (auto simp: copy_count_def split: option.splits sum.splits)

end
