(* ===== verification/NAI_Generator.thy ===== *)
theory NAI_Generator
  imports NAI_Writer NAI_Residency NAI_Compactor NAI_Linebuffer
begin

text \<open>
  The parts of \<^verbatim>\<open>compiler/neural_ai_command_generator.cpp\<close> that work on command bytes: the emitters
  that lowering calls, the peephole that merges interleaved pointwise rows, and the end of
  \<^verbatim>\<open>Generate\<close>, which optimizes, closes, checks and compacts the stream.

  The part of \<^verbatim>\<open>GeneratorContext\<close> that the emitters use is the record \<open>Emission\<close>; an emitter that
  returns \<^verbatim>\<open>false\<close> with an error string is a sum.  \<^verbatim>\<open>assert\<close>, which a release build drops, is not
  modelled, and the fusion of binary post-operations, which a constant in the source switches off, is
  left out of \<open>finish_generation\<close>.  The \<^verbatim>\<open>uint64_t\<close> end addresses of the peephole are natural numbers:
  they cannot wrap for commands that decode.
\<close>

section \<open>References and DMA checks\<close>

record RefV1 =
  ref_region :: u16
  ref_index :: u16
  ref_offset :: u32

definition IsLocalDMARegion :: "u16 \<Rightarrow> bool" where
  "IsLocalDMARegion region \<longleftrightarrow> region = Region_code TCDMScratch \<or> region = Region_code DTCMRuntime"

definition IsExternalDMARegion :: "u16 \<Rightarrow> bool" where
  "IsExternalDMARegion region \<longleftrightarrow>
     region = Region_code ModelConstants \<or> region = Region_code ModelCommands \<or>
     region = Region_code InputBinding \<or> region = Region_code OutputBinding \<or>
     region = Region_code L2TemporaryBinding"

definition ResolveDMADirection :: "RefV1 \<Rightarrow> RefV1 \<Rightarrow> DMADirection option" where
  "ResolveDMADirection source destination =
     (let sourceLocal = IsLocalDMARegion (ref_region source);
          destinationLocal = IsLocalDMARegion (ref_region destination)
      in if (\<not> sourceLocal \<and> \<not> IsExternalDMARegion (ref_region source)) \<or>
            (\<not> destinationLocal \<and> \<not> IsExternalDMARegion (ref_region destination)) then None
         else if \<not> sourceLocal \<and> \<not> destinationLocal then None
         else Some (if sourceLocal then if destinationLocal then LocalToLocal else LocalToExternal
                    else ExternalToLocal))"

definition ValidDMASpan :: "u32 \<Rightarrow> u32 \<Rightarrow> u32 \<Rightarrow> u32 \<Rightarrow> u32 \<Rightarrow> bool" where
  "ValidDMASpan len stride2 repetitions2 stride3 repetitions3 \<longleftrightarrow>
     \<not> (len = 0 \<or> repetitions2 = 0 \<or> repetitions3 = 0) \<and>
     (ucast stride2 * ucast (repetitions2 - 1) + ucast stride3 * ucast (repetitions3 - 1) + ucast len :: u64)
       \<le> 0xFFFFFFFF"

section \<open>Emitting commands\<close>

fun append_field :: "bytes \<Rightarrow> field \<Rightarrow> bytes" where
  "append_field output (F16 v) = Append16 output v"
| "append_field output (F32 v) = Append32 output v"

abbreviation append_all :: "bytes \<Rightarrow> field list \<Rightarrow> bytes" where
  "append_all output fs \<equiv> foldl append_field output fs"

definition AppendRef :: "bytes \<Rightarrow> RefV1 \<Rightarrow> bytes" where
  "AppendRef output reference =
     append_all output [F16 (ref_region reference), F16 (ref_index reference), F32 (ref_offset reference)]"

definition AppendHeader :: "bytes \<Rightarrow> CommandType \<Rightarrow> u16 \<Rightarrow> u32 \<Rightarrow> u32 \<Rightarrow> u32 \<Rightarrow> bytes" where
  "AppendHeader output type sz layerId tileId flags =
     append_all output [F16 (CommandType_code type), F16 sz, F32 flags, F32 layerId, F32 tileId]"

definition AppendZeros :: "bytes \<Rightarrow> nat \<Rightarrow> bytes" where
  "AppendZeros output n = append_all output (replicate n (F32 0))"

record Emission =
  em_commands :: bytes
  em_commandCount :: u32
  em_activePartialBytes :: u32

datatype emit_error =
    EmptyTransfer
  | SpanOverflow CommandType
  | NoLocalEnd CommandType
  | PartialTooSmall u32 u32 u32
  | PlannerFailed plan_error

definition append_command :: "bytes \<Rightarrow> Emission \<Rightarrow> Emission" where
  "append_command commands s = s\<lparr>em_commands := commands, em_commandCount := em_commandCount s + 1\<rparr>"

definition AppendControl :: "CommandType \<Rightarrow> u32 \<Rightarrow> u32 \<Rightarrow> Emission \<Rightarrow> Emission" where
  "AppendControl type layerId tileId s =
     s\<lparr>em_commands := AppendZeros (AppendHeader (em_commands s) type 32 layerId tileId 0) 4\<rparr>"

definition AppendRQLoad :: "u32 \<Rightarrow> u32 \<Rightarrow> u32 \<Rightarrow> u32 \<Rightarrow> Emission \<Rightarrow> Emission" where
  "AppendRQLoad qparamIndex qparamBlock layerId tileId s =
     append_command (append_all (AppendHeader (em_commands s) RQLoad 32 layerId tileId 0)
       [F32 qparamIndex, F32 32, F32 qparamBlock, F32 0]) s"

definition AppendDMA1D :: "RefV1 \<Rightarrow> RefV1 \<Rightarrow> u32 \<Rightarrow> u32 \<Rightarrow> u32 \<Rightarrow> Emission \<Rightarrow> emit_error + Emission" where
  "AppendDMA1D source destination len layerId tileId s =
     (if len = 0 then Inl EmptyTransfer
      else case ResolveDMADirection source destination of
          None \<Rightarrow> Inl (NoLocalEnd DMA1D)
        | Some direction \<Rightarrow>
            Inr (append_command (AppendZeros (append_all (AppendRef (AppendRef
              (AppendHeader (em_commands s) DMA1D 64 layerId tileId 0) source) destination)
              [F32 len, F32 (DMADirection_code direction)]) 6) s))"

definition AppendDMA2D ::
    "RefV1 \<Rightarrow> RefV1 \<Rightarrow> u32 \<Rightarrow> u32 \<Rightarrow> u32 \<Rightarrow> u32 \<Rightarrow> u32 \<Rightarrow> u32 \<Rightarrow> Emission \<Rightarrow> emit_error + Emission" where
  "AppendDMA2D source destination len sourceStride destinationStride repetitions layerId tileId s =
     (if \<not> ValidDMASpan len sourceStride repetitions 0 1 \<or> \<not> ValidDMASpan len destinationStride repetitions 0 1
      then Inl (SpanOverflow DMA2D)
      else case ResolveDMADirection source destination of
          None \<Rightarrow> Inl (NoLocalEnd DMA2D)
        | Some direction \<Rightarrow>
            Inr (append_command (AppendZeros (append_all (AppendRef (AppendRef
              (AppendHeader (em_commands s) DMA2D 64 layerId tileId 0) source) destination)
              [F32 len, F32 sourceStride, F32 destinationStride, F32 repetitions,
               F32 (DMADirection_code direction)]) 3) s))"

definition AppendDMA3D ::
    "RefV1 \<Rightarrow> RefV1 \<Rightarrow> u32 \<Rightarrow> u32 \<Rightarrow> u32 \<Rightarrow> u32 \<Rightarrow> u32 \<Rightarrow> u32 \<Rightarrow> u32 \<Rightarrow> u32 \<Rightarrow> u32 \<Rightarrow> Emission \<Rightarrow>
     emit_error + Emission" where
  "AppendDMA3D source destination len sourceStride2 destinationStride2 repetitions2
       sourceStride3 destinationStride3 repetitions3 layerId tileId s =
     (if \<not> ValidDMASpan len sourceStride2 repetitions2 sourceStride3 repetitions3 \<or>
         \<not> ValidDMASpan len destinationStride2 repetitions2 destinationStride3 repetitions3
      then Inl (SpanOverflow DMA3D)
      else case ResolveDMADirection source destination of
          None \<Rightarrow> Inl (NoLocalEnd DMA3D)
        | Some direction \<Rightarrow>
            Inr (append_command (append_all (AppendRef (AppendRef
              (AppendHeader (em_commands s) DMA3D 64 layerId tileId 0) source) destination)
              [F32 len, F32 sourceStride2, F32 destinationStride2, F32 repetitions2, F32 sourceStride3,
               F32 destinationStride3, F32 repetitions3, F32 (DMADirection_code direction)]) s))"

definition AppendGEMM ::
    "CommandType \<Rightarrow> RefV1 \<Rightarrow> RefV1 \<Rightarrow> RefV1 \<Rightarrow> RefV1 \<Rightarrow> u32 \<Rightarrow> u32 \<Rightarrow> u32 \<Rightarrow> u32 \<Rightarrow> u32 \<Rightarrow> Emission \<Rightarrow> Emission" where
  "AppendGEMM type weights ifm partial ofm dimM ofmStride qparamBlock layerId tileId s =
     append_command (AppendZeros (append_all (AppendRef (AppendRef (AppendRef (AppendRef
       (AppendHeader (em_commands s) type 96 layerId tileId 0) weights) ifm) partial) ofm)
       [F32 dimM, F32 ofmStride, F32 (32 * 4), F32 qparamBlock]) 8) s"

definition AppendPointwiseC32 ::
    "RefV1 \<Rightarrow> RefV1 \<Rightarrow> RefV1 \<Rightarrow> RefV1 \<Rightarrow> u32 \<Rightarrow> u32 \<Rightarrow> u32 \<Rightarrow> u32 \<Rightarrow> u32 \<Rightarrow> u32 \<Rightarrow> u32 \<Rightarrow> u32 \<Rightarrow> Emission \<Rightarrow> Emission" where
  "AppendPointwiseC32 weights ifm partial ofm rows inputGroups outputGroups qparamBlock
       inputGroupStride outputGroupStride layerId tileId s =
     append_command (AppendZeros (append_all (AppendRef (AppendRef (AppendRef (AppendRef
       (AppendHeader (em_commands s) PointwiseC32 96 layerId tileId 0) weights) ifm) partial) ofm)
       [F32 rows, F32 inputGroups, F32 outputGroups, F32 qparamBlock, F32 inputGroupStride,
        F32 outputGroupStride]) 6) s"

definition linebuf_fields :: "SystolicLinebufCfg \<Rightarrow> field list" where
  "linebuf_fields cfg =
     [F32 (lb_inputBase cfg), F16 (lb_inputH cfg), F16 (lb_inputW cfg), F16 (lb_inputC cfg),
      F16 (lb_outputW cfg), F16 (lb_strideH cfg), F16 (lb_strideW cfg), F16 (lb_padH cfg),
      F16 (lb_padW cfg), F32 (lb_rowStrideBytes cfg), F32 (lb_pixelStrideBytes cfg),
      F32 (lb_owStepBytes cfg), F32 (lb_ohStepBytes cfg), F16 (lb_kernelH cfg), F16 (lb_kernelW cfg),
      F16 (lb_cBase cfg), F16 (lb_laneBase cfg), F16 (lb_coalesce cfg), F16 (lb_kgen cfg),
      F16 (lb_pool cfg), F16 (lb_c32Fast cfg), F16 (lb_depthwise cfg), F16 (lb_c32GroupStationary cfg),
      F16 (lb_blockValidBytes cfg), F16 (lb_kSeedKh cfg), F16 (lb_kSeedKw cfg), F16 (lb_kSeedIc cfg),
      F32 (lb_kTiles cfg), F32 (lb_spatialM cfg), F32 (lb_channelAddrOffset cfg),
      F32 (lb_coalesceKBytes cfg)]"

definition gemm_fields :: "SystolicGemm32Req \<Rightarrow> field list" where
  "gemm_fields g =
     [F32 (gr_weightAddr g), F32 (gr_ifmAddr g), F32 (gr_psumAddr g), F32 (gr_ofmAddr g),
      F32 (gr_dimM g), F32 (gr_accumEn g), F32 (gr_ofmRowStrideBytes g), F32 (gr_ofmTileCols g),
      F32 (gr_psumRowStrideBytes g)]"

definition AppendLineBufferJob :: "LinebufferJob \<Rightarrow> u32 \<Rightarrow> u32 \<Rightarrow> Emission \<Rightarrow> emit_error + Emission" where
  "AppendLineBufferJob job layerId tileId s =
     (case LinebufferExternalPsumBytes job of
        Inl e \<Rightarrow> Inl (PlannerFailed e)
      | Inr requiredPartial \<Rightarrow>
          if em_activePartialBytes s < requiredPartial
          then Inl (PartialTooSmall layerId requiredPartial (em_activePartialBytes s))
          else Inr (append_command (AppendZeros (append_all
            (AppendHeader (em_commands s) LineBufferJob 160 layerId tileId 0)
            (linebuf_fields (job_linebuf job) @ gemm_fields (job_gemm job) @
             [F32 (job_rows job), F32 (job_kTiles job)])) 5) s))"

section \<open>Merging interleaved pointwise rows\<close>

definition slice :: "bytes \<Rightarrow> nat \<Rightarrow> nat \<Rightarrow> bytes" where
  "slice command offset n = take n (drop offset command)"

definition spans_overlap :: "nat \<Rightarrow> nat \<Rightarrow> nat \<Rightarrow> nat \<Rightarrow> bool" where
  "spans_overlap lhsBegin lhsEnd rhsBegin rhsEnd \<longleftrightarrow> lhsBegin < rhsEnd \<and> rhsBegin < lhsEnd"

definition SamePointwiseLane :: "bytes \<Rightarrow> bytes \<Rightarrow> bytes \<Rightarrow> bytes \<Rightarrow> bool" where
  "SamePointwiseLane firstRQ firstPW secondRQ secondPW \<longleftrightarrow>
     \<not> (slice firstRQ 16 12 \<noteq> slice secondRQ 16 12 \<or>
        Read32 firstPW 8 \<noteq> Read32 secondPW 8 \<or>
        slice firstPW 16 8 \<noteq> slice secondPW 16 8 \<or>
        slice firstPW 32 8 \<noteq> slice secondPW 32 8 \<or>
        slice firstPW 24 4 \<noteq> slice secondPW 24 4 \<or>
        slice firstPW 40 4 \<noteq> slice secondPW 40 4 \<or>
        slice firstPW 52 20 \<noteq> slice secondPW 52 20) \<and>
     (let firstRows = Read32 firstPW 48; secondRows = Read32 secondPW 48 in
      \<not> (firstRows = 0 \<or> secondRows = 0 \<or> 256 - secondRows < firstRows) \<and>
      (let rowBytes = read32n firstPW 48 * 32 in
       read32n secondPW 28 = read32n firstPW 28 + rowBytes \<and>
       read32n secondPW 44 = read32n firstPW 44 + rowBytes))"

definition pointwise_input_end :: "bytes \<Rightarrow> nat \<Rightarrow> nat" where
  "pointwise_input_end pointwise rows =
     read32n pointwise 28 + (read32n pointwise 52 - 1) * read32n pointwise 64 + rows * 32"

definition PointwiseLanesIndependent :: "bytes \<Rightarrow> bytes \<Rightarrow> bytes \<Rightarrow> bytes \<Rightarrow> bool" where
  "PointwiseLanesIndependent firstPW secondPW firstPWNext secondPWNext \<longleftrightarrow>
     \<not> (Read16 firstPW 24 \<noteq> Region_code TCDMScratch \<or> Read16 firstPW 26 \<noteq> 0 \<or>
        Read16 firstPW 40 \<noteq> Region_code TCDMScratch \<or> Read16 firstPW 42 \<noteq> 0 \<or>
        Read16 secondPW 24 \<noteq> Region_code TCDMScratch \<or> Read16 secondPW 26 \<noteq> 0 \<or>
        Read16 secondPW 40 \<noteq> Region_code TCDMScratch) \<and>
     \<not> (Read16 secondPW 42 \<noteq> 0 \<or> Read32 firstPW 52 = 0 \<or> Read32 secondPW 52 = 0) \<and>
     (let mergedRowsA = read32n firstPW 48 + read32n firstPWNext 48;
          mergedRowsB = read32n secondPW 48 + read32n secondPWNext 48;
          outputABegin = read32n firstPW 44; outputAEnd = outputABegin + mergedRowsA * 32;
          outputBBegin = read32n secondPW 44; outputBEnd = outputBBegin + mergedRowsB * 32;
          inputABegin = read32n firstPW 28; inputAEnd = pointwise_input_end firstPW mergedRowsA;
          inputBBegin = read32n secondPW 28; inputBEnd = pointwise_input_end secondPW mergedRowsB
      in \<not> spans_overlap outputABegin outputAEnd outputBBegin outputBEnd \<and>
         \<not> spans_overlap outputABegin outputAEnd inputBBegin inputBEnd \<and>
         \<not> spans_overlap outputBBegin outputBEnd inputABegin inputAEnd)"

definition rqBytes :: nat where "rqBytes = 32"
definition pointwiseBytes :: nat where "pointwiseBytes = 96"
definition patternBytes :: nat where "patternBytes = 4 * (rqBytes + pointwiseBytes)"

text \<open>The pointers into the pattern that starts at \<open>offset\<close>.\<close>

definition rq_at :: "bytes \<Rightarrow> nat \<Rightarrow> nat \<Rightarrow> bytes" where
  "rq_at commands offset pair = drop (offset + pair * (rqBytes + pointwiseBytes)) commands"

definition pointwise_at :: "bytes \<Rightarrow> nat \<Rightarrow> nat \<Rightarrow> bytes" where
  "pointwise_at commands offset pair = drop (offset + pair * (rqBytes + pointwiseBytes) + rqBytes) commands"

definition lanes_merge :: "bytes \<Rightarrow> nat \<Rightarrow> bool" where
  "lanes_merge commands offset \<longleftrightarrow>
     (let rq = rq_at commands offset; pointwise = pointwise_at commands offset in
      offset + patternBytes \<le> length commands \<and>
      list_all (\<lambda>pair. Read16 (rq pair) 0 = CommandType_code RQLoad \<and> read16n (rq pair) 2 = rqBytes \<and>
        Read16 (pointwise pair) 0 = CommandType_code PointwiseC32 \<and>
        read16n (pointwise pair) 2 = pointwiseBytes) [0, 1, 2, 3] \<and>
      SamePointwiseLane (rq 0) (pointwise 0) (rq 2) (pointwise 2) \<and>
      SamePointwiseLane (rq 1) (pointwise 1) (rq 3) (pointwise 3) \<and>
      PointwiseLanesIndependent (pointwise 0) (pointwise 1) (pointwise 2) (pointwise 3))"

definition merged_lane :: "bytes \<Rightarrow> nat \<Rightarrow> nat \<Rightarrow> bytes \<Rightarrow> bytes" where
  "merged_lane commands offset lane rewritten =
     (let pointwise = pointwise_at commands offset;
          rewritten = rewritten @ take rqBytes (rq_at commands offset lane);
          pointwiseOffset = length rewritten;
          rewritten = rewritten @ take pointwiseBytes (pointwise lane)
      in Write32 rewritten (pointwiseOffset + 48)
           (Read32 (pointwise lane) 48 + Read32 (pointwise (lane + 2)) 48))"

function coalesce_loop :: "bytes \<Rightarrow> nat \<Rightarrow> bytes \<Rightarrow> nat \<Rightarrow> (bytes \<times> nat) option" where
  "coalesce_loop commands offset rewritten removed =
     (if \<not> offset < length commands then Some (rewritten, removed)
      else if lanes_merge commands offset
        then coalesce_loop commands (offset + patternBytes)
               (merged_lane commands offset 1 (merged_lane commands offset 0 rewritten)) (removed + 4)
      else
        let sz = read16n commands (offset + 2) in
        if sz < sizeof_CommandHeaderV2 \<or> length commands < offset + sz then None
        else coalesce_loop commands (offset + sz) (rewritten @ slice commands offset sz) removed)"
  by pat_completeness auto

termination
  by (relation "measure (\<lambda>(commands, offset, _). length commands - offset)")
    (auto simp: patternBytes_def rqBytes_def pointwiseBytes_def sizeof_CommandHeaderV2_def)

declare coalesce_loop.simps [simp del]

definition CoalesceInterleavedPointwiseRows :: "bytes \<Rightarrow> bytes \<times> nat" where
  "CoalesceInterleavedPointwiseRows commands =
     (case coalesce_loop commands 0 [] 0 of None \<Rightarrow> (commands, 0) | Some r \<Rightarrow> r)"

section \<open>The end of generation\<close>

definition AllocatableTCDMBytes :: u32 where "AllocatableTCDMBytes = 512 * 1024 - 4 * 1024"

definition MinimumCommandCompactionSavings :: nat where "MinimumCommandCompactionSavings = 4096"

datatype finish_error =
    OptimizationFailed pipeline_error
  | FinalDecodeFailed decode_error
  | CommandCountMismatch nat u32
  | FinalGraphFailed graph_error
  | CompactionFailed compact_error
  | WorkspaceExceedsTCDM u32

record CompiledArtifact =
  art_commands :: bytes
  art_commandCount :: u32
  art_semanticCommands :: "SemanticCommand list"
  art_commandDependencies :: CommandDependencyGraph
  art_compactCommands :: bytes
  art_encodedCommandCount :: u32
  art_commandBytesBeforeCompaction :: nat
  art_requiredTCDMBytes :: u32

text \<open>The statements of \<^verbatim>\<open>Generate\<close> after the loop over the operations.\<close>

definition finish_generation ::
    "Emission \<Rightarrow> u32 \<Rightarrow> u32 \<Rightarrow> (finish_error + CompiledArtifact) option" where
  "finish_generation s scratchEnd workspaceEnd =
     (let (coalesced, coalescedCommands) = CoalesceInterleavedPointwiseRows (em_commands s);
          commandCount = em_commandCount s - word_of_nat coalescedCommands
      in case OptimizeGlobalCommandSchedule coalesced of
           Inl e \<Rightarrow> Some (Inl (OptimizationFailed e))
         | Inr r \<Rightarrow>
             let commandCount = commandCount - word_of_nat (os_removedCommands r) + word_of_nat (os_insertedWaits r);
                 commands = em_commands (AppendControl End 0 0 (s\<lparr>em_commands := os_commands r\<rparr>))
             in case DecodeSemanticCommandStream commands of
                  Inl e \<Rightarrow> Some (Inl (FinalDecodeFailed e))
                | Inr semanticCommands \<Rightarrow>
                    if semanticCommands = [] \<or> cmd_type (last semanticCommands) \<noteq> End \<or>
                       length semanticCommands \<noteq> unat commandCount + 1
                    then Some (Inl (CommandCountMismatch (length semanticCommands) commandCount))
                    else case BuildCommandDependencyGraph semanticCommands of
                        Inl e \<Rightarrow> Some (Inl (FinalGraphFailed e))
                      | Inr (semanticCommands, dependencies) \<Rightarrow>
                          (case CompactAffineCommandStream semanticCommands of
                             None \<Rightarrow> None
                           | Some (Inl e) \<Rightarrow> Some (Inl (CompactionFailed e))
                           | Some (Inr (compact, stats)) \<Rightarrow>
                               let keep = \<not> cs_bytesBefore stats - cs_bytesAfter stats < MinimumCommandCompactionSavings;
                                   requiredTCDMBytes =
                                     word_of_int (RoundAway_int (sint (max scratchEnd workspaceEnd)) 32) :: u32
                               in if AllocatableTCDMBytes < requiredTCDMBytes
                                  then Some (Inl (WorkspaceExceedsTCDM requiredTCDMBytes))
                                  else Some (Inr
                                    \<lparr>art_commands = commands, art_commandCount = commandCount,
                                     art_semanticCommands = semanticCommands,
                                     art_commandDependencies = dependencies,
                                     art_compactCommands = (if keep then compact else []),
                                     art_encodedCommandCount =
                                       (if keep then word_of_nat (cs_encodedCommands stats) else commandCount),
                                     art_commandBytesBeforeCompaction = cs_bytesBefore stats,
                                     art_requiredTCDMBytes = requiredTCDMBytes\<rparr>)))"

end
