(* ===== verification/NAI_Redecode.thy ===== *)
theory NAI_Redecode
  imports NAI_Residency NAI_ResidencyProof
begin

text \<open>
  Which bytes decode.  Whether a command decodes does not depend on its index, and it still decodes
  after the scheduler has turned it into a submit or the lookup-table pass has set its reuse flag;
  the waits the scheduler inserts decode as well.  So the stream that
  \<^verbatim>\<open>OptimizeGlobalCommandSchedule\<close> returns decodes again.
\<close>

section \<open>Decoding with another header\<close>

text \<open>Commands that a decoder treats alike: the second may be the submit form of the first, and may
  have the reuse flag of the lookup table in addition.\<close>

definition alike :: "SemanticCommand \<Rightarrow> SemanticCommand \<Rightarrow> bool" where
  "alike c c' \<longleftrightarrow> (cmd_type c' = cmd_type c \<or> cmd_type c' = SubmitType (cmd_type c)) \<and>
     (cmd_flags c' = cmd_flags c \<or> cmd_flags c' = cmd_flags c OR CommandFlagAFULutReuse)"

definition follows :: "SemanticCommand option \<Rightarrow> SemanticCommand option \<Rightarrow> bool" where
  "follows m m' \<longleftrightarrow> (\<forall>x. m = Some x \<longrightarrow> (\<exists>x'. m' = Some x' \<and> alike x x'))"

named_theorems follow_intro

lemma follows_Some [follow_intro]: "alike x x' \<Longrightarrow> follows (Some x) (Some x')"
  by (simp add: follows_def)

lemma follows_None [follow_intro]: "follows None m"
  by (simp add: follows_def)

lemma follows_guard [follow_intro]:
  "(b \<Longrightarrow> b') \<Longrightarrow> follows (f ()) (f' ()) \<Longrightarrow>
   follows (Option.bind (guard_opt b) f) (Option.bind (guard_opt b') f')"
  by (auto simp: follows_def)

lemma follows_bind [follow_intro]:
  "follows m m' \<Longrightarrow> (\<And>x x'. alike x x' \<Longrightarrow> follows (f x) (f' x')) \<Longrightarrow>
   follows (Option.bind m f) (Option.bind m' f')"
  by (cases m; cases m') (auto simp: follows_def)

lemma follows_if [follow_intro]:
  "(b \<Longrightarrow> follows m m') \<Longrightarrow> (\<not> b \<Longrightarrow> follows n n') \<Longrightarrow> follows (if b then m else n) (if b then m' else n')"
  by simp

lemma follows_AddAccess [follow_intro]:
  "alike c c' \<Longrightarrow> follows (AddAccess c e off n m) (AddAccess c' e off n m')"
  by (simp add: follows_def AddAccess_def Let_def alike_def)

lemma follows_AddLocalAccess [follow_intro]:
  "alike c c' \<Longrightarrow> follows (AddLocalAccess c b n m) (AddLocalAccess c' b n m')"
  by (simp add: follows_def AddLocalAccess_def Let_def alike_def)

lemma alike_updates [simp]:
  "alike (AddState c s n m v) d \<longleftrightarrow> alike c d" "alike d (AddState c s n m v) \<longleftrightarrow> alike d c"
  "alike (AddReadWriteState c s n v) d \<longleftrightarrow> alike c d" "alike d (AddReadWriteState c s n v) \<longleftrightarrow> alike d c"
  "alike (AddResource c r) d \<longleftrightarrow> alike c d" "alike d (AddResource c r) \<longleftrightarrow> alike d c"
  "alike (c\<lparr>cmd_resources := x_resources\<rparr>) d \<longleftrightarrow> alike c d" "alike d (c\<lparr>cmd_resources := x_resources\<rparr>) \<longleftrightarrow> alike d c"
  "alike (c\<lparr>cmd_stateAccesses := x_stateAccesses\<rparr>) d \<longleftrightarrow> alike c d" "alike d (c\<lparr>cmd_stateAccesses := x_stateAccesses\<rparr>) \<longleftrightarrow> alike d c"
  "alike (c\<lparr>cmd_memoryAccesses := x_memoryAccesses\<rparr>) d \<longleftrightarrow> alike c d" "alike d (c\<lparr>cmd_memoryAccesses := x_memoryAccesses\<rparr>) \<longleftrightarrow> alike d c"
  "alike (c\<lparr>cmd_asyncCapable := x_asyncCapable\<rparr>) d \<longleftrightarrow> alike c d" "alike d (c\<lparr>cmd_asyncCapable := x_asyncCapable\<rparr>) \<longleftrightarrow> alike d c"
  "alike (c\<lparr>cmd_asynchronous := x_asynchronous\<rparr>) d \<longleftrightarrow> alike c d" "alike d (c\<lparr>cmd_asynchronous := x_asynchronous\<rparr>) \<longleftrightarrow> alike d c"
  "alike (c\<lparr>cmd_controlFence := x_controlFence\<rparr>) d \<longleftrightarrow> alike c d" "alike d (c\<lparr>cmd_controlFence := x_controlFence\<rparr>) \<longleftrightarrow> alike d c"
  "alike (c\<lparr>cmd_queueCapacity := x_queueCapacity\<rparr>) d \<longleftrightarrow> alike c d" "alike d (c\<lparr>cmd_queueCapacity := x_queueCapacity\<rparr>) \<longleftrightarrow> alike d c"
  "alike (c\<lparr>cmd_queueId := x_queueId\<rparr>) d \<longleftrightarrow> alike c d" "alike d (c\<lparr>cmd_queueId := x_queueId\<rparr>) \<longleftrightarrow> alike d c"
  "alike (c\<lparr>cmd_estimatedCycles := x_estimatedCycles\<rparr>) d \<longleftrightarrow> alike c d" "alike d (c\<lparr>cmd_estimatedCycles := x_estimatedCycles\<rparr>) \<longleftrightarrow> alike d c"
  by (simp_all add: alike_def AddState_def AddReadWriteState_def AddResource_def)

lemma alike_if [follow_intro]:
  "alike c d \<Longrightarrow> alike c d' \<Longrightarrow> alike c' d \<Longrightarrow> alike c' d' \<Longrightarrow>
   alike (if b then c else c') (if b' then d else d')"
  by simp

lemma DecodeDMA_follows: 
  assumes "alike c c'" 
  shows "follows (DecodeDMA c e) (DecodeDMA c' e)"
proof -
  have "dma_shape (cmd_type c') e = dma_shape (cmd_type c) e"
    using assms by (cases "cmd_type c") (auto simp: alike_def SubmitType_def dma_shape_def)
  then show ?thesis
    using assms unfolding DecodeDMA_def Let_def
    by (cases "dma_shape (cmd_type c) e") (auto intro!: follow_intro)
qed

lemma alike_type:
  assumes "alike c c'" and "SubmitType (cmd_type c) = cmd_type c"
  shows "cmd_type c' = cmd_type c"
  using assms by (auto simp: alike_def)

lemma DecodeLineBuffer_follows:
  assumes "alike c c'"
  shows "follows (DecodeLineBuffer c e) (DecodeLineBuffer c' e)"
proof -
  have t: "alike x x' \<Longrightarrow> cmd_type x' = LineBufferBinary \<or> cmd_type x' = LineBufferBinarySubmit \<longleftrightarrow>
      cmd_type x = LineBufferBinary \<or> cmd_type x = LineBufferBinarySubmit" for x x'
    by (cases "cmd_type x") (auto simp: alike_def SubmitType_def)
  show ?thesis
    using assms unfolding DecodeLineBuffer_def Let_def
    by (auto intro!: follow_intro simp: t)
qed

lemma DecodeGemm_follows:
  assumes "alike c c'" and "cmd_type c \<in> {Gemm32, Gemm32Accum, Gemm32Requant}"
  shows "follows (DecodeGemm c e) (DecodeGemm c' e)"
proof -
  have t: "alike x x' \<Longrightarrow> cmd_type x = Gemm32 \<longleftrightarrow> cmd_type x' = Gemm32"
    "alike x x' \<Longrightarrow> cmd_type x = Gemm32Requant \<longleftrightarrow> cmd_type x' = Gemm32Requant" for x x'
    by (cases "cmd_type x"; auto simp: alike_def SubmitType_def)+
  show ?thesis
    using assms unfolding DecodeGemm_def Let_def
    by (auto intro!: follow_intro simp: t)
qed

lemma DecodeAFULut_follows:
  assumes "alike c c'"
  shows "follows (DecodeAFULut c e) (DecodeAFULut c' e)"
proof -
  have r: "cmd_flags c' AND CommandFlagAFULutReuse \<noteq> 0" if "cmd_flags c AND CommandFlagAFULutReuse \<noteq> 0"
    using assms that reuse_flag(1) by (auto simp: alike_def)
  have d: "follows (AddAccess x e 24 n Write \<bind> (\<lambda>y. AddAccess y e 32 256 Read)) (AddAccess x' e 24 n Write)"
    if "alike x x'" for x x' n
    using that by (auto simp: follows_def AddAccess_def Let_def alike_def split: bind_splits)
  show ?thesis
    using assms r unfolding DecodeAFULut_def Let_def
    by (auto intro!: follow_intro d simp del: bind_assoc)
qed

lemma plain_decoders_follow:
  assumes "alike c c'"
  shows "follows (DecodePointwise c e) (DecodePointwise c' e)"
    and "follows (DecodeDepthwise c e) (DecodeDepthwise c' e)"
    and "follows (DecodeCopyLayout c e) (DecodeCopyLayout c' e)"
    and "follows (DecodeRQLoad c e) (DecodeRQLoad c' e)"
    and "follows (DecodeDMAWait c e) (DecodeDMAWait c' e)"
    and "follows (DecodeGlobalAvgPool c e) (DecodeGlobalAvgPool c' e)"
    and "follows (DecodeMaxPool c e) (DecodeMaxPool c' e)"
    and "follows (DecodeUpsample c e) (DecodeUpsample c' e)"
    and "follows (DecodeDFL16 c e) (DecodeDFL16 c' e)"
    and "follows (DecodeControl c) (DecodeControl c')"
    and "follows (DecodeReservedSpatz c) (DecodeReservedSpatz c')"
  using assms unfolding DecodePointwise_def DecodeDepthwise_def DecodeCopyLayout_def DecodeRQLoad_def
    DecodeDMAWait_def DecodeGlobalAvgPool_def DecodeMaxPool_def DecodeUpsample_def DecodeDFL16_def
    DecodeControl_def DecodeReservedSpatz_def Let_def
  by (auto intro!: follow_intro)

lemma DecodeBinary_follows:
  assumes "alike c c'" and "cmd_type c \<in> {AFUBinary, AFUBinaryQuant, SpatzAdd}"
  shows "follows (DecodeBinary c e) (DecodeBinary c' e)"
proof -
  have "cmd_type c' = cmd_type c" using assms by (auto simp: alike_def SubmitType_def)
  then show ?thesis
    using assms(1) unfolding DecodeBinary_def Let_def
    by (auto intro!: follow_intro)
qed

lemma decode_switch_follows:
  assumes "alike c c'" and "cmd_type c = t" and "t' = t \<or> t' = SubmitType t"
    and "cmd_type c' = cmd_type c \<or> t' = SubmitType t"
  shows "follows (decode_switch t c e) (decode_switch t' c' e)"
  using assms
  by (cases t) (auto simp: SubmitType_def intro!: plain_decoders_follow DecodeLineBuffer_follows
      DecodeGemm_follows DecodeBinary_follows DecodeAFULut_follows follow_intro)

lemma decode_payload_follows:
  assumes a: "alike c c'"
  shows "follows (decode_payload c e) (decode_payload c' e)"
proof -
  have t: "cmd_type c' = cmd_type c \<or> cmd_type c' = SubmitType (cmd_type c)" using a by (simp add: alike_def)
  then have k: "IsDMA (cmd_type c') = IsDMA (cmd_type c)" "IsSystolic (cmd_type c') = IsSystolic (cmd_type c)"
    "cmd_type c' = SystolicWait \<longleftrightarrow> cmd_type c = SystolicWait"
    by (cases "cmd_type c"; auto simp: IsDMA_def IsSystolic_def SubmitType_def)+
  show ?thesis
    using a t unfolding decode_payload_def Let_def k
    by (auto intro!: follow_intro DecodeDMA_follows decode_switch_follows
        simp: AddState_def AddReadWriteState_def AddResource_def)
qed

section \<open>Decoding reads only the payload\<close>

text \<open>Two byte vectors that agree from byte 16 on.\<close>

definition tails :: "bytes \<Rightarrow> bytes \<Rightarrow> bool" where
  "tails e e' \<longleftrightarrow> 16 \<le> length e \<and> length e = length e' \<and> drop 16 e = drop 16 e'"

lemma tails_Read:
  assumes "tails e e'"
  shows "16 \<le> off \<Longrightarrow> Read32 e off = Read32 e' off"
    and "16 \<le> off \<Longrightarrow> Read16 e off = Read16 e' off"
proof -
  have r: "Read32 x off = Read32 (drop 16 x) (off - 16)" "Read16 x off = Read16 (drop 16 x) (off - 16)"
    if "16 \<le> off" "16 \<le> length x" for x
    using that Read_prefix [of "take 16 x" off "drop 16 x"] by simp_all
  show "16 \<le> off \<Longrightarrow> Read32 e off = Read32 e' off" "16 \<le> off \<Longrightarrow> Read16 e off = Read16 e' off"
    using assms r [of e] r [of e'] by (simp_all add: tails_def)
qed

lemma tails_AddAccess:
  "tails e e' \<Longrightarrow> 16 \<le> off \<Longrightarrow> AddAccess c e off k m = AddAccess c e' off k m"
  by (simp add: AddAccess_def Let_def tails_Read [of e e'])

lemma tails_hash_words:
  "tails e e' \<Longrightarrow> 16 \<le> off \<Longrightarrow> hash_words h e off k = hash_words h e' off k"
  by (induction k arbitrary: h off) (auto simp: tails_Read [of e e'])

lemma tails_identity:
  assumes "tails e e'" and "16 \<le> off"
  shows "HashWords e off k = HashWords e' off k" and "ReferenceIdentity e off = ReferenceIdentity e' off"
  using assms by (simp_all add: HashWords_def ReferenceIdentity_def tails_hash_words tails_Read [of e e'])

lemmas tails_rules = tails_Read tails_AddAccess tails_identity

lemma decode_payload_tails:
  assumes t: "tails e e'"
  shows "decode_payload c e = decode_payload c e'"
proof -
  have s: "dma_shape u e = dma_shape u e'" for u
    using t by (simp add: dma_shape_def Let_def tails_Read [of e e'])
  have dma: "DecodeDMA c e = DecodeDMA c e'" for c
  proof (cases "dma_shape (cmd_type c) e")
    case None
    then show ?thesis by (simp add: DecodeDMA_def s)
  next
    case (Some p)
    then have "16 \<le> snd (snd (snd p))" by (auto simp: dma_shape_def Let_def split: if_splits)
    then show ?thesis using Some s tails_Read(1) [OF t]
      by (cases p) (simp add: DecodeDMA_def tails_rules [OF t])
  qed
  have sw: "decode_switch u c e = decode_switch u c e'" for u c
    by (cases u) (simp_all add: DecodeGemm_def DecodePointwise_def DecodeDepthwise_def DecodeMaxPool_def
        DecodeCopyLayout_def DecodeLineBuffer_def DecodeRQLoad_def DecodeDMAWait_def DecodeAFULut_def
        DecodeBinary_def DecodeGlobalAvgPool_def DecodeUpsample_def DecodeDFL16_def Let_def
        tails_rules [OF t] cong: if_cong)
  show ?thesis by (simp add: decode_payload_def Let_def dma sw)
qed

section \<open>Reading what was written\<close>

lemma Read_Write [codec_simps]:
  "off + 2 \<le> length bs \<Longrightarrow> Read16 (Write16 bs off v) off = v"
  "off + 4 \<le> length bs \<Longrightarrow> Read32 (Write32 bs off w) off = w"
  using Read16_append [of "take off bs" v] Read32_append [of "take off bs" w]
  by (simp_all add: Write16_splice Write32_splice)

lemma Read_Write_other [codec_simps]:
  "k + 2 \<le> off \<or> off + 2 \<le> k \<Longrightarrow> Read16 (Write16 bs off v) k = Read16 bs k"
  "k + 4 \<le> off \<or> off + 2 \<le> k \<Longrightarrow> Read32 (Write16 bs off v) k = Read32 bs k"
  "k + 2 \<le> off \<or> off + 4 \<le> k \<Longrightarrow> Read16 (Write32 bs off w) k = Read16 bs k"
  "k + 4 \<le> off \<or> off + 4 \<le> k \<Longrightarrow> Read32 (Write32 bs off w) k = Read32 bs k"
  by (auto simp: Read16_def Read32_def Write16_def Write32_def nth_list_update)

lemma drop_Write:
  "off + 2 \<le> n \<Longrightarrow> drop n (Write16 bs off v) = drop n bs"
  "off + 4 \<le> n \<Longrightarrow> drop n (Write32 bs off w) = drop n bs"
  by (simp_all add: Write16_def Write32_def)

section \<open>Decodable bytes\<close>

definition decodable :: "bytes \<Rightarrow> bool" where
  "decodable e \<longleftrightarrow> command_bytes_ok e \<and> DecodeKnownCommand (header_command e 0) \<noteq> None"

lemma follows_not_None: "follows m m' \<Longrightarrow> m \<noteq> None \<Longrightarrow> m' \<noteq> None"
  by (auto simp: follows_def)

lemma header_encoding: "command_bytes_ok e \<Longrightarrow> cmd_encoding (header_command e i) = e"
  by (simp add: header_command_def command_bytes_ok_def)

lemma decodable_index:
  assumes "decodable e"
  obtains c where "DecodeKnownCommand (header_command e i) = Some c" and "cmd_encoding c = e"
proof -
  have ok: "command_bytes_ok e" using assms by (simp add: decodable_def)
  have "alike (header_command e 0) (header_command e i)" by (simp add: alike_def header_command_def)
  from decode_payload_follows [OF this, of e] assms header_encoding [OF ok]
  obtain c where c: "DecodeKnownCommand (header_command e i) = Some c"
    by (auto simp: DecodeKnownCommand_def decodable_def follows_def)
  from that [OF c decoded_ok_header(2) [OF ok c]] show thesis .
qed

lemma decodable_stream_ok: "stream_ok i cmds \<Longrightarrow> c \<in> set cmds \<Longrightarrow> decodable (cmd_encoding c)"
proof -
  assume s: "stream_ok i cmds" and "c \<in> set cmds"
  then obtain k where k: "k < length cmds" "c = cmds ! k" by (auto simp: in_set_conv_nth)
  from stream_ok_nth [OF s k(1)] have ok: "command_bytes_ok (cmd_encoding c)"
    and d: "DecodeKnownCommand (header_command (cmd_encoding c) (i + k)) = Some c" using k by auto
  have "alike (header_command (cmd_encoding c) (i + k)) (header_command (cmd_encoding c) 0)"
    by (simp add: alike_def header_command_def)
  from follows_not_None [OF decode_payload_follows [OF this, of "cmd_encoding c"]] d header_encoding [OF ok]
  show ?thesis using ok by (simp add: decodable_def DecodeKnownCommand_def)
qed

lemma stream_of_decodable:
  "\<forall>e \<in> set es. decodable e \<Longrightarrow> \<exists>cmds. stream_ok i cmds \<and> map cmd_encoding cmds = es"
proof (induction es arbitrary: i)
  case Nil
  then show ?case by simp
next
  case (Cons e es)
  then have d: "decodable e" by simp
  obtain c where c: "DecodeKnownCommand (header_command e i) = Some c" "cmd_encoding c = e"
    using decodable_index [OF d] .
  obtain cmds where "stream_ok (Suc i) cmds" "map cmd_encoding cmds = es" using Cons by fastforce
  with c d show ?case by (intro exI [of _ "c # cmds"]) (simp add: decodable_def)
qed

lemma decode_concat_iff:
  "(\<exists>cmds. DecodeSemanticCommandStream bs = Inr cmds \<and> map cmd_encoding cmds = es) \<longleftrightarrow>
   bs = concat es \<and> (\<forall>e \<in> set es. decodable e)"
proof
  assume "\<exists>cmds. DecodeSemanticCommandStream bs = Inr cmds \<and> map cmd_encoding cmds = es"
  then show "bs = concat es \<and> (\<forall>e \<in> set es. decodable e)"
    using decodable_stream_ok
    by (auto simp: DecodeSemanticCommandStream_iff SerializeSemanticCommandStream_def)
next
  assume r: "bs = concat es \<and> (\<forall>e \<in> set es. decodable e)"
  then obtain cmds where "stream_ok 0 cmds" "map cmd_encoding cmds = es" using stream_of_decodable by blast
  with r show "\<exists>cmds. DecodeSemanticCommandStream bs = Inr cmds \<and> map cmd_encoding cmds = es"
    by (auto simp: DecodeSemanticCommandStream_iff SerializeSemanticCommandStream_def)
qed

text \<open>A header that is still alike keeps the command decodable.\<close>

lemma decodable_header:
  assumes d: "decodable e" and t: "tails e e'" and sz: "Read16 e' 2 = Read16 e 2"
    and ty: "Read16 e' 0 = Read16 e 0 \<or>
      Read16 e' 0 = CommandType_code (SubmitType (CommandType_of (Read16 e 0)))"
    and fl: "Read32 e' 4 = Read32 e 4 \<or> Read32 e' 4 = Read32 e 4 OR CommandFlagAFULutReuse"
  shows "decodable e'"
proof -
  let ?t = "CommandType_of (Read16 e 0)" and ?t' = "CommandType_of (Read16 e' 0)"
  have ok: "command_bytes_ok e" using d by (simp add: decodable_def)
  have tt: "?t' = ?t \<or> ?t' = SubmitType ?t" using ty by auto
  then have m: "MinimumCommandSize ?t' = MinimumCommandSize ?t" by (cases ?t) (auto simp: SubmitType_def)
  have "CommandType_code (SubmitType ?t) \<le> CommandType_code AFUBinaryQuant"
    by (cases "SubmitType ?t") simp_all
  with ty ok have "Read16 e' 0 \<le> CommandType_code AFUBinaryQuant" by (auto simp: command_bytes_ok_def)
  then have ok': "command_bytes_ok e'" using ok t sz m by (simp add: command_bytes_ok_def tails_def)
  have a: "alike (header_command e 0) (header_command e' 0)"
    using tt fl by (simp add: alike_def header_command_def)
  from follows_not_None [OF decode_payload_follows [OF this, of e]] d
  show ?thesis
    by (simp add: decodable_def DecodeKnownCommand_def ok' header_encoding [OF ok] header_encoding [OF ok']
        decode_payload_tails [OF t])
qed

lemma decodable_submit:
  assumes d: "decodable e" and t: "Read16 e 0 = CommandType_code t"
  shows "decodable (Write16 e 0 (CommandType_code (SubmitType t)))"
proof -
  have l: "16 \<le> length e" using d by (simp add: decodable_def command_bytes_ok_def)
  then show ?thesis
    by (intro decodable_header [OF d]) (simp_all add: tails_def drop_Write codec_simps t)
qed

lemma decodable_flags:
  assumes d: "decodable e" and f: "f = Read32 e 4 \<or> f = Read32 e 4 OR CommandFlagAFULutReuse"
  shows "decodable (Write32 e 4 f)"
proof -
  have l: "16 \<le> length e" using d by (simp add: decodable_def command_bytes_ok_def)
  then show ?thesis
    by (intro decodable_header [OF d]) (use f in \<open>simp_all add: tails_def drop_Write codec_simps\<close>)
qed

lemma decodable_wait:
  assumes q: "q < QueueCount"
  shows "decodable (WaitEncoding q layerId tileId)"
proof -
  let ?e = "WaitEncoding q layerId tileId"
  let ?t = "if q = SystolicQueue then SystolicWait else DMAWait"
  have l: "length ?e = 32" by (simp add: WaitEncoding_def Let_def)
  have ty: "Read16 ?e 0 = CommandType_code ?t" and sz: "Read16 ?e 2 = 32"
    by (simp_all add: WaitEncoding_def Let_def codec_simps)
  have qd: "Read32 ?e 16 = word_of_nat q" if "q < unat DMAQueues"
    using that by (simp add: WaitEncoding_def Let_def codec_simps)
  have ok: "command_bytes_ok ?e" by (simp add: command_bytes_ok_def l ty sz)
  have h: "cmd_type (header_command ?e 0) = ?t" by (simp only: header_command_def ty) simp
  show ?thesis
  proof (cases "q = SystolicQueue")
    case True
    then show ?thesis using ok h
      by (simp add: decodable_def DecodeKnownCommand_def decode_payload_def Let_def IsDMA_def IsSystolic_def)
  next
    case False
    with q have lt: "q < unat DMAQueues" by (simp add: QueueCount_def SystolicQueue_def DMAQueues_def)
    then have "q = 0 \<or> q = 1" by (auto simp: DMAQueues_def)
    then have "\<not> Read32 ?e 16 > DMADirection_code LocalToExternal" using qd [OF lt] by auto
    then show ?thesis using ok h False
      by (simp add: decodable_def DecodeKnownCommand_def decode_payload_def Let_def IsDMA_def IsSystolic_def
          header_encoding [OF ok] DecodeDMAWait_def)
  qed
qed

section \<open>The bytes of an optimized stream\<close>

definition flags_kept :: "SemanticCommand \<Rightarrow> SemanticCommand \<Rightarrow> bool" where
  "flags_kept c d \<longleftrightarrow> cmd_flags d = cmd_flags c \<or> cmd_flags d = cmd_flags c OR CommandFlagAFULutReuse"

lemma clear_absent_flag:
  fixes f :: u32
  assumes "f AND m = 0"
  shows "f AND NOT m = f"
proof (rule bit_word_eqI)
  fix n assume n: "n < LENGTH(32)"
  have "\<not> bit (f AND m) n" using assms by simp
  then show "bit (f AND NOT m) n = bit f n" using n by (auto simp: bit_simps)
qed

lemma lut_command_flags: "lut_command c r stats = Inr (d, r', stats') \<Longrightarrow> flags_kept c d"
  by (auto simp: lut_command_def Let_def with_flags_def with_lut_mode_def flags_kept_def clear_absent_flag
      split: option.splits if_splits)

lemma lut_loop_flags:
  "lut_loop commands r stats acc = Inr (out, stats') \<Longrightarrow> \<exists>new. out = acc @ new \<and> list_all2 flags_kept commands new"
proof (induction commands arbitrary: r stats acc)
  case (Cons c commands)
  then obtain d r' st where rest: "lut_loop commands r' st (acc @ [d]) = Inr (out, stats')" and k: "flags_kept c d"
    by (auto simp: flags_kept_def dest: lut_command_flags split: sum.splits option.splits if_splits)
  from Cons.IH [OF rest] k show ?case by (metis append_Cons append_Nil append_assoc list_all2_Cons)
qed simp

text \<open>A property of encodings that survives what the passes and the scheduler do to them.\<close>

definition stable_bytes :: "(bytes \<Rightarrow> bool) \<Rightarrow> bool" where
  "stable_bytes P \<longleftrightarrow>
     (\<forall>e. P e \<longrightarrow> decodable e) \<and>
     (\<forall>e f. P e \<longrightarrow> f = Read32 e 4 \<or> f = Read32 e 4 OR CommandFlagAFULutReuse \<longrightarrow> P (Write32 e 4 f)) \<and>
     (\<forall>e t. P e \<longrightarrow> Read16 e 0 = CommandType_code t \<longrightarrow> P (Write16 e 0 (CommandType_code (SubmitType t)))) \<and>
     (\<forall>q layerId tileId. q < QueueCount \<longrightarrow> P (WaitEncoding q layerId tileId))"

lemma stable_decodable: "stable_bytes decodable"
  by (auto simp: stable_bytes_def intro: decodable_flags decodable_submit decodable_wait)

lemma lut_encodings:
  assumes lut: "OptimizeAFULutResidency cmds = Inr (out, stats)" and P: "stable_bytes P"
    and cmds: "\<forall>c \<in> set cmds. P (cmd_encoding c) \<and> cmd_flags c = Read32 (cmd_encoding c) 4"
  shows "\<forall>c \<in> set out. P (cmd_encoding c)"
    and "map (length \<circ> cmd_encoding) out = map (length \<circ> cmd_encoding) cmds"
proof -
  note l = lut [unfolded OptimizeAFULutResidency_def]
  from lut_loop_Inr [OF l] lut_loop_flags [OF l]
  have r: "list_all2 lut_rewritten cmds out" and f: "list_all2 flags_kept cmds out" by auto
  then have len: "length out = length cmds" by (simp add: list_all2_lengthD)
  have "P (cmd_encoding (out ! i)) \<and> length (cmd_encoding (out ! i)) = length (cmd_encoding (cmds ! i))"
    if i: "i < length cmds" for i
  proof -
    have c: "P (cmd_encoding (cmds ! i))" "cmd_flags (cmds ! i) = Read32 (cmd_encoding (cmds ! i)) 4"
      using cmds i by simp_all
    have k: "lut_rewritten (cmds ! i) (out ! i)" "flags_kept (cmds ! i) (out ! i)"
      using r f i by (simp_all add: list_all2_nthD)
    show ?thesis
    proof (cases "cmd_type (cmds ! i) = AFULut")
      case True
      then have "cmd_encoding (out ! i) = Write32 (cmd_encoding (cmds ! i)) 4 (cmd_flags (out ! i))"
        using k by (simp add: lut_rewritten_def)
      then show ?thesis using P c k(2) by (auto simp: flags_kept_def stable_bytes_def)
    next
      case False
      then show ?thesis using k c by (simp add: lut_rewritten_def)
    qed
  qed
  with len show "\<forall>c \<in> set out. P (cmd_encoding c)"
    "map (length \<circ> cmd_encoding) out = map (length \<circ> cmd_encoding) cmds"
    by (auto simp: in_set_conv_nth intro!: nth_equalityI)
qed

lemma item_bytes_P:
  assumes P: "stable_bytes P" and C: "\<forall>c \<in> set C. P (cmd_encoding c) \<and> Read16 (cmd_encoding c) 0 = CommandType_code (cmd_type c)"
    and ok: "item_ok C g pre it"
  shows "P (item_bytes C pre it)"
  using assms by (cases it) (auto simp: item_bytes_def item_ok_def stable_bytes_def Let_def)

lemma length_WaitEncoding [simp]: "length (WaitEncoding q layerId tileId) = 32"
  by (simp add: WaitEncoding_def Let_def)

lemma length_item_bytes:
  "length (item_bytes C pre it) = (case it of Issue i sub \<Rightarrow> length (cmd_encoding (C ! i)) | Wait q \<Rightarrow> 32)"
  by (cases it) (simp_all add: item_bytes_def Let_def)

section \<open>Counting the inserted waits\<close>

definition waits :: "item list \<Rightarrow> nat" where
  "waits t = length (filter (\<lambda>it. case it of Issue i sub \<Rightarrow> False | Wait q \<Rightarrow> True) t)"

lemma waits_simps [simp]:
  "waits [] = 0" "waits (t @ u) = waits t + waits u"
  "waits (Issue i sub # t) = waits t" "waits (Wait q # t) = Suc (waits t)"
  by (simp_all add: waits_def)

lemma length_trace: "length t = length (issue_order t) + waits t"
proof (induction t)
  case (Cons it t)
  then show ?case by (cases it) auto
qed simp

definition counted :: "ScheduleState \<Rightarrow> bool" where
  "counted s \<longleftrightarrow> stat_insertedWaits (ss_stats s) = waits (ss_trace s)"

lemma counted_emitWait: "counted s \<Longrightarrow> counted (emitWait ctx q s)"
  by (simp add: counted_def emitWait_def Let_def)

lemma counted_step: "counted s \<Longrightarrow> schedule_step ctx s = Inr s' \<Longrightarrow> counted s'"
  by (auto simp: schedule_step_def Let_def issue_command_def finish_command_def fold_release_frame
      submit_command_def block_command_def emitWait_def counted_def split: option.splits if_splits)

lemma counted_loop: "schedule_loop ctx s = Inr s' \<Longrightarrow> counted s \<Longrightarrow> counted s'"
proof (induction ctx s rule: schedule_loop.induct)
  case (1 ctx s)
  then show ?case
    by (subst (asm) (2) schedule_loop.simps) (auto intro: counted_step split: if_splits sum.splits)
qed

lemma counted_drain: "counted s \<Longrightarrow> counted (drain_queues ctx s)"
proof -
  have "counted s \<Longrightarrow> counted (fold (\<lambda>queue s. if ss_pending s queue \<noteq> [] then emitWait ctx queue s else s) qs s)" for qs
    by (induction qs arbitrary: s) (simp_all add: counted_emitWait)
  then show "counted s \<Longrightarrow> counted (drain_queues ctx s)" by (simp add: drain_queues_def)
qed

lemma schedule_waits:
  assumes "ScheduleGlobalCommandStream C g = Inr (bs, st, t)"
  shows "stat_insertedWaits st = waits t"
proof -
  let ?ctx = "schedule_context C g"
  from assms obtain s where l: "schedule_loop ?ctx (initial_schedule ?ctx) = Inr s"
    and st: "st = finish_stats (length C) (drain_queues ?ctx s)" and t: "t = ss_trace (drain_queues ?ctx s)"
    by (auto simp: ScheduleGlobalCommandStream_def Let_def split: sum.splits if_splits)
  have "counted (initial_schedule ?ctx)"
    by (simp add: counted_def initial_schedule_def Let_def no_stats_def)
  from counted_drain [OF counted_loop [OF l this], of ?ctx] show ?thesis
    by (simp add: st t counted_def finish_stats_def)
qed

lemma schedule_length:
  assumes "ScheduleGlobalCommandStream C g = Inr (bs, st, t)" and "schedule_good C g bs t"
  shows "length t = length C + stat_insertedWaits st"
proof -
  have "distinct (issue_order t)" "issued t = {0..<length C}" using assms(2) by (simp_all add: schedule_good_def)
  then have "length (issue_order t) = length C" by (metis distinct_card card_atLeastLessThan diff_zero)
  with length_trace [of t] schedule_waits [OF assms(1)] show ?thesis by simp
qed


lemma length_trace_bytes:
  "length (trace_bytes C t) = sum_list (map (\<lambda>i. length (cmd_encoding (C ! i))) (issue_order t)) + 32 * waits t"
proof (induction t rule: rev_induct)
  case (snoc it t)
  then show ?case by (cases it) (simp_all add: trace_bytes_snoc length_item_bytes)
qed (simp add: trace_bytes_def)

text \<open>A wait drains a queue that a submit has filled.\<close>

lemma waits_issues:
  "trace_ok C g t \<Longrightarrow> waits t + card {q. q < QueueCount \<and> outstanding C q t \<noteq> []} \<le> length (issue_order t)"
proof (induction t rule: rev_induct)
  case (snoc it t)
  then have IH: "waits t + card {q. q < QueueCount \<and> outstanding C q t \<noteq> []} \<le> length (issue_order t)"
    and ok: "item_ok C g t it" by (auto simp: trace_ok_snoc)
  let ?Q = "{q. q < QueueCount \<and> outstanding C q t \<noteq> []}" and ?Q' = "{q. q < QueueCount \<and> outstanding C q (t @ [it]) \<noteq> []}"
  have fin: "finite ?Q" by simp
  show ?case
  proof (cases it)
    case (Issue i sub)
    have "?Q' \<subseteq> ?Q \<union> (case AsyncQueue (C ! i) of None \<Rightarrow> {} | Some q \<Rightarrow> {q})" by (auto simp: Issue split: option.splits)
    then have "card ?Q' \<le> card (?Q \<union> (case AsyncQueue (C ! i) of None \<Rightarrow> {} | Some q \<Rightarrow> {q}))"
      by (rule card_mono [rotated]) (simp split: option.splits)
    also have "\<dots> \<le> card ?Q + card (case AsyncQueue (C ! i) of None \<Rightarrow> {} | Some q \<Rightarrow> {q})" by (rule card_Un_le)
    also have "\<dots> \<le> card ?Q + 1" by (simp split: option.splits)
    finally show ?thesis using IH Issue by simp
  next
    case (Wait q)
    have q: "q \<in> ?Q" using ok Wait by (simp add: item_ok_def)
    have "?Q' = ?Q - {q}" by (auto simp: Wait)
    then have "Suc (card ?Q') = card ?Q" using card_Suc_Diff1 [OF fin q] by simp
    with IH Wait show ?thesis by (simp del: outstanding_simps)
  qed
qed (simp add: waits_def)

lemma schedule_encodings:
  assumes P: "stable_bytes P"
    and C: "\<forall>c \<in> set C. P (cmd_encoding c) \<and> Read16 (cmd_encoding c) 0 = CommandType_code (cmd_type c)"
    and s: "ScheduleGlobalCommandStream C g = Inr (bs, st, t)" and good: "schedule_good C g bs t"
  obtains es where "bs = concat es" "\<forall>e \<in> set es. P e" "length es = length C + stat_insertedWaits st"
    "length bs = sum_list (map (length \<circ> cmd_encoding) C) + 32 * stat_insertedWaits st"
    "stat_insertedWaits st \<le> length C"
proof -
  have ok: "trace_ok C g t" and d: "distinct (issue_order t)" and set: "issued t = {0..<length C}"
    and bs: "bs = trace_bytes C t" using good by (simp_all add: schedule_good_def)
  have len: "length (issue_order t) = length C" using d set by (metis distinct_card card_atLeastLessThan diff_zero)
  let ?es = "map (\<lambda>n. item_bytes C (take n t) (t ! n)) [0..<length t]"
  have "\<forall>e \<in> set ?es. P e" using ok item_bytes_P [OF P C] by (auto simp: trace_ok_def)
  moreover have "length bs = sum_list (map (length \<circ> cmd_encoding) C) + 32 * stat_insertedWaits st"
  proof -
    have "sum_list (map (\<lambda>i. length (cmd_encoding (C ! i))) (issue_order t)) =
        sum_list (map (\<lambda>i. length (cmd_encoding (C ! i))) [0..<length C])"
      using d set by (metis distinct_upt set_upt sum_list_distinct_conv_sum_set)
    also have "map (\<lambda>i. length (cmd_encoding (C ! i))) [0..<length C] = map (length \<circ> cmd_encoding) C"
      by (intro nth_equalityI) simp_all
    finally show ?thesis by (simp add: bs length_trace_bytes schedule_waits [OF s])
  qed
  moreover have "stat_insertedWaits st \<le> length C"
    using waits_issues [OF ok] len schedule_waits [OF s] by simp
  ultimately show thesis
    using that [of ?es] bs schedule_length [OF s good] by (simp add: trace_bytes_def)
qed

section \<open>The pipeline returns a stream that decodes\<close>

lemma subseq_sum_list: "subseq xs ys \<Longrightarrow> sum_list xs \<le> (sum_list ys :: nat)"
  by (induction rule: list_emb.induct) auto

definition carried :: "(bytes \<Rightarrow> bool) \<Rightarrow> SemanticCommand list \<Rightarrow> bool" where
  "carried P cmds \<longleftrightarrow> (\<forall>c \<in> set cmds. P (cmd_encoding c) \<and> cmd_flags c = Read32 (cmd_encoding c) 4)"

lemma carried_reindex:
  assumes "subseq new cmds" and "carried P cmds"
  shows "carried P (reindex new)"
    and "subseq (map (length \<circ> cmd_encoding) (reindex new)) (map (length \<circ> cmd_encoding) cmds)"
proof -
  have "set new \<subseteq> set cmds" using assms(1) by (auto dest: list_emb_set)
  then have "carried P new" using assms(2) by (auto simp: carried_def)
  then have "P (cmd_encoding (new ! i)) \<and> cmd_flags (new ! i) = Read32 (cmd_encoding (new ! i)) 4"
    if "i < length new" for i
    using that by (simp add: carried_def)
  then show "carried P (reindex new)" by (auto simp: carried_def in_set_conv_nth)
  have "map (length \<circ> cmd_encoding) (reindex new) = map (length \<circ> cmd_encoding) new"
    by (intro nth_equalityI) simp_all
  then show "subseq (map (length \<circ> cmd_encoding) (reindex new)) (map (length \<circ> cmd_encoding) cmds)"
    using subseq_map [OF assms(1)] by simp
qed

lemma OptimizeDMA_carried:
  assumes "OptimizeDMAResidency cmds = Inr (out, stats)" and "carried P cmds"
  shows "carried P out \<and> subseq (map (length \<circ> cmd_encoding) out) (map (length \<circ> cmd_encoding) cmds)"
proof -
  from assms(1) obtain new where d: "dma_loop cmds [] no_dma_stats [] = Inr (new, stats)" and out: "out = reindex new"
    by (auto simp: OptimizeDMAResidency_def split: sum.splits)
  from dma_loop_Inr [OF d] have "subseq new cmds" by auto
  from carried_reindex [OF this assms(2)] show ?thesis unfolding out by blast
qed

lemma OptimizeQParam_carried:
  assumes "OptimizeQParamResidency cmds = Inr (out, stats)" and "carried P cmds"
  shows "carried P out \<and> subseq (map (length \<circ> cmd_encoding) out) (map (length \<circ> cmd_encoding) cmds)"
proof -
  from assms(1) obtain new where d: "qparam_loop cmds None no_qparam_stats [] = Inr (new, stats)" and out: "out = reindex new"
    by (auto simp: OptimizeQParamResidency_def split: sum.splits)
  from qparam_loop_Inr [OF d] have "subseq new cmds" by auto
  from carried_reindex [OF this assms(2)] show ?thesis unfolding out by blast
qed

lemma optimized_encodings:
  assumes dec: "DecodeSemanticCommandStream bs = Inr cmds" and bl: "list_all blocking cmds"
    and P: "stable_bytes P" and enc: "\<forall>c \<in> set cmds. P (cmd_encoding c)"
    and r: "OptimizeGlobalCommandSchedule bs = Inr r"
  obtains es where "os_commands r = concat es" "\<forall>e \<in> set es. P e"
    "length es + os_removedCommands r = length cmds + os_insertedWaits r"
    "os_removedCommands r \<le> length cmds" "os_insertedWaits r \<le> length cmds"
    "length (os_commands r) \<le> length bs + 32 * os_insertedWaits r"
proof -
  from Optimize_blocking [OF dec bl] r have "optimized_run bs r" by auto
  then obtain d ds q qs l ls cmds' g st t where
    d: "OptimizeDMAResidency cmds = Inr (d, ds)" and q: "OptimizeQParamResidency d = Inr (q, qs)"
    and l: "OptimizeAFULutResidency q = Inr (l, ls)" and b: "BuildCommandDependencyGraph l = Inr (cmds', g)"
    and s: "ScheduleGlobalCommandStream cmds' g = Inr (os_commands r, st, t)"
    and good: "schedule_good cmds' g (os_commands r) t" and w: "os_insertedWaits r = stat_insertedWaits st"
    and rem: "os_removedCommands r = length cmds - length cmds'"
    unfolding optimized_run_def using dec by auto
  let ?len = "map (length \<circ> cmd_encoding)"
  have so: "stream_ok 0 cmds" and bs: "bs = SerializeSemanticCommandStream cmds"
    using dec by (simp_all add: DecodeSemanticCommandStream_iff)
  have v0: "stream_valid cmds \<and> list_all blocking cmds" using stream_ok_valid [OF so] bl by simp
  have "carried P cmds"
    using enc stream_ok_decoded [OF so] by (auto simp: carried_def in_set_conv_nth decoded_ok_def)
  from OptimizeDMA_carried [OF d this] have cd: "carried P d" "subseq (?len d) (?len cmds)" by auto
  from OptimizeQParam_carried [OF q cd(1)] have cq: "carried P q" "subseq (?len q) (?len d)" by auto
  from lut_encodings [OF l P] cq have cl: "\<forall>c \<in> set l. P (cmd_encoding c)" "?len l = ?len q"
    by (auto simp: carried_def)
  from v0 OptimizeDMA_valid [OF d] OptimizeQParam_valid [OF q] OptimizeAFULut_valid [OF l]
  have vl: "stream_valid l" by blast
  from b Build_eq [OF vl] have c': "cmds' = AnnotateState (AnnotateContent l)" by simp
  note len' = annotated_nth(1) [OF vl, folded c']
  have same: "cmd_encoding (cmds' ! i) = cmd_encoding (l ! i) \<and> cmd_type (cmds' ! i) = cmd_type (l ! i)"
    if "i < length l" for i
    using annotated_fields annotated_nth(2) [OF vl that, folded c'] by blast
  have C: "\<forall>c \<in> set cmds'. P (cmd_encoding c) \<and> Read16 (cmd_encoding c) 0 = CommandType_code (cmd_type c)"
  proof
    fix c assume "c \<in> set cmds'"
    then obtain i where i: "i < length l" "c = cmds' ! i" using len' by (auto simp: in_set_conv_nth)
    then have "P (cmd_encoding (l ! i))" using cl(1) by simp
    with i same [OF i(1)] vl
    show "P (cmd_encoding c) \<and> Read16 (cmd_encoding c) 0 = CommandType_code (cmd_type c)"
      by (simp add: stream_valid_def command_ok_def)
  qed
  have lens: "?len cmds' = ?len l" using same len' by (intro nth_equalityI) simp_all
  have sub: "subseq (?len cmds') (?len cmds)" using cd(2) cq(2) cl(2) lens by (metis subseq_order.order_trans)
  have "sum_list (?len cmds) = length bs"
    by (simp add: bs SerializeSemanticCommandStream_def length_concat comp_def)
  then have le: "sum_list (?len cmds') \<le> length bs" using subseq_sum_list [OF sub] by simp
  have le': "length cmds' \<le> length cmds" using list_emb_length [OF sub] by simp
  obtain es where "os_commands r = concat es" "\<forall>e \<in> set es. P e" "length es = length cmds' + stat_insertedWaits st"
    "length (os_commands r) = sum_list (?len cmds') + 32 * stat_insertedWaits st" "stat_insertedWaits st \<le> length cmds'"
    by (rule schedule_encodings [OF P C s good])
  then show thesis using that [of es] rem w le le' by simp
qed

section \<open>Accesses in closed form\<close>

definition in_reach :: "nat \<Rightarrow> nat \<Rightarrow> bool" where
  "in_reach begin' n \<longleftrightarrow> 0 < n \<and> begin' + n \<le> 2 ^ 32"

definition span_access :: "u16 \<Rightarrow> u16 \<Rightarrow> nat \<Rightarrow> nat \<Rightarrow> SemanticAccessMode \<Rightarrow> SemanticMemoryAccess" where
  "span_access region index begin' n mode =
     \<lparr>acc_region = region, acc_index = index, acc_begin = begin', acc_end = begin' + n, acc_mode = mode,
      acc_bankPhase = (if region = Region_code TCDMScratch then bank_phase begin' else no_bank),
      acc_content = []\<rparr>"

definition ref_access :: "bytes \<Rightarrow> nat \<Rightarrow> nat \<Rightarrow> SemanticAccessMode \<Rightarrow> SemanticMemoryAccess" where
  "ref_access e off = span_access (Read16 e off) (Read16 e (off + 2)) (read32n e (off + 4))"

definition with_accesses :: "SemanticCommand \<Rightarrow> SemanticMemoryAccess list \<Rightarrow> SemanticCommand" where
  "with_accesses c as = c\<lparr>cmd_memoryAccesses := cmd_memoryAccesses c @ as\<rparr>"

lemma with_accesses_simps [simp]:
  "with_accesses (with_accesses c as) bs = with_accesses c (as @ bs)"
  "cmd_type (with_accesses c as) = cmd_type c" "cmd_flags (with_accesses c as) = cmd_flags c"
  "cmd_memoryAccesses (with_accesses c as) = cmd_memoryAccesses c @ as"
  by (simp_all add: with_accesses_def)

lemma AddAccess_eq:
  "AddAccess c e off n m =
     (if in_reach (read32n e (off + 4)) n then Some (with_accesses c [ref_access e off n m]) else None)"
  using unat_u32_less [of "Read32 e (off + 4)"]
  by (auto simp: AddAccess_def Let_def in_reach_def ref_access_def span_access_def with_accesses_def max_consts)

lemma AddLocalAccess_eq:
  "b \<le> max_u32 \<Longrightarrow> AddLocalAccess c b n m =
     (if in_reach b n then Some (with_accesses c [span_access (Region_code TCDMScratch) 0 b n m]) else None)"
  by (auto simp: AddLocalAccess_def Let_def in_reach_def span_access_def with_accesses_def max_consts)

lemma in_reach_min [simp]: "in_reach b (min n max_u64) = in_reach b n"
  by (auto simp: in_reach_def max_consts min_def)

lemma in_reachD: "in_reach b n \<Longrightarrow> min n max_u64 = n"
  by (auto simp: in_reach_def max_consts min_def)

lemma AddAccess_min: "AddAccess c e off (min n max_u64) m = AddAccess c e off n m"
  using in_reachD [of "read32n e (off + 4)" n] by (auto simp: AddAccess_eq)

lemma AddLocalAccess_min:
  "b \<le> max_u32 \<Longrightarrow> AddLocalAccess c b (min n max_u64) m = AddLocalAccess c b n m"
  using in_reachD [of b n] by (auto simp: AddLocalAccess_eq)

lemma covers_ref_access:
  "covers (ref_access e off n m) l \<longleftrightarrow>
     fst l = Read16 e off \<and> fst (snd l) = Read16 e (off + 2) \<and>
     read32n e (off + 4) \<le> snd (snd l) \<and> snd (snd l) < read32n e (off + 4) + n"
  by (simp add: covers_def ref_access_def span_access_def)

text \<open>Saturating arithmetic inside saturating arithmetic.\<close>

lemma sat_nested:
  "min (min a max_u64 * b) max_u64 = min (a * b) max_u64"
  "min (b * min a max_u64) max_u64 = min (b * a) max_u64"
proof -
  have "min (min a max_u64 * b) max_u64 = min (a * b) max_u64"
  proof (cases "b = 0 \<or> a \<le> max_u64")
    case False
    then have "max_u64 \<le> max_u64 * b" "max_u64 \<le> a * b" using mult_le_mono [of max_u64 a 1 b] by auto
    with False show ?thesis by (auto simp: min_def simp del: mult_le_cancel1 mult_le_cancel2)
  qed auto
  then show "min (min a max_u64 * b) max_u64 = min (a * b) max_u64"
    "min (b * min a max_u64) max_u64 = min (b * a) max_u64" by (simp_all add: mult.commute)
qed

lemma sat_sum: "SaturatingAdd (min a max_u64) (min b max_u64) = min (a + b) max_u64"
  by (auto simp: SaturatingAdd_eq min_def)

lemmas saturating = SaturatingMultiply_eq sat_nested sat_sum


end
