(* ===== verification/NAI_CoalesceProof.thy ===== *)
theory NAI_CoalesceProof
  imports NAI_Generator NAI_Redecode
begin

text \<open>
  What \<^verbatim>\<open>CoalesceInterleavedPointwiseRows\<close> does to a stream: it copies commands, and where the four
  pointwise commands of two interleaved lanes continue each other it replaces them by two commands
  over the joined rows.  The relation \<open>coalesced\<close> states this on the list of encodings.
\<close>

section \<open>Reading at the front of a longer vector\<close>

lemma Read_front [codec_simps]:
  "off + 4 \<le> length e \<Longrightarrow> Read32 (e @ x) off = Read32 e off"
  "off + 2 \<le> length e \<Longrightarrow> Read16 (e @ x) off = Read16 e off"
  by (simp_all add: Read32_def Read16_def nth_append)

lemma slice_front: "off + n \<le> length e \<Longrightarrow> slice (e @ x) off n = slice e off n"
  by (simp add: slice_def)

lemma Write32_back: "length pre \<le> off \<Longrightarrow> Write32 (pre @ e) off v = pre @ Write32 e (off - length pre) v"
  by (simp add: Write32_def list_update_append Suc_diff_le)

section \<open>The rewriting on encodings\<close>

definition merge_pointwise :: "bytes \<Rightarrow> bytes \<Rightarrow> bytes" where
  "merge_pointwise first second = Write32 first 48 (Read32 first 48 + Read32 second 48)"

definition is_rq :: "bytes \<Rightarrow> bool" where
  "is_rq e \<longleftrightarrow> Read16 e 0 = CommandType_code RQLoad \<and> length e = 32"

definition is_pointwise :: "bytes \<Rightarrow> bool" where
  "is_pointwise e \<longleftrightarrow> Read16 e 0 = CommandType_code PointwiseC32 \<and> length e = 96"

definition rows_mergeable :: "bytes list \<Rightarrow> bytes list \<Rightarrow> bool" where
  "rows_mergeable rq pw \<longleftrightarrow> length rq = 4 \<and> length pw = 4 \<and> list_all is_rq rq \<and> list_all is_pointwise pw \<and>
     SamePointwiseLane (rq ! 0) (pw ! 0) (rq ! 2) (pw ! 2) \<and>
     SamePointwiseLane (rq ! 1) (pw ! 1) (rq ! 3) (pw ! 3) \<and>
     PointwiseLanesIndependent (pw ! 0) (pw ! 1) (pw ! 2) (pw ! 3)"

inductive coalesced :: "bytes list \<Rightarrow> bytes list \<Rightarrow> bool" where
  coalesced_Nil: "coalesced [] []"
| coalesced_keep: "coalesced es fs \<Longrightarrow> coalesced (e # es) (e # fs)"
| coalesced_merge: "rows_mergeable [q0, q1, q2, q3] [p0, p1, p2, p3] \<Longrightarrow> coalesced es fs \<Longrightarrow>
    coalesced (q0 # p0 # q1 # p1 # q2 # p2 # q3 # p3 # es)
      (q0 # merge_pointwise p0 p2 # q1 # merge_pointwise p1 p3 # fs)"

inductive_cases coalesced_NilE: "coalesced [] fs"

lemma coalesced_length: "coalesced es fs \<Longrightarrow> length fs \<le> length es"
  by (induction rule: coalesced.induct) simp_all

lemma SamePointwiseLane_front:
  assumes "is_rq a" "is_pointwise b" "is_rq c" "is_pointwise d"
  shows "SamePointwiseLane (a @ w) (b @ x) (c @ y) (d @ z) = SamePointwiseLane a b c d"
  using assms by (simp add: SamePointwiseLane_def is_rq_def is_pointwise_def slice_front Read_front Let_def)

lemma PointwiseLanesIndependent_front:
  assumes "is_pointwise a" "is_pointwise b" "is_pointwise c" "is_pointwise d"
  shows "PointwiseLanesIndependent (a @ w) (b @ x) (c @ y) (d @ z) = PointwiseLanesIndependent a b c d"
  using assms by (simp add: PointwiseLanesIndependent_def pointwise_input_end_def is_pointwise_def Read_front Let_def)

text \<open>Taking the first command off the rest of the stream.\<close>

lemma peel:
  assumes d: "drop n commands = concat es" and ok: "\<forall>e \<in> set es. command_bytes_ok e"
    and n: "n < length commands" and k: "read16n (drop n commands) 2 = k"
  obtains e es' where "es = e # es'" "length e = k" "drop n commands = e @ concat es'"
    "drop (n + k) commands = concat es'" "Read16 (drop n commands) 0 = Read16 e 0"
proof -
  from n d have "es \<noteq> []" by (metis concat.simps(1) drop_eq_Nil leD)
  then obtain e es' where es: "es = e # es'" by (cases es) auto
  with d have dn: "drop n commands = e @ concat es'" by simp
  have e: "command_bytes_ok e" using ok es by simp
  then have "length e = k" using k dn header_append(3) [OF e, of "concat es'"] by (simp add: command_bytes_ok_def)
  moreover have "drop (n + k) commands = concat es'"
    using dn \<open>length e = k\<close> by (metis add.commute append_eq_conv_conj drop_drop)
  ultimately show thesis using that es dn header_append(2) [OF e, of "concat es'"] by simp
qed

definition pair_at :: "bytes \<Rightarrow> nat \<Rightarrow> bytes \<Rightarrow> bytes \<Rightarrow> bool" where
  "pair_at commands n q p \<longleftrightarrow> is_rq q \<and> is_pointwise p \<and>
     drop n commands = q @ drop (n + 32) commands \<and> drop (n + 32) commands = p @ drop (n + 128) commands"

lemma peel_pair:
  assumes d: "drop n commands = concat es" and ok: "\<forall>e \<in> set es. command_bytes_ok e"
    and n: "n + 128 \<le> length commands"
    and q: "Read16 (drop n commands) 0 = CommandType_code RQLoad" "read16n (drop n commands) 2 = 32"
    and p: "Read16 (drop (n + 32) commands) 0 = CommandType_code PointwiseC32"
      "read16n (drop (n + 32) commands) 2 = 96"
  obtains rq pw es' where "es = rq # pw # es'" "pair_at commands n rq pw" "drop (n + 128) commands = concat es'"
proof -
  from n have "n < length commands" by simp
  from peel [OF d ok this q(2)] obtain rq es1 where rq: "es = rq # es1" "length rq = 32"
    "drop n commands = rq @ concat es1" "drop (n + 32) commands = concat es1"
    "Read16 (drop n commands) 0 = Read16 rq 0" by blast
  have ok1: "\<forall>e \<in> set es1. command_bytes_ok e" using ok rq(1) by simp
  from n have "n + 32 < length commands" by simp
  from peel [OF rq(4) ok1 this p(2)] obtain pw es2 where pw: "es1 = pw # es2" "length pw = 96"
    "drop (n + 32) commands = pw @ concat es2" "drop (n + 32 + 96) commands = concat es2"
    "Read16 (drop (n + 32) commands) 0 = Read16 pw 0" by blast
  show thesis
    using that [of rq pw es2] rq pw q(1) p(1)
    by (auto simp: pair_at_def is_rq_def is_pointwise_def add.assoc)
qed

lemma coalesce_sizes: "rqBytes = 32" "pointwiseBytes = 96" "patternBytes = 512"
  by (simp_all add: rqBytes_def pointwiseBytes_def patternBytes_def)

lemma lanes_merge_pattern:
  assumes d: "drop n commands = concat es" and ok: "\<forall>e \<in> set es. command_bytes_ok e"
    and m: "lanes_merge commands n"
  obtains q0 p0 q1 p1 q2 p2 q3 p3 es' where
    "es = q0 # p0 # q1 # p1 # q2 # p2 # q3 # p3 # es'" "rows_mergeable [q0, q1, q2, q3] [p0, p1, p2, p3]"
    "drop (n + 512) commands = concat es'"
    "pair_at commands n q0 p0" "pair_at commands (n + 128) q1 p1"
    "pair_at commands (n + 256) q2 p2" "pair_at commands (n + 384) q3 p3"
proof -
  from m have l: "n + 512 \<le> length commands"
    and t: "Read16 (drop n commands) 0 = CommandType_code RQLoad" "read16n (drop n commands) 2 = 32"
      "Read16 (drop (n + 32) commands) 0 = CommandType_code PointwiseC32" "read16n (drop (n + 32) commands) 2 = 96"
      "Read16 (drop (n + 128) commands) 0 = CommandType_code RQLoad" "read16n (drop (n + 128) commands) 2 = 32"
      "Read16 (drop (n + 128 + 32) commands) 0 = CommandType_code PointwiseC32"
      "read16n (drop (n + 128 + 32) commands) 2 = 96"
      "Read16 (drop (n + 256) commands) 0 = CommandType_code RQLoad" "read16n (drop (n + 256) commands) 2 = 32"
      "Read16 (drop (n + 256 + 32) commands) 0 = CommandType_code PointwiseC32"
      "read16n (drop (n + 256 + 32) commands) 2 = 96"
      "Read16 (drop (n + 384) commands) 0 = CommandType_code RQLoad" "read16n (drop (n + 384) commands) 2 = 32"
      "Read16 (drop (n + 384 + 32) commands) 0 = CommandType_code PointwiseC32"
      "read16n (drop (n + 384 + 32) commands) 2 = 96"
    and s: "SamePointwiseLane (drop n commands) (drop (n + 32) commands) (drop (n + 256) commands) (drop (n + 256 + 32) commands)"
      "SamePointwiseLane (drop (n + 128) commands) (drop (n + 128 + 32) commands) (drop (n + 384) commands) (drop (n + 384 + 32) commands)"
      "PointwiseLanesIndependent (drop (n + 32) commands) (drop (n + 128 + 32) commands) (drop (n + 256 + 32) commands) (drop (n + 384 + 32) commands)"
    unfolding lanes_merge_def Let_def rq_at_def pointwise_at_def coalesce_sizes
    by (simp_all add: add.assoc)
  obtain q0 p0 es0 where 0: "es = q0 # p0 # es0" "pair_at commands n q0 p0" "drop (n + 128) commands = concat es0"
    by (rule peel_pair [OF d ok _ t(1-4)]) (use l in simp_all)
  have ok0: "\<forall>e \<in> set es0. command_bytes_ok e" using ok 0(1) by simp
  obtain q1 p1 es1 where 1: "es0 = q1 # p1 # es1" "pair_at commands (n + 128) q1 p1" "drop (n + 256) commands = concat es1"
    by (rule peel_pair [OF 0(3) ok0 _ t(5-8)]) (use l in \<open>simp_all add: add.assoc\<close>)
  have ok1: "\<forall>e \<in> set es1. command_bytes_ok e" using ok0 1(1) by simp
  obtain q2 p2 es2 where 2: "es1 = q2 # p2 # es2" "pair_at commands (n + 256) q2 p2" "drop (n + 384) commands = concat es2"
    by (rule peel_pair [OF 1(3) ok1 _ t(9-12)]) (use l in \<open>simp_all add: add.assoc\<close>)
  have ok2: "\<forall>e \<in> set es2. command_bytes_ok e" using ok1 2(1) by simp
  obtain q3 p3 es3 where 3: "es2 = q3 # p3 # es3" "pair_at commands (n + 384) q3 p3" "drop (n + 512) commands = concat es3"
    by (rule peel_pair [OF 2(3) ok2 _ t(13-16)]) (use l in \<open>simp_all add: add.assoc\<close>)
  have k: "is_rq q0" "is_rq q1" "is_rq q2" "is_rq q3" "is_pointwise p0" "is_pointwise p1" "is_pointwise p2" "is_pointwise p3"
    using 0(2) 1(2) 2(2) 3(2) by (simp_all add: pair_at_def)
  have c: "drop n commands = q0 @ drop (n + 32) commands" "drop (n + 128) commands = q1 @ drop (n + 160) commands"
    "drop (n + 256) commands = q2 @ drop (n + 288) commands" "drop (n + 384) commands = q3 @ drop (n + 416) commands"
    "drop (n + 32) commands = p0 @ drop (n + 128) commands" "drop (n + 128 + 32) commands = p1 @ drop (n + 256) commands"
    "drop (n + 256 + 32) commands = p2 @ drop (n + 384) commands" "drop (n + 384 + 32) commands = p3 @ drop (n + 512) commands"
    using 0(2) 1(2) 2(2) 3(2) by (simp_all add: pair_at_def add.assoc)
  have "SamePointwiseLane q0 p0 q2 p2" using s(1) c(1,3,5,7) SamePointwiseLane_front [OF k(1,5,3,7)] by metis
  moreover have "SamePointwiseLane q1 p1 q3 p3" using s(2) c(2,4,6,8) SamePointwiseLane_front [OF k(2,6,4,8)] by metis
  moreover have "PointwiseLanesIndependent p0 p1 p2 p3" using s(3) c(5-8) PointwiseLanesIndependent_front [OF k(5-8)] by metis
  ultimately have "rows_mergeable [q0, q1, q2, q3] [p0, p1, p2, p3]" using k by (simp add: rows_mergeable_def)
  with that [of q0 p0 q1 p1 q2 p2 q3 p3 es3] 0 1 2 3 show thesis by simp
qed

lemma merged_lane_eq:
  assumes q: "is_rq q" and p: "is_pointwise p" and p': "is_pointwise p'"
    and at: "rq_at commands n lane = q @ w" "pointwise_at commands n lane = p @ x"
      "pointwise_at commands n (lane + 2) = p' @ y"
  shows "merged_lane commands n lane rewritten = rewritten @ q @ merge_pointwise p p'"
proof -
  have l: "length q = 32" "length p = 96" "length p' = 96" using q p p' by (simp_all add: is_rq_def is_pointwise_def)
  then have t: "take 32 (q @ w) = q" "take 96 (p @ x) = p" by simp_all
  show ?thesis
    unfolding merged_lane_def Let_def at coalesce_sizes t
    by (simp add: Read_front l merge_pointwise_def Write32_back)
qed

lemma coalesce_loop_spec:
  "drop n commands = concat es \<Longrightarrow> n \<le> length commands \<Longrightarrow> \<forall>e \<in> set es. command_bytes_ok e \<Longrightarrow>
   \<exists>fs. coalesce_loop commands n rewritten removed =
       Some (rewritten @ concat fs, removed + (length es - length fs)) \<and> coalesced es fs"
proof (induction "length es" arbitrary: n es rewritten removed rule: less_induct)
  case less
  note d = less.prems(1) and ok = less.prems(3)
  show ?case
  proof (cases es)
    case Nil
    then have "\<not> n < length commands" using d by simp
    then show ?thesis
      by (subst coalesce_loop.simps, intro exI [of _ "[]"]) (simp add: Nil coalesced_Nil)
  next
    case (Cons e es')
    have eok: "command_bytes_ok e" using ok Cons by simp
    have dn: "drop n commands = e @ concat es'" using d Cons by simp
    have le: "16 \<le> length e" using eok by (simp add: command_bytes_ok_def)
    have n: "n < length commands" using dn le by (metis append_is_Nil_conv drop_eq_Nil list.size(3) not_less not_numeral_le_zero)
    show ?thesis
    proof (cases "lanes_merge commands n")
      case True
      obtain q0 p0 q1 p1 q2 p2 q3 p3 es8 where
        es: "es = q0 # p0 # q1 # p1 # q2 # p2 # q3 # p3 # es8" and m: "rows_mergeable [q0, q1, q2, q3] [p0, p1, p2, p3]"
        and d8: "drop (n + 512) commands = concat es8"
        and at: "pair_at commands n q0 p0" "pair_at commands (n + 128) q1 p1"
          "pair_at commands (n + 256) q2 p2" "pair_at commands (n + 384) q3 p3"
        by (rule lanes_merge_pattern [OF d ok True])
      have k: "is_rq q0" "is_rq q1" "is_pointwise p0" "is_pointwise p1" "is_pointwise p2" "is_pointwise p3"
        using at by (simp_all add: pair_at_def)
      have at': "rq_at commands n 0 = q0 @ drop (n + 32) commands" "rq_at commands n 1 = q1 @ drop (n + 160) commands"
        "pointwise_at commands n 0 = p0 @ drop (n + 128) commands" "pointwise_at commands n 1 = p1 @ drop (n + 256) commands"
        "pointwise_at commands n (0 + 2) = p2 @ drop (n + 384) commands" "pointwise_at commands n (1 + 2) = p3 @ drop (n + 512) commands"
        using at by (simp_all add: rq_at_def pointwise_at_def coalesce_sizes pair_at_def add.assoc)
      define rw where "rw = rewritten @ q0 @ merge_pointwise p0 p2 @ q1 @ merge_pointwise p1 p3"
      have step: "merged_lane commands n 1 (merged_lane commands n 0 rewritten) = rw"
        unfolding merged_lane_eq [OF k(1,3,5) at'(1,3,5)] merged_lane_eq [OF k(2,4,6) at'(2,4,6)] rw_def by simp
      have ok8: "\<forall>e \<in> set es8. command_bytes_ok e" using ok es by simp
      have n8: "n + 512 \<le> length commands" using True by (simp add: lanes_merge_def Let_def coalesce_sizes)
      from less.hyps [of es8 "n + 512" rw "removed + 4"] es d8 n8 ok8 obtain fs where
        fs: "coalesce_loop commands (n + 512) rw (removed + 4) =
          Some (rw @ concat fs, removed + 4 + (length es8 - length fs))" "coalesced es8 fs" by auto
      let ?fs = "q0 # merge_pointwise p0 p2 # q1 # merge_pointwise p1 p3 # fs"
      have "coalesce_loop commands n rewritten removed = coalesce_loop commands (n + 512) rw (removed + 4)"
        using n True by (subst coalesce_loop.simps) (simp add: step [simplified] coalesce_sizes)
      with fs coalesced_length [OF fs(2)] have "coalesce_loop commands n rewritten removed =
          Some (rewritten @ concat ?fs, removed + (length es - length ?fs))" by (simp add: rw_def es)
      moreover have "coalesced es ?fs" unfolding es by (rule coalesced_merge [OF m fs(2)])
      ultimately show ?thesis by blast
    next
      case False
      have sz: "read16n commands (n + 2) = length e"
      proof -
        have "Read16 commands (n + 2) = Read16 (drop n commands) 2" using n by (simp add: Read16_def add.commute add.left_commute)
        then show ?thesis using eok dn header_append(3) [OF eok, of "concat es'"] by (simp add: command_bytes_ok_def)
      qed
      have len: "length commands = n + length e + length (concat es')"
        using dn n by (metis add.assoc append_take_drop_id length_append length_take less_imp_le_nat min.absorb2)
      have d': "drop (n + length e) commands = concat es'" using dn by (metis add.commute append_eq_conv_conj drop_drop)
      from less.hyps [of es' "n + length e" "rewritten @ e" removed] Cons d' len ok obtain fs where
        fs: "coalesce_loop commands (n + length e) (rewritten @ e) removed =
          Some ((rewritten @ e) @ concat fs, removed + (length es' - length fs))" "coalesced es' fs" by auto
      have "coalesce_loop commands n rewritten removed = coalesce_loop commands (n + length e) (rewritten @ e) removed"
        using n False le len
        by (subst coalesce_loop.simps)
          (simp add: Let_def sz [simplified] sizeof_CommandHeaderV2_def slice_def dn)
      with fs coalesced_keep [OF fs(2), of e] show ?thesis unfolding Cons by (intro exI [of _ "e # fs"]) simp
    qed
  qed
qed

lemma Coalesce_spec:
  assumes "\<forall>e \<in> set es. command_bytes_ok e"
  obtains fs where "CoalesceInterleavedPointwiseRows (concat es) = (concat fs, length es - length fs)" "coalesced es fs"
proof -
  from coalesce_loop_spec [of 0 "concat es" es "[]" 0] assms obtain fs where
    "coalesce_loop (concat es) 0 [] 0 = Some (concat fs, length es - length fs)" "coalesced es fs" by auto
  with that show thesis by (simp add: CoalesceInterleavedPointwiseRows_def)
qed

section \<open>Pointwise commands in closed form\<close>

definition pw_input_bytes :: "bytes \<Rightarrow> nat" where
  "pw_input_bytes e = (read32n e 52 - 1) * read32n e 64 + read32n e 48 * 32"

definition pw_output_bytes :: "bytes \<Rightarrow> nat" where
  "pw_output_bytes e = (read32n e 56 - 1) * read32n e 68 + read32n e 48 * 32"

definition pw_partial_bytes :: "bytes \<Rightarrow> nat" where
  "pw_partial_bytes e = read32n e 48 * 128"

definition pw_weight_bytes :: "bytes \<Rightarrow> nat" where
  "pw_weight_bytes e = read32n e 52 * read32n e 56 * 1024"

definition pw_partials :: "bytes \<Rightarrow> SemanticMemoryAccess list" where
  "pw_partials e = (if read32n e 52 > 1
     then [ref_access e 32 (pw_partial_bytes e) Read, ref_access e 32 (pw_partial_bytes e) Write] else [])"

definition pw_accesses :: "bytes \<Rightarrow> SemanticMemoryAccess list" where
  "pw_accesses e = [ref_access e 16 (pw_weight_bytes e) Read, ref_access e 24 (pw_input_bytes e) Read] @
     pw_partials e @ [ref_access e 40 (pw_output_bytes e) Write]"

definition pw_fits :: "bytes \<Rightarrow> bool" where
  "pw_fits e \<longleftrightarrow> read32n e 48 \<noteq> 0 \<and> read32n e 52 \<noteq> 0 \<and> read32n e 56 \<noteq> 0 \<and>
     list_all (\<lambda>offset. offset = 32 \<and> read32n e 52 = 1 \<or>
       Read16 e offset = Region_code TCDMScratch \<and> Read16 e (offset + 2) = 0) [24, 32, 40] \<and>
     in_reach (read32n e 20) (pw_weight_bytes e) \<and> in_reach (read32n e 28) (pw_input_bytes e) \<and>
     (read32n e 52 > 1 \<longrightarrow> in_reach (read32n e 36) (pw_partial_bytes e)) \<and>
     in_reach (read32n e 44) (pw_output_bytes e)"

lemma DecodePointwise_eq:
  "DecodePointwise c e = (if pw_fits e then
     Some ((with_accesses c (pw_accesses e))\<lparr>cmd_estimatedCycles :=
       CycleCount (min (read32n e 48 * (read32n e 52 * read32n e 56)) max_u64)\<rparr>) else None)"
proof -
  have eqs: "SaturatingMultiply (SaturatingMultiply (read32n e 52) (read32n e 56)) (32 * 32) = min (pw_weight_bytes e) max_u64"
    "SaturatingAdd (SaturatingMultiply (read32n e 52 - 1) (read32n e 64)) (SaturatingMultiply (read32n e 48) 32) =
       min (pw_input_bytes e) max_u64"
    "SaturatingAdd (SaturatingMultiply (read32n e 56 - 1) (read32n e 68)) (SaturatingMultiply (read32n e 48) 32) =
       min (pw_output_bytes e) max_u64"
    "SaturatingMultiply (read32n e 48) (32 * 4) = min (pw_partial_bytes e) max_u64"
    "SaturatingMultiply (read32n e 48) (SaturatingMultiply (read32n e 52) (read32n e 56)) =
       min (read32n e 48 * (read32n e 52 * read32n e 56)) max_u64"
    by (simp_all add: saturating pw_weight_bytes_def pw_input_bytes_def pw_output_bytes_def pw_partial_bytes_def)
  show ?thesis
  proof (cases "pw_fits e")
    case True
    then show ?thesis
      unfolding DecodePointwise_def Let_def eqs unfolding AddAccess_min unfolding AddAccess_eq
      by (simp add: pw_fits_def pw_accesses_def pw_partials_def)
  next
    case False
    then show ?thesis
      unfolding DecodePointwise_def Let_def eqs unfolding AddAccess_min unfolding AddAccess_eq
      by (auto simp: pw_fits_def split: bind_splits)
  qed
qed

section \<open>The merged command\<close>

lemma slice_Read:
  assumes s: "slice e off n = slice e' off n" and l: "off + n \<le> length e" "off + n \<le> length e'"
  shows "off \<le> k \<Longrightarrow> k + 4 \<le> off + n \<Longrightarrow> Read32 e' k = Read32 e k"
    and "off \<le> k \<Longrightarrow> k + 2 \<le> off + n \<Longrightarrow> Read16 e' k = Read16 e k"
proof -
  have nth: "e' ! i = e ! i" if "off \<le> i" "i < off + n" for i
  proof -
    have "slice e off n ! (i - off) = slice e' off n ! (i - off)" using s by simp
    with that l show ?thesis by (simp add: slice_def)
  qed
  show "off \<le> k \<Longrightarrow> k + 4 \<le> off + n \<Longrightarrow> Read32 e' k = Read32 e k"
    "off \<le> k \<Longrightarrow> k + 2 \<le> off + n \<Longrightarrow> Read16 e' k = Read16 e k"
    by (simp_all add: Read32_def Read16_def nth)
qed

lemma same_lane:
  assumes s: "SamePointwiseLane q p q' p'" and p: "is_pointwise p" "is_pointwise p'"
  shows "Read16 p' 24 = Read16 p 24" "Read16 p' 26 = Read16 p 26" "Read16 p' 40 = Read16 p 40" "Read16 p' 42 = Read16 p 42"
    "Read16 p' 32 = Read16 p 32" "Read16 p' 34 = Read16 p 34" "Read32 p' 36 = Read32 p 36"
    "Read16 p' 16 = Read16 p 16" "Read16 p' 18 = Read16 p 18" "Read32 p' 20 = Read32 p 20"
    "Read32 p' 52 = Read32 p 52" "Read32 p' 56 = Read32 p 56" "Read32 p' 64 = Read32 p 64" "Read32 p' 68 = Read32 p 68"
    and "read32n p' 28 = read32n p 28 + read32n p 48 * 32" and "read32n p' 44 = read32n p 44 + read32n p 48 * 32"
    and "Read32 p 48 \<noteq> 0" and "Read32 p' 48 \<noteq> 0"
proof -
  have l: "length p = 96" "length p' = 96" using p by (simp_all add: is_pointwise_def)
  from s have e: "slice p 16 8 = slice p' 16 8" "slice p 32 8 = slice p' 32 8" "slice p 24 4 = slice p' 24 4"
    "slice p 40 4 = slice p' 40 4" "slice p 52 20 = slice p' 52 20"
    by (auto simp: SamePointwiseLane_def)
  note r = slice_Read [OF e(1)] slice_Read [OF e(2)] slice_Read [OF e(3)] slice_Read [OF e(4)] slice_Read [OF e(5)]
  show "Read16 p' 24 = Read16 p 24" "Read16 p' 26 = Read16 p 26" "Read16 p' 40 = Read16 p 40" "Read16 p' 42 = Read16 p 42"
    "Read16 p' 32 = Read16 p 32" "Read16 p' 34 = Read16 p 34" "Read32 p' 36 = Read32 p 36"
    "Read16 p' 16 = Read16 p 16" "Read16 p' 18 = Read16 p 18" "Read32 p' 20 = Read32 p 20"
    "Read32 p' 52 = Read32 p 52" "Read32 p' 56 = Read32 p 56" "Read32 p' 64 = Read32 p 64" "Read32 p' 68 = Read32 p 68"
    by (simp_all add: r l)
  from s show "read32n p' 28 = read32n p 28 + read32n p 48 * 32" "read32n p' 44 = read32n p 44 + read32n p 48 * 32"
    "Read32 p 48 \<noteq> 0" "Read32 p' 48 \<noteq> 0"
    by (auto simp: SamePointwiseLane_def Let_def)
qed

lemma merge_pointwise_Read:
  "k + 4 \<le> 48 \<or> 52 \<le> k \<Longrightarrow> Read32 (merge_pointwise p p') k = Read32 p k"
  "k + 2 \<le> 48 \<or> 52 \<le> k \<Longrightarrow> Read16 (merge_pointwise p p') k = Read16 p k"
  by (simp_all add: merge_pointwise_def Read_Write_other)

lemma merge_pointwise_rows:
  assumes "length p = 96" and "read32n p 48 + read32n p' 48 < 2 ^ 32"
  shows "read32n (merge_pointwise p p') 48 = read32n p 48 + read32n p' 48"
  using assms by (simp add: merge_pointwise_def Read_Write unat_plus_if_size word_size)

definition low_partials :: "bytes \<Rightarrow> bool" where
  "low_partials e \<longleftrightarrow> (Read16 e 0 = CommandType_code PointwiseC32 \<and> read32n e 52 > 1 \<longrightarrow>
     read32n e 36 + pw_partial_bytes e \<le> 2 ^ 31)"

lemma pw_rows_bound: "pw_fits e \<Longrightarrow> read32n e 48 \<le> 2 ^ 27"
proof -
  assume "pw_fits e"
  then have "in_reach (read32n e 44) (pw_output_bytes e)" by (simp add: pw_fits_def)
  moreover have "read32n e 48 * 32 \<le> pw_output_bytes e" by (simp add: pw_output_bytes_def)
  ultimately show ?thesis by (simp add: in_reach_def)
qed

lemma merged_rows:
  assumes "is_pointwise p" and "pw_fits p" and "pw_fits p'"
  shows "read32n (merge_pointwise p p') 48 = read32n p 48 + read32n p' 48"
  by (rule merge_pointwise_rows)
    (use assms pw_rows_bound [OF assms(2)] pw_rows_bound [OF assms(3)] in \<open>simp_all add: is_pointwise_def\<close>)

lemma merged_bytes:
  assumes s: "SamePointwiseLane q p q' p'" and p: "is_pointwise p" "is_pointwise p'" and f: "pw_fits p" "pw_fits p'"
  shows "pw_weight_bytes (merge_pointwise p p') = pw_weight_bytes p"
    and "read32n p 28 + pw_input_bytes (merge_pointwise p p') = read32n p' 28 + pw_input_bytes p'"
    and "read32n p 44 + pw_output_bytes (merge_pointwise p p') = read32n p' 44 + pw_output_bytes p'"
    and "pw_partial_bytes (merge_pointwise p p') = pw_partial_bytes p + pw_partial_bytes p'"
  using same_lane [OF s p]
  by (simp_all add: pw_weight_bytes_def pw_input_bytes_def pw_output_bytes_def pw_partial_bytes_def
      merge_pointwise_Read merged_rows [OF p(1) f] algebra_simps)

lemma merged_fits:
  assumes s: "SamePointwiseLane q p q' p'" and p: "is_pointwise p" "is_pointwise p'" and f: "pw_fits p" "pw_fits p'"
    and low: "low_partials p" "low_partials p'"
  shows "pw_fits (merge_pointwise p p')"
proof -
  let ?m = "merge_pointwise p p'"
  note l = same_lane [OF s p] and b = merged_bytes [OF s p f]
  have r0: "0 < read32n p 48" using l(17) by (metis gr0I unsigned_eq_0_iff)
  then have rows: "read32n ?m 48 \<noteq> 0" using merged_rows [OF p(1) f] by simp
  have "in_reach (read32n ?m 36) (pw_partial_bytes ?m)" if "read32n p 52 > 1"
    using that low p l r0 unfolding b
    by (simp add: low_partials_def is_pointwise_def in_reach_def merge_pointwise_Read pw_partial_bytes_def)
  moreover have "in_reach (read32n ?m 28) (pw_input_bytes ?m)" "in_reach (read32n ?m 44) (pw_output_bytes ?m)"
    using f(2) b(2,3) rows by (auto simp: pw_fits_def in_reach_def merge_pointwise_Read pw_input_bytes_def pw_output_bytes_def)
  ultimately show ?thesis
    using f(1) rows by (simp add: pw_fits_def merge_pointwise_Read b(1))
qed

lemma pointwise_payload:
  assumes "is_pointwise e" and "read16n e 2 = 96"
  shows "command_bytes_ok e" and "decodable e \<longleftrightarrow> pw_fits e"
    and "DecodeKnownCommand (header_command e i) = Some c \<Longrightarrow> cmd_memoryAccesses c = pw_accesses e"
proof -
  have t: "CommandType_of (Read16 e 0) = PointwiseC32" using assms(1) by (simp only: is_pointwise_def CommandType_of_code)
  show ok: "command_bytes_ok e" using assms by (simp add: command_bytes_ok_def t) (simp add: is_pointwise_def)
  have d: "DecodeKnownCommand (header_command e i) = DecodePointwise
      (AddReadWriteState (AddState (AddResource (header_command e i) Systolic) Quantization 0 Read 0) SystolicSlot 0 0) e" for i
    using header_encoding [OF ok, of i]
    by (simp add: DecodeKnownCommand_def decode_payload_def Let_def IsDMA_def IsSystolic_def header_command_def t)
  show "decodable e \<longleftrightarrow> pw_fits e" using ok by (simp add: decodable_def d DecodePointwise_eq)
  have "cmd_memoryAccesses (AddReadWriteState (AddState (AddResource (header_command e i) Systolic)
      Quantization 0 Read 0) SystolicSlot 0 0) = []"
    by (simp add: AddReadWriteState_def AddState_def AddResource_def header_command_def blank_command_def)
  then show "DecodeKnownCommand (header_command e i) = Some c \<Longrightarrow> cmd_memoryAccesses c = pw_accesses e"
    unfolding d DecodePointwise_eq by (auto split: if_splits)
qed

text \<open>Merged commands still decode, and what decodes of them is a blocking pointwise command.\<close>

lemma is_pointwise_merge: "is_pointwise p \<Longrightarrow> is_pointwise (merge_pointwise p p')"
  by (simp add: is_pointwise_def merge_pointwise_Read) (simp add: merge_pointwise_def)

lemma decodable_size: "decodable e \<Longrightarrow> read16n e 2 = length e"
  by (simp add: decodable_def command_bytes_ok_def)

lemma decodable_merge:
  assumes s: "SamePointwiseLane q p q' p'" and p: "is_pointwise p" "is_pointwise p'"
    and d: "decodable p" "decodable p'" and low: "low_partials p" "low_partials p'"
  shows "decodable (merge_pointwise p p')"
proof -
  have sz: "read16n p 2 = 96" "read16n p' 2 = 96"
    using d [THEN decodable_size] p by (simp_all add: is_pointwise_def)
  have "pw_fits p" "pw_fits p'" using d pointwise_payload(2) [OF p(1) sz(1)] pointwise_payload(2) [OF p(2) sz(2)] by simp_all
  from merged_fits [OF s p this low] show ?thesis
    using pointwise_payload(2) [OF is_pointwise_merge [OF p(1)], of p'] sz by (simp add: merge_pointwise_Read)
qed

lemma coalesced_all:
  assumes "coalesced es fs" and "\<forall>e \<in> set es. P e" and "\<And>e. P e \<Longrightarrow> Q e"
    and "\<And>q p q' p'. SamePointwiseLane q p q' p' \<Longrightarrow> is_pointwise p \<Longrightarrow> is_pointwise p' \<Longrightarrow> P p \<Longrightarrow> P p' \<Longrightarrow>
      Q (merge_pointwise p p')"
  shows "\<forall>f \<in> set fs. Q f"
  using assms(1,2)
proof (induction rule: coalesced.induct)
  case (coalesced_merge q0 q1 q2 q3 p0 p1 p2 p3 es fs)
  then have "SamePointwiseLane q0 p0 q2 p2" "SamePointwiseLane q1 p1 q3 p3"
    "is_pointwise p0" "is_pointwise p1" "is_pointwise p2" "is_pointwise p3" by (simp_all add: rows_mergeable_def)
  with coalesced_merge assms(3,4) show ?case by auto
qed (use assms(3) in auto)

lemma coalesced_decodable:
  assumes "coalesced es fs" and "\<forall>e \<in> set es. decodable e \<and> low_partials e"
  shows "\<forall>f \<in> set fs. decodable f"
  by (rule coalesced_all [OF assms]) (auto intro: decodable_merge)

section \<open>What the merged lanes access\<close>

definition accesses_of :: "bytes \<Rightarrow> SemanticMemoryAccess list" where
  "accesses_of e = (case DecodeKnownCommand (header_command e 0) of None \<Rightarrow> [] | Some c \<Rightarrow> cmd_memoryAccesses c)"

text \<open>The locations that the accesses of a mode cover.\<close>

definition touched :: "SemanticAccessMode \<Rightarrow> SemanticMemoryAccess list \<Rightarrow> location set" where
  "touched mode as = {l. \<exists>a \<in> set as. acc_mode a = mode \<and> covers a l}"

lemma pointwise_accesses:
  assumes "is_pointwise p" and "decodable p"
  shows "pw_fits p" and "accesses_of p = pw_accesses p"
proof -
  have sz: "read16n p 2 = 96" using assms decodable_size [OF assms(2)] by (simp add: is_pointwise_def)
  then show "pw_fits p" using pointwise_payload(2) [OF assms(1)] assms(2) by simp
  obtain c where "DecodeKnownCommand (header_command p 0) = Some c" using assms(2) by (auto simp: decodable_def)
  with pointwise_payload(3) [OF assms(1) sz this] show "accesses_of p = pw_accesses p" by (simp add: accesses_of_def)
qed

lemma touched_simps [simp]:
  "touched mode [] = {}" "touched mode (as @ bs) = touched mode as \<union> touched mode bs"
  "touched mode (a # as) = (if acc_mode a = mode then {l. covers a l} else {}) \<union> touched mode as"
  by (auto simp: touched_def)

lemma acc_mode_ref [simp]: "acc_mode (ref_access e off n m) = m"
  by (simp add: ref_access_def span_access_def)

lemma touched_pw:
  "l \<in> touched Read (pw_accesses p) \<longleftrightarrow> covers (ref_access p 16 (pw_weight_bytes p) Read) l \<or>
     covers (ref_access p 24 (pw_input_bytes p) Read) l \<or>
     read32n p 52 > 1 \<and> covers (ref_access p 32 (pw_partial_bytes p) Read) l"
  "l \<in> touched Write (pw_accesses p) \<longleftrightarrow> covers (ref_access p 40 (pw_output_bytes p) Write) l \<or>
     read32n p 52 > 1 \<and> covers (ref_access p 32 (pw_partial_bytes p) Write) l"
  by (auto simp: pw_accesses_def pw_partials_def)

text \<open>The partial sums of a merged command, the only locations it touches that neither part does.\<close>

definition partial_locations :: "bytes \<Rightarrow> location set" where
  "partial_locations p = (if read32n p 52 > 1 then {l. covers (ref_access p 32 (pw_partial_bytes p) Read) l} else {})"

lemma merged_touches:
  assumes s: "SamePointwiseLane q p q' p'" and p: "is_pointwise p" "is_pointwise p'"
    and d: "decodable p" "decodable p'" and low: "low_partials p" "low_partials p'"
  shows "touched mode (accesses_of (merge_pointwise p p')) - partial_locations (merge_pointwise p p') =
    touched mode (accesses_of p) \<union> touched mode (accesses_of p') - partial_locations (merge_pointwise p p')"
proof -
  let ?m = "merge_pointwise p p'"
  note l = same_lane [OF s p]
  note f = pointwise_accesses(1) [OF p(1) d(1)] pointwise_accesses(1) [OF p(2) d(2)]
  note b = merged_bytes [OF s p f] and r = merged_rows [OF p(1) f]
  have a: "accesses_of ?m = pw_accesses ?m" "accesses_of p = pw_accesses p" "accesses_of p' = pw_accesses p'"
    using pointwise_accesses(2) [OF is_pointwise_merge [OF p(1)] decodable_merge [OF s p d low]]
      pointwise_accesses(2) [OF p(1) d(1)] pointwise_accesses(2) [OF p(2) d(2)] by simp_all
  have w: "covers (ref_access ?m 16 (pw_weight_bytes ?m) Read) l = covers (ref_access p 16 (pw_weight_bytes p) Read) l"
    "covers (ref_access p' 16 (pw_weight_bytes p') Read) l = covers (ref_access p 16 (pw_weight_bytes p) Read) l" for l
    by (simp_all add: covers_ref_access merge_pointwise_Read b l pw_weight_bytes_def)
  have i: "covers (ref_access ?m 24 (pw_input_bytes ?m) Read) l \<longleftrightarrow>
      covers (ref_access p 24 (pw_input_bytes p) Read) l \<or> covers (ref_access p' 24 (pw_input_bytes p') Read) l" for l
    using b(2) l(15) by (auto simp: covers_ref_access merge_pointwise_Read l pw_input_bytes_def r)
  have o: "covers (ref_access ?m 40 (pw_output_bytes ?m) Write) l \<longleftrightarrow>
      covers (ref_access p 40 (pw_output_bytes p) Write) l \<or> covers (ref_access p' 40 (pw_output_bytes p') Write) l" for l
    using b(3) l(16) by (auto simp: covers_ref_access merge_pointwise_Read l pw_output_bytes_def r)
  have pp: "covers (ref_access p 32 (pw_partial_bytes p) m) l \<Longrightarrow> covers (ref_access ?m 32 (pw_partial_bytes ?m) Read) l"
    "covers (ref_access p' 32 (pw_partial_bytes p') m) l \<Longrightarrow> covers (ref_access ?m 32 (pw_partial_bytes ?m) Read) l"
    "covers (ref_access ?m 32 n m) l = covers (ref_access ?m 32 n Read) l" for m n l
    by (auto simp: covers_ref_access merge_pointwise_Read l b(4))
  have g: "read32n ?m 52 = read32n p 52" "read32n p' 52 = read32n p 52" by (simp_all add: merge_pointwise_Read l)
  show ?thesis
  proof (rule set_eqI)
    fix l
    show "l \<in> touched mode (accesses_of ?m) - partial_locations ?m \<longleftrightarrow>
        l \<in> touched mode (accesses_of p) \<union> touched mode (accesses_of p') - partial_locations ?m"
    proof (cases mode)
      case Read
      with w [of l] i [of l] pp(1,2) [of Read l] show ?thesis by (simp add: a touched_pw partial_locations_def g) blast
    next
      case Write
      with o [of l] pp(1,2) [of Write l] pp(3) [of _ Write l] show ?thesis by (simp add: a touched_pw partial_locations_def g) blast
    qed
  qed
qed

text \<open>Joining the lanes moves the second part of the first lane before the first part of the second:
  with one output group, neither lane writes what the other reads or writes.\<close>

lemma lanes_independent:
  assumes i: "PointwiseLanesIndependent p0 p1 p2 p3"
    and s: "SamePointwiseLane q0 p0 q2 p2" "SamePointwiseLane q1 p1 q3 p3"
    and p: "is_pointwise p0" "is_pointwise p1" "is_pointwise p2" "is_pointwise p3"
    and f: "pw_fits p0" "pw_fits p1" "pw_fits p2" "pw_fits p3"
    and g: "read32n p0 56 = 1" "read32n p1 56 = 1"
  defines "a \<equiv> merge_pointwise p0 p2" and "b \<equiv> merge_pointwise p1 p3"
  shows "\<not> Overlaps (ref_access a 40 (pw_output_bytes a) Write) (ref_access b 40 (pw_output_bytes b) Write)"
    and "\<not> Overlaps (ref_access a 40 (pw_output_bytes a) Write) (ref_access b 24 (pw_input_bytes b) Read)"
    and "\<not> Overlaps (ref_access b 40 (pw_output_bytes b) Write) (ref_access a 24 (pw_input_bytes a) Read)"
  using i g
  by (simp_all add: a_def b_def PointwiseLanesIndependent_def Let_def Overlaps_def SameStorage_def ref_access_def
      span_access_def merge_pointwise_Read pw_output_bytes_def pw_input_bytes_def merged_rows [OF p(1) f(1,3)]
      merged_rows [OF p(2) f(2,4)] spans_overlap_def pointwise_input_end_def add.assoc)

end
