(* ===== verification/NAI_GeneratorProof.thy ===== *)
theory NAI_GeneratorProof
  imports NAI_CoalesceProof NAI_CompactCorrect
begin

text \<open>
  The emitters and the end of \<^verbatim>\<open>Generate\<close> together.  \<open>emission_ok\<close> is the invariant of the emitted
  stream: it is a sequence of commands that decode, are blocking, are a multiple of 32 bytes long and
  are counted.  Every emitter keeps it, and on such a stream the end of generation can fail only in a
  residency pass or because the workspace exceeds the TCDM.
\<close>

section \<open>The invariant of emission\<close>

definition plain_type :: "CommandType \<Rightarrow> bool" where
  "plain_type t \<longleftrightarrow> \<not> IsDMASubmit t \<and> \<not> IsSystolicSubmit t \<and> t \<noteq> DMAWait \<and> t \<noteq> SystolicWait \<and> t \<noteq> End"

definition emitted_ok :: "bytes \<Rightarrow> bool" where
  "emitted_ok e \<longleftrightarrow> decodable e \<and> length e mod 32 = 0 \<and> plain_type (CommandType_of (Read16 e 0)) \<and>
     low_partials e"

definition emission_ok :: "Emission \<Rightarrow> bool" where
  "emission_ok s \<longleftrightarrow> (\<exists>es. em_commands s = concat es \<and> (\<forall>e \<in> set es. emitted_ok e) \<and>
     em_commandCount s = word_of_nat (length es))"

lemma append_field_eq: "append_field output f = output @ put_field f"
  by (cases f) (simp_all add: Append16_def Append32_def put16_def put32_def)

lemma append_all_eq: "append_all out fs = out @ put_fields fs"
  by (induction fs arbitrary: out) (simp_all add: append_field_eq)

definition ref_fields :: "RefV1 \<Rightarrow> field list" where
  "ref_fields r = [F16 (ref_region r), F16 (ref_index r), F32 (ref_offset r)]"

definition command_header :: "CommandType \<Rightarrow> u16 \<Rightarrow> u32 \<Rightarrow> u32 \<Rightarrow> field list" where
  "command_header type sz layerId tileId =
     [F16 (CommandType_code type), F16 sz, F32 0, F32 layerId, F32 tileId]"

lemma append_simps:
  "AppendRef output r = output @ put_fields (ref_fields r)"
  "AppendHeader output type sz layerId tileId 0 = output @ put_fields (command_header type sz layerId tileId)"
  "AppendZeros output n = output @ put_fields (replicate n (F32 0))"
  "append_all output fs = output @ put_fields fs"
  by (simp_all only: AppendRef_def AppendHeader_def AppendZeros_def append_all_eq ref_fields_def command_header_def)

lemma decoded_blocking:
  assumes "decoded_ok i c"
  shows "blocking c \<longleftrightarrow> \<not> IsDMASubmit (cmd_type c) \<and> \<not> IsSystolicSubmit (cmd_type c) \<and>
    cmd_type c \<noteq> DMAWait \<and> cmd_type c \<noteq> SystolicWait"
proof -
  have "issue_class (cmd_type c) (issue_of c)" using assms by (simp add: decoded_ok_def)
  then show ?thesis
    by (cases "cmd_type c") (auto simp: blocking_def issue_class_def issue_of_def dma_issue_def IsDMA_def
        IsDMASubmit_def IsSystolicSubmit_def)
qed

text \<open>What the passes, the scheduler and the compactor need of each encoding.\<close>

definition body_bytes :: "bytes \<Rightarrow> bool" where
  "body_bytes e \<longleftrightarrow> decodable e \<and> length e mod 32 = 0 \<and> CommandType_of (Read16 e 0) \<noteq> End"

lemma stable_body: "stable_bytes body_bytes"
proof -
  have t: "SubmitType u \<noteq> End" if "u \<noteq> End" for u using that by (cases u) (simp_all add: SubmitType_def)
  have l: "Read16 (Write16 e 0 v) 0 = v" "Read16 (Write32 e 4 f) 0 = Read16 e 0" if "decodable e" for e v f
    using that by (simp_all add: decodable_def command_bytes_ok_def codec_simps)
  have w: "CommandType_of (Read16 (WaitEncoding q layerId tileId) 0) \<noteq> End" for q layerId tileId
    by (simp add: WaitEncoding_def Let_def codec_simps del: CommandType_code.simps)
  show ?thesis
    using stable_decodable t l w unfolding stable_bytes_def body_bytes_def
    by (auto simp: codec_simps simp del: CommandType_code.simps)
qed

section \<open>The end of generation\<close>

definition end_bytes :: bytes where
  "end_bytes = put_fields (command_header End 32 0 0 @ replicate 4 (F32 0))"

lemma AppendControl_End: "em_commands (AppendControl End 0 0 s) = em_commands s @ end_bytes"
  by (simp add: AppendControl_def append_simps end_bytes_def)

lemma header_reads:
  "length (put_fields (command_header t sz layerId tileId)) = 16"
  "Read16 (put_fields (command_header t sz layerId tileId) @ rest) 0 = CommandType_code t"
  "Read16 (put_fields (command_header t sz layerId tileId) @ rest) 2 = sz"
  "Read32 (put_fields (command_header t sz layerId tileId) @ rest) 4 = 0"
  "Read32 (put_fields (command_header t sz layerId tileId) @ rest) 8 = layerId"
  "Read32 (put_fields (command_header t sz layerId tileId) @ rest) 12 = tileId"
  by (simp_all add: command_header_def codec_simps)

lemma length_zeros: "length (put_fields (replicate n (F32 0))) = 4 * n"
  by (induction n) simp_all

text \<open>A command built from a header and a payload is decodable when its payload decodes.\<close>

lemma built_command:
  assumes e_def: "e = put_fields (command_header t sz layerId tileId) @ payload"
    and sz: "unat sz = 16 + length payload" "unat sz mod 16 = 0" "MinimumCommandSize t \<le> unat sz" and t: "t \<noteq> AffineLoop"
  shows "command_bytes_ok e" and "cmd_type (header_command e i) = t" and "cmd_encoding (header_command e i) = e"
    and "cmd_layerId (header_command e i) = layerId" and "cmd_tileId (header_command e i) = tileId"
    and "length e = unat sz" and "Read16 e 0 = CommandType_code t"
proof -
  show l: "length e = unat sz" using sz(1) by (simp add: e_def header_reads)
  show ty: "Read16 e 0 = CommandType_code t" by (simp only: e_def header_reads)
  have s: "Read16 e 2 = sz" by (simp only: e_def header_reads)
  have "CommandType_code t \<le> CommandType_code AFUBinaryQuant" by (cases t) simp_all
  moreover have "unat sz AND 15 = unat sz mod 16"
    using take_bit_eq_mask [of 4 "unat sz"] by (simp add: take_bit_eq_mod mask_numeral)
  moreover have "MinimumCommandSize t \<noteq> 0" using t by (cases t) simp_all
  ultimately show ok: "command_bytes_ok e" using sz by (simp add: command_bytes_ok_def l ty s del: CommandType_code.simps)
  show "cmd_encoding (header_command e i) = e" by (rule header_encoding [OF ok])
  show "cmd_type (header_command e i) = t" by (simp add: header_command_def ty del: CommandType_code.simps)
  show "cmd_layerId (header_command e i) = layerId" "cmd_tileId (header_command e i) = tileId"
    by (simp_all add: header_command_def e_def header_reads)
qed

lemma decodable_end: "decodable end_bytes" "length end_bytes = 32" "Read16 end_bytes 0 = CommandType_code End"
proof -
  have e: "end_bytes = put_fields (command_header End 32 0 0) @ put_fields (replicate 4 (F32 0))"
    by (simp add: end_bytes_def)
  have c: "unat (32 :: u16) = 16 + length (put_fields (replicate 4 (F32 0)))" "unat (32 :: u16) mod 16 = 0"
    "MinimumCommandSize End \<le> unat (32 :: u16)" by (simp_all add: length_zeros)
  note b = built_command [OF e c]
  show "length end_bytes = 32" "Read16 end_bytes 0 = CommandType_code End" using b(6,7) by simp_all
  show "decodable end_bytes"
    using b(1,2) by (simp add: decodable_def DecodeKnownCommand_def decode_payload_def Let_def IsDMA_def IsSystolic_def DecodeControl_def)
qed

lemma coalesced_bytes: "coalesced es fs \<Longrightarrow> length (concat fs) \<le> length (concat es)"
  by (induction rule: coalesced.induct) (auto simp: merge_pointwise_def)

lemma coalesced_emission:
  assumes c: "coalesced es fs" and es: "\<forall>e \<in> set es. emitted_ok e"
  shows "\<forall>f \<in> set fs. body_bytes f \<and> plain_type (CommandType_of (Read16 f 0))"
proof (rule coalesced_all [OF c es])
  show "body_bytes e \<and> plain_type (CommandType_of (Read16 e 0))" if "emitted_ok e" for e
    using that by (simp add: emitted_ok_def body_bytes_def plain_type_def)
  show "body_bytes (merge_pointwise p p') \<and> plain_type (CommandType_of (Read16 (merge_pointwise p p') 0))"
    if "SamePointwiseLane q p q' p'" "is_pointwise p" "is_pointwise p'" "emitted_ok p" "emitted_ok p'" for q p q' p'
    using that decodable_merge [of q p q' p']
    by (simp add: emitted_ok_def body_bytes_def plain_type_def merge_pointwise_Read) (simp add: merge_pointwise_def)
qed

lemma plain_blocking:
  assumes dec: "DecodeSemanticCommandStream (concat fs) = Inr cmds" and enc: "map cmd_encoding cmds = fs"
    and p: "\<forall>f \<in> set fs. plain_type (CommandType_of (Read16 f 0))"
  shows "list_all blocking cmds"
  unfolding list_all_length
proof (intro allI impI)
  fix i assume i: "i < length cmds"
  have "stream_ok 0 cmds" using dec by (simp add: DecodeSemanticCommandStream_iff)
  from stream_ok_decoded [OF this i] have d: "decoded_ok i (cmds ! i)" by simp
  then have "cmd_type (cmds ! i) = CommandType_of (Read16 (cmd_encoding (cmds ! i)) 0)"
    by (metis CommandType_of_code decoded_ok_def)
  moreover have "cmd_encoding (cmds ! i) \<in> set fs" using i by (auto simp flip: enc)
  ultimately show "blocking (cmds ! i)" using p decoded_blocking [OF d] by (auto simp: plain_type_def)
qed

lemma bytes_count: "\<forall>f \<in> set fs. body_bytes f \<Longrightarrow> 32 * length fs \<le> length (concat fs)"
proof (induction fs)
  case (Cons f fs)
  then have "16 \<le> length f" "length f mod 32 = 0" by (auto simp: body_bytes_def decodable_def command_bytes_ok_def)
  then have "32 \<le> length f" by presburger
  with Cons show ?case by simp
qed simp

text \<open>The final stream, as the compactor sees it.\<close>

lemma final_stream:
  assumes es: "\<forall>e \<in> set es. body_bytes e" and len: "length (concat es) + 32 < 2 ^ 32"
  obtains cmds where "DecodeSemanticCommandStream (concat es @ end_bytes) = Inr cmds" "length cmds = length es + 1"
    "ends_once cmds" "compactable (AnnotateState (AnnotateContent cmds))"
    "BuildCommandDependencyGraph cmds = Inr (AnnotateState (AnnotateContent cmds), graph_of (length cmds) (build_edges cmds))"
    "SerializeSemanticCommandStream (AnnotateState (AnnotateContent cmds)) = concat es @ end_bytes"
proof -
  let ?bs = "concat es @ end_bytes"
  have "\<forall>e \<in> set (es @ [end_bytes]). decodable e" using es decodable_end by (auto simp: body_bytes_def)
  with decode_concat_iff [of ?bs "es @ [end_bytes]"] obtain cmds where
    dec: "DecodeSemanticCommandStream ?bs = Inr cmds" and enc: "map cmd_encoding cmds = es @ [end_bytes]" by auto
  have lc: "length cmds = length es + 1" using arg_cong [OF enc, of length] by simp
  have so: "stream_ok 0 cmds" and ser: "?bs = SerializeSemanticCommandStream cmds"
    using dec by (simp_all add: DecodeSemanticCommandStream_iff)
  have nth: "cmd_encoding (cmds ! i) = (es @ [end_bytes]) ! i" if "i < length cmds" for i
    using that by (metis enc nth_map)
  have ty: "cmd_type (cmds ! i) = CommandType_of (Read16 (cmd_encoding (cmds ! i)) 0)" if "i < length cmds" for i
    using stream_ok_decoded [OF so that] by (metis CommandType_of_code decoded_ok_def)
  have body: "cmd_type (cmds ! i) \<noteq> End \<and> length (cmd_encoding (cmds ! i)) mod 32 = 0" if "i < length es" for i
    using that es lc nth [of i] ty [of i] by (simp add: nth_append body_bytes_def)
  have last: "cmd_encoding (cmds ! length es) = end_bytes" "cmd_type (cmds ! length es) = End"
    using lc nth [of "length es"] ty [of "length es"] decodable_end(3)
    by (simp_all add: nth_append del: CommandType_code.simps)
  have ne: "cmds \<noteq> []" using lc by auto
  have e: "ends_once cmds"
    unfolding ends_once_def
  proof (intro conjI allI impI ne)
    show "cmd_type (List.last cmds) = End" using last(2) lc ne by (simp add: last_conv_nth)
    show "cmd_type (cmds ! k) \<noteq> End" if "k < length cmds - 1" for k using body [of k] that lc by simp
    show "length (cmd_encoding (cmds ! k)) mod 32 = 0" if "k < length cmds" for k
    proof (cases "k < length es")
      case True
      then show ?thesis using body by blast
    next
      case False
      then have "k = length es" using that lc by simp
      then show ?thesis using last(1) decodable_end(2) by simp
    qed
  qed
  have v: "stream_valid cmds" by (rule stream_ok_valid [OF so])
  let ?a = "AnnotateState (AnnotateContent cmds)"
  note la = annotated_nth(1) [OF v]
  have ane: "?a \<noteq> []" using la ne by (metis length_0_conv)
  have same: "cmd_encoding (?a ! i) = cmd_encoding (cmds ! i) \<and> cmd_type (?a ! i) = cmd_type (cmds ! i)"
    if "i < length cmds" for i
    using annotated_fields annotated_nth(2) [OF v that] by blast
  have encs: "map cmd_encoding ?a = map cmd_encoding cmds" using same la by (intro nth_equalityI) simp_all
  then have ser': "SerializeSemanticCommandStream ?a = ?bs" by (simp add: SerializeSemanticCommandStream_def ser)
  have "length ?bs < 2 ^ 32" using len decodable_end(2) by simp
  from decoded_compactable(1) [OF dec e this] have "compactable cmds" .
  moreover have "encoded_ok (?a ! i) = encoded_ok (cmds ! i)" if "i < length cmds" for i
    using same [OF that] by (simp add: encoded_ok_def)
  moreover have "List.last ?a = ?a ! (length cmds - 1)" "List.last cmds = cmds ! (length cmds - 1)"
    using ane ne la by (simp_all add: last_conv_nth)
  ultimately have "compactable ?a"
    using ane ne la same ser ser' by (auto simp: compactable_def stream_encoded_def)
  with that dec lc e Build_eq [OF v] ser' show thesis by blast
qed

definition generated_ok :: "CompiledArtifact \<Rightarrow> bool" where
  "generated_ok a \<longleftrightarrow>
     (\<exists>cmds. DecodeSemanticCommandStream (art_commands a) = Inr cmds \<and> ends_once cmds \<and>
        length cmds = unat (art_commandCount a) + 1 \<and>
        BuildCommandDependencyGraph cmds = Inr (art_semanticCommands a, art_commandDependencies a)) \<and>
     (art_compactCommands a \<noteq> [] \<longrightarrow>
        ExpandAffineCommandStream (art_compactCommands a) = Inr (art_commands a, unat (art_commandCount a)) \<and>
        length (art_compactCommands a) + MinimumCommandCompactionSavings \<le> length (art_commands a)) \<and>
     (art_compactCommands a = [] \<longrightarrow> art_encodedCommandCount a = art_commandCount a) \<and>
     unat (art_encodedCommandCount a) \<le> unat (art_commandCount a) \<and>
     art_commandBytesBeforeCompaction a = length (art_commands a) \<and>
     art_requiredTCDMBytes a \<le> AllocatableTCDMBytes"

lemma word_count:
  "r \<le> m \<Longrightarrow> m \<le> n \<Longrightarrow>
   (word_of_nat n :: u32) - word_of_nat (n - m) - word_of_nat r + word_of_nat w = word_of_nat (m - r + w)"
  by (simp add: of_nat_diff)

lemma unat_count: "k < 2 ^ 32 \<Longrightarrow> unat (word_of_nat k :: u32) = k"
  by (simp add: unat_of_nat take_bit_nat_eq_self)

definition finished :: "(finish_error + CompiledArtifact) option \<Rightarrow> bool" where
  "finished result \<longleftrightarrow>
     (\<exists>e. result = Some (Inl (OptimizationFailed (ResidencyFailed e)))) \<or>
     (\<exists>n. result = Some (Inl (WorkspaceExceedsTCDM n)) \<and> AllocatableTCDMBytes < n) \<or>
     (\<exists>a. result = Some (Inr a) \<and> generated_ok a)"

lemma path_saves: "compacted commands encoded stats s \<Longrightarrow> cs_encodedCommands stats \<le> length commands - 1"
  by (simp add: compacted_def)

lemma finish_generation_ok:
  assumes ok: "emission_ok s" and len: "length (em_commands s) < 2 ^ 30"
  shows "finished (finish_generation s scratchEnd workspaceEnd)"
proof -
  from ok obtain es where es: "em_commands s = concat es" "\<forall>e \<in> set es. emitted_ok e"
    "em_commandCount s = word_of_nat (length es)" by (auto simp: emission_ok_def)
  have "\<forall>e \<in> set es. command_bytes_ok e" using es(2) by (simp add: emitted_ok_def decodable_def)
  from Coalesce_spec [OF this] obtain fs where
    fs: "CoalesceInterleavedPointwiseRows (concat es) = (concat fs, length es - length fs)" and co: "coalesced es fs" by blast
  note body = coalesced_emission [OF co es(2)]
  have d: "\<forall>f \<in> set fs. decodable f" using body by (simp add: body_bytes_def)
  then obtain cmds where dec: "DecodeSemanticCommandStream (concat fs) = Inr cmds" and enc: "map cmd_encoding cmds = fs"
    using decode_concat_iff [of "concat fs" fs] by auto
  have lc: "length cmds = length fs" using arg_cong [OF enc, of length] by simp
  have bl: "list_all blocking cmds" by (rule plain_blocking [OF dec enc]) (use body in simp)
  have P: "\<forall>c \<in> set cmds. body_bytes (cmd_encoding c)"
    using body by (auto simp flip: enc)
  show ?thesis
  proof (cases "OptimizeGlobalCommandSchedule (concat fs)")
    case (Inl e)
    with Optimize_blocking [OF dec bl] obtain e' where "e = ResidencyFailed e'" by auto
    with Inl show ?thesis by (simp add: finished_def finish_generation_def es fs)
  next
    case (Inr r)
    obtain gs where gs: "os_commands r = concat gs" "\<forall>g \<in> set gs. body_bytes g"
      "length gs + os_removedCommands r = length fs + os_insertedWaits r" "os_removedCommands r \<le> length fs"
      "os_insertedWaits r \<le> length fs" "length (os_commands r) \<le> length (concat fs) + 32 * os_insertedWaits r"
      by (rule optimized_encodings [OF dec bl stable_body P Inr]) (simp add: lc)
    have b: "32 * length fs \<le> length (concat fs)" "length (concat fs) < 2 ^ 30"
      using bytes_count [of fs] body coalesced_bytes [OF co] len es(1) by auto
    then have lg: "length (concat gs) + 32 < 2 ^ 32" using gs(1,5,6) by simp
    define bs where "bs = concat gs @ end_bytes"
    obtain fin where fin: "DecodeSemanticCommandStream bs = Inr fin" "length fin = length gs + 1"
      "ends_once fin" "compactable (AnnotateState (AnnotateContent fin))"
      "BuildCommandDependencyGraph fin = Inr (AnnotateState (AnnotateContent fin), graph_of (length fin) (build_edges fin))"
      "SerializeSemanticCommandStream (AnnotateState (AnnotateContent fin)) = bs"
      using final_stream [OF gs(2) lg] unfolding bs_def by blast
    define ann where "ann = AnnotateState (AnnotateContent fin)"
    from Compact_returns [OF fin(4), folded ann_def] obtain encoded stats sc where
      c: "CompactAffineCommandStream ann = Some (Inr (encoded, stats))" and cc: "compacted ann encoded stats sc" by blast
    have v: "stream_valid fin" using fin(1) by (simp add: DecodeSemanticCommandStream_iff stream_ok_valid)
    have la: "length ann = length gs + 1" using annotated_nth(1) [OF v] fin(2) by (simp add: ann_def)
    have ng: "length gs < 2 ^ 32" using gs(3,5) b by simp
    let ?count = "word_of_nat (length gs) :: u32"
    have count: "em_commandCount s - word_of_nat (length es - length fs) - word_of_nat (os_removedCommands r) +
        word_of_nat (os_insertedWaits r) = ?count"
    proof -
      have "length fs - os_removedCommands r + os_insertedWaits r = length gs" using gs(3,4) by simp
      then show ?thesis using word_count [OF gs(4) coalesced_length [OF co]] es(3) by (simp only:)
    qed
    have "cmd_type (last fin) = End" "fin \<noteq> []" using fin(3) by (simp_all add: ends_once_def)
    then have check: "\<not> (fin = [] \<or> cmd_type (last fin) \<noteq> End \<or> length fin \<noteq> unat ?count + 1)"
      using fin(2) unat_count [OF ng] by simp
    have x: "ExpandAffineCommandStream encoded = Inr (bs, length gs)" "cs_bytesBefore stats = length bs"
      "cs_bytesAfter stats = length encoded" "cs_encodedCommands stats \<le> length gs"
      using cc fin(6) la by (auto simp: compacted_def ann_def)
    define required where "required = (word_of_int (RoundAway_int (sint (max scratchEnd workspaceEnd)) 32) :: u32)"
    define keep where "keep \<longleftrightarrow> \<not> cs_bytesBefore stats - cs_bytesAfter stats < MinimumCommandCompactionSavings"
    define art where "art = \<lparr>art_commands = bs, art_commandCount = ?count, art_semanticCommands = ann,
      art_commandDependencies = graph_of (length fin) (build_edges fin),
      art_compactCommands = (if keep then encoded else []),
      art_encodedCommandCount = (if keep then word_of_nat (cs_encodedCommands stats) else ?count),
      art_commandBytesBeforeCompaction = cs_bytesBefore stats, art_requiredTCDMBytes = required\<rparr>"
    have ec: "em_commands (AppendControl End 0 0 (s\<lparr>em_commands := os_commands r\<rparr>)) = bs"
      by (simp add: AppendControl_End gs(1) bs_def)
    have res: "finish_generation s scratchEnd workspaceEnd =
        (if AllocatableTCDMBytes < required then Some (Inl (WorkspaceExceedsTCDM required)) else Some (Inr art))"
      by (simp only: finish_generation_def es(1) fs prod.case Let_def Inr sum.case count ec fin(1) check if_False
          fin(5) [folded ann_def] c option.case required_def [symmetric] keep_def [symmetric] art_def [symmetric])
    have "ExpandAffineCommandStream [] \<noteq> Inr (bs, length gs)"
      by (simp add: ExpandAffineCommandStream_def expand_loop.simps)
    with x(1) have "encoded \<noteq> []" by auto
    moreover have "0 < MinimumCommandCompactionSavings" by (simp add: MinimumCommandCompactionSavings_def)
    ultimately have "generated_ok art" if "\<not> AllocatableTCDMBytes < required"
      using that fin(1,2,3,5) x unat_count [OF ng] unat_count [of "cs_encodedCommands stats"] ng
      by (auto simp: generated_ok_def art_def keep_def ann_def not_less)
    then show ?thesis unfolding res finished_def by auto
  qed
qed

end
