(* ===== verification/NAI_EmitProof.thy ===== *)
theory NAI_EmitProof
  imports NAI_GeneratorProof
begin

text \<open>
  The emitters keep the invariant of emission.  They share one contract, the locale \<open>emitter\<close>: a call
  that succeeds appends one command and counts it, and for arguments whose address ranges lie in the
  32-bit space the command is well formed.  Every emitter interprets it.  \<open>emitted\<close> is the state
  machine of emission: the states that sequences of emitter calls reach.
\<close>

section \<open>The contract of an emitter\<close>

lemma emission_snoc:
  assumes "emission_ok s" and "emitted_ok e"
  shows "emission_ok (append_command (em_commands s @ e) s)"
proof -
  from assms(1) obtain es where es: "em_commands s = concat es" "\<forall>e \<in> set es. emitted_ok e"
    "em_commandCount s = word_of_nat (length es)" by (auto simp: emission_ok_def)
  then have "em_commands (append_command (em_commands s @ e) s) = concat (es @ [e])"
    "em_commandCount (append_command (em_commands s @ e) s) = word_of_nat (length (es @ [e]))" by (simp_all add: append_command_def add.commute)
  moreover have "\<forall>e' \<in> set (es @ [e]). emitted_ok e'" using es(2) assms(2) by simp
  ultimately show ?thesis unfolding emission_ok_def by blast
qed

locale emitter =
  fixes run :: "'a \<Rightarrow> Emission \<Rightarrow> emit_error + Emission"
    and valid :: "'a \<Rightarrow> bool" and code :: "'a \<Rightarrow> bytes"
  assumes run_code: "run a s = Inr s' \<Longrightarrow> s' = append_command (em_commands s @ code a) s"
    and code_ok: "run a s = Inr s' \<Longrightarrow> valid a \<Longrightarrow> emitted_ok (code a)"
begin

lemma appends_one:
  assumes "run a s = Inr s'"
  shows "em_commands s' = em_commands s @ code a" and "em_commandCount s' = em_commandCount s + 1"
    and "em_activePartialBytes s' = em_activePartialBytes s"
  using run_code [OF assms] by (simp_all add: append_command_def)

lemma keeps: "run a s = Inr s' \<Longrightarrow> valid a \<Longrightarrow> emission_ok s \<Longrightarrow> emission_ok s'"
  using run_code code_ok emission_snoc by blast

end

section \<open>Commands built from fields\<close>

lemma header_skip:
  "16 \<le> k \<Longrightarrow> Read32 (put_fields (command_header t sz layerId tileId) @ rest) k = Read32 rest (k - 16)"
  "16 \<le> k \<Longrightarrow> Read16 (put_fields (command_header t sz layerId tileId) @ rest) k = Read16 rest (k - 16)"
  using Read_prefix [of "put_fields (command_header t sz layerId tileId)" k rest] by (simp_all add: header_reads)

definition command_of :: "CommandType \<Rightarrow> u16 \<Rightarrow> u32 \<Rightarrow> u32 \<Rightarrow> field list \<Rightarrow> bytes" where
  "command_of t sz layerId tileId fs = put_fields (command_header t sz layerId tileId) @ put_fields fs"

lemma command_of_Read:
  "16 \<le> k \<Longrightarrow> Read32 (command_of t sz layerId tileId fs) k = Read32 (put_fields fs) (k - 16)"
  "16 \<le> k \<Longrightarrow> Read16 (command_of t sz layerId tileId fs) k = Read16 (put_fields fs) (k - 16)"
  by (simp_all add: command_of_def header_skip)

lemma command_of_ok:
  assumes sz: "unat sz = 16 + length (put_fields fs)" "unat sz mod 32 = 0" "MinimumCommandSize t \<le> unat sz"
    and t: "t \<noteq> AffineLoop" "plain_type t"
    and d: "decode_payload (header_command (command_of t sz layerId tileId fs) 0) (command_of t sz layerId tileId fs) \<noteq> None"
    and low: "low_partials (command_of t sz layerId tileId fs)"
  shows "emitted_ok (command_of t sz layerId tileId fs)"
proof -
  let ?e = "command_of t sz layerId tileId fs"
  have m: "unat sz mod 16 = 0" using sz(2) by presburger
  note b = built_command [OF command_of_def sz(1) m sz(3) t(1)]
  have "DecodeKnownCommand (header_command ?e 0) \<noteq> None" using d b(3) by (simp add: DecodeKnownCommand_def)
  moreover have "CommandType_of (Read16 ?e 0) = t" by (simp only: b(7) CommandType_of_code)
  ultimately show ?thesis
    using b(1,6) sz(2) t(2) low by (simp add: emitted_ok_def decodable_def)
qed

lemma command_of_type:
  assumes "unat sz = 16 + length (put_fields fs)" "unat sz mod 32 = 0" "MinimumCommandSize t \<le> unat sz" "t \<noteq> AffineLoop"
  shows "cmd_type (header_command (command_of t sz layerId tileId fs) i) = t"
    and "Read16 (command_of t sz layerId tileId fs) 0 = CommandType_code t"
proof -
  have m: "unat sz mod 16 = 0" using assms(2) by presburger
  show "cmd_type (header_command (command_of t sz layerId tileId fs) i) = t"
    "Read16 (command_of t sz layerId tileId fs) 0 = CommandType_code t"
    using built_command(2,7) [OF command_of_def assms(1) m assms(3,4)] by simp_all
qed

lemma Read_last [codec_simps]: "Read32 (put32 v) 0 = v" "Read16 (put16 w) 0 = w"
  using Read32_hd [of v "[]"] Read16_hd [of w "[]"] by simp_all

section \<open>Transfers\<close>

text \<open>The bytes a strided transfer spans, without the wrap-around of the emitter's check.\<close>

definition dma_span :: "u32 \<Rightarrow> u32 \<Rightarrow> u32 \<Rightarrow> u32 \<Rightarrow> u32 \<Rightarrow> nat" where
  "dma_span len stride2 repetitions2 stride3 repetitions3 =
     unat stride2 * (unat repetitions2 - 1) + unat stride3 * (unat repetitions3 - 1) + unat len"

definition ref_reaches :: "RefV1 \<Rightarrow> nat \<Rightarrow> bool" where
  "ref_reaches r n \<longleftrightarrow> unat (ref_offset r) + n \<le> 2 ^ 32 \<and> n < 2 ^ 32"

lemma DecodeDMA_not_None:
  assumes "dma_shape (cmd_type c) e = Some (s, d, n, off)" and "read32n e 32 \<noteq> 0"
    and "in_reach (read32n e 20) s" "in_reach (read32n e 28) d" "s < 2 ^ 32" "d < 2 ^ 32"
    and "Read32 e off = DMADirection_code dir"
  shows "DecodeDMA c e \<noteq> None"
  using assms by (cases dir) (auto simp: DecodeDMA_def Let_def AddAccess_eq max_consts)

lemma length_ref [simp]: "length (put_fields (ref_fields r)) = 8"
  by (simp add: ref_fields_def)

lemma dma_emitted:
  assumes fs: "fs = ref_fields source @ ref_fields destination @ F32 len # rest" "length (put_fields rest) = 28"
    and t: "t = DMA1D \<or> t = DMA2D \<or> t = DMA3D" and len: "len \<noteq> 0"
    and shape: "dma_shape t (command_of t 64 layerId tileId fs) = Some (sourceSpan, destinationSpan, n, off)"
    and spans: "0 < sourceSpan" "0 < destinationSpan" "ref_reaches source sourceSpan" "ref_reaches destination destinationSpan"
    and dir: "Read32 (command_of t 64 layerId tileId fs) off = DMADirection_code dir"
  shows "emitted_ok (command_of t 64 layerId tileId fs)"
proof -
  let ?e = "command_of t 64 layerId tileId fs"
  have sz: "unat (64 :: u16) = 16 + length (put_fields fs)" "unat (64 :: u16) mod 32 = 0" "MinimumCommandSize t \<le> unat (64 :: u16)"
    "t \<noteq> AffineLoop" using fs t by auto
  note ty = command_of_type [OF sz, of layerId tileId]
  have rd: "Read32 ?e 20 = ref_offset source" "Read32 ?e 28 = ref_offset destination" "Read32 ?e 32 = len"
    by (simp_all add: command_of_Read fs ref_fields_def codec_simps)
  have dma: "decode_payload (header_command ?e 0) ?e = DecodeDMA (header_command ?e 0) ?e"
    using t by (auto simp: decode_payload_def Let_def ty IsDMA_def)
  have "DecodeDMA (header_command ?e 0) ?e \<noteq> None"
    by (rule DecodeDMA_not_None [where s = sourceSpan and d = destinationSpan and n = n and off = off and dir = dir])
      (use spans len shape dir in \<open>simp_all add: ty rd ref_reaches_def in_reach_def unsigned_eq_0_iff\<close>)
  with dma have d: "decode_payload (header_command ?e 0) ?e \<noteq> None" by simp
  have pt: "plain_type t" using t by (auto simp: plain_type_def IsDMASubmit_def IsSystolicSubmit_def)
  have low: "low_partials ?e" using t by (auto simp: low_partials_def ty)
  show ?thesis by (rule command_of_ok [OF sz pt d low])
qed

lemma unat_pos: "(w :: u32) \<noteq> 0 \<Longrightarrow> 0 < unat w"
  by (metis gr0I unsigned_eq_0_iff)

text \<open>One transfer.\<close>

type_synonym dma1_args = "RefV1 \<times> RefV1 \<times> u32 \<times> u32 \<times> u32"

definition dma_direction :: "RefV1 \<Rightarrow> RefV1 \<Rightarrow> field" where
  "dma_direction source destination = F32 (DMADirection_code (the (ResolveDMADirection source destination)))"

definition dma1_code :: "dma1_args \<Rightarrow> bytes" where
  "dma1_code = (\<lambda>(source, destination, len, layerId, tileId). command_of DMA1D 64 layerId tileId
     (ref_fields source @ ref_fields destination @ F32 len # dma_direction source destination # replicate 6 (F32 0)))"

definition dma1_valid :: "dma1_args \<Rightarrow> bool" where
  "dma1_valid = (\<lambda>(source, destination, len, layerId, tileId). ref_reaches source (unat len) \<and> ref_reaches destination (unat len))"

interpretation dma1d: emitter "\<lambda>(source, destination, len, layerId, tileId). AppendDMA1D source destination len layerId tileId"
  dma1_valid dma1_code
proof
  fix a :: dma1_args and s s' :: Emission
  obtain source destination len layerId tileId where a: "a = (source, destination, len, layerId, tileId)" by (cases a)
  assume "(\<lambda>(source, destination, len, layerId, tileId). AppendDMA1D source destination len layerId tileId) a s = Inr s'"
  then obtain dir where r: "AppendDMA1D source destination len layerId tileId s = Inr s'" and len: "len \<noteq> 0"
    and dir: "ResolveDMADirection source destination = Some dir"
    by (auto simp: a AppendDMA1D_def split: if_splits option.splits)
  then show "s' = append_command (em_commands s @ dma1_code a) s"
    by (simp add: a AppendDMA1D_def dma1_code_def dma_direction_def command_of_def append_simps)
  assume "dma1_valid a"
  with len dir show "emitted_ok (dma1_code a)"
    unfolding a dma1_code_def dma_direction_def prod.case
    by (intro dma_emitted [where sourceSpan = "unat len" and destinationSpan = "unat len" and n = 1 and off = 36 and dir = dir, OF refl])
      (simp_all add: length_zeros dma_shape_def Let_def command_of_Read ref_fields_def codec_simps unat_pos a dma1_valid_def)
qed

text \<open>Strided transfers.\<close>

type_synonym dma2_args = "RefV1 \<times> RefV1 \<times> u32 \<times> u32 \<times> u32 \<times> u32 \<times> u32 \<times> u32"

definition dma2_code :: "dma2_args \<Rightarrow> bytes" where
  "dma2_code = (\<lambda>(source, destination, len, sourceStride, destinationStride, repetitions, layerId, tileId).
     command_of DMA2D 64 layerId tileId (ref_fields source @ ref_fields destination @
       F32 len # F32 sourceStride # F32 destinationStride # F32 repetitions # dma_direction source destination #
       replicate 3 (F32 0)))"

definition dma2_valid :: "dma2_args \<Rightarrow> bool" where
  "dma2_valid = (\<lambda>(source, destination, len, sourceStride, destinationStride, repetitions, layerId, tileId).
     ref_reaches source (dma_span len sourceStride repetitions 0 1) \<and>
     ref_reaches destination (dma_span len destinationStride repetitions 0 1))"

lemma small_sat:
  "a * b < 2 ^ 32 \<Longrightarrow> SaturatingMultiply a b = a * b"
  "a + b < 2 ^ 32 \<Longrightarrow> SaturatingAdd a b = a + b"
  by (simp add: SaturatingMultiply_eq max_consts min_def) (auto simp: SaturatingAdd_def max_consts)

lemma dma_shape_2d:
  assumes "t = DMA2D" and "Read32 e 44 \<noteq> 0"
    and "dma_span (Read32 e 32) (Read32 e 36) (Read32 e 44) 0 1 < 2 ^ 32"
    and "dma_span (Read32 e 32) (Read32 e 40) (Read32 e 44) 0 1 < 2 ^ 32"
  shows "dma_shape t e = Some (dma_span (Read32 e 32) (Read32 e 36) (Read32 e 44) 0 1,
    dma_span (Read32 e 32) (Read32 e 40) (Read32 e 44) 0 1, read32n e 44, 48)"
  using assms unat_pos [OF assms(2)]
  by (auto simp: dma_shape_def Let_def dma_span_def small_sat)

interpretation dma2d: emitter
  "\<lambda>(source, destination, len, sourceStride, destinationStride, repetitions, layerId, tileId).
     AppendDMA2D source destination len sourceStride destinationStride repetitions layerId tileId"
  dma2_valid dma2_code
proof
  fix a :: dma2_args and s s' :: Emission
  obtain source destination len ss ds reps layerId tileId where
    a: "a = (source, destination, len, ss, ds, reps, layerId, tileId)" by (cases a) (metis prod.exhaust)
  assume "(\<lambda>(source, destination, len, sourceStride, destinationStride, repetitions, layerId, tileId).
     AppendDMA2D source destination len sourceStride destinationStride repetitions layerId tileId) a s = Inr s'"
  then obtain dir where r: "AppendDMA2D source destination len ss ds reps layerId tileId s = Inr s'"
    and nz: "len \<noteq> 0" "reps \<noteq> 0" and dir: "ResolveDMADirection source destination = Some dir"
    by (auto simp: a AppendDMA2D_def ValidDMASpan_def split: if_splits option.splits)
  then show "s' = append_command (em_commands s @ dma2_code a) s"
    by (simp add: a AppendDMA2D_def dma2_code_def dma_direction_def command_of_def append_simps split: if_splits)
  assume v: "dma2_valid a"
  let ?fs = "ref_fields source @ ref_fields destination @ F32 len # F32 ss # F32 ds # F32 reps #
    F32 (DMADirection_code dir) # replicate 3 (F32 0)"
  let ?e = "command_of DMA2D 64 layerId tileId ?fs"
  have rd: "Read32 ?e 32 = len" "Read32 ?e 36 = ss" "Read32 ?e 40 = ds" "Read32 ?e 44 = reps"
    "Read32 ?e 48 = DMADirection_code dir"
    by (simp_all add: command_of_Read ref_fields_def codec_simps)
  have "emitted_ok ?e"
    by (rule dma_emitted [where sourceSpan = "dma_span len ss reps 0 1" and destinationSpan = "dma_span len ds reps 0 1"
          and n = "unat reps" and off = 48 and dir = dir, OF refl])
      (use v nz dma_shape_2d [OF refl, of ?e] rd in
        \<open>simp_all add: length_zeros a dma2_valid_def ref_reaches_def dma_span_def unat_pos\<close>)
  then show "emitted_ok (dma2_code a)" by (simp add: a dma2_code_def dma_direction_def dir)
qed

type_synonym dma3_args = "RefV1 \<times> RefV1 \<times> u32 \<times> u32 \<times> u32 \<times> u32 \<times> u32 \<times> u32 \<times> u32 \<times> u32 \<times> u32"

definition dma3_code :: "dma3_args \<Rightarrow> bytes" where
  "dma3_code = (\<lambda>(source, destination, len, ss2, ds2, reps2, ss3, ds3, reps3, layerId, tileId).
     command_of DMA3D 64 layerId tileId (ref_fields source @ ref_fields destination @
       F32 len # F32 ss2 # F32 ds2 # F32 reps2 # F32 ss3 # F32 ds3 # F32 reps3 # [dma_direction source destination]))"

definition dma3_valid :: "dma3_args \<Rightarrow> bool" where
  "dma3_valid = (\<lambda>(source, destination, len, ss2, ds2, reps2, ss3, ds3, reps3, layerId, tileId).
     ref_reaches source (dma_span len ss2 reps2 ss3 reps3) \<and>
     ref_reaches destination (dma_span len ds2 reps2 ds3 reps3))"

lemma dma_shape_3d:
  assumes "t = DMA3D" and "Read32 e 44 \<noteq> 0" and "Read32 e 56 \<noteq> 0"
    and "dma_span (Read32 e 32) (Read32 e 36) (Read32 e 44) (Read32 e 48) (Read32 e 56) < 2 ^ 32"
    and "dma_span (Read32 e 32) (Read32 e 40) (Read32 e 44) (Read32 e 52) (Read32 e 56) < 2 ^ 32"
  shows "dma_shape t e = Some (dma_span (Read32 e 32) (Read32 e 36) (Read32 e 44) (Read32 e 48) (Read32 e 56),
    dma_span (Read32 e 32) (Read32 e 40) (Read32 e 44) (Read32 e 52) (Read32 e 56),
    SaturatingMultiply (read32n e 44) (read32n e 56), 60)"
  using assms unat_pos [OF assms(2)] unat_pos [OF assms(3)]
  by (auto simp: dma_shape_def Let_def dma_span_def small_sat)

interpretation dma3d: emitter
  "\<lambda>(source, destination, len, ss2, ds2, reps2, ss3, ds3, reps3, layerId, tileId).
     AppendDMA3D source destination len ss2 ds2 reps2 ss3 ds3 reps3 layerId tileId"
  dma3_valid dma3_code
proof
  fix a :: dma3_args and s s' :: Emission
  obtain source destination len ss2 ds2 reps2 ss3 ds3 reps3 layerId tileId where
    a: "a = (source, destination, len, ss2, ds2, reps2, ss3, ds3, reps3, layerId, tileId)"
    by (cases a) (metis prod.exhaust)
  assume "(\<lambda>(source, destination, len, ss2, ds2, reps2, ss3, ds3, reps3, layerId, tileId).
     AppendDMA3D source destination len ss2 ds2 reps2 ss3 ds3 reps3 layerId tileId) a s = Inr s'"
  then obtain dir where r: "AppendDMA3D source destination len ss2 ds2 reps2 ss3 ds3 reps3 layerId tileId s = Inr s'"
    and nz: "len \<noteq> 0" "reps2 \<noteq> 0" "reps3 \<noteq> 0" and dir: "ResolveDMADirection source destination = Some dir"
    by (auto simp: a AppendDMA3D_def ValidDMASpan_def split: if_splits option.splits)
  then show "s' = append_command (em_commands s @ dma3_code a) s"
    by (simp add: a AppendDMA3D_def dma3_code_def dma_direction_def command_of_def append_simps split: if_splits)
  assume v: "dma3_valid a"
  let ?fs = "ref_fields source @ ref_fields destination @ F32 len # F32 ss2 # F32 ds2 # F32 reps2 # F32 ss3 # F32 ds3 #
    F32 reps3 # [F32 (DMADirection_code dir)]"
  let ?e = "command_of DMA3D 64 layerId tileId ?fs"
  have rd: "Read32 ?e 32 = len" "Read32 ?e 36 = ss2" "Read32 ?e 40 = ds2" "Read32 ?e 44 = reps2" "Read32 ?e 48 = ss3"
    "Read32 ?e 52 = ds3" "Read32 ?e 56 = reps3" "Read32 ?e 60 = DMADirection_code dir"
    by (simp_all add: command_of_Read ref_fields_def codec_simps)
  have "emitted_ok ?e"
    by (rule dma_emitted [where sourceSpan = "dma_span len ss2 reps2 ss3 reps3" and destinationSpan = "dma_span len ds2 reps2 ds3 reps3"
          and n = "SaturatingMultiply (unat reps2) (unat reps3)" and off = 60 and dir = dir, OF refl])
      (use v nz dma_shape_3d [OF refl, of ?e] rd in
        \<open>simp_all add: a dma3_valid_def ref_reaches_def dma_span_def unat_pos\<close>)
  then show "emitted_ok (dma3_code a)" by (simp add: a dma3_code_def dma_direction_def dir)
qed

section \<open>Parameter loads and matrix products\<close>

type_synonym rq_args = "u32 \<times> u32 \<times> u32 \<times> u32"

definition rq_code :: "rq_args \<Rightarrow> bytes" where
  "rq_code = (\<lambda>(qparamIndex, qparamBlock, layerId, tileId).
     command_of RQLoad 32 layerId tileId [F32 qparamIndex, F32 32, F32 qparamBlock, F32 0])"

interpretation rqload: emitter
  "\<lambda>(qparamIndex, qparamBlock, layerId, tileId) s. Inr (AppendRQLoad qparamIndex qparamBlock layerId tileId s)"
  "\<lambda>_. True" rq_code
proof
  fix a :: rq_args and s s' :: Emission
  obtain i b layerId tileId where a: "a = (i, b, layerId, tileId)" by (cases a)
  assume "(\<lambda>(qparamIndex, qparamBlock, layerId, tileId) s. Inr (AppendRQLoad qparamIndex qparamBlock layerId tileId s)) a s =
    (Inr s' :: emit_error + Emission)"
  then show "s' = append_command (em_commands s @ rq_code a) s"
    by (simp add: a AppendRQLoad_def rq_code_def command_of_def append_simps)
  let ?fs = "[F32 i, F32 32, F32 b, F32 0]" and ?e = "command_of RQLoad 32 layerId tileId [F32 i, F32 32, F32 b, F32 0]"
  have sz: "unat (32 :: u16) = 16 + length (put_fields ?fs)" "unat (32 :: u16) mod 32 = 0" "MinimumCommandSize RQLoad \<le> unat (32 :: u16)"
    "RQLoad \<noteq> AffineLoop" by simp_all
  note ty = command_of_type [OF sz, of layerId tileId]
  have rd: "Read32 ?e 20 = 32" by (simp add: command_of_Read codec_simps)
  have "emitted_ok ?e"
    by (rule command_of_ok [OF sz])
      (simp_all add: plain_type_def IsDMASubmit_def IsSystolicSubmit_def low_partials_def ty decode_payload_def Let_def
        IsDMA_def IsSystolic_def DecodeRQLoad_def rd)
  then show "emitted_ok (rq_code a)" by (simp add: a rq_code_def)
qed

type_synonym gemm_args = "CommandType \<times> RefV1 \<times> RefV1 \<times> RefV1 \<times> RefV1 \<times> u32 \<times> u32 \<times> u32 \<times> u32 \<times> u32"

definition gemm_code :: "gemm_args \<Rightarrow> bytes" where
  "gemm_code = (\<lambda>(type, weights, ifm, part, ofm, dimM, ofmStride, qparamBlock, layerId, tileId).
     command_of type 96 layerId tileId (ref_fields weights @ ref_fields ifm @ ref_fields part @ ref_fields ofm @
       F32 dimM # F32 ofmStride # F32 128 # F32 qparamBlock # replicate 8 (F32 0)))"

definition gemm_valid :: "gemm_args \<Rightarrow> bool" where
  "gemm_valid = (\<lambda>(type, weights, ifm, part, ofm, dimM, ofmStride, qparamBlock, layerId, tileId).
     type \<in> {Gemm32, Gemm32Accum, Gemm32Requant} \<and> dimM \<noteq> 0 \<and> ref_reaches weights 1024 \<and>
     ref_reaches ifm (unat dimM * 32) \<and> ref_reaches part (unat dimM * 128) \<and> ref_reaches ofm (unat dimM * 32))"

lemma DecodeGemm_not_None:
  assumes "read32n e 48 \<noteq> 0" and "in_reach (read32n e 20) 1024" and "in_reach (read32n e 28) (read32n e 48 * 32)"
    and "in_reach (read32n e 36) (read32n e 48 * 128)" and "in_reach (read32n e 44) (read32n e 48 * 32)"
  shows "DecodeGemm c e \<noteq> None"
  using assms by (simp add: DecodeGemm_def Let_def AddAccess_eq SaturatingMultiply_eq in_reachD)

interpretation gemm: emitter
  "\<lambda>(type, weights, ifm, part, ofm, dimM, ofmStride, qparamBlock, layerId, tileId) s.
     Inr (AppendGEMM type weights ifm part ofm dimM ofmStride qparamBlock layerId tileId s)"
  gemm_valid gemm_code
proof
  fix a :: gemm_args and s s' :: Emission
  obtain t w i p ofm m st q layerId tileId where a: "a = (t, w, i, p, ofm, m, st, q, layerId, tileId)"
    by (cases a) (metis prod.exhaust)
  assume "(\<lambda>(type, weights, ifm, part, ofm, dimM, ofmStride, qparamBlock, layerId, tileId) s.
     Inr (AppendGEMM type weights ifm part ofm dimM ofmStride qparamBlock layerId tileId s)) a s = (Inr s' :: emit_error + Emission)"
  then show "s' = append_command (em_commands s @ gemm_code a) s"
    by (simp add: a AppendGEMM_def gemm_code_def command_of_def append_simps)
  assume v: "gemm_valid a"
  let ?fs = "ref_fields w @ ref_fields i @ ref_fields p @ ref_fields ofm @ F32 m # F32 st # F32 128 # F32 q # replicate 8 (F32 0)"
  let ?e = "command_of t 96 layerId tileId ?fs"
  have t: "t \<in> {Gemm32, Gemm32Accum, Gemm32Requant}" using v by (simp add: a gemm_valid_def)
  have sz: "unat (96 :: u16) = 16 + length (put_fields ?fs)" "unat (96 :: u16) mod 32 = 0" "MinimumCommandSize t \<le> unat (96 :: u16)"
    "t \<noteq> AffineLoop" using t by (auto simp: length_zeros)
  note ty = command_of_type [OF sz, of layerId tileId]
  have rd: "Read32 ?e 20 = ref_offset w" "Read32 ?e 28 = ref_offset i" "Read32 ?e 36 = ref_offset p" "Read32 ?e 44 = ref_offset ofm"
    "Read32 ?e 48 = m" by (simp_all add: command_of_Read ref_fields_def codec_simps)
  have g: "DecodeGemm c ?e \<noteq> None" for c
    by (rule DecodeGemm_not_None)
      (use v in \<open>simp_all add: a gemm_valid_def rd ref_reaches_def in_reach_def unat_pos unsigned_eq_0_iff\<close>)
  have d: "decode_payload (header_command ?e 0) ?e \<noteq> None"
    using t g by (auto simp: decode_payload_def Let_def ty IsDMA_def IsSystolic_def)
  have pt: "plain_type t" using t by (auto simp: plain_type_def IsDMASubmit_def IsSystolicSubmit_def)
  have low: "low_partials ?e" using t by (auto simp: low_partials_def ty)
  show "emitted_ok (gemm_code a)"
    using command_of_ok [OF sz pt d low] by (simp add: a gemm_code_def)
qed

section \<open>Pointwise products\<close>

type_synonym pw_args = "RefV1 \<times> RefV1 \<times> RefV1 \<times> RefV1 \<times> u32 \<times> u32 \<times> u32 \<times> u32 \<times> u32 \<times> u32 \<times> u32 \<times> u32"

definition pw_code :: "pw_args \<Rightarrow> bytes" where
  "pw_code = (\<lambda>(weights, ifm, part, ofm, rows, ig, og, qparamBlock, igs, ogs, layerId, tileId).
     command_of PointwiseC32 96 layerId tileId (ref_fields weights @ ref_fields ifm @ ref_fields part @ ref_fields ofm @
       F32 rows # F32 ig # F32 og # F32 qparamBlock # F32 igs # F32 ogs # replicate 6 (F32 0)))"

definition ref_tcdm :: "RefV1 \<Rightarrow> bool" where
  "ref_tcdm r \<longleftrightarrow> ref_region r = Region_code TCDMScratch \<and> ref_index r = 0"

definition pw_valid :: "pw_args \<Rightarrow> bool" where
  "pw_valid = (\<lambda>(weights, ifm, part, ofm, rows, ig, og, qparamBlock, igs, ogs, layerId, tileId).
     rows \<noteq> 0 \<and> ig \<noteq> 0 \<and> og \<noteq> 0 \<and> ref_tcdm ifm \<and> ref_tcdm ofm \<and>
     ref_reaches weights (unat ig * unat og * 1024) \<and>
     ref_reaches ifm ((unat ig - 1) * unat igs + unat rows * 32) \<and>
     ref_reaches ofm ((unat og - 1) * unat ogs + unat rows * 32) \<and>
     (ig \<noteq> 1 \<longrightarrow> ref_tcdm part \<and> unat (ref_offset part) + unat rows * 128 \<le> 2 ^ 31))"

interpretation pointwise: emitter
  "\<lambda>(weights, ifm, part, ofm, rows, ig, og, qparamBlock, igs, ogs, layerId, tileId) s.
     Inr (AppendPointwiseC32 weights ifm part ofm rows ig og qparamBlock igs ogs layerId tileId s)"
  pw_valid pw_code
proof
  fix a :: pw_args and s s' :: Emission
  obtain w i p ofm rows ig og q igs ogs layerId tileId where a: "a = (w, i, p, ofm, rows, ig, og, q, igs, ogs, layerId, tileId)"
    by (cases a) (metis prod.exhaust)
  assume "(\<lambda>(weights, ifm, part, ofm, rows, ig, og, qparamBlock, igs, ogs, layerId, tileId) s.
     Inr (AppendPointwiseC32 weights ifm part ofm rows ig og qparamBlock igs ogs layerId tileId s)) a s = (Inr s' :: emit_error + Emission)"
  then show "s' = append_command (em_commands s @ pw_code a) s"
    by (simp add: a AppendPointwiseC32_def pw_code_def command_of_def append_simps)
  assume v: "pw_valid a"
  define fs where "fs = ref_fields w @ ref_fields i @ ref_fields p @ ref_fields ofm @ F32 rows # F32 ig # F32 og # F32 q #
    F32 igs # F32 ogs # replicate 6 (F32 0)"
  define e where "e = command_of PointwiseC32 96 layerId tileId fs"
  have sz: "unat (96 :: u16) = 16 + length (put_fields fs)" "unat (96 :: u16) mod 32 = 0"
    "MinimumCommandSize PointwiseC32 \<le> unat (96 :: u16)" "PointwiseC32 \<noteq> AffineLoop" by (simp_all add: fs_def length_zeros)
  note ty = command_of_type [OF sz, of layerId tileId, folded e_def]
  have rd: "Read32 e 20 = ref_offset w" "Read32 e 28 = ref_offset i" "Read32 e 36 = ref_offset p" "Read32 e 44 = ref_offset ofm"
    "Read32 e 48 = rows" "Read32 e 52 = ig" "Read32 e 56 = og" "Read32 e 64 = igs" "Read32 e 68 = ogs"
    "Read16 e 24 = ref_region i" "Read16 e 26 = ref_index i" "Read16 e 32 = ref_region p" "Read16 e 34 = ref_index p"
    "Read16 e 40 = ref_region ofm" "Read16 e 42 = ref_index ofm"
    unfolding e_def fs_def by (simp_all add: command_of_Read ref_fields_def codec_simps)
  have one: "unat ig = 1 \<longleftrightarrow> ig = 1" by (metis unsigned_1 word_unat_eq_iff)
  have pos: "0 < unat rows" "0 < unat ig" "0 < unat og" using v by (simp_all add: a pw_valid_def unat_pos)
  have "pw_fits e"
    using v pos one unfolding pw_fits_def pw_weight_bytes_def pw_input_bytes_def pw_output_bytes_def pw_partial_bytes_def rd
    by (auto simp: a pw_valid_def ref_reaches_def ref_tcdm_def in_reach_def rd)
  then have d: "decode_payload (header_command e 0) e \<noteq> None"
    by (simp add: decode_payload_def Let_def ty IsDMA_def IsSystolic_def DecodePointwise_eq)
  have low: "low_partials e"
    using v pos one by (auto simp: low_partials_def pw_partial_bytes_def rd a pw_valid_def)
  have pt: "plain_type PointwiseC32" by (simp add: plain_type_def IsDMASubmit_def IsSystolicSubmit_def)
  show "emitted_ok (pw_code a)"
    using command_of_ok [OF sz pt, of layerId tileId, folded e_def, OF d low] by (simp add: a pw_code_def e_def fs_def)
qed

section \<open>Line buffer jobs\<close>

type_synonym job_args = "LinebufferJob \<times> u32 \<times> u32"

definition job_fields :: "LinebufferJob \<Rightarrow> field list" where
  "job_fields job = linebuf_fields (job_linebuf job) @ gemm_fields (job_gemm job) @ F32 (job_rows job) #
     F32 (job_kTiles job) # replicate 5 (F32 0)"

definition job_code :: "job_args \<Rightarrow> bytes" where
  "job_code = (\<lambda>(job, layerId, tileId). command_of LineBufferJob 160 layerId tileId (job_fields job))"

definition job_psum_span :: "LinebufferJob \<Rightarrow> nat" where
  "job_psum_span job = StridedSpan (unat (gr_dimM (job_gemm job))) (32 * 4)
     (unat (gr_psumRowStrideBytes (job_gemm job))) (unat (gr_ofmTileCols (job_gemm job)))"

definition job_output_span :: "LinebufferJob \<Rightarrow> nat" where
  "job_output_span job = StridedSpan (unat (gr_dimM (job_gemm job))) 32
     (unat (gr_ofmRowStrideBytes (job_gemm job))) (unat (gr_ofmTileCols (job_gemm job)))"

definition job_valid :: "job_args \<Rightarrow> bool" where
  "job_valid = (\<lambda>(job, layerId, tileId).
     lb_inputH (job_linebuf job) \<noteq> 0 \<and> lb_rowStrideBytes (job_linebuf job) \<noteq> 0 \<and> gr_dimM (job_gemm job) \<noteq> 0 \<and>
     job_kTiles job \<noteq> 0 \<and> gr_accumEn (job_gemm job) \<le> 3 \<and>
     in_reach (unat (lb_inputBase (job_linebuf job)))
       (unat (lb_inputH (job_linebuf job)) * unat (lb_rowStrideBytes (job_linebuf job))) \<and>
     in_reach (unat (gr_weightAddr (job_gemm job))) (unat (job_kTiles job) * 1024) \<and>
     in_reach (unat (gr_psumAddr (job_gemm job))) (job_psum_span job) \<and>
     in_reach (unat (gr_ofmAddr (job_gemm job))) (job_output_span job))"

lemma DecodeLineBuffer_not_None:
  assumes "Read16 e 20 \<noteq> 0" and "Read32 e 36 \<noteq> 0" and "Read32 e 112 \<noteq> 0" and "Read32 e 136 \<noteq> 0" and "read32n e 116 \<le> 3"
    and "in_reach (read32n e 16) (read16n e 20 * read32n e 36)" and "in_reach (read32n e 96) (read32n e 136 * 1024)"
    and "in_reach (read32n e 104) (StridedSpan (read32n e 112) (32 * 4) (read32n e 128) (read32n e 124))"
    and "in_reach (read32n e 108) (StridedSpan (read32n e 112) 32 (read32n e 120) (read32n e 124))"
    and "cmd_type c = LineBufferJob"
  shows "DecodeLineBuffer c e \<noteq> None"
proof -
  have b: "read32n e k \<le> max_u32" for k using unat_u32_less [of "Read32 e k"] by (simp add: max_consts)
  have t: "cmd_type (with_accesses c as) = LineBufferJob" for as using assms(10) by simp
  have z: "read16n e 20 \<noteq> 0" "read32n e 36 \<noteq> 0" "read32n e 112 \<noteq> 0" "read32n e 136 \<noteq> 0" "\<not> 3 < read32n e 116"
    using assms by (simp_all add: unsigned_eq_0_iff)
  show ?thesis
    using assms(6-9) z unfolding DecodeLineBuffer_def Let_def
    by (simp add: AddLocalAccess_eq b t SaturatingMultiply_eq in_reachD assms(10))
qed

interpretation linebuffer: emitter "\<lambda>(job, layerId, tileId). AppendLineBufferJob job layerId tileId" job_valid job_code
proof
  fix a :: job_args and s s' :: Emission
  obtain job layerId tileId where a: "a = (job, layerId, tileId)" by (cases a)
  assume "(\<lambda>(job, layerId, tileId). AppendLineBufferJob job layerId tileId) a s = Inr s'"
  then show "s' = append_command (em_commands s @ job_code a) s"
    by (auto simp: a AppendLineBufferJob_def job_code_def job_fields_def command_of_def append_simps
        split: sum.splits if_splits)
  assume v: "job_valid a"
  define e where "e = command_of LineBufferJob 160 layerId tileId (job_fields job)"
  have sz: "unat (160 :: u16) = 16 + length (put_fields (job_fields job))" "unat (160 :: u16) mod 32 = 0"
    "MinimumCommandSize LineBufferJob \<le> unat (160 :: u16)" "LineBufferJob \<noteq> AffineLoop"
    by (simp_all add: job_fields_def linebuf_fields_def gemm_fields_def length_zeros)
  note ty = command_of_type [OF sz, of layerId tileId, folded e_def]
  have rd: "Read32 e 16 = lb_inputBase (job_linebuf job)" "Read16 e 20 = lb_inputH (job_linebuf job)"
    "Read32 e 36 = lb_rowStrideBytes (job_linebuf job)" "Read32 e 96 = gr_weightAddr (job_gemm job)"
    "Read32 e 104 = gr_psumAddr (job_gemm job)" "Read32 e 108 = gr_ofmAddr (job_gemm job)"
    "Read32 e 112 = gr_dimM (job_gemm job)" "Read32 e 116 = gr_accumEn (job_gemm job)"
    "Read32 e 120 = gr_ofmRowStrideBytes (job_gemm job)" "Read32 e 124 = gr_ofmTileCols (job_gemm job)"
    "Read32 e 128 = gr_psumRowStrideBytes (job_gemm job)" "Read32 e 136 = job_kTiles job"
    unfolding e_def job_fields_def linebuf_fields_def gemm_fields_def by (simp_all add: command_of_Read codec_simps)
  have "gr_accumEn (job_gemm job) \<le> 3" using v by (simp add: a job_valid_def)
  then have acc: "read32n e 116 \<le> 3" by (simp add: rd word_le_nat_alt)
  have l: "DecodeLineBuffer c e \<noteq> None" if "cmd_type c = LineBufferJob" for c
    by (rule DecodeLineBuffer_not_None)
      (use v that acc in \<open>simp_all add: rd a job_valid_def job_psum_span_def job_output_span_def\<close>)
  have d: "decode_payload (header_command e 0) e \<noteq> None"
    using l ty(1) by (auto simp: decode_payload_def Let_def IsDMA_def IsSystolic_def AddState_def AddReadWriteState_def AddResource_def)
  have pt: "plain_type LineBufferJob" by (simp add: plain_type_def IsDMASubmit_def IsSystolicSubmit_def)
  have low: "low_partials e" by (simp add: low_partials_def ty)
  show "emitted_ok (job_code a)"
    using command_of_ok [OF sz pt, of layerId tileId, folded e_def, OF d low] by (simp add: a job_code_def e_def)
qed

section \<open>The state machine of emission\<close>

text \<open>
  One step of lowering, as far as the command stream is concerned: a call of an emitter, a command that
  lowering builds in place (whose bytes are then the hypothesis), or the choice of another buffer for the
  partial sums.
\<close>

inductive emit_step :: "Emission \<Rightarrow> Emission \<Rightarrow> bool" where
  step_dma1: "dma1_valid (source, destination, len, layerId, tileId) \<Longrightarrow>
    AppendDMA1D source destination len layerId tileId s = Inr s' \<Longrightarrow> emit_step s s'"
| step_dma2: "dma2_valid (source, destination, len, ss, ds, reps, layerId, tileId) \<Longrightarrow>
    AppendDMA2D source destination len ss ds reps layerId tileId s = Inr s' \<Longrightarrow> emit_step s s'"
| step_dma3: "dma3_valid (source, destination, len, ss2, ds2, reps2, ss3, ds3, reps3, layerId, tileId) \<Longrightarrow>
    AppendDMA3D source destination len ss2 ds2 reps2 ss3 ds3 reps3 layerId tileId s = Inr s' \<Longrightarrow> emit_step s s'"
| step_rqload: "emit_step s (AppendRQLoad qparamIndex qparamBlock layerId tileId s)"
| step_gemm: "gemm_valid (type, weights, ifm, part, ofm, dimM, ofmStride, qparamBlock, layerId, tileId) \<Longrightarrow>
    emit_step s (AppendGEMM type weights ifm part ofm dimM ofmStride qparamBlock layerId tileId s)"
| step_pointwise: "pw_valid (weights, ifm, part, ofm, rows, ig, og, qparamBlock, igs, ogs, layerId, tileId) \<Longrightarrow>
    emit_step s (AppendPointwiseC32 weights ifm part ofm rows ig og qparamBlock igs ogs layerId tileId s)"
| step_job: "job_valid (job, layerId, tileId) \<Longrightarrow> AppendLineBufferJob job layerId tileId s = Inr s' \<Longrightarrow> emit_step s s'"
| step_inline: "emitted_ok e \<Longrightarrow> emit_step s (append_command (em_commands s @ e) s)"
| step_partial: "emit_step s (s\<lparr>em_activePartialBytes := n\<rparr>)"

definition no_emission :: Emission where
  "no_emission = \<lparr>em_commands = [], em_commandCount = 0, em_activePartialBytes = 0\<rparr>"

inductive emitted :: "Emission \<Rightarrow> bool" where
  emitted_start: "emitted no_emission"
| emitted_step: "emitted s \<Longrightarrow> emit_step s s' \<Longrightarrow> emitted s'"

lemma emit_step_ok:
  assumes "emit_step s s'" and "emission_ok s"
  shows "emission_ok s'"
  using assms
proof cases
  case (step_dma1 source destination len layerId tileId)
  then show ?thesis using dma1d.keeps [of "(source, destination, len, layerId, tileId)" s s'] assms(2) by simp
next
  case (step_dma2 source destination len ss ds reps layerId tileId)
  then show ?thesis
    using dma2d.keeps [of "(source, destination, len, ss, ds, reps, layerId, tileId)" s s'] assms(2) by simp
next
  case (step_dma3 source destination len ss2 ds2 reps2 ss3 ds3 reps3 layerId tileId)
  then show ?thesis
    using dma3d.keeps [of "(source, destination, len, ss2, ds2, reps2, ss3, ds3, reps3, layerId, tileId)" s s'] assms(2)
    by simp
next
  case (step_rqload qparamIndex qparamBlock layerId tileId)
  then show ?thesis using rqload.keeps [of "(qparamIndex, qparamBlock, layerId, tileId)" s s'] assms(2) by simp
next
  case (step_gemm type weights ifm part ofm dimM ofmStride qparamBlock layerId tileId)
  then show ?thesis
    using gemm.keeps [of "(type, weights, ifm, part, ofm, dimM, ofmStride, qparamBlock, layerId, tileId)" s s'] assms(2)
    by simp
next
  case (step_pointwise weights ifm part ofm rows ig og qparamBlock igs ogs layerId tileId)
  then show ?thesis
    using pointwise.keeps [of "(weights, ifm, part, ofm, rows, ig, og, qparamBlock, igs, ogs, layerId, tileId)" s s'] assms(2)
    by simp
next
  case (step_job job layerId tileId)
  then show ?thesis using linebuffer.keeps [of "(job, layerId, tileId)" s s'] assms(2) by simp
next
  case (step_inline e)
  then show ?thesis using emission_snoc assms(2) by simp
next
  case (step_partial n)
  then show ?thesis using assms(2) by (simp add: emission_ok_def)
qed

lemma emission_start: "emission_ok no_emission"
  unfolding emission_ok_def by (rule exI [of _ "[]"]) (simp add: no_emission_def)

lemma emitted_invariant: "emitted s \<Longrightarrow> emission_ok s"
  by (induction rule: emitted.induct) (blast intro: emission_start emit_step_ok)+

section \<open>What emission guarantees\<close>


text \<open>A short emission: a parameter load, then a transfer of 64 bytes from the constants into the TCDM.\<close>

definition sample_source :: RefV1 where
  "sample_source = \<lparr>ref_region = Region_code ModelConstants, ref_index = 0, ref_offset = 256\<rparr>"

definition sample_destination :: RefV1 where
  "sample_destination = \<lparr>ref_region = Region_code TCDMScratch, ref_index = 0, ref_offset = 1024\<rparr>"

definition sample_emission :: Emission where
  "sample_emission = projr (AppendDMA1D sample_source sample_destination 64 1 0 (AppendRQLoad 0 0 1 0 no_emission))"

lemma sample_emitted: "emitted sample_emission"
proof -
  have "emitted (AppendRQLoad 0 0 1 0 no_emission)" by (rule emitted_step [OF emitted_start step_rqload])
  moreover have "AppendDMA1D sample_source sample_destination 64 1 0 s = Inr (projr (AppendDMA1D sample_source sample_destination 64 1 0 s))" for s
    by (simp add: AppendDMA1D_def ResolveDMADirection_def Let_def IsLocalDMARegion_def IsExternalDMARegion_def
        sample_source_def sample_destination_def)
  moreover have "dma1_valid (sample_source, sample_destination, 64, 1, 0)"
    by (simp add: dma1_valid_def ref_reaches_def sample_source_def sample_destination_def)
  ultimately show ?thesis unfolding sample_emission_def by (blast intro: emitted_step step_dma1)
qed

lemma sample_emission_bytes: "length (em_commands sample_emission) = 96"
  by (simp add: sample_emission_def AppendDMA1D_def ResolveDMADirection_def Let_def IsLocalDMARegion_def
      IsExternalDMARegion_def sample_source_def sample_destination_def AppendRQLoad_def append_command_def no_emission_def
      append_simps ref_fields_def command_header_def length_zeros)


text \<open>C18: Generation ends well on every emission below a gigabyte: it can fail only in a residency pass or
  because the workspace exceeds the TCDM; otherwise the artifact's stream decodes, ends in its only End,
  has the counted number of commands and the dependency graph of its commands, and its compact form
  expands to the stream.\<close>

theorem generation_finishes:
  assumes "emitted s" and "length (em_commands s) < 2 ^ 30"
  shows "finished (finish_generation s scratchEnd workspaceEnd)"
  using finish_generation_ok [OF emitted_invariant [OF assms(1)] assms(2)] .

theorem generation_finishes_witness: "finished (finish_generation sample_emission 4096 8192)"
  using generation_finishes [OF sample_emitted] sample_emission_bytes by simp

















end
