(* ===== verification/NAI_Allocator.thy ===== *)
theory NAI_Allocator
  imports NAI_Writer
begin

text \<open>
  The tensor allocators: \<^verbatim>\<open>compiler/hillclimb_allocator.cpp\<close>, the linear and the incremental linear
  allocator and the reserved workspace intervals of \<^verbatim>\<open>compiler/tensor_allocator.cpp\<close>, and the memory
  usage of live ranges in \<^verbatim>\<open>compiler/live_range.cpp\<close>.

  Addresses, sizes and times are integers; the theorems assume that the sum of the sizes fits the
  \<^verbatim>\<open>int64_t\<close> of an address.  A pointer to a live range is its index, which is its \<^verbatim>\<open>id\<close>.  The
  Mersenne twister is the sequence \<open>rng\<close> of its outputs with the number of outputs drawn so far in the
  state, so the theorems hold for every generator and seed.  \<^verbatim>\<open>std::set\<close> is a set read in ascending
  order.  \<^verbatim>\<open>std::sort\<close> with a comparator that is a strict total order is insertion sort.  A loop
  over pointers that ends only on well-formed data is a \<open>partial_function (option)\<close>.
\<close>

section \<open>Live ranges\<close>

datatype LRUsage = Unassigned | OpLocal | OpCascade | OpBuffering

text \<open>The equivalence id of the first tensor of the range, and the rest of its plain fields.\<close>

record LiveRange =
  lr_equivalence :: "nat option"
  lr_startTime :: int
  lr_endTime :: int
  lr_size :: int
  lr_usage :: LRUsage
  lr_opDelay :: int

definition MarkUsage :: "int \<Rightarrow> int \<Rightarrow> LiveRange \<Rightarrow> LiveRange" where
  "MarkUsage opTime opDuration lr =
     (let opTimeStart = max opTime 0; opTimeEnd = opTime + opDuration
      in if opTimeStart \<le> opTimeEnd
         then lr\<lparr>lr_startTime := min (lr_startTime lr) opTimeStart, lr_endTime := max (lr_endTime lr) opTimeEnd\<rparr>
         else lr)"

record LRMemory =
  mem_op :: int
  mem_buffering :: int
  mem_cascade :: int
  mem_nonlocal :: int

definition no_memory :: LRMemory where
  "no_memory = \<lparr>mem_op = 0, mem_buffering = 0, mem_cascade = 0, mem_nonlocal = 0\<rparr>"

definition Used :: "LRMemory \<Rightarrow> int" where
  "Used mem = mem_op mem + mem_cascade mem + mem_buffering mem + mem_nonlocal mem"

definition Adjust :: "int \<Rightarrow> LiveRange \<Rightarrow> int \<Rightarrow> LRMemory \<Rightarrow> LRMemory" where
  "Adjust time lr amount mem =
     (if time = lr_startTime lr + lr_opDelay lr
      then case lr_usage lr of
          OpLocal \<Rightarrow> mem\<lparr>mem_op := mem_op mem + amount\<rparr>
        | OpCascade \<Rightarrow> mem\<lparr>mem_cascade := mem_cascade mem + amount\<rparr>
        | OpBuffering \<Rightarrow> mem\<lparr>mem_buffering := mem_buffering mem + amount\<rparr>
        | Unassigned \<Rightarrow> mem\<lparr>mem_nonlocal := mem_nonlocal mem + amount\<rparr>
      else mem\<lparr>mem_nonlocal := mem_nonlocal mem + amount\<rparr>)"

text \<open>\<^verbatim>\<open>usage.at\<close> throws out of range: the result is then \<open>None\<close>.\<close>

fun adjust_loop :: "LiveRange \<Rightarrow> int \<Rightarrow> int list \<Rightarrow> LRMemory list \<times> int \<Rightarrow> (LRMemory list \<times> int) option" where
  "adjust_loop lr adjust [] (usage, maxMemory) = Some (usage, maxMemory)"
| "adjust_loop lr adjust (i # ts) (usage, maxMemory) =
     (if i < 0 \<or> int (length usage) \<le> i then None
      else let mem = Adjust i lr adjust (usage ! nat i)
           in adjust_loop lr adjust ts (usage[nat i := mem], max maxMemory (Used mem)))"

definition AdjustMemoryUsage :: "LRMemory list \<Rightarrow> LiveRange \<Rightarrow> int \<Rightarrow> (LRMemory list \<times> int) option" where
  "AdjustMemoryUsage usage lr adjust = adjust_loop lr adjust [lr_startTime lr..lr_endTime lr] (usage, 0)"

fun usage_loop :: "int \<Rightarrow> LiveRange list \<Rightarrow> LRMemory list \<times> int \<Rightarrow> (LRMemory list \<times> int) option" where
  "usage_loop granularity [] (usage, maxMemory) = Some (usage, maxMemory)"
| "usage_loop granularity (lr # lrs) (usage, maxMemory) =
     (case AdjustMemoryUsage usage lr (RoundAway_int (lr_size lr) granularity) of
        None \<Rightarrow> None
      | Some (usage, m) \<Rightarrow> usage_loop granularity lrs (usage, max maxMemory m))"

definition GetTemporalMemoryUsage :: "int \<Rightarrow> LiveRange list \<Rightarrow> int \<Rightarrow> (LRMemory list \<times> int) option" where
  "GetTemporalMemoryUsage currentTime lrs granularity =
     usage_loop granularity lrs (replicate (nat (currentTime + 1)) no_memory, 0)"

section \<open>The hill climb allocator\<close>

definition MAX_ADDRESS :: int where "MAX_ADDRESS = 2 ^ 63 - 1"
definition NOT_ALLOCATED :: int where "NOT_ALLOCATED = - 1"
definition MAX_ITERATIONS :: nat where "MAX_ITERATIONS = 99999"
definition MAX_ITERATIONS_STUCK :: nat where "MAX_ITERATIONS_STUCK = 25"
definition MIN_ITERATIONS_IMPROVE :: nat where "MIN_ITERATIONS_IMPROVE = 5000"

text \<open>\<^verbatim>\<open>NO_PREDECESSOR\<close> is \<open>None\<close>.\<close>

record HillClimbLiveRange =
  hl_startTime :: int
  hl_endTime :: int
  hl_size :: int
  hl_address :: int
  hl_endAddress :: int
  hl_id :: nat
  hl_predecessor :: "nat option"
  hl_turn :: nat

definition hl_Overlaps :: "HillClimbLiveRange \<Rightarrow> int \<Rightarrow> int \<Rightarrow> bool" where
  "hl_Overlaps lr addr2 size2 \<longleftrightarrow> hl_address lr < addr2 + size2 \<and> addr2 < hl_endAddress lr"

definition IsNeighbour :: "HillClimbLiveRange \<Rightarrow> HillClimbLiveRange \<Rightarrow> bool" where
  "IsNeighbour this lr \<longleftrightarrow> hl_startTime this \<le> hl_endTime lr \<and> hl_startTime lr \<le> hl_endTime this"

record HillClimbAllocator =
  hc_lrs :: "HillClimbLiveRange list"
  hc_neighbours :: "nat list list"
  hc_sizeAtTime :: "int list"
  hc_lrUrgency :: "int list"
  hc_maxAllowedSize :: int
  hc_minRequiredSize :: int
  hc_targetSize :: int
  hc_bestSize :: int
  hc_iterations :: nat
  hc_draws :: nat

subsection \<open>Setting up\<close>

fun new_ranges :: "int \<Rightarrow> nat \<Rightarrow> LiveRange list \<Rightarrow> HillClimbLiveRange list" where
  "new_ranges alignment i [] = []"
| "new_ranges alignment i (lr # lrs) =
     \<lparr>hl_startTime = lr_startTime lr, hl_endTime = lr_endTime lr, hl_size = RoundAway_int (lr_size lr) alignment,
      hl_address = 0, hl_endAddress = 0, hl_id = i, hl_predecessor = Some 0, hl_turn = 0\<rparr>
     # new_ranges alignment (i + 1) lrs"

text \<open>The ranges that are active at a time, in the order of their ids.\<close>

definition lrsAtTime :: "HillClimbLiveRange list \<Rightarrow> int \<Rightarrow> nat list" where
  "lrsAtTime lrs t = map hl_id (filter (\<lambda>lr. hl_startTime lr \<le> t \<and> t \<le> hl_endTime lr) lrs)"

definition sum_sizes :: "HillClimbLiveRange list \<Rightarrow> nat list \<Rightarrow> int" where
  "sum_sizes lrs ids = foldl (\<lambda>neededSize i. neededSize + hl_size (lrs ! i)) 0 ids"

definition add_neighbour :: "nat \<Rightarrow> nat \<Rightarrow> nat list list \<Rightarrow> nat list list" where
  "add_neighbour lr1 lr2 neighbours =
     (if lr2 \<in> set (neighbours ! lr1) then neighbours
      else let neighbours = neighbours[lr1 := neighbours ! lr1 @ [lr2]]
           in neighbours[lr2 := neighbours ! lr2 @ [lr1]])"

fun add_neighbours :: "nat list \<Rightarrow> nat list list \<Rightarrow> nat list list" where
  "add_neighbours [] neighbours = neighbours"
| "add_neighbours (lr1 # active) neighbours = add_neighbours active (fold (add_neighbour lr1) active neighbours)"

definition urgency :: "int list \<Rightarrow> HillClimbLiveRange \<Rightarrow> int" where
  "urgency sizeAtTime lr = foldl (\<lambda>u t. max (sizeAtTime ! nat t) u) 0 [hl_startTime lr..hl_endTime lr]"

definition SetLiveRanges :: "LiveRange list \<Rightarrow> int \<Rightarrow> HillClimbAllocator" where
  "SetLiveRanges liveRanges alignment =
     (let lrs = new_ranges alignment 0 liveRanges;
          maxEndTime = foldl (\<lambda>m lr. max m (lr_endTime lr)) 0 liveRanges;
          ts = [0..maxEndTime];
          sizeAtTime = map (\<lambda>t. sum_sizes lrs (lrsAtTime lrs t)) ts;
          minRequiredSize = foldl max 0 sizeAtTime;
          neighbours = foldl (\<lambda>nbs t. add_neighbours (lrsAtTime lrs t) nbs) (replicate (length lrs) []) ts
      in \<lparr>hc_lrs = lrs, hc_neighbours = neighbours, hc_sizeAtTime = sizeAtTime,
          hc_lrUrgency = map (urgency sizeAtTime) lrs, hc_maxAllowedSize = 0, hc_minRequiredSize = minRequiredSize,
          hc_targetSize = minRequiredSize, hc_bestSize = 0, hc_iterations = 0, hc_draws = 0\<rparr>)"

subsection \<open>Placing live ranges\<close>

text \<open>One pass over the neighbours: the address, the predecessor and whether the range fits.\<close>

definition place_step ::
    "HillClimbLiveRange list \<Rightarrow> int \<Rightarrow> nat \<Rightarrow> int \<times> nat option \<times> bool \<Rightarrow> int \<times> nat option \<times> bool" where
  "place_step lrs sz neighbour = (\<lambda>(address, predecessor, fits).
     let lr2 = lrs ! neighbour
     in if hl_address lr2 = NOT_ALLOCATED \<or> hl_endAddress lr2 \<le> address then (address, predecessor, fits)
        else if hl_Overlaps lr2 address sz then (hl_endAddress lr2, Some (hl_id lr2), False)
        else (address, predecessor, fits))"

definition allocated_above :: "HillClimbLiveRange list \<Rightarrow> nat list \<Rightarrow> int \<Rightarrow> nat set" where
  "allocated_above lrs nbs address =
     {n \<in> set nbs. hl_address (lrs ! n) \<noteq> NOT_ALLOCATED \<and> address < hl_endAddress (lrs ! n)}"

text \<open>A pass either keeps everything or moves the address to the end of an allocated neighbour.\<close>

definition moves_to :: "HillClimbLiveRange list \<Rightarrow> nat list \<Rightarrow> int \<Rightarrow> int \<Rightarrow> nat option \<Rightarrow> bool" where
  "moves_to lrs nbs address address' predecessor' \<longleftrightarrow>
     (\<exists>n \<in> set nbs. hl_address (lrs ! n) \<noteq> NOT_ALLOCATED \<and> address < hl_endAddress (lrs ! n) \<and>
       address' = hl_endAddress (lrs ! n) \<and> predecessor' = Some (hl_id (lrs ! n)))"

lemma moves_to_Cons: "moves_to lrs nbs a address' predecessor' \<Longrightarrow> address \<le> a \<Longrightarrow>
    moves_to lrs (n # nbs) address address' predecessor'"
  by (auto simp: moves_to_def)

lemma place_pass:
  "fold (place_step lrs sz) nbs (address, predecessor, fits) = (address', predecessor', fits') \<Longrightarrow>
    (address', predecessor', fits') = (address, predecessor, fits) \<or>
    moves_to lrs nbs address address' predecessor' \<and> \<not> fits'"
proof (induction nbs arbitrary: address predecessor fits)
  case (Cons n nbs)
  obtain a p f where s: "place_step lrs sz n (address, predecessor, fits) = (a, p, f)" by (metis prod.exhaust)
  from Cons.prems s have "fold (place_step lrs sz) nbs (a, p, f) = (address', predecessor', fits')" by simp
  note IH = Cons.IH [OF this]
  have step: "(a, p, f) = (address, predecessor, fits) \<or> moves_to lrs [n] address a p \<and> \<not> f"
    using s by (auto simp: place_step_def Let_def moves_to_def split: if_splits)
  then have le: "address \<le> a" by (auto simp: moves_to_def)
  from IH show ?case
  proof
    assume "(address', predecessor', fits') = (a, p, f)"
    with step show ?thesis by (auto simp: moves_to_def)
  next
    assume "moves_to lrs nbs a address' predecessor' \<and> \<not> fits'"
    with moves_to_Cons [OF _ le] show ?thesis by blast
  qed
qed simp

function place_loop :: "HillClimbLiveRange list \<Rightarrow> int \<Rightarrow> nat list \<Rightarrow> int \<Rightarrow> nat option \<Rightarrow> int \<times> nat option" where
  "place_loop lrs sz nbs address predecessor =
     (case fold (place_step lrs sz) nbs (address, predecessor, True) of
        (address', predecessor', fits) \<Rightarrow>
          if fits then (address', predecessor') else place_loop lrs sz nbs address' predecessor')"
  by pat_completeness auto

termination
proof (relation "measure (\<lambda>(lrs, sz, nbs, address, _). card (allocated_above lrs nbs address))", goal_cases)
  case (2 lrs sz nbs address predecessor address' r predecessor' fits)
  then have "fold (place_step lrs sz) nbs (address, predecessor, True) = (address', predecessor', False)" by simp
  from place_pass [OF this] have "moves_to lrs nbs address address' predecessor'" by simp
  then have "allocated_above lrs nbs address' \<subset> allocated_above lrs nbs address"
    unfolding allocated_above_def moves_to_def by force
  moreover have "finite (allocated_above lrs nbs address)" by (simp add: allocated_above_def)
  ultimately show ?case by (simp add: psubset_card_mono)
qed simp

declare place_loop.simps [simp del]

definition AllocateLr :: "nat list list \<Rightarrow> nat \<Rightarrow> HillClimbLiveRange list \<Rightarrow> HillClimbLiveRange list" where
  "AllocateLr neighbours i lrs =
     (let lr = lrs ! i; (address, predecessor) = place_loop lrs (hl_size lr) (neighbours ! hl_id lr) 0 None
      in lrs[i := lr\<lparr>hl_address := address, hl_endAddress := address + hl_size lr, hl_predecessor := predecessor\<rparr>])"

fun allocate_turns ::
    "nat list list \<Rightarrow> int \<Rightarrow> nat \<Rightarrow> int \<Rightarrow> nat list \<Rightarrow> HillClimbLiveRange list \<Rightarrow> int \<times> HillClimbLiveRange list" where
  "allocate_turns neighbours bestSize turn sz [] lrs = (sz, lrs)"
| "allocate_turns neighbours bestSize turn sz (i # indices) lrs =
     (if sz \<le> bestSize then
        let lrs = AllocateLr neighbours i lrs;
            lrs = lrs[i := (lrs ! i)\<lparr>hl_turn := turn\<rparr>]
        in allocate_turns neighbours bestSize (turn + 1) (max sz (hl_endAddress (lrs ! i))) indices lrs
      else (sz, lrs))"

definition AllocateIndices :: "nat list \<Rightarrow> HillClimbAllocator \<Rightarrow> int \<times> HillClimbAllocator" where
  "AllocateIndices indices s =
     (case allocate_turns (hc_neighbours s) (hc_bestSize s) 0 0 indices
        (map (\<lambda>lr. lr\<lparr>hl_address := NOT_ALLOCATED\<rparr>) (hc_lrs s)) of
        (sz, lrs) \<Rightarrow> (sz, s\<lparr>hc_lrs := lrs, hc_iterations := hc_iterations s + 1\<rparr>))"

subsection \<open>The first order\<close>

definition prio_less :: "HillClimbLiveRange list \<Rightarrow> int list \<Rightarrow> nat \<Rightarrow> nat \<Rightarrow> bool" where
  "prio_less lrs lrUrgency a b =
     (if lrUrgency ! a \<noteq> lrUrgency ! b then lrUrgency ! a > lrUrgency ! b
      else let lr1 = lrs ! a; lr2 = lrs ! b;
               duration1 = hl_endTime lr1 - hl_startTime lr1; duration2 = hl_endTime lr2 - hl_startTime lr2
        in if duration1 \<noteq> duration2 then duration1 > duration2
           else if hl_startTime lr1 \<noteq> hl_startTime lr2 then hl_startTime lr1 < hl_startTime lr2
           else if hl_size lr1 \<noteq> hl_size lr2 then hl_size lr1 > hl_size lr2
           else hl_id lr1 < hl_id lr2)"

fun insert_prio :: "(nat \<Rightarrow> nat \<Rightarrow> bool) \<Rightarrow> nat \<Rightarrow> nat list \<Rightarrow> nat list" where
  "insert_prio lt a [] = [a]"
| "insert_prio lt a (b # bs) = (if lt b a then b # insert_prio lt a bs else a # b # bs)"

definition SortIndicesOnPrio :: "HillClimbAllocator \<Rightarrow> nat list \<Rightarrow> nat list" where
  "SortIndicesOnPrio s indices = foldr (insert_prio (prio_less (hc_lrs s) (hc_lrUrgency s))) indices []"

subsection \<open>The search\<close>

partial_function (option) predecessor_turns :: "HillClimbLiveRange list \<Rightarrow> nat \<Rightarrow> nat set \<Rightarrow> nat set option" where
  "predecessor_turns lrs i turns =
     (case hl_predecessor (lrs ! i) of
        None \<Rightarrow> Some turns
      | Some p \<Rightarrow> predecessor_turns lrs p (insert (hl_turn (lrs ! p)) turns))"

definition AddPredecessorTurns :: "HillClimbLiveRange list \<Rightarrow> nat \<Rightarrow> nat set \<Rightarrow> nat set option" where
  "AddPredecessorTurns lrs i turns = predecessor_turns lrs i (insert (hl_turn (lrs ! i)) turns)"

fun add_all_turns :: "HillClimbLiveRange list \<Rightarrow> nat list \<Rightarrow> nat set \<Rightarrow> nat set option" where
  "add_all_turns lrs [] turns = Some turns"
| "add_all_turns lrs (i # is) turns =
     (case AddPredecessorTurns lrs i turns of None \<Rightarrow> None | Some turns \<Rightarrow> add_all_turns lrs is turns)"

definition bottleneck :: "HillClimbLiveRange list \<Rightarrow> nat" where
  "bottleneck lrs =
     foldl (\<lambda>maxLr i. if hl_endAddress (lrs ! maxLr) < hl_endAddress (lrs ! i) then i else maxLr) 0 [0..<length lrs]"

definition visit_neighbour :: "HillClimbLiveRange list \<Rightarrow> nat \<Rightarrow> nat set \<times> nat list \<Rightarrow> nat set \<times> nat list" where
  "visit_neighbour lrs n = (\<lambda>(turns, turnList).
     let turn = hl_turn (lrs ! n)
     in if turn \<in> turns then (turns, turnList) else (insert turn turns, turnList @ [turn]))"

text \<open>The breadth-first search with its queue \<open>pending\<close>.\<close>

partial_function (option) collect_turns ::
    "HillClimbLiveRange list \<Rightarrow> nat list list \<Rightarrow> nat list \<Rightarrow> nat set \<Rightarrow> nat set \<Rightarrow> nat list \<Rightarrow> nat list option" where
  "collect_turns lrs neighbours pending visited turns turnList =
     (case pending of
        [] \<Rightarrow> Some turnList
      | i # pending \<Rightarrow>
          if i \<in> visited then collect_turns lrs neighbours pending visited turns turnList
          else let (turns, turnList) = fold (visit_neighbour lrs) (neighbours ! i) (turns, turnList)
               in collect_turns lrs neighbours (pending @ neighbours ! i) (insert i visited) turns turnList)"

definition swap :: "nat \<Rightarrow> nat \<Rightarrow> 'a list \<Rightarrow> 'a list" where
  "swap i j xs = xs[i := xs ! j, j := xs ! i]"

text \<open>The positions to swap: the second pick is replaced by the last turn when it is the first.\<close>

definition pick_pair :: "nat \<Rightarrow> nat \<Rightarrow> nat list \<Rightarrow> nat \<times> nat" where
  "pick_pair ix1 draw turnList =
     (let ix2 = turnList ! (draw mod length turnList)
      in (ix1, if ix1 = ix2 then turnList ! (length turnList - 1) else ix2))"

definition AttemptBottleneckFix ::
    "(nat \<Rightarrow> nat) \<Rightarrow> nat list \<Rightarrow> nat \<Rightarrow> HillClimbAllocator \<Rightarrow> (nat list \<times> HillClimbAllocator) option" where
  "AttemptBottleneckFix rng indices iterationsStuck s =
     (let lrs = hc_lrs s; neighbours = hc_neighbours s; draw = (\<lambda>k. rng (hc_draws s + k)); maxLr = bottleneck lrs
      in case add_all_turns lrs (maxLr # neighbours ! hl_id (lrs ! maxLr)) {} of
           None \<Rightarrow> None
         | Some turns \<Rightarrow>
             let turnList = sorted_list_of_set turns;
                 nonNbTurnList = filter (\<lambda>turn. \<not> IsNeighbour (lrs ! maxLr) (lrs ! (indices ! turn))) turnList;
                 ix1 = (if draw 0 mod 100 < 30 \<and> nonNbTurnList \<noteq> []
                        then nonNbTurnList ! (draw 1 mod length nonNbTurnList)
                        else turnList ! (draw 1 mod length turnList));
                 (ix1, ix2) = pick_pair ix1 (draw 2) turnList;
                 indices = swap ix1 ix2 indices
             in if MAX_ITERATIONS_STUCK < iterationsStuck
                then case collect_turns lrs neighbours [hl_id (lrs ! maxLr)] {} turns turnList of
                    None \<Rightarrow> None
                  | Some turnList \<Rightarrow>
                      let (ix1, ix2) = pick_pair (turnList ! (draw 3 mod length turnList)) (draw 4) turnList
                      in Some (swap ix1 ix2 indices, s\<lparr>hc_draws := hc_draws s + 5\<rparr>)
                else Some (indices, s\<lparr>hc_draws := hc_draws s + 3\<rparr>))"

text \<open>
  The loop of \<^verbatim>\<open>Search\<close> in iteration \<open>i\<close> with \<open>remaining\<close> iterations left.  The best order and the
  best ranges are the locals of the C++ function.
\<close>

fun search_loop ::
    "(nat \<Rightarrow> nat) \<Rightarrow> nat \<Rightarrow> nat \<Rightarrow> nat \<Rightarrow> nat list \<Rightarrow> HillClimbLiveRange list \<Rightarrow> nat list \<Rightarrow> HillClimbAllocator \<Rightarrow>
     HillClimbAllocator option" where
  "search_loop rng 0 i lastImprovement bestIndices bestLrs indices s = Some (s\<lparr>hc_lrs := bestLrs\<rparr>)"
| "search_loop rng (Suc remaining) i lastImprovement bestIndices bestLrs indices s =
     (case AttemptBottleneckFix rng indices (i - lastImprovement) s of
        None \<Rightarrow> None
      | Some (indices, s) \<Rightarrow>
          let (newSize, s) = AllocateIndices indices s
          in if newSize \<le> hc_bestSize s then
               let lastImprovement = (if newSize < hc_bestSize s then i else lastImprovement);
                   s = s\<lparr>hc_bestSize := newSize\<rparr>
               in if hc_bestSize s \<le> hc_targetSize s then Some s
                  else if hc_bestSize s \<le> hc_maxAllowedSize s \<and> MIN_ITERATIONS_IMPROVE < i - lastImprovement then Some s
                  else search_loop rng remaining (i + 1) lastImprovement indices (hc_lrs s) indices s
             else
               let s = s\<lparr>hc_lrs := bestLrs\<rparr>
               in if hc_bestSize s \<le> hc_maxAllowedSize s \<and> MIN_ITERATIONS_IMPROVE < i - lastImprovement then Some s
                  else search_loop rng remaining (i + 1) lastImprovement bestIndices bestLrs bestIndices s)"

definition Search :: "(nat \<Rightarrow> nat) \<Rightarrow> nat list \<Rightarrow> nat \<Rightarrow> HillClimbAllocator \<Rightarrow> HillClimbAllocator option" where
  "Search rng indices iters s = search_loop rng iters 0 0 indices (hc_lrs s) indices s"

text \<open>The allocator before the search, with the order it tries first.\<close>

definition initial_allocation :: "LiveRange list \<Rightarrow> int \<Rightarrow> int \<Rightarrow> nat list \<times> HillClimbAllocator" where
  "initial_allocation liveRanges alignment sizeLimit =
     (let s = (SetLiveRanges liveRanges alignment)\<lparr>hc_maxAllowedSize := sizeLimit, hc_iterations := 0\<rparr>;
          indices = SortIndicesOnPrio s [0..<length liveRanges];
          s = s\<lparr>hc_bestSize := MAX_ADDRESS\<rparr>;
          (sz, s) = AllocateIndices indices s
      in (indices, s\<lparr>hc_bestSize := sz\<rparr>))"

text \<open>The addresses that the live ranges get and the size of the allocation.\<close>

definition HillClimbAllocateLiveRanges ::
    "(nat \<Rightarrow> nat) \<Rightarrow> LiveRange list \<Rightarrow> int \<Rightarrow> int \<Rightarrow> (int list \<times> int) option" where
  "HillClimbAllocateLiveRanges rng liveRanges alignment sizeLimit =
     (let (indices, s) = initial_allocation liveRanges alignment sizeLimit
      in case (if hc_bestSize s \<le> hc_targetSize s then Some s else Search rng indices MAX_ITERATIONS s) of
           None \<Rightarrow> None
         | Some s \<Rightarrow> Some (map (\<lambda>i. hl_address (hc_lrs s ! i)) [0..<length liveRanges], hc_bestSize s))"

section \<open>The linear allocators and the reserved workspace\<close>

fun linear_loop :: "int \<Rightarrow> int \<Rightarrow> LiveRange list \<Rightarrow> int list \<times> int" where
  "linear_loop alignment address [] = ([], address)"
| "linear_loop alignment address (lr # lrs) =
     (let (addresses, end') = linear_loop alignment (address + RoundAway_int (lr_size lr) alignment) lrs
      in (address # addresses, end'))"

definition LinearAllocateLiveRanges :: "LiveRange list \<Rightarrow> int \<Rightarrow> int list \<times> int" where
  "LinearAllocateLiveRanges lrs alignment = linear_loop alignment 0 lrs"

text \<open>The state of the incremental allocator: the addresses by equivalence id and the highest address.\<close>

record IncrementalLinearAllocator =
  il_allocatedAddresses :: "nat \<rightharpoonup> int"
  il_highestAddress :: int

fun incremental_loop ::
    "int \<Rightarrow> LiveRange list \<Rightarrow> IncrementalLinearAllocator \<Rightarrow> int option list \<times> IncrementalLinearAllocator" where
  "incremental_loop alignment [] s = ([], s)"
| "incremental_loop alignment (lr # lrs) s =
     (case lr_equivalence lr of
        None \<Rightarrow> (let (addresses, s) = incremental_loop alignment lrs s in (None # addresses, s))
      | Some e \<Rightarrow>
          (case il_allocatedAddresses s e of
             None \<Rightarrow>
               (let address = il_highestAddress s;
                    (addresses, s) = incremental_loop alignment lrs
                      \<lparr>il_allocatedAddresses = (il_allocatedAddresses s)(e \<mapsto> address),
                       il_highestAddress = address + RoundAway_int (lr_size lr) alignment\<rparr>
                in (Some address # addresses, s))
           | Some address \<Rightarrow>
               (let (addresses, s) = incremental_loop alignment lrs s in (Some address # addresses, s))))"

definition IncrementalAllocate ::
    "IncrementalLinearAllocator \<Rightarrow> LiveRange list \<Rightarrow> int \<Rightarrow> int option list \<times> int \<times> IncrementalLinearAllocator" where
  "IncrementalAllocate s lrs alignment =
     (let (addresses, s) = incremental_loop alignment lrs s in (addresses, il_highestAddress s, s))"

text \<open>The workspace intervals that the usage snapshot reserves, as \<open>(start, end, bytes)\<close>.\<close>

function reserve_loop :: "int \<Rightarrow> int list \<Rightarrow> nat \<Rightarrow> nat \<Rightarrow> nat \<Rightarrow> int \<Rightarrow> (nat \<times> nat \<times> int) list" where
  "reserve_loop alignment used n time start bytes =
     (if n < time then []
      else let nextBytes = (if time < n then RoundAway_int (used ! time) alignment else 0)
        in if nextBytes = bytes then reserve_loop alignment used n (time + 1) start bytes
           else (if 0 < bytes then [(start, time - 1, bytes)] else []) @
             reserve_loop alignment used n (time + 1) time nextBytes)"
  by pat_completeness auto

termination
  by (relation "measure (\<lambda>(alignment, used, n, time, _). n + 1 - time)") auto

declare reserve_loop.simps [simp del]

definition reserved_ranges :: "int \<Rightarrow> int list \<Rightarrow> int \<Rightarrow> (nat \<times> nat \<times> int) list" where
  "reserved_ranges alignment used endTime =
     (let ts = min (length used) (nat endTime) in reserve_loop alignment used ts 0 0 0)"

end
