(* ===== verification/NAI_AllocatorProof.thy ===== *)
theory NAI_AllocatorProof
  imports NAI_Allocator "HOL-Library.Multiset"
begin

text \<open>
  Correctness of the tensor allocators.  \<open>allocation_ok\<close> says what an allocator promises: aligned,
  non-negative addresses below the reported size, and no shared byte between two ranges that are alive
  at the same time.  The hill climb allocator is proved for every random sequence: the interference
  graph is exact, a placement is the first fit, an order is placed without conflicts, the search only
  permutes orders, ends, and never makes the allocation larger.
\<close>

section \<open>Rounding and live ranges\<close>

lemma RoundAway_aligned:
  assumes "0 \<le> v" and "0 < a"
  shows "a dvd RoundAway_int v a" and "v \<le> RoundAway_int v a" and "RoundAway_int v a < v + a"
proof -
  have m: "v smod a = v mod a" using assms by (simp add: smod_int_alt_def sgn_if)
  define r where "r = v mod a"
  have b: "0 \<le> r" "r < a" using assms by (simp_all add: r_def)
  then have e: "RoundAway_int v a = (if r = 0 then v else v + (a - r))"
    by (simp add: RoundAway_int_def m Let_def r_def)
  show "v \<le> RoundAway_int v a" "RoundAway_int v a < v + a" using b e by simp_all
  have "v + (a - v mod a) = a * (v div a + 1)"
    using mult_div_mod_eq [of a v] by (simp add: algebra_simps)
  then show "a dvd RoundAway_int v a" unfolding e by (simp add: dvd_eq_mod_eq_0 r_def)
qed

definition alive :: "LiveRange \<Rightarrow> int \<Rightarrow> bool" where
  "alive lr t \<longleftrightarrow> lr_startTime lr \<le> t \<and> t \<le> lr_endTime lr"

definition coexist :: "LiveRange \<Rightarrow> LiveRange \<Rightarrow> bool" where
  "coexist lr lr' \<longleftrightarrow> max (lr_startTime lr) (lr_startTime lr') \<le> min (lr_endTime lr) (lr_endTime lr')"

lemma coexist_iff: "coexist lr lr' \<longleftrightarrow> (\<exists>t. alive lr t \<and> alive lr' t)"
  unfolding coexist_def alive_def
  by (auto intro: exI [of _ "max (lr_startTime lr) (lr_startTime lr')"])

definition rounded :: "int \<Rightarrow> LiveRange \<Rightarrow> int" where
  "rounded alignment lr = RoundAway_int (lr_size lr) alignment"

definition ranges_ok :: "LiveRange list \<Rightarrow> int \<Rightarrow> bool" where
  "ranges_ok lrs alignment \<longleftrightarrow> 0 < alignment \<and> sum_list (map (rounded alignment) lrs) \<le> MAX_ADDRESS \<and>
     list_all (\<lambda>lr. 0 \<le> lr_size lr \<and> (lr_startTime lr \<le> lr_endTime lr \<longrightarrow> 0 \<le> lr_startTime lr)) lrs"

text \<open>What an allocator promises.\<close>

definition allocation_ok :: "LiveRange list \<Rightarrow> int \<Rightarrow> int list \<Rightarrow> int \<Rightarrow> bool" where
  "allocation_ok lrs alignment addresses sz \<longleftrightarrow> length addresses = length lrs \<and> 0 \<le> sz \<and>
     (\<forall>i < length lrs. 0 \<le> addresses ! i \<and> alignment dvd addresses ! i \<and>
        addresses ! i + rounded alignment (lrs ! i) \<le> sz) \<and>
     (\<forall>i < length lrs. \<forall>j < i. coexist (lrs ! i) (lrs ! j) \<longrightarrow>
        addresses ! i + rounded alignment (lrs ! i) \<le> addresses ! j \<or>
        addresses ! j + rounded alignment (lrs ! j) \<le> addresses ! i)"

lemma new_ranges_length [simp]: "length (new_ranges alignment k lrs) = length lrs"
  by (induction lrs arbitrary: k) simp_all

lemma new_ranges_nth:
  "i < length lrs \<Longrightarrow> new_ranges alignment k lrs ! i =
     \<lparr>hl_startTime = lr_startTime (lrs ! i), hl_endTime = lr_endTime (lrs ! i), hl_size = rounded alignment (lrs ! i),
      hl_address = 0, hl_endAddress = 0, hl_id = k + i, hl_predecessor = Some 0, hl_turn = 0\<rparr>"
  by (induction lrs arbitrary: k i) (auto simp: rounded_def nth_Cons split: nat.splits)

section \<open>The interference graph\<close>

text \<open>\<open>adjacent_ok n R nbs\<close>: the adjacency lists hold the symmetric relation \<open>R\<close> on the first \<open>n\<close> ids.\<close>

definition adjacent_ok :: "nat \<Rightarrow> (nat \<times> nat) set \<Rightarrow> nat list list \<Rightarrow> bool" where
  "adjacent_ok n R nbs \<longleftrightarrow> length nbs = n \<and> sym R \<and> irrefl R \<and> R \<subseteq> {..<n} \<times> {..<n} \<and>
     (\<forall>i < n. set (nbs ! i) = R `` {i})"

lemma add_neighbour_edges:
  assumes e: "adjacent_ok n R nbs" and ab: "a < n" "b < n" "a \<noteq> b"
  shows "adjacent_ok n (R \<union> {(a, b), (b, a)}) (add_neighbour a b nbs)"
proof (cases "b \<in> set (nbs ! a)")
  case True
  then have "(a, b) \<in> R" "(b, a) \<in> R" using e ab by (auto simp: adjacent_ok_def dest: symD)
  then have "R \<union> {(a, b), (b, a)} = R" by auto
  with e True show ?thesis by (simp add: add_neighbour_def)
next
  case False
  have "sym (R \<union> {(a, b), (b, a)})" "irrefl (R \<union> {(a, b), (b, a)})"
    using e ab by (auto simp: adjacent_ok_def sym_def irrefl_def)
  with False e ab show ?thesis
    by (auto simp: adjacent_ok_def add_neighbour_def Let_def nth_list_update)
qed

lemma fold_add_neighbour_edges:
  "adjacent_ok n R nbs \<Longrightarrow> a < n \<Longrightarrow> set xs \<subseteq> {..<n} - {a} \<Longrightarrow>
    adjacent_ok n (R \<union> {a} \<times> set xs \<union> set xs \<times> {a}) (fold (add_neighbour a) xs nbs)"
proof (induction xs arbitrary: R nbs)
  case (Cons b xs)
  then have "adjacent_ok n (R \<union> {(a, b), (b, a)}) (add_neighbour a b nbs)" by (intro add_neighbour_edges) auto
  from Cons.IH [OF this] Cons.prems(2,3) have
    "adjacent_ok n (R \<union> {(a, b), (b, a)} \<union> {a} \<times> set xs \<union> set xs \<times> {a}) (fold (add_neighbour a) (b # xs) nbs)" by simp
  moreover have "R \<union> {(a, b), (b, a)} \<union> {a} \<times> set xs \<union> set xs \<times> {a} = R \<union> {a} \<times> set (b # xs) \<union> set (b # xs) \<times> {a}"
    by auto
  ultimately show ?case by simp
qed simp

lemma add_neighbours_edges:
  "adjacent_ok n R nbs \<Longrightarrow> distinct xs \<Longrightarrow> set xs \<subseteq> {..<n} \<Longrightarrow>
    adjacent_ok n (R \<union> (set xs \<times> set xs - Id)) (add_neighbours xs nbs)"
proof (induction xs arbitrary: R nbs)
  case (Cons a xs)
  then have "adjacent_ok n (R \<union> {a} \<times> set xs \<union> set xs \<times> {a}) (fold (add_neighbour a) xs nbs)"
    by (intro fold_add_neighbour_edges) auto
  from Cons.IH [OF this] Cons.prems(2,3) have
    "adjacent_ok n (R \<union> {a} \<times> set xs \<union> set xs \<times> {a} \<union> (set xs \<times> set xs - Id)) (add_neighbours (a # xs) nbs)" by simp
  moreover have "R \<union> {a} \<times> set xs \<union> set xs \<times> {a} \<union> (set xs \<times> set xs - Id) = R \<union> (set (a # xs) \<times> set (a # xs) - Id)"
    using Cons.prems(2) by auto
  ultimately show ?case by simp
qed simp

lemma lrsAtTime_eq:
  assumes "\<forall>i < length lrs. hl_id (lrs ! i) = i"
  shows "lrsAtTime lrs t = filter (\<lambda>i. hl_startTime (lrs ! i) \<le> t \<and> t \<le> hl_endTime (lrs ! i)) [0..<length lrs]"
proof -
  have "lrs = map (nth lrs) [0..<length lrs]" by (simp add: map_nth)
  then have "lrsAtTime lrs t = map hl_id (filter (\<lambda>lr. hl_startTime lr \<le> t \<and> t \<le> hl_endTime lr) (map (nth lrs) [0..<length lrs]))"
    unfolding lrsAtTime_def by simp
  also have "\<dots> = map (hl_id \<circ> nth lrs) (filter (\<lambda>i. hl_startTime (lrs ! i) \<le> t \<and> t \<le> hl_endTime (lrs ! i)) [0..<length lrs])"
    by (simp add: filter_map o_def)
  also have "\<dots> = map id (filter (\<lambda>i. hl_startTime (lrs ! i) \<le> t \<and> t \<le> hl_endTime (lrs ! i)) [0..<length lrs])"
    using assms by (intro map_cong) auto
  finally show ?thesis by simp
qed

lemma lrsAtTime_new:
  shows "distinct (lrsAtTime (new_ranges alignment 0 lrs) t)"
    and "set (lrsAtTime (new_ranges alignment 0 lrs) t) = {i. i < length lrs \<and> alive (lrs ! i) t}"
proof -
  have "\<forall>i < length (new_ranges alignment 0 lrs). hl_id (new_ranges alignment 0 lrs ! i) = i"
    by (simp add: new_ranges_nth)
  from lrsAtTime_eq [OF this, of t] show "distinct (lrsAtTime (new_ranges alignment 0 lrs) t)"
    "set (lrsAtTime (new_ranges alignment 0 lrs) t) = {i. i < length lrs \<and> alive (lrs ! i) t}"
    by (auto simp: new_ranges_nth alive_def)
qed

lemma fold_times_edges:
  fixes lrs :: "LiveRange list" and alignment :: int
  defines "at \<equiv> lrsAtTime (new_ranges alignment 0 lrs)"
  shows "adjacent_ok (length lrs) R nbs \<Longrightarrow>
    adjacent_ok (length lrs) (R \<union> (\<Union>t \<in> set ts. set (at t) \<times> set (at t) - Id)) (foldl (\<lambda>nbs t. add_neighbours (at t) nbs) nbs ts)"
proof (induction ts arbitrary: R nbs)
  case (Cons t ts)
  have "adjacent_ok (length lrs) (R \<union> (set (at t) \<times> set (at t) - Id)) (add_neighbours (at t) nbs)"
    by (rule add_neighbours_edges [OF Cons.prems]) (auto simp: at_def lrsAtTime_new)
  from Cons.IH [OF this] show ?case by (simp add: Un_assoc)
qed simp

definition interference :: "LiveRange list \<Rightarrow> (nat \<times> nat) set" where
  "interference lrs = {(i, j). i < length lrs \<and> j < length lrs \<and> i \<noteq> j \<and> coexist (lrs ! i) (lrs ! j)}"

lemma foldl_max:
  "foldl (\<lambda>m x. max m (f x)) (k :: int) xs = fold (\<lambda>x m. max m (f x)) xs k"
  by (simp add: foldl_conv_fold)

lemma fold_max_bounds:
  "(k :: int) \<le> foldl (\<lambda>m x. max m (f x)) k xs" "x \<in> set xs \<Longrightarrow> f x \<le> foldl (\<lambda>m x. max m (f x)) k xs"
  "foldl (\<lambda>m x. max m (f x)) k xs = k \<or> (\<exists>x \<in> set xs. foldl (\<lambda>m x. max m (f x)) k xs = f x)"
proof (induction xs arbitrary: k)
  case (Cons y xs)
  { case 1 show ?case using Cons.IH(1) [of "max k (f y)"] by simp }
  { case 2 then show ?case using Cons.IH(1) [of "max k (f y)"] Cons.IH(2) [of "max k (f y)"] by auto }
  { case 3 show ?case using Cons.IH(3) [of "max k (f y)"] by (auto simp: max_def) }
qed simp_all

text \<open>The neighbours are exactly the ranges that are alive at a common time.\<close>

lemma SetLiveRanges_edges:
  assumes "ranges_ok lrs alignment"
  shows "adjacent_ok (length lrs) (interference lrs) (hc_neighbours (SetLiveRanges lrs alignment))"
proof -
  define maxEnd where "maxEnd = foldl (\<lambda>m lr. max m (lr_endTime lr)) 0 lrs"
  define at where "at = lrsAtTime (new_ranges alignment 0 lrs)"
  have "adjacent_ok (length lrs) {} (replicate (length lrs) [])" by (simp add: adjacent_ok_def sym_def irrefl_def)
  from fold_times_edges [OF this, where ts = "[0..maxEnd]" and alignment = alignment] have
    "adjacent_ok (length lrs) (\<Union>t \<in> {0..maxEnd}. set (at t) \<times> set (at t) - Id) (hc_neighbours (SetLiveRanges lrs alignment))"
    by (simp add: SetLiveRanges_def Let_def at_def maxEnd_def)
  moreover have "(\<Union>t \<in> {0..maxEnd}. set (at t) \<times> set (at t) - Id) = interference lrs"
  proof -
    have "alive (lrs ! i) t \<Longrightarrow> i < length lrs \<Longrightarrow> t \<in> {0..maxEnd}" for i t
      using assms fold_max_bounds(2) [of "lrs ! i" lrs lr_endTime 0]
      by (force simp: alive_def ranges_ok_def list_all_length maxEnd_def)
    then show ?thesis
      unfolding interference_def at_def lrsAtTime_new coexist_iff by blast
  qed
  ultimately show ?thesis by simp
qed

section \<open>First fit\<close>

definition allocated :: "HillClimbLiveRange \<Rightarrow> bool" where
  "allocated lr \<longleftrightarrow> hl_address lr \<noteq> NOT_ALLOCATED"

text \<open>An address is blocked when an allocated neighbour overlaps the range placed there.\<close>

definition blocked :: "HillClimbLiveRange list \<Rightarrow> nat list \<Rightarrow> int \<Rightarrow> int \<Rightarrow> bool" where
  "blocked lrs nbs sz x \<longleftrightarrow> (\<exists>n \<in> set nbs. allocated (lrs ! n) \<and> hl_Overlaps (lrs ! n) x sz)"

lemma place_step_gap:
  assumes "place_step lrs sz n (address, predecessor, fits) = (address', predecessor', fits')"
  shows "\<forall>x. address \<le> x \<and> x < address' \<longrightarrow> blocked lrs [n] sz x"
    and "fits' \<Longrightarrow> \<not> blocked lrs [n] sz address"
  using assms by (auto simp: place_step_def Let_def blocked_def allocated_def hl_Overlaps_def split: if_splits)

lemma place_pass_gap:
  "fold (place_step lrs sz) nbs (address, predecessor, fits) = (address', predecessor', fits') \<Longrightarrow>
    (\<forall>x. address \<le> x \<and> x < address' \<longrightarrow> blocked lrs nbs sz x) \<and> (fits' \<longrightarrow> \<not> blocked lrs nbs sz address)"
proof (induction nbs arbitrary: address predecessor fits)
  case (Cons n nbs)
  obtain a p f where s: "place_step lrs sz n (address, predecessor, fits) = (a, p, f)" by (metis prod.exhaust)
  from Cons.prems s have r: "fold (place_step lrs sz) nbs (a, p, f) = (address', predecessor', fits')" by simp
  have split: "blocked lrs (n # nbs) sz x \<longleftrightarrow> blocked lrs [n] sz x \<or> blocked lrs nbs sz x" for x
    by (auto simp: blocked_def)
  have "\<not> blocked lrs (n # nbs) sz address" if "fits'"
  proof -
    from place_pass [OF r] that have "f" by auto
    moreover from this have "a = address" using s by (auto simp: place_step_def Let_def split: if_splits)
    ultimately show ?thesis using place_step_gap(2) [OF s] Cons.IH [OF r] that split by blast
  qed
  moreover have "blocked lrs (n # nbs) sz x" if "address \<le> x" "x < address'" for x
    using that place_step_gap(1) [OF s] Cons.IH [OF r] split by (cases "x < a") auto
  ultimately show ?case by blast
qed (simp add: blocked_def)

lemma place_loop_spec:
  "place_loop lrs sz nbs address predecessor = (address', predecessor') \<Longrightarrow>
    \<not> blocked lrs nbs sz address' \<and> (\<forall>x. address \<le> x \<and> x < address' \<longrightarrow> blocked lrs nbs sz x) \<and>
    ((address', predecessor') = (address, predecessor) \<or> moves_to lrs nbs address address' predecessor')"
proof (induction lrs sz nbs address predecessor rule: place_loop.induct)
  case (1 lrs sz nbs address predecessor)
  obtain a p fits where f: "fold (place_step lrs sz) nbs (address, predecessor, True) = (a, p, fits)" by (metis prod.exhaust)
  show ?case
  proof (cases fits)
    case True
    with 1(2) f have r: "a = address'" "p = predecessor'" by (simp_all add: place_loop.simps [of lrs sz nbs address])
    from place_pass [OF f] True have "(a, p) = (address, predecessor)" by auto
    with place_pass_gap [OF f] True r show ?thesis by auto
  next
    case False
    with 1(2) f have l: "place_loop lrs sz nbs a p = (address', predecessor')" by (simp add: place_loop.simps [of lrs sz nbs address])
    from place_pass [OF f] False have m: "moves_to lrs nbs address a p" by auto
    then have le: "address \<le> a" by (auto simp: moves_to_def)
    note IH = 1(1) [OF f [symmetric] refl False l]
    have "blocked lrs nbs sz x" if "address \<le> x" "x < address'" for x
      using that IH place_pass_gap [OF f] by (cases "x < a") auto
    moreover have "moves_to lrs nbs address address' predecessor'"
      using IH m le by (auto simp: moves_to_def)
    ultimately show ?thesis using IH by blast
  qed
qed

section \<open>Placing a whole order\<close>

definition same_data :: "HillClimbLiveRange \<Rightarrow> HillClimbLiveRange \<Rightarrow> bool" where
  "same_data lr lr' \<longleftrightarrow> hl_startTime lr = hl_startTime lr' \<and> hl_endTime lr = hl_endTime lr' \<and>
     hl_size lr = hl_size lr' \<and> hl_id lr = hl_id lr'"

text \<open>What holds of a placed range, given the ranges placed earlier with their ids.\<close>

definition apart :: "HillClimbLiveRange \<Rightarrow> HillClimbLiveRange \<Rightarrow> bool" where
  "apart lr lr' \<longleftrightarrow> hl_endAddress lr \<le> hl_address lr' \<or> hl_endAddress lr' \<le> hl_address lr"

definition placed_lr :: "nat list \<Rightarrow> (nat \<times> HillClimbLiveRange) list \<Rightarrow> HillClimbLiveRange \<Rightarrow> bool" where
  "placed_lr nb earlier lr \<longleftrightarrow>
     0 \<le> hl_address lr \<and> hl_endAddress lr = hl_address lr + hl_size lr \<and> hl_turn lr = length earlier \<and>
     (\<forall>(j, e) \<in> set earlier. j \<in> set nb \<longrightarrow> apart e lr) \<and>
     (case hl_predecessor lr of
        None \<Rightarrow> hl_address lr = 0
      | Some p \<Rightarrow> \<exists>e. (p, e) \<in> set earlier \<and> hl_address lr = hl_endAddress e) \<and>
     (\<forall>x. 0 \<le> x \<and> x < hl_address lr \<longrightarrow>
        (\<exists>(j, e) \<in> set earlier. j \<in> set nb \<and> hl_Overlaps e x (hl_size lr)))"

definition placed_at :: "nat list list \<Rightarrow> nat list \<Rightarrow> HillClimbLiveRange list \<Rightarrow> nat \<Rightarrow> bool" where
  "placed_at nbs order lrs k \<longleftrightarrow>
     placed_lr (nbs ! (order ! k)) (map (\<lambda>j. (j, lrs ! j)) (take k order)) (lrs ! (order ! k))"

definition placement_ok :: "nat list list \<Rightarrow> HillClimbLiveRange list \<Rightarrow> nat list \<Rightarrow> HillClimbLiveRange list \<Rightarrow> bool" where
  "placement_ok nbs base order lrs \<longleftrightarrow> list_all2 same_data lrs base \<and> distinct order \<and> set order \<subseteq> {..<length base} \<and>
     (\<forall>i < length base. i \<notin> set order \<longrightarrow> \<not> allocated (lrs ! i)) \<and>
     (\<forall>k < length order. placed_at nbs order lrs k)"

text \<open>The static data: ids are positions, sizes are not negative, and the graph is over the ids.\<close>

definition base_ok :: "(nat \<times> nat) set \<Rightarrow> nat list list \<Rightarrow> HillClimbLiveRange list \<Rightarrow> bool" where
  "base_ok R nbs base \<longleftrightarrow> adjacent_ok (length base) R nbs \<and> (\<forall>i < length base. hl_id (base ! i) = i \<and> 0 \<le> hl_size (base ! i))"

lemma same_dataD:
  assumes "list_all2 same_data lrs base" and "i < length base"
  shows "hl_size (lrs ! i) = hl_size (base ! i)" "hl_id (lrs ! i) = hl_id (base ! i)"
    "hl_startTime (lrs ! i) = hl_startTime (base ! i)" "hl_endTime (lrs ! i) = hl_endTime (base ! i)"
  using assms by (auto simp: list_all2_conv_all_nth same_data_def)

lemma placed_allocated:
  assumes "placement_ok nbs base order lrs" and "k < length order"
  shows "allocated (lrs ! (order ! k))"
  using assms by (auto simp: placement_ok_def placed_at_def placed_lr_def allocated_def NOT_ALLOCATED_def)

lemma placed_at_later:
  assumes p: "placed_at nbs order lrs k" and k: "k < length order"
    and same: "\<And>j. j \<in> set order \<Longrightarrow> lrs' ! j = lrs ! j"
  shows "placed_at nbs (order @ is) lrs' k"
proof -
  have "map (\<lambda>j. (j, lrs' ! j)) (take k (order @ is)) = map (\<lambda>j. (j, lrs ! j)) (take k order)"
    using same k by (auto dest: in_set_takeD)
  moreover have "(order @ is) ! k = order ! k" "lrs' ! (order ! k) = lrs ! (order ! k)"
    using k same by (simp_all add: nth_append)
  ultimately show ?thesis using p by (simp only: placed_at_def)
qed

text \<open>Placing the next range.\<close>

definition place :: "nat list list \<Rightarrow> nat \<Rightarrow> nat \<Rightarrow> HillClimbLiveRange list \<Rightarrow> HillClimbLiveRange list" where
  "place nbs turn i lrs = (let lrs = AllocateLr nbs i lrs in lrs[i := (lrs ! i)\<lparr>hl_turn := turn\<rparr>])"

lemma placed_step:
  assumes b: "base_ok R nbs base" and p: "placement_ok nbs base order lrs" and i: "i < length base" "i \<notin> set order"
  shows "placement_ok nbs base (order @ [i]) (place nbs (length order) i lrs)"
proof -
  let ?lr = "lrs ! i" and ?lrs' = "place nbs (length order) i lrs"
  have l: "length lrs = length base" and sr: "list_all2 same_data lrs base"
    using p by (auto simp: placement_ok_def list_all2_lengthD)
  have id: "hl_id ?lr = i" using same_dataD(2) [OF sr i(1)] b i(1) by (simp add: base_ok_def)
  obtain a pr where pl: "place_loop lrs (hl_size ?lr) (nbs ! i) 0 None = (a, pr)" by (metis prod.exhaust)
  define new where "new = ?lr\<lparr>hl_address := a, hl_endAddress := a + hl_size ?lr, hl_predecessor := pr, hl_turn := length order\<rparr>"
  have lrs': "?lrs' = lrs[i := new]" using l i(1) by (simp add: place_def AllocateLr_def Let_def id pl new_def)
  have keep: "?lrs' ! j = lrs ! j" if "j \<in> set order" for j using that i(2) by (metis lrs' nth_list_update_neq)
  have nb: "set (nbs ! i) \<subseteq> {..<length base}" using b i(1) by (auto simp: base_ok_def adjacent_ok_def)
  have al: "allocated (lrs ! j) \<longleftrightarrow> j \<in> set order" if "j < length base" for j
    using placed_allocated [OF p] p that by (auto simp: placement_ok_def in_set_conv_nth)
  note spec = place_loop_spec [OF pl]
  let ?earlier = "map (\<lambda>j. (j, lrs ! j)) order"
  have blk: "blocked lrs (nbs ! i) (hl_size ?lr) x \<longleftrightarrow>
      (\<exists>(j, e) \<in> set ?earlier. j \<in> set (nbs ! i) \<and> hl_Overlaps e x (hl_size ?lr))" for x
    using al nb by (force simp: blocked_def)
  have "placed_lr (nbs ! i) ?earlier new"
  proof -
    have mv: "(a = 0 \<and> pr = None) \<or> (\<exists>j \<in> set order. 0 < a \<and> a = hl_endAddress (lrs ! j) \<and> pr = Some j)"
    proof -
      have id': "hl_id (lrs ! j) = j" if "j < length base" for j
        using same_dataD(2) [OF sr that] b that by (simp add: base_ok_def)
      from spec consider "(a, pr) = (0, None)" | "moves_to lrs (nbs ! i) 0 a pr" by blast
      then show ?thesis
      proof cases
        case 2
        then obtain n where n: "n \<in> set (nbs ! i)" "allocated (lrs ! n)" "0 < a" "a = hl_endAddress (lrs ! n)"
          "pr = Some (hl_id (lrs ! n))" by (auto simp: moves_to_def allocated_def)
        then have "n < length base" using nb by auto
        with n al id' show ?thesis by auto
      qed simp
    qed
    then have "0 \<le> a" by auto
    moreover have "case pr of None \<Rightarrow> a = 0 | Some p \<Rightarrow> \<exists>e. (p, e) \<in> set ?earlier \<and> a = hl_endAddress e"
      using mv by (auto split: option.splits)
    moreover have "apart e new" if "(j, e) \<in> set ?earlier" "j \<in> set (nbs ! i)" for j e
      using spec blk [of a] that by (force simp: hl_Overlaps_def apart_def new_def)
    moreover have "\<exists>(j, e) \<in> set ?earlier. j \<in> set (nbs ! i) \<and> hl_Overlaps e x (hl_size ?lr)" if "0 \<le> x" "x < a" for x
      using spec that blk by blast
    moreover have "hl_address new = a" "hl_endAddress new = a + hl_size new" "hl_size new = hl_size ?lr"
      "hl_turn new = length order" "hl_predecessor new = pr" by (simp_all add: new_def)
    ultimately show ?thesis unfolding placed_lr_def by (simp only: length_map) blast
  qed
  moreover have "map (\<lambda>j. (j, ?lrs' ! j)) order = ?earlier" using keep by simp
  moreover have "?lrs' ! i = new" "take (length order) (order @ [i]) = order" using l i(1) by (simp_all add: lrs')
  ultimately have "placed_at nbs (order @ [i]) ?lrs' (length order)"
    by (simp only: placed_at_def nth_append_length)
  moreover have "placed_at nbs (order @ [i]) ?lrs' k" if "k < length order" for k
    using p that i(2) by (intro placed_at_later [of nbs order lrs]) (auto simp: placement_ok_def keep)
  moreover have "list_all2 same_data ?lrs' base"
    using sr i(1) l by (auto simp: lrs' list_all2_conv_all_nth same_data_def new_def nth_list_update)
  moreover have "\<not> allocated (?lrs' ! j)" if "j < length base" "j \<notin> set (order @ [i])" for j
    using that al by (auto simp: lrs')
  ultimately show ?thesis
    using p i by (auto simp: placement_ok_def less_Suc_eq)
qed

text \<open>The highest end address of the placed ranges.\<close>

definition is_top :: "HillClimbLiveRange list \<Rightarrow> nat list \<Rightarrow> int \<Rightarrow> bool" where
  "is_top lrs order sz \<longleftrightarrow> (\<forall>i \<in> set order. hl_endAddress (lrs ! i) \<le> sz) \<and>
     (sz = 0 \<or> (\<exists>i \<in> set order. sz = hl_endAddress (lrs ! i))) \<and> 0 \<le> sz"

definition sizes :: "HillClimbLiveRange list \<Rightarrow> nat list \<Rightarrow> int" where
  "sizes base order = sum_list (map (\<lambda>i. hl_size (base ! i)) order)"

lemma placed_lrD:
  assumes "placement_ok nbs base order lrs" and "k < length order"
  shows "0 \<le> hl_address (lrs ! (order ! k))" and "hl_turn (lrs ! (order ! k)) = k"
    and "hl_endAddress (lrs ! (order ! k)) = hl_address (lrs ! (order ! k)) + hl_size (base ! (order ! k))"
    and "hl_predecessor (lrs ! (order ! k)) = None \<Longrightarrow> hl_address (lrs ! (order ! k)) = 0"
    and "hl_predecessor (lrs ! (order ! k)) = Some p \<Longrightarrow>
      \<exists>m < k. order ! m = p \<and> hl_address (lrs ! (order ! k)) = hl_endAddress (lrs ! p)"
    and "m < k \<Longrightarrow> order ! m \<in> set (nbs ! (order ! k)) \<Longrightarrow> apart (lrs ! (order ! m)) (lrs ! (order ! k))"
proof -
  from assms have pl: "placed_lr (nbs ! (order ! k)) (map (\<lambda>j. (j, lrs ! j)) (take k order)) (lrs ! (order ! k))"
    and sr: "list_all2 same_data lrs base" and sub: "set order \<subseteq> {..<length base}"
    by (auto simp: placement_ok_def placed_at_def)
  from sub nth_mem [OF assms(2)] have i: "order ! k < length base" by blast
  note sz = same_dataD(1) [OF sr i]
  show "0 \<le> hl_address (lrs ! (order ! k))" "hl_turn (lrs ! (order ! k)) = k"
    "hl_endAddress (lrs ! (order ! k)) = hl_address (lrs ! (order ! k)) + hl_size (base ! (order ! k))"
    "hl_predecessor (lrs ! (order ! k)) = None \<Longrightarrow> hl_address (lrs ! (order ! k)) = 0"
    using pl assms(2) by (simp_all add: placed_lr_def sz)
  show "hl_predecessor (lrs ! (order ! k)) = Some p \<Longrightarrow>
      \<exists>m < k. order ! m = p \<and> hl_address (lrs ! (order ! k)) = hl_endAddress (lrs ! p)"
    using pl assms(2) by (force simp: placed_lr_def in_set_conv_nth)
  show "m < k \<Longrightarrow> order ! m \<in> set (nbs ! (order ! k)) \<Longrightarrow> apart (lrs ! (order ! m)) (lrs ! (order ! k))"
    using pl assms(2) by (force simp: placed_lr_def in_set_conv_nth)
qed

lemma base_sizes:
  assumes "base_ok R nbs base" and "set order \<subseteq> {..<length base}"
  shows "0 \<le> sizes base order"
  using assms unfolding sizes_def by (intro sum_list_nonneg) (auto simp: base_ok_def)

text \<open>Placed ranges end below the sum of the sizes placed so far.\<close>

lemma placed_bound:
  assumes b: "base_ok R nbs base" and p: "placement_ok nbs base order lrs"
  shows "k < length order \<Longrightarrow> hl_endAddress (lrs ! (order ! k)) \<le> sizes base (take (Suc k) order)"
proof (induction k rule: less_induct)
  case (less k)
  have sub: "set (take k order) \<subseteq> {..<length base}" using p set_take_subset [of k order] by (auto simp: placement_ok_def)
  have "hl_address (lrs ! (order ! k)) \<le> sizes base (take k order)"
  proof (cases "hl_predecessor (lrs ! (order ! k))")
    case None
    with placed_lrD(4) [OF p less.prems] base_sizes [OF b sub] show ?thesis by simp
  next
    case (Some q)
    from placed_lrD(5) [OF p less.prems this] obtain m where m: "m < k" "order ! m = q"
      "hl_address (lrs ! (order ! k)) = hl_endAddress (lrs ! q)" by auto
    then have "hl_address (lrs ! (order ! k)) \<le> sizes base (take (Suc m) order)" using less by force
    moreover have "take k order = take (Suc m) order @ take (k - Suc m) (drop (Suc m) order)"
      using m(1) take_add [of "Suc m" "k - Suc m" order] by simp
    moreover have "0 \<le> sizes base (take (k - Suc m) (drop (Suc m) order))"
      using p set_take_subset [of "k - Suc m" "drop (Suc m) order"] set_drop_subset [of "Suc m" order]
      by (intro base_sizes [OF b]) (auto simp: placement_ok_def)
    ultimately show ?thesis by (simp add: sizes_def)
  qed
  then show ?case using placed_lrD(3) [OF p less.prems] less.prems by (simp add: sizes_def take_Suc_conv_app_nth)
qed

lemma top_bound:
  assumes b: "base_ok R nbs base" and p: "placement_ok nbs base order lrs" and t: "is_top lrs order sz"
  shows "sz \<le> sizes base order"
proof -
  have sub: "set order \<subseteq> {..<length base}" using p by (simp add: placement_ok_def)
  have "hl_endAddress (lrs ! (order ! k)) \<le> sizes base order" if "k < length order" for k
  proof -
    have "0 \<le> sizes base (drop (Suc k) order)"
      using sub set_drop_subset [of "Suc k" order] by (intro base_sizes [OF b]) auto
    moreover have "sizes base order = sizes base (take (Suc k) order) + sizes base (drop (Suc k) order)"
      unfolding sizes_def by (metis append_take_drop_id map_append sum_list.append)
    ultimately show ?thesis using placed_bound [OF b p that] by simp
  qed
  then show ?thesis using t base_sizes [OF b sub] by (auto simp: is_top_def in_set_conv_nth)
qed

lemma top_step:
  assumes p: "placement_ok nbs base (order @ [i]) (place nbs (length order) i lrs)" and t: "is_top lrs order sz"
    and i: "i \<notin> set order" and old: "\<And>j. j \<in> set order \<Longrightarrow> place nbs (length order) i lrs ! j = lrs ! j"
  shows "is_top (place nbs (length order) i lrs) (order @ [i]) (max sz (hl_endAddress (place nbs (length order) i lrs ! i)))"
proof -
  have "0 \<le> sz" using t by (simp add: is_top_def)
  then show ?thesis using t old by (auto simp: is_top_def max_def)
qed

lemma place_other:
  assumes "j \<noteq> i"
  shows "place nbs turn i lrs ! j = lrs ! j"
  using assms by (simp add: place_def AllocateLr_def Let_def split: prod.splits)

lemma allocate_turns_spec:
  assumes b: "base_ok R nbs base"
  shows "allocate_turns nbs best turn sz is lrs = (sz', lrs') \<Longrightarrow> placement_ok nbs base order lrs \<Longrightarrow> is_top lrs order sz \<Longrightarrow>
    turn = length order \<Longrightarrow> distinct (order @ is) \<Longrightarrow> set is \<subseteq> {..<length base} \<Longrightarrow>
    (sz' \<le> best \<longrightarrow> placement_ok nbs base (order @ is) lrs' \<and> is_top lrs' (order @ is) sz') \<and>
    (sizes base (order @ is) \<le> best \<longrightarrow> sz' \<le> best)"
proof (induction "is" arbitrary: turn sz lrs order)
  case Nil
  then show ?case using top_bound [OF b Nil.prems(2,3)] by simp
next
  case (Cons i "is")
  show ?case
  proof (cases "sz \<le> best")
    case True
    let ?lrs = "place nbs turn i lrs"
    have i: "i < length base" "i \<notin> set order" using Cons.prems by simp_all
    have t: "turn = length order" by fact
    note p = placed_step [OF b Cons.prems(2) i, folded t]
    have top: "is_top ?lrs (order @ [i]) (max sz (hl_endAddress (?lrs ! i)))"
      using top_step [OF p [unfolded t] Cons.prems(3) i(2)] place_other i(2) t by metis
    have "allocate_turns nbs best (turn + 1) (max sz (hl_endAddress (?lrs ! i))) is ?lrs = (sz', lrs')"
      using Cons.prems(1) True by (simp add: place_def Let_def)
    from Cons.IH [OF this p top] show ?thesis using Cons.prems(4-6) by simp
  next
    case False
    have "sizes base order \<le> sizes base (order @ i # is)"
      using base_sizes [OF b, of "i # is"] Cons.prems(6) by (simp add: sizes_def)
    with False Cons.prems(1) top_bound [OF b Cons.prems(2,3)] show ?thesis by auto
  qed
qed

section \<open>Complete allocations\<close>

definition order_ok :: "nat \<Rightarrow> nat list \<Rightarrow> bool" where
  "order_ok n order \<longleftrightarrow> distinct order \<and> set order = {..<n}"

lemma order_okI: "mset order = mset [0..<n] \<Longrightarrow> order_ok n order"
  unfolding order_ok_def by (metis atLeast_upt distinct_upt mset_eq_imp_distinct_iff set_mset_mset)

lemma order_ok_length: "order_ok n order \<Longrightarrow> length order = n"
  unfolding order_ok_def by (metis card_lessThan distinct_card)

lemma order_ok_swap:
  assumes "order_ok n order" and "i < n" and "j < n"
  shows "order_ok n (swap i j order)"
proof -
  have "length order = n" using order_ok_length [OF assms(1)] .
  then have "mset (swap i j order) = mset order"
    using assms(2,3) by (simp add: swap_def mset_swap)
  with assms(1) show ?thesis unfolding order_ok_def
    by (metis mset_eq_imp_distinct_iff set_mset_mset)
qed

definition complete :: "nat list list \<Rightarrow> HillClimbLiveRange list \<Rightarrow> nat list \<Rightarrow> HillClimbLiveRange list \<Rightarrow> int \<Rightarrow> bool" where
  "complete nbs base order lrs sz \<longleftrightarrow> order_ok (length base) order \<and> placement_ok nbs base order lrs \<and> is_top lrs order sz"

lemma AllocateIndices_spec:
  assumes b: "base_ok R (hc_neighbours s) base" and sr: "list_all2 same_data (hc_lrs s) base"
    and o: "order_ok (length base) order" and r: "AllocateIndices order s = (sz, s')"
  shows "s' = s\<lparr>hc_lrs := hc_lrs s', hc_iterations := hc_iterations s + 1\<rparr>"
    and "sz \<le> hc_bestSize s \<Longrightarrow> complete (hc_neighbours s) base order (hc_lrs s') sz"
    and "sizes base order \<le> hc_bestSize s \<Longrightarrow> sz \<le> hc_bestSize s"
proof -
  let ?lrs = "map (\<lambda>lr. lr\<lparr>hl_address := NOT_ALLOCATED\<rparr>) (hc_lrs s)"
  obtain lrs' where a: "allocate_turns (hc_neighbours s) (hc_bestSize s) 0 0 order ?lrs = (sz, lrs')"
    and s': "s' = s\<lparr>hc_lrs := lrs', hc_iterations := hc_iterations s + 1\<rparr>"
    using r by (auto simp: AllocateIndices_def split: prod.splits)
  have p: "placement_ok (hc_neighbours s) base [] ?lrs"
    using sr by (auto simp: placement_ok_def list_all2_conv_all_nth same_data_def allocated_def)
  have "is_top ?lrs [] 0" by (simp add: is_top_def)
  from allocate_turns_spec [OF b a p this] o have
    spec: "(sz \<le> hc_bestSize s \<longrightarrow> placement_ok (hc_neighbours s) base order lrs' \<and> is_top lrs' order sz) \<and>
      (sizes base order \<le> hc_bestSize s \<longrightarrow> sz \<le> hc_bestSize s)" by (simp add: order_ok_def)
  show "s' = s\<lparr>hc_lrs := hc_lrs s', hc_iterations := hc_iterations s + 1\<rparr>" by (simp add: s')
  show "sz \<le> hc_bestSize s \<Longrightarrow> complete (hc_neighbours s) base order (hc_lrs s') sz"
    "sizes base order \<le> hc_bestSize s \<Longrightarrow> sz \<le> hc_bestSize s" using spec o by (simp_all add: s' complete_def)
qed

subsection \<open>The first order\<close>

lemma insert_prio_mset: "mset (insert_prio lt a bs) = add_mset a (mset bs)"
  by (induction bs) simp_all

lemma insert_prio_sorted:
  assumes lt: "transp lt" "asymp lt" and s: "sorted_wrt (\<lambda>a b. \<not> lt b a) bs"
    and tot: "\<And>x y z. \<not> lt x y \<Longrightarrow> \<not> lt y z \<Longrightarrow> \<not> lt x z"
  shows "sorted_wrt (\<lambda>a b. \<not> lt b a) (insert_prio lt a bs)"
  using s
proof (induction bs)
  case (Cons b bs)
  have m: "x \<in> set (insert_prio lt a bs) \<longleftrightarrow> x = a \<or> x \<in> set bs" for x
    using arg_cong [OF insert_prio_mset [of lt a bs], of set_mset] by auto
  show ?case
  proof (cases "lt b a")
    case True
    then have "\<not> lt a b" using lt(2) by (auto dest: asympD)
    with True Cons m show ?thesis by auto
  next
    case False
    then show ?thesis using Cons.prems tot by auto
  qed
qed simp

lemma Sort_order_ok: "order_ok n (SortIndicesOnPrio s [0..<n])"
proof (rule order_okI)
  have "mset (foldr (insert_prio lt) xs []) = mset xs" for lt xs
    by (induction xs) (simp_all add: insert_prio_mset)
  then show "mset (SortIndicesOnPrio s [0..<n]) = mset [0..<n]" by (simp add: SortIndicesOnPrio_def)
qed

lemma prio_less_order:
  fixes lrs u
  defines "lt \<equiv> prio_less lrs u"
  shows "transp lt" "asymp lt" "\<not> lt x y \<Longrightarrow> \<not> lt y z \<Longrightarrow> \<not> lt x z"
  unfolding lt_def transp_def asymp_on_def prio_less_def Let_def by (auto split: if_splits)

lemma Sort_sorted:
  "sorted_wrt (\<lambda>a b. \<not> prio_less (hc_lrs s) (hc_lrUrgency s) b a) (SortIndicesOnPrio s indices)"
proof -
  have "sorted_wrt (\<lambda>a b. \<not> prio_less (hc_lrs s) (hc_lrUrgency s) b a)
      (foldr (insert_prio (prio_less (hc_lrs s) (hc_lrUrgency s))) xs [])" for xs
    by (induction xs) (simp_all add: insert_prio_sorted prio_less_order)
  then show ?thesis by (simp add: SortIndicesOnPrio_def)
qed

subsection \<open>The turns that affect the bottleneck\<close>

lemma complete_turn:
  assumes c: "complete nbs base order lrs sz" and i: "i < length base"
  obtains k where "k < length base" "order ! k = i" "hl_turn (lrs ! i) = k"
proof -
  have "i \<in> set order" "length order = length base" using c i order_ok_length by (auto simp: complete_def order_ok_def)
  then obtain k where k: "k < length base" "order ! k = i" by (auto simp: in_set_conv_nth)
  moreover have "hl_turn (lrs ! (order ! k)) = k" using placed_lrD(2) [of nbs base order lrs k] c k \<open>length order = _\<close>
    by (simp add: complete_def)
  ultimately show thesis using that by simp
qed

lemma complete_turn_less: "complete nbs base order lrs sz \<Longrightarrow> i < length base \<Longrightarrow> hl_turn (lrs ! i) < length base"
  using complete_turn by metis

text \<open>A predecessor was placed in an earlier turn, so the chain of predecessors ends.\<close>

lemma predecessor_turns_ends:
  assumes c: "complete nbs base order lrs sz"
  shows "k < length base \<Longrightarrow> turns \<subseteq> {..<length base} \<Longrightarrow>
    \<exists>turns'. predecessor_turns lrs (order ! k) turns = Some turns' \<and> turns \<subseteq> turns' \<and> turns' \<subseteq> {..<length base}"
proof (induction k arbitrary: turns rule: less_induct)
  case (less k)
  have p: "placement_ok nbs base order lrs" and l: "length order = length base"
    using c order_ok_length by (auto simp: complete_def)
  show ?case
  proof (cases "hl_predecessor (lrs ! (order ! k))")
    case None
    then show ?thesis using less.prems by (simp add: predecessor_turns.simps)
  next
    case (Some q)
    from placed_lrD(5) [OF p _ Some] l less.prems obtain m where m: "m < k" "order ! m = q" by auto
    then have "hl_turn (lrs ! q) < length base" using placed_lrD(2) [OF p, of m] l less.prems by simp
    with less.IH [of m "insert (hl_turn (lrs ! q)) turns"] m less.prems Some show ?thesis
      by (auto simp: predecessor_turns.simps [of lrs "order ! k"])
  qed
qed

lemma AddPredecessorTurns_ends:
  assumes "complete nbs base order lrs sz" and "i < length base" and "turns \<subseteq> {..<length base}"
  obtains turns' where "AddPredecessorTurns lrs i turns = Some turns'" "insert (hl_turn (lrs ! i)) turns \<subseteq> turns'"
    "turns' \<subseteq> {..<length base}"
proof -
  from complete_turn [OF assms(1,2)] obtain k where k: "k < length base" "order ! k = i" "hl_turn (lrs ! i) = k" .
  then show thesis
    using predecessor_turns_ends [OF assms(1) k(1), of "insert (hl_turn (lrs ! i)) turns"] assms(3) that
    by (auto simp: AddPredecessorTurns_def)
qed

lemma add_all_turns_ends:
  "complete nbs base order lrs sz \<Longrightarrow> set is \<subseteq> {..<length base} \<Longrightarrow> turns \<subseteq> {..<length base} \<Longrightarrow>
    \<exists>turns'. add_all_turns lrs is turns = Some turns' \<and> turns \<union> (\<lambda>i. hl_turn (lrs ! i)) ` set is \<subseteq> turns' \<and>
      turns' \<subseteq> {..<length base}"
proof (induction "is" arbitrary: turns)
  case (Cons i "is")
  then have "i < length base" by simp
  from AddPredecessorTurns_ends [OF Cons.prems(1) this Cons.prems(3)] obtain turns' where
    t: "AddPredecessorTurns lrs i turns = Some turns'" "insert (hl_turn (lrs ! i)) turns \<subseteq> turns'" "turns' \<subseteq> {..<length base}" .
  have "set is \<subseteq> {..<length base}" using Cons.prems(2) by simp
  from Cons.IH [OF Cons.prems(1) this t(3)] obtain turns'' where
    "add_all_turns lrs is turns' = Some turns''" "turns' \<union> (\<lambda>i. hl_turn (lrs ! i)) ` set is \<subseteq> turns''" "turns'' \<subseteq> {..<length base}"
    by blast
  with t show ?case by auto
qed simp

lemma visit_all:
  "fold (visit_neighbour lrs) ns (turns, turnList) = (turns', turnList') \<Longrightarrow>
    set turnList \<subseteq> set turnList' \<and> set turnList' \<subseteq> set turnList \<union> (\<lambda>n. hl_turn (lrs ! n)) ` set ns"
proof (induction ns arbitrary: turns turnList)
  case (Cons n ns)
  obtain t l where v: "visit_neighbour lrs n (turns, turnList) = (t, l)" by (metis prod.exhaust)
  then have "set turnList \<subseteq> set l" "set l \<subseteq> insert (hl_turn (lrs ! n)) (set turnList)"
    by (auto simp: visit_neighbour_def Let_def split: if_splits)
  moreover have "fold (visit_neighbour lrs) ns (t, l) = (turns', turnList')" using Cons.prems v by simp
  note Cons.IH [OF this]
  ultimately show ?case by auto
qed simp

lemma collect_turns_simps:
  "collect_turns lrs nbs [] visited turns turnList = Some turnList"
  "collect_turns lrs nbs (i # rest) visited turns turnList =
    (if i \<in> visited then collect_turns lrs nbs rest visited turns turnList
     else let (turns, turnList) = fold (visit_neighbour lrs) (nbs ! i) (turns, turnList)
          in collect_turns lrs nbs (rest @ nbs ! i) (insert i visited) turns turnList)"
  by (subst collect_turns.simps; simp)+

text \<open>The breadth-first search visits every range at most once, so it ends.\<close>

lemma collect_turns_ends:
  assumes c: "complete nbs base order lrs sz" and nb: "\<forall>i < length base. set (nbs ! i) \<subseteq> {..<length base}"
  shows "set pending \<subseteq> {..<length base} \<Longrightarrow> set turnList \<subseteq> {..<length base} \<Longrightarrow> turnList \<noteq> [] \<Longrightarrow>
    \<exists>turnList'. collect_turns lrs nbs pending visited turns turnList = Some turnList' \<and>
      set turnList' \<subseteq> {..<length base} \<and> turnList' \<noteq> []"
proof (induction "(card ({..<length base} - visited), length pending)" arbitrary: pending visited turns turnList
    rule: wf_induct_rule [OF wf_lex_prod [OF wf_less_than wf_less_than]])
  case 1
  show ?case
  proof (cases pending)
    case Nil
    then show ?thesis using 1(3,4) by (simp add: collect_turns_simps)
  next
    case (Cons i rest)
    show ?thesis
    proof (cases "i \<in> visited")
      case True
      with Cons 1(1) [of visited rest turnList turns] 1(2-4) show ?thesis by (simp add: collect_turns_simps)
    next
      case False
      have i: "i < length base" using Cons 1(2) by simp
      obtain turns' turnList' where v: "fold (visit_neighbour lrs) (nbs ! i) (turns, turnList) = (turns', turnList')"
        by (metis prod.exhaust)
      have "(\<lambda>n. hl_turn (lrs ! n)) ` set (nbs ! i) \<subseteq> {..<length base}"
        using nb i complete_turn_less [OF c] by blast
      with visit_all [OF v] 1(3) have "set turnList' \<subseteq> {..<length base}" by blast
      moreover have "turnList' \<noteq> []" using visit_all [OF v] 1(4) by auto
      moreover have "card ({..<length base} - insert i visited) < card ({..<length base} - visited)"
        using i False by (intro psubset_card_mono) auto
      moreover have "set (rest @ nbs ! i) \<subseteq> {..<length base}" using Cons 1(2) nb i by auto
      ultimately show ?thesis using 1(1) [of "insert i visited" "rest @ nbs ! i" turnList' turns'] Cons False v
        by (simp add: collect_turns_simps)
    qed
  qed
qed

subsection \<open>The search\<close>

lemma bottleneck_less: "lrs \<noteq> [] \<Longrightarrow> bottleneck lrs < length lrs"
proof -
  assume "lrs \<noteq> []"
  have "foldl (\<lambda>m i. if P m i then i else m) b is \<in> insert b (set is)" for P and b :: nat and "is"
    by (induction "is" arbitrary: b) auto
  from this [of _ 0 "[0..<length lrs]"] \<open>lrs \<noteq> []\<close> show ?thesis by (force simp: bottleneck_def)
qed

lemma pick_pair_less:
  assumes "ix1 < n" and "set turnList \<subseteq> {..<n}" and "turnList \<noteq> []"
  shows "fst (pick_pair ix1 draw turnList) < n" and "snd (pick_pair ix1 draw turnList) < n"
proof -
  have "turnList ! k < n" if "k < length turnList" for k using assms(2) nth_mem [OF that] by auto
  then show "fst (pick_pair ix1 draw turnList) < n" "snd (pick_pair ix1 draw turnList) < n"
    using assms(1,3) by (simp_all add: pick_pair_def Let_def)
qed

lemma nth_mod_less: "set xs \<subseteq> {..<n} \<Longrightarrow> xs \<noteq> [] \<Longrightarrow> xs ! (k mod length xs) < (n :: nat)"
  using nth_mem [of "k mod length xs" xs] by (metis length_greater_0_conv lessThan_iff mod_less_divisor subsetD)

lemma pick_swap_ok:
  assumes "order_ok n order" and "ix1 < n" and "set turnList \<subseteq> {..<n}" and "turnList \<noteq> []"
  shows "order_ok n (case pick_pair ix1 draw turnList of (ix1, ix2) \<Rightarrow> swap ix1 ix2 order)"
  using order_ok_swap [OF assms(1) pick_pair_less [OF assms(2-4)]] by (simp add: split_beta)

lemma AttemptBottleneckFix_ends:
  assumes b: "base_ok R (hc_neighbours s) base" and c: "complete (hc_neighbours s) base order (hc_lrs s) sz"
    and ne: "base \<noteq> []"
  obtains order' draws where "AttemptBottleneckFix rng order stuck s = Some (order', s\<lparr>hc_draws := draws\<rparr>)"
    "order_ok (length base) order'"
proof -
  let ?lrs = "hc_lrs s" and ?nbs = "hc_neighbours s" and ?n = "length base"
  define m where "m = bottleneck ?lrs"
  define draw where "draw k = rng (hc_draws s + k)" for k
  have sr: "list_all2 same_data ?lrs base" using c by (simp add: complete_def placement_ok_def)
  then have l: "length ?lrs = ?n" by (rule list_all2_lengthD)
  have "?lrs \<noteq> []" using l ne by auto
  from bottleneck_less [OF this] have m: "m < ?n" by (simp add: m_def l)
  have id: "hl_id (?lrs ! m) = m" using same_dataD(2) [OF sr m] b m by (simp add: base_ok_def)
  have nb: "\<forall>i < ?n. set (?nbs ! i) \<subseteq> {..<?n}" using b by (auto simp: base_ok_def adjacent_ok_def)
  from add_all_turns_ends [OF c, of "m # ?nbs ! m" "{}"] m nb obtain turns where
    t: "add_all_turns ?lrs (m # ?nbs ! m) {} = Some turns" "hl_turn (?lrs ! m) \<in> turns" "turns \<subseteq> {..<?n}" by auto
  define turnList where "turnList = sorted_list_of_set turns"
  have fin: "finite turns" using t(3) finite_subset by blast
  have tl: "set turnList \<subseteq> {..<?n}" "turnList \<noteq> []" using t(2,3) fin by (auto simp: turnList_def)
  define nonNb where "nonNb = filter (\<lambda>turn. \<not> IsNeighbour (?lrs ! m) (?lrs ! (order ! turn))) turnList"
  define ix1 where "ix1 = (if draw 0 mod 100 < 30 \<and> nonNb \<noteq> [] then nonNb ! (draw 1 mod length nonNb)
    else turnList ! (draw 1 mod length turnList))"
  have "set nonNb \<subseteq> {..<?n}" using tl by (auto simp: nonNb_def)
  then have ix1: "ix1 < ?n" using nth_mod_less tl by (simp add: ix1_def)
  define order1 where "order1 = (case pick_pair ix1 (draw 2) turnList of (ix1, ix2) \<Rightarrow> swap ix1 ix2 order)"
  have o: "order_ok ?n order" using c by (simp add: complete_def)
  have o1: "order_ok ?n order1"
    unfolding order1_def by (rule pick_swap_ok [OF o ix1 tl])
  from collect_turns_ends [OF c nb, of "[m]" turnList "{}" turns] m tl obtain turnList' where
    t': "collect_turns ?lrs ?nbs [m] {} turns turnList = Some turnList'" "set turnList' \<subseteq> {..<?n}" "turnList' \<noteq> []" by auto
  define order2 where "order2 = (case pick_pair (turnList' ! (draw 3 mod length turnList')) (draw 4) turnList' of
    (ix1, ix2) \<Rightarrow> swap ix1 ix2 order1)"
  have o2: "order_ok ?n order2"
    unfolding order2_def by (rule pick_swap_ok [OF o1 nth_mod_less [OF t'(2,3)] t'(2,3)])
  have "AttemptBottleneckFix rng order stuck s =
      (if MAX_ITERATIONS_STUCK < stuck then Some (order2, s\<lparr>hc_draws := hc_draws s + 5\<rparr>)
       else Some (order1, s\<lparr>hc_draws := hc_draws s + 3\<rparr>))"
    unfolding AttemptBottleneckFix_def Let_def m_def [symmetric] id t(1) option.case turnList_def [symmetric]
      nonNb_def [symmetric] draw_def [symmetric] ix1_def [symmetric] t'(1)
    by (simp add: order2_def order1_def split: prod.splits)
  with that o1 o2 show thesis by (metis (full_types))
qed

text \<open>The search returns a complete allocation that is not larger than the one it starts with.\<close>

lemma search_loop_ends:
  "base_ok R (hc_neighbours s) base \<Longrightarrow> complete (hc_neighbours s) base order (hc_lrs s) (hc_bestSize s) \<Longrightarrow> base \<noteq> [] \<Longrightarrow>
    \<exists>s' order'. search_loop rng remaining i last' order (hc_lrs s) order s = Some s' \<and>
      complete (hc_neighbours s) base order' (hc_lrs s') (hc_bestSize s') \<and> hc_bestSize s' \<le> hc_bestSize s"
proof (induction remaining arbitrary: i last' order s)
  case 0
  then show ?case by (intro exI [of _ s] exI [of _ order]) simp
next
  case (Suc remaining)
  from AttemptBottleneckFix_ends [OF Suc.prems, of rng "i - last'"] obtain order1 draws where
    a: "AttemptBottleneckFix rng order (i - last') s = Some (order1, s\<lparr>hc_draws := draws\<rparr>)" "order_ok (length base) order1" .
  obtain sz s1 where r: "AllocateIndices order1 (s\<lparr>hc_draws := draws\<rparr>) = (sz, s1)" by (metis prod.exhaust)
  have sr: "list_all2 same_data (hc_lrs s) base" using Suc.prems(2) by (simp add: complete_def placement_ok_def)
  have A: "s1 = s\<lparr>hc_draws := draws, hc_lrs := hc_lrs s1, hc_iterations := hc_iterations s + 1\<rparr>"
    "sz \<le> hc_bestSize s \<Longrightarrow> complete (hc_neighbours s) base order1 (hc_lrs s1) sz"
    using AllocateIndices_spec(1,2) [of R "s\<lparr>hc_draws := draws\<rparr>" base order1 sz s1] Suc.prems(1) sr a(2) r by simp_all
  have f: "hc_neighbours s1 = hc_neighbours s" "hc_bestSize s1 = hc_bestSize s"
    by (simp_all add: arg_cong [OF A(1), of hc_neighbours] arg_cong [OF A(1), of hc_bestSize])
  show ?case
  proof (cases "sz \<le> hc_bestSize s")
    case True
    let ?s2 = "s1\<lparr>hc_bestSize := sz\<rparr>"
    have c: "complete (hc_neighbours ?s2) base order1 (hc_lrs ?s2) (hc_bestSize ?s2)" using A(2) [OF True] by (simp add: f)
    have b: "base_ok R (hc_neighbours ?s2) base" using Suc.prems(1) by (simp add: f)
    define l' where "l' = (if sz < hc_bestSize s then i else last')"
    have e: "search_loop rng (Suc remaining) i last' order (hc_lrs s) order s =
        (if sz \<le> hc_targetSize s1 then Some ?s2
         else if sz \<le> hc_maxAllowedSize s1 \<and> MIN_ITERATIONS_IMPROVE < i - l' then Some ?s2
         else search_loop rng remaining (i + 1) l' order1 (hc_lrs ?s2) order1 ?s2)"
      using True by (simp add: a(1) r f Let_def l'_def)
    from Suc.IH [OF b c Suc.prems(3), of "i + 1" l'] obtain s' order' where
      "search_loop rng remaining (i + 1) l' order1 (hc_lrs ?s2) order1 ?s2 = Some s'"
      "complete (hc_neighbours s) base order' (hc_lrs s') (hc_bestSize s')" "hc_bestSize s' \<le> sz" by (auto simp: f)
    with e c True show ?thesis by (cases "sz \<le> hc_targetSize s1 \<or> sz \<le> hc_maxAllowedSize s1 \<and> MIN_ITERATIONS_IMPROVE < i - l'")
        (auto simp: f)
  next
    case False
    let ?s2 = "s1\<lparr>hc_lrs := hc_lrs s\<rparr>"
    have c: "complete (hc_neighbours ?s2) base order (hc_lrs ?s2) (hc_bestSize ?s2)" using Suc.prems(2) by (simp add: f)
    have b: "base_ok R (hc_neighbours ?s2) base" using Suc.prems(1) by (simp add: f)
    have e: "search_loop rng (Suc remaining) i last' order (hc_lrs s) order s =
        (if hc_bestSize s1 \<le> hc_maxAllowedSize s1 \<and> MIN_ITERATIONS_IMPROVE < i - last' then Some ?s2
         else search_loop rng remaining (i + 1) last' order (hc_lrs ?s2) order ?s2)"
      using False by (simp add: a(1) r f Let_def)
    from Suc.IH [OF b c Suc.prems(3), of "i + 1" last'] obtain s' order' where
      "search_loop rng remaining (i + 1) last' order (hc_lrs ?s2) order ?s2 = Some s'"
      "complete (hc_neighbours s) base order' (hc_lrs s') (hc_bestSize s')" "hc_bestSize s' \<le> hc_bestSize s" by (auto simp: f)
    with e c show ?thesis by (cases "hc_bestSize s1 \<le> hc_maxAllowedSize s1 \<and> MIN_ITERATIONS_IMPROVE < i - last'")
        (auto simp: f)
  qed
qed

section \<open>The hill climb allocator keeps the contract\<close>

lemma base_ok_new:
  assumes "ranges_ok lrs alignment"
  shows "base_ok (interference lrs) (hc_neighbours (SetLiveRanges lrs alignment)) (new_ranges alignment 0 lrs)"
proof -
  have "0 \<le> rounded alignment (lrs ! i)" if "i < length lrs" for i
  proof -
    have "0 \<le> lr_size (lrs ! i)" "0 < alignment" using assms that by (simp_all add: ranges_ok_def list_all_length)
    from order_trans [OF this(1) RoundAway_aligned(2) [OF this]] show ?thesis by (simp add: rounded_def)
  qed
  then show ?thesis using SetLiveRanges_edges [OF assms] by (simp add: base_ok_def new_ranges_nth)
qed

lemma sizes_order:
  assumes "order_ok (length base) order"
  shows "sizes base order = sum_list (map hl_size base)"
proof -
  have "mset order = mset [0..<length base]"
    using assms set_eq_iff_mset_eq_distinct [of order "[0..<length base]"] by (simp add: order_ok_def atLeast0LessThan)
  then have "mset (map (\<lambda>i. hl_size (base ! i)) order) = mset (map (\<lambda>i. hl_size (base ! i)) [0..<length base])"
    by (simp only: mset_map)
  then have "sizes base order = sum_list (map (\<lambda>i. hl_size (base ! i)) [0..<length base])"
    unfolding sizes_def by (metis sum_mset_sum_list)
  also have "map (\<lambda>i. hl_size (base ! i)) [0..<length base] = map hl_size base"
    by (rule nth_equalityI) simp_all
  finally show ?thesis .
qed

lemma new_ranges_sizes: "map hl_size (new_ranges alignment k lrs) = map (rounded alignment) lrs"
  by (induction lrs arbitrary: k) (simp_all add: rounded_def)

lemma initial_allocation_complete:
  assumes r: "ranges_ok lrs alignment" and i: "initial_allocation lrs alignment limit = (order, s)"
  defines "nbs \<equiv> hc_neighbours (SetLiveRanges lrs alignment)" and "base \<equiv> new_ranges alignment 0 lrs"
  shows "hc_neighbours s = nbs" and "hc_targetSize s = hc_targetSize (SetLiveRanges lrs alignment)"
    and "complete nbs base order (hc_lrs s) (hc_bestSize s)"
proof -
  define s0 where "s0 = (SetLiveRanges lrs alignment)\<lparr>hc_maxAllowedSize := limit, hc_iterations := 0\<rparr>"
  define s1 where "s1 = s0\<lparr>hc_bestSize := MAX_ADDRESS\<rparr>"
  obtain sz s2 where a: "AllocateIndices order s1 = (sz, s2)" and o: "order = SortIndicesOnPrio s0 [0..<length lrs]"
    and s: "s = s2\<lparr>hc_bestSize := sz\<rparr>"
    using i by (auto simp: initial_allocation_def Let_def s0_def s1_def split: prod.splits)
  have n: "hc_neighbours s1 = nbs" "hc_lrs s1 = base" "hc_bestSize s1 = MAX_ADDRESS"
    "hc_targetSize s1 = hc_targetSize (SetLiveRanges lrs alignment)"
    by (simp_all add: s1_def s0_def nbs_def base_def) (simp add: SetLiveRanges_def Let_def)
  have b: "base_ok (interference lrs) (hc_neighbours s1) base" using base_ok_new [OF r] n by (simp add: nbs_def base_def)
  have sr: "list_all2 same_data (hc_lrs s1) base" unfolding n by (simp add: list_all2_conv_all_nth same_data_def)
  have oo: "order_ok (length base) order" using Sort_order_ok by (simp add: o base_def)
  note spec = AllocateIndices_spec [OF b sr oo a]
  have "sum_list (map hl_size base) \<le> MAX_ADDRESS" using r by (simp add: base_def new_ranges_sizes ranges_ok_def)
  then have "sizes base order \<le> MAX_ADDRESS" by (simp only: sizes_order [OF oo])
  with spec(2,3) n show "complete nbs base order (hc_lrs s) (hc_bestSize s)" by (simp add: s)
  show "hc_neighbours s = nbs" "hc_targetSize s = hc_targetSize (SetLiveRanges lrs alignment)"
    using arg_cong [OF spec(1), of hc_neighbours] arg_cong [OF spec(1), of hc_targetSize] n by (simp_all add: s)
qed

lemma complete_aligned:
  assumes c: "complete nbs base order lrs sz" and d: "\<forall>i < length base. alignment dvd hl_size (base ! i)"
  shows "k < length base \<Longrightarrow> alignment dvd hl_address (lrs ! (order ! k))"
proof (induction k rule: less_induct)
  case (less k)
  have p: "placement_ok nbs base order lrs" and l: "length order = length base" and o: "set order = {..<length base}"
    using c order_ok_length by (auto simp: complete_def order_ok_def)
  show ?case
  proof (cases "hl_predecessor (lrs ! (order ! k))")
    case None
    then show ?thesis using placed_lrD(4) [OF p] l less.prems by simp
  next
    case (Some q)
    from placed_lrD(5) [OF p _ Some] l less.prems obtain m where m: "m < k" "order ! m = q"
      "hl_address (lrs ! (order ! k)) = hl_endAddress (lrs ! q)" by auto
    then have "q < length base" using o l less.prems by (metis lessThan_iff nth_mem order_less_trans)
    with m less d placed_lrD(3) [OF p, of m] l show ?thesis by auto
  qed
qed

lemma complete_allocation:
  assumes r: "ranges_ok lrs alignment"
    and c: "complete nbs (new_ranges alignment 0 lrs) order ls sz" and e: "adjacent_ok (length lrs) (interference lrs) nbs"
  shows "allocation_ok lrs alignment (map (\<lambda>i. hl_address (ls ! i)) [0..<length lrs]) sz"
proof -
  let ?base = "new_ranges alignment 0 lrs"
  have p: "placement_ok nbs ?base order ls" and top: "is_top ls order sz" and o: "set order = {..<length lrs}"
    and l: "length order = length lrs" using c order_ok_length by (auto simp: complete_def order_ok_def)
  have sz: "hl_size (?base ! i) = rounded alignment (lrs ! i)" if "i < length lrs" for i using that by (simp add: new_ranges_nth)
  have turn: "\<exists>k < length lrs. order ! k = i" if "i < length lrs" for i
    using that o l by (metis in_set_conv_nth lessThan_iff)
  have ends: "hl_endAddress (ls ! i) = hl_address (ls ! i) + rounded alignment (lrs ! i)" "0 \<le> hl_address (ls ! i)"
    if "i < length lrs" for i
    using turn [OF that] placed_lrD(1,3) [OF p] l sz that by auto
  have "\<forall>i < length ?base. alignment dvd hl_size (?base ! i)"
    using r RoundAway_aligned(1) by (auto simp: new_ranges_nth rounded_def ranges_ok_def list_all_length)
  note al = complete_aligned [OF c this]
  have below: "hl_endAddress (ls ! i) \<le> sz" if "i < length lrs" for i using top o that by (simp add: is_top_def)
  have one: "0 \<le> hl_address (ls ! i) \<and> alignment dvd hl_address (ls ! i) \<and>
      hl_address (ls ! i) + rounded alignment (lrs ! i) \<le> sz" if "i < length lrs" for i
    using turn [OF that] al ends [OF that] below [OF that] by auto
  have apart: "apart (ls ! i) (ls ! j)" if ij: "i < length lrs" "j < i" "coexist (lrs ! i) (lrs ! j)" for i j
  proof -
    have "(i, j) \<in> interference lrs" "(j, i) \<in> interference lrs" using ij by (auto simp: interference_def coexist_def)
    then have nb: "j \<in> set (nbs ! i)" "i \<in> set (nbs ! j)" using e ij by (auto simp: adjacent_ok_def)
    obtain ki kj where k: "ki < length lrs" "order ! ki = i" "kj < length lrs" "order ! kj = j"
      using turn ij by (meson order_less_trans)
    then have "ki \<noteq> kj" using ij by auto
    then consider "ki < kj" | "kj < ki" by linarith
    then show ?thesis
    proof cases
      case 1
      then show ?thesis using placed_lrD(6) [OF p _ 1] k l nb by auto
    next
      case 2
      then have "apart (ls ! j) (ls ! i)" using placed_lrD(6) [OF p _ 2] k l nb by auto
      then show ?thesis by (auto simp: apart_def)
    qed
  qed
  have "hl_address (ls ! i) + rounded alignment (lrs ! i) \<le> hl_address (ls ! j) \<or>
      hl_address (ls ! j) + rounded alignment (lrs ! j) \<le> hl_address (ls ! i)"
    if "i < length lrs" "j < i" "coexist (lrs ! i) (lrs ! j)" for i j
    using apart [OF that] ends(1) [of i] ends(1) [of j] that by (simp add: apart_def)
  with one top show ?thesis unfolding allocation_ok_def by (simp add: is_top_def)
qed

lemma hill_climb_ends:
  assumes r: "ranges_ok lrs alignment"
  obtains addresses sz where "HillClimbAllocateLiveRanges rng lrs alignment limit = Some (addresses, sz)"
    "allocation_ok lrs alignment addresses sz" "sz \<le> hc_bestSize (snd (initial_allocation lrs alignment limit))"
proof -
  obtain order s where i: "initial_allocation lrs alignment limit = (order, s)" by (metis prod.exhaust)
  let ?nbs = "hc_neighbours (SetLiveRanges lrs alignment)" and ?base = "new_ranges alignment 0 lrs"
  note init = initial_allocation_complete [OF r i]
  note e = SetLiveRanges_edges [OF r]
  show thesis
  proof (cases "hc_bestSize s \<le> hc_targetSize s")
    case True
    then have "HillClimbAllocateLiveRanges rng lrs alignment limit =
        Some (map (\<lambda>i. hl_address (hc_lrs s ! i)) [0..<length lrs], hc_bestSize s)"
      by (simp add: HillClimbAllocateLiveRanges_def i)
    with that complete_allocation [OF r init(3) e] i show thesis by simp
  next
    case False
    have "lrs \<noteq> []"
    proof
      assume "lrs = []"
      with init(3) have "hc_bestSize s = 0" by (auto simp: complete_def is_top_def order_ok_def)
      moreover have "0 \<le> hc_targetSize s"
        using fold_max_bounds(1) [of 0 "\<lambda>x. x"] by (simp add: init(2) SetLiveRanges_def Let_def)
      ultimately show False using False by simp
    qed
    then have ne: "?base \<noteq> []" by (metis length_0_conv new_ranges_length)
    have b: "base_ok (interference lrs) (hc_neighbours s) ?base" using base_ok_new [OF r] init(1) by simp
    have c: "complete (hc_neighbours s) ?base order (hc_lrs s) (hc_bestSize s)" using init(1,3) by simp
    from search_loop_ends [OF b c ne, of rng MAX_ITERATIONS 0 0] obtain s' order' where
      s': "Search rng order MAX_ITERATIONS s = Some s'" "complete ?nbs ?base order' (hc_lrs s') (hc_bestSize s')"
      "hc_bestSize s' \<le> hc_bestSize s" by (auto simp: Search_def init(1))
    with False i have "HillClimbAllocateLiveRanges rng lrs alignment limit =
        Some (map (\<lambda>i. hl_address (hc_lrs s' ! i)) [0..<length lrs], hc_bestSize s')"
      by (simp add: HillClimbAllocateLiveRanges_def)
    with that complete_allocation [OF r s'(2) e] s'(3) i show thesis by simp
  qed
qed

section \<open>The contract of an allocator\<close>

text \<open>The bytes that are alive at a time.\<close>

definition demand :: "LiveRange list \<Rightarrow> int \<Rightarrow> int \<Rightarrow> int" where
  "demand lrs alignment t = sum_list (map (rounded alignment) (filter (\<lambda>lr. alive lr t) lrs))"

lemma demand_sum: "demand lrs alignment t = (\<Sum>i \<in> {i. i < length lrs \<and> alive (lrs ! i) t}. rounded alignment (lrs ! i))"
proof (induction lrs rule: rev_induct)
  case (snoc lr lrs)
  have "{i. i < length (lrs @ [lr]) \<and> alive ((lrs @ [lr]) ! i) t} =
      {i. i < length lrs \<and> alive (lrs ! i) t} \<union> (if alive lr t then {length lrs} else {})"
    by (auto simp: nth_append less_Suc_eq split: if_splits)
  moreover have "(\<Sum>i \<in> {i. i < length lrs \<and> alive (lrs ! i) t}. rounded alignment ((lrs @ [lr]) ! i)) =
      (\<Sum>i \<in> {i. i < length lrs \<and> alive (lrs ! i) t}. rounded alignment (lrs ! i))"
    by (rule sum.cong) (auto simp: nth_append)
  ultimately show ?case using snoc by (auto simp: demand_def)
qed (simp add: demand_def)

lemma rounded_nonneg: "ranges_ok lrs alignment \<Longrightarrow> lr \<in> set lrs \<Longrightarrow> 0 \<le> rounded alignment lr"
  unfolding ranges_ok_def rounded_def using RoundAway_aligned(2) [of "lr_size lr" alignment]
  by (force simp: list_all_iff)

text \<open>Ranges alive at one time occupy disjoint intervals, so no allocation is smaller than their sum.\<close>

lemma demand_le_size:
  assumes r: "ranges_ok lrs alignment" and a: "allocation_ok lrs alignment addresses sz"
  shows "demand lrs alignment t \<le> sz"
proof -
  let ?A = "{i. i < length lrs \<and> alive (lrs ! i) t}"
  let ?I = "\<lambda>i. {addresses ! i..<addresses ! i + rounded alignment (lrs ! i)}"
  have "finite ?A" by simp
  have disj: "?I i \<inter> ?I j = {}" if "i \<in> ?A" "j \<in> ?A" "i \<noteq> j" for i j
  proof -
    have "coexist (lrs ! i) (lrs ! j)" "coexist (lrs ! j) (lrs ! i)" using that by (auto simp: coexist_iff)
    then have "addresses ! i + rounded alignment (lrs ! i) \<le> addresses ! j \<or>
        addresses ! j + rounded alignment (lrs ! j) \<le> addresses ! i"
      using a that by (cases i j rule: linorder_cases) (auto simp: allocation_ok_def)
    then show ?thesis by auto
  qed
  have nn: "0 \<le> rounded alignment (lrs ! i)" if "i < length lrs" for i using rounded_nonneg [OF r] that by simp
  have "demand lrs alignment t = (\<Sum>i \<in> ?A. int (card (?I i)))"
    unfolding demand_sum by (rule sum.cong) (auto simp: nn)
  also have "\<dots> = int (card (\<Union>i \<in> ?A. ?I i))"
    using disj by (subst card_UN_disjoint) auto
  also have "\<dots> \<le> int (card {0..<sz})"
  proof -
    have "(\<Union>i \<in> ?A. ?I i) \<subseteq> {0..<sz}"
    proof
      fix x assume "x \<in> (\<Union>i \<in> ?A. ?I i)"
      then obtain i where "i < length lrs" "addresses ! i \<le> x" "x < addresses ! i + rounded alignment (lrs ! i)" by auto
      moreover from this(1) a have "0 \<le> addresses ! i" "addresses ! i + rounded alignment (lrs ! i) \<le> sz"
        by (simp_all add: allocation_ok_def)
      ultimately show "x \<in> {0..<sz}" by simp
    qed
    then show ?thesis by (intro of_nat_mono card_mono) auto
  qed
  also have "\<dots> = sz" using a by (simp add: allocation_ok_def)
  finally show ?thesis .
qed

text \<open>The least size that the hill climb allocator computes is the highest demand.\<close>

lemma sum_sizes_demand: "sum_sizes (new_ranges alignment 0 lrs) (lrsAtTime (new_ranges alignment 0 lrs) t) = demand lrs alignment t"
proof -
  let ?b = "new_ranges alignment 0 lrs"
  have "sum_sizes ?b is = sum_list (map (\<lambda>i. hl_size (?b ! i)) is)" for "is"
  proof -
    have "foldl (\<lambda>a i. a + f i) (k :: int) is = k + sum_list (map f is)" for k and f :: "nat \<Rightarrow> int"
      by (induction "is" arbitrary: k) simp_all
    then show ?thesis by (simp add: sum_sizes_def)
  qed
  also have "sum_list (map (\<lambda>i. hl_size (?b ! i)) (lrsAtTime ?b t)) = (\<Sum>i \<in> set (lrsAtTime ?b t). hl_size (?b ! i))"
    by (simp add: sum_list_distinct_conv_sum_set lrsAtTime_new)
  also have "\<dots> = demand lrs alignment t"
    unfolding demand_sum lrsAtTime_new by (rule sum.cong) (auto simp: new_ranges_nth)
  finally show ?thesis .
qed

lemma minRequiredSize_eq:
  "hc_minRequiredSize (SetLiveRanges lrs alignment) =
    foldl (\<lambda>m t. max m (demand lrs alignment t)) 0 [0..foldl (\<lambda>m lr. max m (lr_endTime lr)) 0 lrs]"
proof -
  have "foldl max k (map f xs) = foldl (\<lambda>m x. max m (f x)) k xs" for k :: int and f :: "int \<Rightarrow> int" and xs
    by (induction xs arbitrary: k) simp_all
  then show ?thesis by (simp add: SetLiveRanges_def Let_def sum_sizes_demand)
qed

lemma minRequiredSize_bounds:
  assumes r: "ranges_ok lrs alignment"
  shows "demand lrs alignment t \<le> hc_minRequiredSize (SetLiveRanges lrs alignment)"
    and "hc_minRequiredSize (SetLiveRanges lrs alignment) = 0 \<or>
      (\<exists>t. 0 \<le> t \<and> hc_minRequiredSize (SetLiveRanges lrs alignment) = demand lrs alignment t)"
proof -
  let ?e = "foldl (\<lambda>m lr. max m (lr_endTime lr)) 0 lrs"
  show "demand lrs alignment t \<le> hc_minRequiredSize (SetLiveRanges lrs alignment)"
  proof (cases "0 \<le> t \<and> t \<le> ?e")
    case True
    then show ?thesis unfolding minRequiredSize_eq
      using fold_max_bounds(2) [of t "[0..?e]" "demand lrs alignment" 0] by simp
  next
    case False
    have "\<not> alive lr t" if "lr \<in> set lrs" for lr
      using r False that fold_max_bounds(2) [OF that, of lr_endTime 0] by (force simp: ranges_ok_def list_all_iff alive_def)
    then have "demand lrs alignment t = 0" by (simp add: demand_def filter_False)
    then show ?thesis unfolding minRequiredSize_eq using fold_max_bounds(1) [of 0 "demand lrs alignment"] by simp
  qed
  show "hc_minRequiredSize (SetLiveRanges lrs alignment) = 0 \<or>
      (\<exists>t. 0 \<le> t \<and> hc_minRequiredSize (SetLiveRanges lrs alignment) = demand lrs alignment t)"
    unfolding minRequiredSize_eq using fold_max_bounds(3) [of "demand lrs alignment" 0 "[0..?e]"] by auto
qed

lemma minRequiredSize_least:
  assumes "ranges_ok lrs alignment" and "allocation_ok lrs alignment addresses sz"
  shows "hc_minRequiredSize (SetLiveRanges lrs alignment) \<le> sz"
  using minRequiredSize_bounds(2) [OF assms(1)] demand_le_size [OF assms] assms(2) by (auto simp: allocation_ok_def)

locale tensor_allocator =
  fixes allocate :: "LiveRange list \<Rightarrow> int \<Rightarrow> (int list \<times> int) option"
  assumes sound: "ranges_ok lrs alignment \<Longrightarrow>
    \<exists>addresses sz. allocate lrs alignment = Some (addresses, sz) \<and> allocation_ok lrs alignment addresses sz"
begin

lemma allocates:
  assumes "ranges_ok lrs alignment"
  obtains addresses sz where "allocate lrs alignment = Some (addresses, sz)" "allocation_ok lrs alignment addresses sz"
    "hc_minRequiredSize (SetLiveRanges lrs alignment) \<le> sz"
  using sound [OF assms] minRequiredSize_least [OF assms] by blast

end

interpretation hill_climb: tensor_allocator "\<lambda>lrs alignment. HillClimbAllocateLiveRanges rng lrs alignment limit"
  for rng limit
proof
  fix lrs alignment
  assume "ranges_ok lrs alignment"
  from hill_climb_ends [OF this, of rng limit] show "\<exists>addresses sz.
      HillClimbAllocateLiveRanges rng lrs alignment limit = Some (addresses, sz) \<and> allocation_ok lrs alignment addresses sz"
    by metis
qed

lemma linear_loop_spec:
  assumes "0 < alignment"
  shows "linear_loop alignment address lrs = (addresses, sz) \<Longrightarrow> \<forall>lr \<in> set lrs. 0 \<le> lr_size lr \<Longrightarrow>
    0 \<le> address \<Longrightarrow> alignment dvd address \<Longrightarrow>
    length addresses = length lrs \<and> address \<le> sz \<and>
    (\<forall>i < length lrs. address \<le> addresses ! i \<and> alignment dvd addresses ! i \<and> addresses ! i + rounded alignment (lrs ! i) \<le> sz) \<and>
    (\<forall>i < length lrs. \<forall>j < i. addresses ! j + rounded alignment (lrs ! j) \<le> addresses ! i)"
proof (induction lrs arbitrary: address addresses)
  case (Cons lr lrs)
  obtain as where l: "linear_loop alignment (address + rounded alignment lr) lrs = (as, sz)" and as: "addresses = address # as"
    using Cons.prems(1) by (auto simp: rounded_def split: prod.splits)
  have "0 \<le> lr_size lr" using Cons.prems(2) by simp
  note ra = RoundAway_aligned [OF this assms, folded rounded_def]
  have nn: "0 \<le> rounded alignment lr" using ra(2) \<open>0 \<le> lr_size lr\<close> by simp
  have "alignment dvd address + rounded alignment lr" using Cons.prems(4) ra(1) by simp
  from Cons.IH [OF l _ _ this] Cons.prems(2,3) nn have
    IH: "length as = length lrs" "address + rounded alignment lr \<le> sz"
    "\<And>i. i < length lrs \<Longrightarrow> address + rounded alignment lr \<le> as ! i \<and> alignment dvd as ! i \<and> as ! i + rounded alignment (lrs ! i) \<le> sz"
    "\<And>i j. i < length lrs \<Longrightarrow> j < i \<Longrightarrow> as ! j + rounded alignment (lrs ! j) \<le> as ! i" by simp_all
  have one: "address \<le> (address # as) ! i \<and> alignment dvd (address # as) ! i \<and>
      (address # as) ! i + rounded alignment ((lr # lrs) ! i) \<le> sz" if "i < length (lr # lrs)" for i
    using that IH(2) IH(3) [of "i - 1"] nn Cons.prems(4) by (cases i) auto
  have two: "(address # as) ! j + rounded alignment ((lr # lrs) ! j) \<le> (address # as) ! i" if "i < length (lr # lrs)" "j < i" for i j
    using that IH(3) [of "i - 1"] IH(4) [of "i - 1" "j - 1"] by (cases i; cases j) auto
  show ?case unfolding as using IH(1,2) nn one two by simp
qed auto

interpretation linear: tensor_allocator "\<lambda>lrs alignment. Some (LinearAllocateLiveRanges lrs alignment)"
proof
  fix lrs alignment
  assume r: "ranges_ok lrs alignment"
  obtain addresses sz where l: "LinearAllocateLiveRanges lrs alignment = (addresses, sz)" by (metis prod.exhaust)
  from r have "0 < alignment" "\<forall>lr \<in> set lrs. 0 \<le> lr_size lr" by (auto simp: ranges_ok_def list_all_iff)
  with linear_loop_spec [OF this(1) l [unfolded LinearAllocateLiveRanges_def]]
  have "allocation_ok lrs alignment addresses sz" by (auto simp: allocation_ok_def)
  with l show "\<exists>addresses sz. Some (LinearAllocateLiveRanges lrs alignment) = Some (addresses, sz) \<and>
      allocation_ok lrs alignment addresses sz" by simp
qed

end
