(* ===== verification/NAI_MemoryUsage.thy ===== *)
theory NAI_MemoryUsage
  imports NAI_AllocatorProof
begin

text \<open>
  The memory usage over time, the reserved workspace intervals and the incremental linear allocator,
  and the properties of the tensor allocators.  The peak of the usage snapshot is the least size that
  the hill climb allocator aims at and no allocator can undercut.
\<close>

section \<open>Usage over time\<close>








section \<open>The reserved workspace\<close>

text \<open>The bytes that the snapshot reserves at a time, and the reserved intervals that cover it.\<close>

definition reserved_at :: "int \<Rightarrow> int list \<Rightarrow> nat \<Rightarrow> int" where
  "reserved_at alignment used t = RoundAway_int (used ! t) alignment"

definition covering :: "nat \<Rightarrow> (nat \<times> nat \<times> int) list \<Rightarrow> int list" where
  "covering t ranges = map (\<lambda>(s, e, b). b) (filter (\<lambda>(s, e, b). s \<le> t \<and> t \<le> e) ranges)"

lemma covering_simps:
  "covering t [] = []" "covering t (xs @ ys) = covering t xs @ covering t ys"
  "covering t [(s, e, b)] = (if s \<le> t \<and> t \<le> e then [b] else [])"
  by (simp_all add: covering_def)

lemma reserve_loop_spec:
  "start \<le> time \<Longrightarrow> (bytes \<noteq> 0 \<longrightarrow> start < time) \<Longrightarrow> time \<le> n + 1 \<Longrightarrow> (time = n + 1 \<longrightarrow> bytes = 0) \<Longrightarrow> 0 \<le> bytes \<Longrightarrow>
    \<forall>t < n. 0 \<le> reserved_at alignment used t \<Longrightarrow>
    covering t (reserve_loop alignment used n time start bytes) =
      (if t < start \<or> n \<le> t then [] else if t < time then (if 0 < bytes then [bytes] else [])
       else if 0 < reserved_at alignment used t then [reserved_at alignment used t] else [])"
proof (induction alignment used n time start bytes rule: reserve_loop.induct)
  case (1 alignment used n time start bytes)
  show ?case
  proof (cases "n < time")
    case True
    then show ?thesis using 1(3-8) by (auto simp: reserve_loop.simps [of _ _ n time] covering_simps)
  next
    case False
    define b where "b = (if time < n then reserved_at alignment used time else 0)"
    have b0: "0 \<le> b" using 1(8) by (simp add: b_def)
    have e: "reserve_loop alignment used n time start bytes =
        (if b = bytes then reserve_loop alignment used n (time + 1) start bytes
         else (if 0 < bytes then [(start, time - 1, bytes)] else []) @ reserve_loop alignment used n (time + 1) time b)"
      using False by (simp add: reserve_loop.simps [of _ _ n time] b_def reserved_at_def Let_def)
    show ?thesis
    proof (cases "b = bytes")
      case True
      have "covering t (reserve_loop alignment used n (time + 1) start bytes) =
          (if t < start \<or> n \<le> t then [] else if t < time + 1 then (if 0 < bytes then [bytes] else [])
           else if 0 < reserved_at alignment used t then [reserved_at alignment used t] else [])"
        using 1(1) [OF False] True False 1(3-8) by (auto simp: b_def reserved_at_def split: if_splits)
      then show ?thesis using e True by (auto simp: b_def less_Suc_eq split: if_splits)
    next
      case neq: False
      have "covering t (reserve_loop alignment used n (time + 1) time b) =
          (if t < time \<or> n \<le> t then [] else if t < time + 1 then (if 0 < b then [b] else [])
           else if 0 < reserved_at alignment used t then [reserved_at alignment used t] else [])"
        using 1(2) [OF False] neq False 1(3-8) b0 by (auto simp: b_def reserved_at_def split: if_splits)
      then show ?thesis using e neq 1(3-7) False
        by (auto simp: covering_simps b_def less_Suc_eq split: if_splits)
    qed
  qed
qed

text \<open>At every time exactly the requested bytes are reserved, by at most one interval.\<close>

lemma reserved_ranges_cover:
  assumes "0 < alignment" and "\<forall>x \<in> set used. 0 \<le> x"
  shows "covering t (reserved_ranges alignment used endTime) =
    (if t < min (length used) (nat endTime) \<and> 0 < reserved_at alignment used t then [reserved_at alignment used t] else [])"
proof -
  have "0 \<le> reserved_at alignment used t" if "t < length used" for t
    using assms that RoundAway_aligned(2) [of "used ! t" alignment]
    by (simp add: reserved_at_def) (meson nth_mem order_trans)
  then show ?thesis
    unfolding reserved_ranges_def Let_def by (subst reserve_loop_spec) auto
qed

section \<open>The incremental allocator\<close>

text \<open>\<open>f\<close> gives the rounded size of the tensors of each equivalence id.\<close>

definition incremental_ok :: "int \<Rightarrow> (nat \<Rightarrow> int) \<Rightarrow> IncrementalLinearAllocator \<Rightarrow> bool" where
  "incremental_ok alignment f s \<longleftrightarrow> 0 \<le> il_highestAddress s \<and> alignment dvd il_highestAddress s \<and>
     (\<forall>e a. il_allocatedAddresses s e = Some a \<longrightarrow> 0 \<le> a \<and> alignment dvd a \<and> a + f e \<le> il_highestAddress s) \<and>
     (\<forall>e e' a a'. il_allocatedAddresses s e = Some a \<longrightarrow> il_allocatedAddresses s e' = Some a' \<longrightarrow> e \<noteq> e' \<longrightarrow>
        a + f e \<le> a' \<or> a' + f e' \<le> a)"

definition sizes_agree :: "int \<Rightarrow> (nat \<Rightarrow> int) \<Rightarrow> LiveRange list \<Rightarrow> bool" where
  "sizes_agree alignment f lrs \<longleftrightarrow> 0 < alignment \<and>
     list_all (\<lambda>lr. 0 \<le> lr_size lr \<and> (case lr_equivalence lr of None \<Rightarrow> True | Some e \<Rightarrow> rounded alignment lr = f e)) lrs"

lemma incremental_step:
  assumes s: "incremental_ok alignment f s" and e: "il_allocatedAddresses s e = None" and f: "0 \<le> f e" "alignment dvd f e"
  shows "incremental_ok alignment f \<lparr>il_allocatedAddresses = (il_allocatedAddresses s)(e \<mapsto> il_highestAddress s),
    il_highestAddress = il_highestAddress s + f e\<rparr>"
proof -
  have "a + f e' \<le> il_highestAddress s" if "il_allocatedAddresses s e' = Some a" for e' a
    using s that by (simp add: incremental_ok_def)
  then show ?thesis using s f unfolding incremental_ok_def
    by (auto split: if_splits) (metis add_increasing2)
qed

lemma incremental_loop_spec:
  "incremental_loop alignment lrs s = (addresses, s') \<Longrightarrow> incremental_ok alignment f s \<Longrightarrow> sizes_agree alignment f lrs \<Longrightarrow>
    incremental_ok alignment f s' \<and> il_allocatedAddresses s \<subseteq>\<^sub>m il_allocatedAddresses s' \<and>
    il_highestAddress s \<le> il_highestAddress s' \<and>
    addresses = map (\<lambda>lr. Option.bind (lr_equivalence lr) (il_allocatedAddresses s')) lrs \<and>
    (\<forall>lr \<in> set lrs. \<forall>e. lr_equivalence lr = Some e \<longrightarrow> il_allocatedAddresses s' e \<noteq> None)"
proof (induction lrs arbitrary: s addresses)
  case (Cons lr lrs)
  have sa: "sizes_agree alignment f lrs" using Cons.prems(3) by (simp add: sizes_agree_def)
  show ?case
  proof (cases "lr_equivalence lr")
    case None
    with Cons.prems(1) obtain as where "incremental_loop alignment lrs s = (as, s')" "addresses = None # as"
      by (auto split: prod.splits)
    with Cons.IH [OF _ Cons.prems(2) sa] None show ?thesis by auto
  next
    case (Some e)
    show ?thesis
    proof (cases "il_allocatedAddresses s e")
      case None
      let ?s = "\<lparr>il_allocatedAddresses = (il_allocatedAddresses s)(e \<mapsto> il_highestAddress s),
        il_highestAddress = il_highestAddress s + f e\<rparr>"
      have f: "rounded alignment lr = f e" "0 < alignment" "0 \<le> lr_size lr"
        using Cons.prems(3) Some by (simp_all add: sizes_agree_def)
      have fe: "0 \<le> f e" "alignment dvd f e" using RoundAway_aligned [OF f(3,2)] f by (simp_all add: rounded_def)
      from Cons.prems(1) Some None f(1) obtain as where
        r: "incremental_loop alignment lrs ?s = (as, s')" "addresses = Some (il_highestAddress s) # as"
        by (auto simp: rounded_def Let_def split: prod.splits)
      note IH = Cons.IH [OF r(1) incremental_step [OF Cons.prems(2) None fe] sa]
      have m: "(il_allocatedAddresses s)(e \<mapsto> il_highestAddress s) \<subseteq>\<^sub>m il_allocatedAddresses s'"
        using IH unfolding IncrementalLinearAllocator.simps by blast
      then have "il_allocatedAddresses s' e = Some (il_highestAddress s)" by (simp add: map_le_def)
      moreover have "il_allocatedAddresses s \<subseteq>\<^sub>m (il_allocatedAddresses s)(e \<mapsto> il_highestAddress s)"
        using None by (auto simp: map_le_def)
      from map_le_trans [OF this m] have "il_allocatedAddresses s \<subseteq>\<^sub>m il_allocatedAddresses s'" .
      ultimately show ?thesis using IH Some r(2) fe by auto
    next
      case (Some a)
      with Cons.prems(1) \<open>lr_equivalence lr = Some e\<close> obtain as where
        r: "incremental_loop alignment lrs s = (as, s')" "addresses = Some a # as" by (auto split: prod.splits)
      note IH = Cons.IH [OF r(1) Cons.prems(2) sa]
      then have "il_allocatedAddresses s' e = Some a" using Some by (metis domI map_le_def)
      with IH r(2) \<open>lr_equivalence lr = Some e\<close> show ?thesis by auto
    qed
  qed
qed simp

section \<open>Properties of the allocators\<close>

text \<open>C22: For every random sequence and size limit the hill climb allocator returns an allocation in which
  ranges alive at a common time share no byte and addresses are aligned.  Its size is between the highest
  demand and the size of its first heuristic solution, and when the size is the highest demand no
  allocation is smaller.\<close>

theorem hill_climb_correct:
  assumes "ranges_ok lrs alignment"
  shows "\<exists>addresses sz. HillClimbAllocateLiveRanges rng lrs alignment limit = Some (addresses, sz) \<and>
    allocation_ok lrs alignment addresses sz \<and>
    hc_minRequiredSize (SetLiveRanges lrs alignment) \<le> sz \<and>
    sz \<le> hc_bestSize (snd (initial_allocation lrs alignment limit)) \<and>
    (\<forall>addresses' sz'. sz = hc_minRequiredSize (SetLiveRanges lrs alignment) \<longrightarrow>
       allocation_ok lrs alignment addresses' sz' \<longrightarrow> sz \<le> sz')"
proof -
  from hill_climb_ends [OF assms, of rng limit] obtain addresses sz where
    "HillClimbAllocateLiveRanges rng lrs alignment limit = Some (addresses, sz)" "allocation_ok lrs alignment addresses sz"
    "sz \<le> hc_bestSize (snd (initial_allocation lrs alignment limit))" .
  with minRequiredSize_least [OF assms] show ?thesis by blast
qed

text \<open>Four ranges: two long ones and two that do not meet.\<close>

definition sample_range :: "nat \<Rightarrow> int \<Rightarrow> int \<Rightarrow> int \<Rightarrow> LiveRange" where
  "sample_range e start end' sz =
     \<lparr>lr_equivalence = Some e, lr_startTime = start, lr_endTime = end', lr_size = sz, lr_usage = OpLocal, lr_opDelay = 0\<rparr>"

definition sample_ranges :: "LiveRange list" where
  "sample_ranges = [sample_range 0 0 4 100, sample_range 1 1 2 40, sample_range 2 3 6 64, sample_range 3 5 7 90]"

lemma sample_ranges_ok: "ranges_ok sample_ranges 32"
  by (simp add: ranges_ok_def sample_ranges_def sample_range_def rounded_def MAX_ADDRESS_def) code_simp

theorem hill_climb_correct_witness:
  "\<exists>addresses sz. HillClimbAllocateLiveRanges (\<lambda>k. 7 * k + 3) sample_ranges 32 4096 = Some (addresses, sz) \<and>
    allocation_ok sample_ranges 32 addresses sz"
  using hill_climb_correct [OF sample_ranges_ok, of "\<lambda>k. 7 * k + 3" 4096] by blast

text \<open>A live range is placed at the lowest address that no allocated neighbour blocks.\<close>

lemma placement_first_fit:
  fixes lrs :: "HillClimbLiveRange list" and nbs :: "nat list list" and i :: nat
  assumes "i < length lrs" and "hl_id (lrs ! i) = i"
  defines "lr \<equiv> AllocateLr nbs i lrs ! i"
  shows "0 \<le> hl_address lr \<and> hl_endAddress lr = hl_address lr + hl_size (lrs ! i) \<and>
    \<not> blocked lrs (nbs ! i) (hl_size (lrs ! i)) (hl_address lr) \<and>
    (\<forall>x. 0 \<le> x \<and> x < hl_address lr \<longrightarrow> blocked lrs (nbs ! i) (hl_size (lrs ! i)) x)"
proof -
  obtain a p where pl: "place_loop lrs (hl_size (lrs ! i)) (nbs ! i) 0 None = (a, p)" by (metis prod.exhaust)
  have "hl_address lr = a" "hl_endAddress lr = a + hl_size (lrs ! i)"
    using assms(1,2) by (simp_all add: lr_def AllocateLr_def Let_def pl)
  moreover from place_loop_spec [OF pl] have "0 \<le> a" by (auto simp: moves_to_def)
  ultimately show ?thesis using place_loop_spec [OF pl] by auto
qed

lemma placement_first_fit_witness:
  "\<not> blocked (new_ranges 32 0 sample_ranges) [1, 2] 128
     (hl_address (AllocateLr [[1, 2], [0], [0], []] 0 (new_ranges 32 0 sample_ranges) ! 0))"
  using placement_first_fit [of 0 "new_ranges 32 0 sample_ranges" "[[1, 2], [0], [0], []]"]
  by (simp add: sample_ranges_def sample_range_def RoundAway_int_def Let_def smod_int_alt_def)



text \<open>C24: The incremental allocator keeps every address it has given out, gives equivalent tensors the same
  address and tensors that are not equivalent disjoint memory, provided equivalent tensors have one size.\<close>

theorem incremental_allocator_correct:
  assumes "incremental_ok alignment f s" and "sizes_agree alignment f lrs"
    and "IncrementalAllocate s lrs alignment = (addresses, sz, s')"
  shows "incremental_ok alignment f s' \<and> il_allocatedAddresses s \<subseteq>\<^sub>m il_allocatedAddresses s' \<and>
    il_highestAddress s \<le> sz \<and> sz = il_highestAddress s' \<and>
    addresses = map (\<lambda>lr. Option.bind (lr_equivalence lr) (il_allocatedAddresses s')) lrs \<and>
    (\<forall>lr \<in> set lrs. \<forall>e. lr_equivalence lr = Some e \<longrightarrow> il_allocatedAddresses s' e \<noteq> None)"
proof -
  from assms(3) have "incremental_loop alignment lrs s = (addresses, s')" and "sz = il_highestAddress s'"
    by (auto simp: IncrementalAllocate_def split: prod.splits)
  with incremental_loop_spec [OF this(1) assms(1,2)] show ?thesis by simp
qed

definition no_addresses :: IncrementalLinearAllocator where
  "no_addresses = \<lparr>il_allocatedAddresses = Map.empty, il_highestAddress = 0\<rparr>"

theorem incremental_allocator_correct_witness:
  "incremental_ok 32 ((!) [128, 64, 64, 96])
    (snd (snd (IncrementalAllocate no_addresses (sample_ranges @ sample_ranges) 32)))"
proof -
  have "incremental_ok 32 ((!) [128, 64, 64, 96]) no_addresses" by (simp add: incremental_ok_def no_addresses_def)
  moreover have "sizes_agree 32 ((!) [128, 64, 64, 96]) (sample_ranges @ sample_ranges)"
    by (simp add: sizes_agree_def sample_ranges_def sample_range_def rounded_def) code_simp
  ultimately show ?thesis using incremental_allocator_correct by (metis prod.collapse)
qed

end
