(* ===== verification/NAI_Workspace.thy ===== *)
theory NAI_Workspace
  imports NAI_MemoryState NAI_Generator NAI_Allocator "HOL-Library.AList" "HOL-Library.Product_Lexorder"
begin

text \<open>
  How the command generator sizes, reserves and places the scratch workspace of an operation
  (\<^verbatim>\<open>compiler/neural_ai_command_generator.cpp\<close>): the row tiles of spilled convolutions, the rolling halos
  of a cascade, the reservation handed to the scheduler, and \<^verbatim>\<open>SelectWorkspace\<close>, which places the parts
  of a workspace around the live tensors and keeps the record of the memory's content true.

  Sizes and addresses are \<open>u32\<close>; the \<^verbatim>\<open>uint64_t\<close> sums that are only compared are sums of natural
  numbers, since they cannot wrap.  An operation is its \<^verbatim>\<open>Uid\<close> and an unordered map is a list of
  pairs in its iteration order, so the theorems hold for every order.
\<close>

section \<open>Constants and shapes\<close>

definition DMAAlignment :: int where "DMAAlignment = 32"
definition MaxPointwiseSpillRows :: u32 where "MaxPointwiseSpillRows = 256"
definition PaddingSeedBytes :: u32 where "PaddingSeedBytes = 32"
definition INVALID_UID :: nat where "INVALID_UID = 2 ^ 32 - 1"

definition ReshapeToNHWC :: "Shape \<Rightarrow> Shape" where
  "ReshapeToNHWC shape =
     (let n = length shape in
      if n \<le> 4 then replicate (4 - n) 1 @ shape
      else prod_list (take (n - 3) shape) # drop (n - 3) shape)"

definition clamp_int :: "int \<Rightarrow> int \<Rightarrow> int \<Rightarrow> int" where
  "clamp_int v lo hi = (if v < lo then lo else if hi < v then hi else v)"

text \<open>\<^verbatim>\<open>uint32_t(RoundAway(int(bytes), DMAAlignment))\<close>.\<close>

definition round_dma :: "u32 \<Rightarrow> u32" where
  "round_dma b = word_of_int (RoundAway_int (sint b) DMAAlignment)"

definition aligned_u64 :: "u64 \<Rightarrow> u64" where
  "aligned_u64 b = (b + word_of_int DMAAlignment - 1) div word_of_int DMAAlignment * word_of_int DMAAlignment"

section \<open>The schedule, as far as workspaces need it\<close>

record OpCost =
  oc_timeIndex :: int
  oc_cascade :: int

record AllocatedTensor =
  at_address :: int
  at_isGraphInput :: bool
  at_isGraphOutput :: bool
  at_isConstant :: bool
  at_inL2 :: bool

record TensorRange =
  tr_startTime :: int
  tr_endTime :: int
  tr_size :: int
  tr_tensors :: "AllocatedTensor list"

record Schedule =
  sch_costs :: "(nat \<times> OpCost) list"
  sch_featureMaps :: "TensorRange list option"
  sch_staging :: "TensorRange list option"
  sch_snapshot :: "LRMemory list"

definition schedule_cost :: "Schedule \<Rightarrow> nat \<Rightarrow> OpCost option" where
  "schedule_cost schedule uid = map_of (sch_costs schedule) uid"

definition MemoryUsageAt :: "Schedule \<Rightarrow> int \<Rightarrow> int" where
  "MemoryUsageAt schedule t =
     (if 0 \<le> t \<and> t < int (length (sch_snapshot schedule)) then Used (sch_snapshot schedule ! nat t) else 0)"

record WorkspaceSize =
  ws_stage :: u32
  ws_halo :: u32
  ws_haloRows :: u32
  ws_partial :: u32
  ws_stripe :: u32

definition no_workspace :: WorkspaceSize where
  "no_workspace = \<lparr>ws_stage = 0, ws_halo = 0, ws_haloRows = 0, ws_partial = 0, ws_stripe = 0\<rparr>"

section \<open>Tiles of spilled operations\<close>

record Kernel =
  kn_sizeX :: int
  kn_sizeY :: int
  kn_strideX :: int
  kn_strideY :: int
  kn_padTop :: int
  kn_padLeft :: int
  kn_padBottom :: int
  kn_padRight :: int

text \<open>A throw of the source is \<open>None\<close>; the output width is positive in every call.\<close>

definition LinebufferSpillStripeRows :: "Shape \<Rightarrow> u32" where
  "LinebufferSpillStripeRows ofmShape =
     (let ofm = ReshapeToNHWC ofmShape in word_of_int (min (Height ofm) (max 1 (256 div Width ofm))))"

definition WithPaddingSeed :: "u32 \<Rightarrow> u32 option" where
  "WithPaddingSeed b = (if 0xFFFFFFFF - PaddingSeedBytes < b then None else Some (b + PaddingSeedBytes))"

definition CascadeLinebufferStripeBytes :: "u32 \<Rightarrow> Shape \<Rightarrow> bool \<Rightarrow> u32 option" where
  "CascadeLinebufferStripeBytes inputBytes ofm spillOutput =
     (let outputOffset = aligned_u64 (ucast inputBytes);
          b = (if spillOutput then outputOffset + u64_of (Height ofm) * u64_of (Width ofm) * 32
               else ucast inputBytes)
      in if 0xFFFFFFFF < b then None else WithPaddingSeed (ucast b))"

text \<open>The null pointers \<^verbatim>\<open>schedule\<close> and \<^verbatim>\<open>cost\<close> are \<open>None\<close>.\<close>

definition PointwiseSpillTileRows :: "u32 \<Rightarrow> u32 \<Rightarrow> u32 \<Rightarrow> (Schedule \<times> OpCost) option \<Rightarrow> u32" where
  "PointwiseSpillTileRows rows paddedK stagedGroups sc =
     (let cap = min rows MaxPointwiseSpillRows;
          stageBytesPerRow = max (stagedGroups * 32) (if paddedK \<noteq> 32 then 32 else 0);
          partialBytesPerRow = (if 32 < paddedK then 32 * 4 else 0);
          bytesPerRow = stageBytesPerRow + partialBytesPerRow
      in case sc of None \<Rightarrow> cap
         | Some (schedule, cost) \<Rightarrow>
             if bytesPerRow = 0 then cap
             else let used = MemoryUsageAt schedule (oc_timeIndex cost);
                      available = (if used < uint AllocatableTCDMBytes
                                   then word_of_int (uint AllocatableTCDMBytes - used) else 0)
                  in max 1 (min cap (available div bytesPerRow)))"

definition inputGroupWeightBytes :: u32 where "inputGroupWeightBytes = 9 * 32 * 32"
definition commandLatencyBytes :: u64 where "commandLatencyBytes = 16 * 1024"

definition ExpandResidentLinebufferWeightStage ::
    "u32 \<Rightarrow> u32 \<Rightarrow> u32 \<Rightarrow> int \<Rightarrow> (Schedule \<times> OpCost) option \<Rightarrow> u32" where
  "ExpandResidentLinebufferWeightStage currentStage partialBytes stripeBytes ifmDepth sc =
     (case sc of None \<Rightarrow> currentStage
      | Some (schedule, cost) \<Rightarrow>
          if ifmDepth \<le> 0 \<or> oc_timeIndex cost < 0 then currentStage
          else
            let inputGroups = word_of_int (RoundAway_int ifmDepth 32) div 32 :: u32;
                fullWeightBytes64 = ucast inputGroups * ucast inputGroupWeightBytes :: u64
            in if inputGroups = 0 \<or> 0xFFFFFFFF < fullWeightBytes64 then currentStage
               else if (ucast fullWeightBytes64 :: u32) \<le> currentStage then currentStage
               else
                 let used = MemoryUsageAt schedule (oc_timeIndex cost)
                 in if used < 0 \<or> uint AllocatableTCDMBytes \<le> used then currentStage
                    else
                      let available = word_of_int (uint AllocatableTCDMBytes - used) :: u64;
                          transient = aligned_u64 (ucast partialBytes) + aligned_u64 (ucast stripeBytes)
                      in if available \<le> transient then currentStage
                         else
                           let availableStage = available - transient;
                               stageGroups = ucast (min (ucast inputGroups)
                                 (availableStage div ucast inputGroupWeightBytes)) :: u32
                           in max currentStage (stageGroups * inputGroupWeightBytes))"

definition MakeLinebufferSpillStaging ::
    "Shape \<Rightarrow> Shape \<Rightarrow> Shape \<Rightarrow> Kernel \<Rightarrow> int \<Rightarrow> int \<Rightarrow> u32 \<Rightarrow> u32 \<Rightarrow> StripeStagingInput" where
  "MakeLinebufferSpillStaging ifmShape ifmStorageShape ofmShape kn outputY outputRows sourceBase stagingBase =
     (let ifm = ReshapeToNHWC ifmShape; storage = ReshapeToNHWC ifmStorageShape; ofm = ReshapeToNHWC ofmShape;
          inputYStart = outputY * kn_strideY kn - kn_padTop kn;
          inputYEnd = (outputY + outputRows - 1) * kn_strideY kn - kn_padTop kn + kn_sizeY kn;
          inputXStart = - kn_padLeft kn;
          inputXEnd = (Width ofm - 1) * kn_strideX kn - kn_padLeft kn + kn_sizeX kn;
          validYStart = clamp_int inputYStart 0 (Height ifm);
          validYEnd = clamp_int inputYEnd 0 (Height ifm);
          validXStart = clamp_int inputXStart 0 (Width ifm);
          validXEnd = clamp_int inputXEnd 0 (Width ifm)
      in \<lparr>st_logicalIfm = ifm, st_storageIfm = storage,
          st_areaStart = [0, validYStart, validXStart, 0],
          st_areaEnd = [1, validYEnd, validXEnd, Depth ifm],
          st_sourceBase = sourceBase, st_stagingBase = stagingBase,
          st_padTop = max 0 (- inputYStart), st_padLeft = max 0 (- inputXStart),
          st_padBottom = max 0 (inputYEnd - Height ifm), st_padRight = max 0 (inputXEnd - Width ifm),
          st_channels = Depth ifm, st_directNhwc = False, st_compactNhwc = False\<rparr>)"

text \<open>
  The row tile of a spilled line buffer convolution.  \<open>spill_stripes\<close> is the inner loop over the
  stripes of a tile height: the largest stripe workspace, the staged input bytes and the stripe count.
  An exception of the planner is \<open>Some (Inl e)\<close>.
\<close>

fun spill_stripes ::
    "(int \<Rightarrow> int \<Rightarrow> StripeStagingInput) \<Rightarrow> int \<Rightarrow> int \<Rightarrow> u32 \<Rightarrow> u32 \<Rightarrow> bool \<Rightarrow> int list \<Rightarrow> u64 \<times> u64 \<times> u32 \<Rightarrow>
     (plan_error + u64 \<times> u64 \<times> u32) option" where
  "spill_stripes staging_of h w rows inputGroups spillOfm [] acc = Some (Inr acc)"
| "spill_stripes staging_of h w rows inputGroups spillOfm (outputY # ys) (stripeWorkspace, inputBytes, stripes) =
     (let outputRows = min (uint rows) (h - outputY) in
      case PlanStripeStaging (staging_of outputY outputRows) of
        None \<Rightarrow> None
      | Some (Inl e) \<Rightarrow> Some (Inl e)
      | Some (Inr staging) \<Rightarrow>
          let outputBytes = (if spillOfm then u64_of outputRows * u64_of w * 32 else 0)
          in spill_stripes staging_of h w rows inputGroups spillOfm ys
               (max stripeWorkspace (aligned_u64 (ucast (sp_bytes staging)) + outputBytes + ucast PaddingSeedBytes),
                inputBytes + ucast (sp_bytes staging) * ucast inputGroups, stripes + 1))"

definition tile_cost ::
    "Shape \<Rightarrow> u32 \<Rightarrow> u32 \<Rightarrow> u32 \<Rightarrow> bool \<Rightarrow> u64 \<Rightarrow> u64 \<times> u64 \<times> u32 \<Rightarrow> u64 option" where
  "tile_cost ofm rows inputGroups outputGroups spillOfm available acc =
     (case acc of (stripeWorkspace, inputBytes, stripes) \<Rightarrow>
      let matrixRows = min 256 (ucast rows * u64_of (Width ofm)) :: u64;
          partialBytes = aligned_u64 (matrixRows * 32 * 4)
      in if available \<le> partialBytes + aligned_u64 stripeWorkspace then None
         else
           let availableStage = available - partialBytes - aligned_u64 stripeWorkspace;
               stageGroups = ucast (min (ucast inputGroups) (availableStage div ucast inputGroupWeightBytes)) :: u32;
               residentGroups = (if stageGroups = inputGroups then inputGroups
                                 else if 0 < stageGroups then stageGroups - 1 else 0);
               weightTransfers = (if residentGroups \<noteq> 0 then ucast outputGroups else 0) :: u64;
               streamedGroups = ucast stripes * ucast (inputGroups - residentGroups) * ucast outputGroups :: u64;
               inputTransfers = ucast stripes * ucast inputGroups * ucast outputGroups :: u64;
               outputTransfers = (if spillOfm then ucast stripes * ucast outputGroups else 0) :: u64
           in Some (ucast residentGroups * ucast inputGroupWeightBytes * ucast outputGroups +
                streamedGroups * ucast inputGroupWeightBytes + inputBytes * ucast outputGroups +
                (if spillOfm then u64_of (Height ofm) * u64_of (Width ofm) * 32 * ucast outputGroups else 0) +
                (weightTransfers + streamedGroups + inputTransfers + outputTransfers) * commandLatencyBytes))"

text \<open>The cost of the tile height \<open>rows\<close>; \<open>Some (Inr None)\<close> when its workspace does not fit.\<close>

definition row_cost ::
    "Shape \<Rightarrow> Shape \<Rightarrow> Shape \<Rightarrow> Kernel \<Rightarrow> u32 \<Rightarrow> u32 \<Rightarrow> bool \<Rightarrow> u64 \<Rightarrow> u32 \<Rightarrow> (plan_error + u64 option) option" where
  "row_cost ifmShape ifmStorageShape ofmShape kn inputGroups outputGroups spillOfm available rows =
     (let ofm = ReshapeToNHWC ofmShape in
      case spill_stripes (\<lambda>y n. MakeLinebufferSpillStaging ifmShape ifmStorageShape ofm kn y n 0 0)
             (Height ofm) (Width ofm) rows inputGroups spillOfm
             (tile_starts 0 (uint rows) (Height ofm)) (0, 0, 0) of
        None \<Rightarrow> None
      | Some (Inl e) \<Rightarrow> Some (Inl e)
      | Some (Inr acc) \<Rightarrow> Some (Inr (tile_cost ofm rows inputGroups outputGroups spillOfm available acc)))"

fun cheapest_rows ::
    "(u32 \<Rightarrow> (plan_error + u64 option) option) \<Rightarrow> u32 list \<Rightarrow> u32 \<times> u64 \<Rightarrow> (plan_error + u32) option" where
  "cheapest_rows cost_of [] (selected, selectedCost) = Some (Inr selected)"
| "cheapest_rows cost_of (rows # rs) (selected, selectedCost) =
     (case cost_of rows of
        None \<Rightarrow> None
      | Some (Inl e) \<Rightarrow> Some (Inl e)
      | Some (Inr None) \<Rightarrow> cheapest_rows cost_of rs (selected, selectedCost)
      | Some (Inr (Some costBytes)) \<Rightarrow>
          cheapest_rows cost_of rs
            (if costBytes < selectedCost \<or> costBytes = selectedCost \<and> selected < rows
             then (rows, costBytes) else (selected, selectedCost)))"

definition SelectLinebufferSpillStripeRows ::
    "Shape \<Rightarrow> Shape \<Rightarrow> Shape \<Rightarrow> Kernel option \<Rightarrow> u32 \<Rightarrow> u32 \<Rightarrow> bool \<Rightarrow> (Schedule \<times> OpCost) option \<Rightarrow>
     (plan_error + u32) option" where
  "SelectLinebufferSpillStripeRows ifmShape ifmStorageShape ofmShape kn inputGroups outputGroups spillOfm sc =
     (let largest = LinebufferSpillStripeRows (ReshapeToNHWC ofmShape) in
      case (kn, sc) of
        (Some k, Some (schedule, cost)) \<Rightarrow>
          if inputGroups \<le> 1 \<or> oc_timeIndex cost < 0 then Some (Inr largest)
          else
            let used = MemoryUsageAt schedule (oc_timeIndex cost) in
            if used < 0 \<or> uint AllocatableTCDMBytes \<le> used then Some (Inr largest)
            else cheapest_rows
              (row_cost ifmShape ifmStorageShape ofmShape k inputGroups outputGroups spillOfm
                 (word_of_int (uint AllocatableTCDMBytes - used)))
              (map word_of_int [1..uint largest]) (largest, 0xFFFFFFFFFFFFFFFF)
      | _ \<Rightarrow> Some (Inr largest))"

section \<open>Rolling halos of a cascade\<close>

text \<open>The bytes and rows of input that consecutive stripes of a cascaded convolution share.\<close>

definition CascadeHaloWorkspace ::
    "OpCost \<Rightarrow> bool \<Rightarrow> bool \<Rightarrow> bool \<Rightarrow> Kernel option \<Rightarrow> Shape \<Rightarrow> int \<Rightarrow> (u32 \<times> u32) option" where
  "CascadeHaloWorkspace cost linebufferConv externalIfm directNhwc kn storageShape ifmDepth =
     (if oc_cascade cost = 0 \<or> \<not> linebufferConv \<or> \<not> externalIfm then Some (0, 0)
      else case kn of None \<Rightarrow> Some (0, 0)
      | Some k \<Rightarrow>
          let overlapRows = max 0 (kn_sizeY k - kn_strideY k);
              storedChannels = (if directNhwc then ifmDepth else RoundAway_int ifmDepth 32);
              b = u64_of overlapRows * u64_of (Width (ReshapeToNHWC storageShape)) * u64_of storedChannels
          in if overlapRows = 0 then Some (0, 0)
             else if 0xFFFFFFFF < b then None else Some (ucast b, word_of_int overlapRows))"

record CascadeUsage =
  cu_persistent :: int
  cu_transient :: int
  cu_start :: int
  cu_end :: int
  cu_operations :: "nat list"

definition no_usage :: CascadeUsage where
  "no_usage = \<lparr>cu_persistent = 0, cu_transient = 0, cu_start = 2 ^ 31 - 1, cu_end = 0, cu_operations = []\<rparr>"

text \<open>\<^verbatim>\<open>uint64_t(RoundAway(int(bytes), DMAAlignment))\<close> as an integer: no wrap for sizes below \<open>2 ^ 31 - 32\<close>.\<close>

definition aligned_int :: "u32 \<Rightarrow> int" where
  "aligned_int b = RoundAway_int (sint b) DMAAlignment"

definition add_usage :: "OpCost \<Rightarrow> nat \<Rightarrow> WorkspaceSize \<Rightarrow> CascadeUsage \<Rightarrow> CascadeUsage" where
  "add_usage cost uid sz usage =
     usage\<lparr>cu_persistent := cu_persistent usage + aligned_int (ws_stage sz),
           cu_transient := max (cu_transient usage) (aligned_int (ws_partial sz) + aligned_int (ws_stripe sz)),
           cu_start := min (cu_start usage) (oc_timeIndex cost),
           cu_end := max (cu_end usage) (oc_timeIndex cost),
           cu_operations := cu_operations usage @ [uid]\<rparr>"

fun collect_usage ::
    "Schedule \<Rightarrow> (nat \<rightharpoonup> WorkspaceSize) \<Rightarrow> nat list \<Rightarrow> (int \<times> CascadeUsage) list \<Rightarrow> (int \<times> CascadeUsage) list" where
  "collect_usage schedule sizes [] cascades = cascades"
| "collect_usage schedule sizes (uid # uids) cascades =
     collect_usage schedule sizes uids
       (case (schedule_cost schedule uid, sizes uid) of
          (Some cost, Some sz) \<Rightarrow>
            if oc_cascade cost = 0 then cascades
            else AList.update (oc_cascade cost)
                   (add_usage cost uid sz
                      (case map_of cascades (oc_cascade cost) of None \<Rightarrow> no_usage | Some usage \<Rightarrow> usage)) cascades
        | _ \<Rightarrow> cascades)"

text \<open>The least memory left free by the tensors from \<open>b\<close> to \<open>e\<close>.\<close>

definition available_during :: "Schedule \<Rightarrow> int \<Rightarrow> int \<Rightarrow> int" where
  "available_during schedule b e =
     fold (\<lambda>time available.
        min available (let live = MemoryUsageAt schedule time
                       in if live < uint AllocatableTCDMBytes then uint AllocatableTCDMBytes - live else 0))
       [b..e] (uint AllocatableTCDMBytes)"

definition halo_budget :: "Schedule \<Rightarrow> CascadeUsage \<Rightarrow> int" where
  "halo_budget schedule usage =
     (let available = available_during schedule (cu_start usage) (cu_end usage);
          remaining = (if cu_persistent usage + cu_transient usage < available
                       then available - cu_persistent usage - cu_transient usage else 0)
      in remaining div DMAAlignment * DMAAlignment)"

fun fit_halos :: "nat list \<Rightarrow> int \<Rightarrow> (nat \<rightharpoonup> WorkspaceSize) \<Rightarrow> (nat \<rightharpoonup> WorkspaceSize)" where
  "fit_halos [] remaining sizes = sizes"
| "fit_halos (uid # uids) remaining sizes =
     (case sizes uid of
        None \<Rightarrow> sizes
      | Some sz \<Rightarrow>
          let selected = word_of_int (min (aligned_int (ws_halo sz)) remaining) :: u32
          in fit_halos uids (remaining - uint selected)
               (sizes(uid \<mapsto> sz\<lparr>ws_halo := min (ws_halo sz) selected\<rparr>)))"

definition FitCascadeHaloWorkspaces ::
    "nat list \<Rightarrow> Schedule \<Rightarrow> (nat \<rightharpoonup> WorkspaceSize) \<Rightarrow> (nat \<rightharpoonup> WorkspaceSize)" where
  "FitCascadeHaloWorkspaces operations schedule sizes =
     fold (\<lambda>(cascadeId, usage). fit_halos (cu_operations usage) (halo_budget schedule usage))
       (collect_usage schedule sizes operations []) sizes"

section \<open>The reservation\<close>

text \<open>
  \<^verbatim>\<open>WorkspaceReservation\<close>: the time check of its first loop and everything from the fitting of the halos on,
  for the sizes that the first loop computed: what the scheduler sets aside at every time step.  A throw
  is \<open>None\<close>.
\<close>

record CascadeWorkspace =
  cw_persistent :: nat
  cw_transient :: nat
  cw_start :: int
  cw_end :: int

definition no_cascade_workspace :: CascadeWorkspace where
  "no_cascade_workspace = \<lparr>cw_persistent = 0, cw_transient = 0, cw_start = 2 ^ 31 - 1, cw_end = 0\<rparr>"

definition add_workspace :: "OpCost \<Rightarrow> WorkspaceSize \<Rightarrow> CascadeWorkspace \<Rightarrow> CascadeWorkspace" where
  "add_workspace cost sz cascade =
     cascade\<lparr>cw_persistent := cw_persistent cascade +
                (unat (round_dma (ws_stage sz)) + unat (round_dma (ws_halo sz))),
             cw_transient := max (cw_transient cascade)
                (unat (round_dma (ws_partial sz)) + unat (round_dma (ws_stripe sz))),
             cw_start := min (cw_start cascade) (oc_timeIndex cost),
             cw_end := max (cw_end cascade) (oc_timeIndex cost)\<rparr>"

definition total_workspace :: "WorkspaceSize \<Rightarrow> nat" where
  "total_workspace sz = unat (round_dma (ws_stage sz)) + unat (round_dma (ws_halo sz)) +
     unat (round_dma (ws_partial sz)) + unat (round_dma (ws_stripe sz))"

text \<open>\<^verbatim>\<open>reservation[time].op = max(reservation[time].op, bytes)\<close>\<close>

definition raise_op :: "int \<Rightarrow> nat \<Rightarrow> LRMemory list \<Rightarrow> LRMemory list" where
  "raise_op time b reservation =
     reservation[nat time := (reservation ! nat time)\<lparr>mem_op := max (mem_op (reservation ! nat time)) (int b)\<rparr>]"

fun reserve_operations ::
    "Schedule \<Rightarrow> (nat \<rightharpoonup> WorkspaceSize) \<Rightarrow> nat list \<Rightarrow> LRMemory list \<times> (int \<times> CascadeWorkspace) list \<Rightarrow>
     (LRMemory list \<times> (int \<times> CascadeWorkspace) list) option" where
  "reserve_operations schedule sizes [] acc = Some acc"
| "reserve_operations schedule sizes (uid # uids) (reservation, cascades) =
     (case schedule_cost schedule uid of
        None \<Rightarrow> None
      | Some cost \<Rightarrow>
          let sz = (case sizes uid of None \<Rightarrow> no_workspace | Some s \<Rightarrow> s) in
          if oc_cascade cost = 0
          then if 2 ^ 31 - 1 < total_workspace sz then None
               else reserve_operations schedule sizes uids
                      (raise_op (oc_timeIndex cost) (total_workspace sz) reservation, cascades)
          else reserve_operations schedule sizes uids
                 (reservation,
                  AList.update (oc_cascade cost)
                    (add_workspace cost sz
                       (case map_of cascades (oc_cascade cost) of None \<Rightarrow> no_cascade_workspace | Some c \<Rightarrow> c))
                    cascades))"

fun reserve_cascades :: "(int \<times> CascadeWorkspace) list \<Rightarrow> LRMemory list \<Rightarrow> LRMemory list option" where
  "reserve_cascades [] reservation = Some reservation"
| "reserve_cascades ((cascadeId, cascade) # cascades) reservation =
     (let reservedBytes = cw_persistent cascade + cw_transient cascade in
      if 2 ^ 31 - 1 < reservedBytes then None
      else reserve_cascades cascades
             (fold (\<lambda>time. raise_op time reservedBytes) [cw_start cascade..cw_end cascade] reservation))"

text \<open>The first loop of \<^verbatim>\<open>WorkspaceReservation\<close>: every operation has a time, and the last one is found.\<close>

fun last_time :: "Schedule \<Rightarrow> nat list \<Rightarrow> int \<Rightarrow> int option" where
  "last_time schedule [] maxTime = Some maxTime"
| "last_time schedule (uid # uids) maxTime =
     (case schedule_cost schedule uid of
        None \<Rightarrow> None
      | Some cost \<Rightarrow> if oc_timeIndex cost < 0 then None
                     else last_time schedule uids (max maxTime (oc_timeIndex cost)))"

definition reserve_workspaces ::
    "nat list \<Rightarrow> Schedule \<Rightarrow> (nat \<rightharpoonup> WorkspaceSize) \<Rightarrow> (LRMemory list \<times> int) option" where
  "reserve_workspaces operations schedule sizes =
     (case last_time schedule operations 0 of
        None \<Rightarrow> None
      | Some maxTime \<Rightarrow>
          let fitted = FitCascadeHaloWorkspaces operations schedule sizes in
          case reserve_operations schedule fitted operations (replicate (nat (maxTime + 1)) no_memory, []) of
            None \<Rightarrow> None
          | Some (reservation, cascades) \<Rightarrow>
              (case reserve_cascades cascades reservation of
                 None \<Rightarrow> None
               | Some reservation \<Rightarrow> Some (reservation, foldl (\<lambda>m usage. max m (Used usage)) 0 reservation)))"

section \<open>Placing a workspace\<close>

record WorkspaceAllocation =
  wa_startTime :: int
  wa_endTime :: int
  wa_start :: u32
  wa_end :: u32

record WorkspacePlacement =
  wp_stage :: u32
  wp_halo :: u32
  wp_partial :: u32
  wp_stripe :: u32

record WorkspaceContext =
  wc_sizes :: "nat \<rightharpoonup> WorkspaceSize"
  wc_offsets :: "nat \<rightharpoonup> WorkspacePlacement"
  wc_allocations :: "WorkspaceAllocation list"
  wc_stageOffset :: u32
  wc_weightStageOffset :: u32
  wc_haloOffset :: u32
  wc_activeHaloBytes :: u32
  wc_activeHaloRows :: u32
  wc_partialOffset :: u32
  wc_stripeStageOffset :: u32
  wc_paddingSeedOffset :: u32
  wc_activePartialBytes :: u32
  wc_workspaceEnd :: u32
  wc_content :: CommandMemoryState
  wc_contentCascade :: int
  wc_contentOperation :: nat

datatype WorkspacePart = StagePart | HaloPart | PartialPart | StripePart

datatype workspace_error = NoScheduleTime | NeedsWorkspace u32 WorkspacePart int int

text \<open>The times during which the workspace of an operation must survive.\<close>

definition workspace_window :: "Schedule \<Rightarrow> OpCost \<Rightarrow> int \<times> int" where
  "workspace_window schedule cost =
     (if oc_cascade cost = 0 then (oc_timeIndex cost, oc_timeIndex cost)
      else fold (\<lambda>(uid, other) (startTime, endTime).
             if oc_cascade other \<noteq> oc_cascade cost then (startTime, endTime)
             else (min startTime (oc_timeIndex other), max endTime (oc_timeIndex other)))
           (sch_costs schedule) (oc_timeIndex cost, oc_timeIndex cost))"

text \<open>The span of a live range: that of the first tensor in local memory, when it lies inside it.\<close>

definition skipped_tensor :: "AllocatedTensor \<Rightarrow> bool" where
  "skipped_tensor t \<longleftrightarrow> at_address t < 0 \<or> at_isGraphInput t \<or> at_isGraphOutput t \<or> at_isConstant t \<or> at_inL2 t"

definition range_span :: "TensorRange \<Rightarrow> (u32 \<times> u32) list" where
  "range_span r =
     (case find (\<lambda>t. \<not> skipped_tensor t) (tr_tensors r) of
        None \<Rightarrow> []
      | Some t \<Rightarrow>
          let b = u64_of (at_address t); e = b + u64_of (tr_size r)
          in if e \<le> ucast AllocatableTCDMBytes then [(ucast b, ucast e)] else [])"

definition live_spans :: "int \<Rightarrow> int \<Rightarrow> TensorRange list option \<Rightarrow> (u32 \<times> u32) list" where
  "live_spans startTime endTime liveGraph =
     (case liveGraph of None \<Rightarrow> []
      | Some ranges \<Rightarrow> concat (map (\<lambda>r.
          if tr_endTime r < startTime \<or> endTime < tr_startTime r then [] else range_span r) ranges))"

definition occupied_spans ::
    "Schedule \<Rightarrow> WorkspaceAllocation list \<Rightarrow> int \<Rightarrow> int \<Rightarrow> (u32 \<times> u32) list" where
  "occupied_spans schedule allocations startTime endTime =
     live_spans startTime endTime (sch_featureMaps schedule) @
     live_spans startTime endTime (sch_staging schedule) @
     map (\<lambda>a. (wa_start a, wa_end a))
       (filter (\<lambda>a. \<not> (wa_endTime a < startTime \<or> endTime < wa_startTime a)) allocations)"

record PartState =
  ps_occupied :: "(u32 \<times> u32) list"
  ps_allocations :: "WorkspaceAllocation list"
  ps_workspaceEnd :: u32

fun base_loop :: "(u32 \<times> u32) list \<Rightarrow> u32 \<Rightarrow> u32 \<Rightarrow> u32" where
  "base_loop [] nbytes base = base"
| "base_loop ((b, e) # spans) nbytes base =
     (let base = round_dma base in
      if unat base + unat nbytes \<le> unat b then base
      else base_loop spans nbytes (if base < e then e else base))"

definition allocatePart :: "int \<Rightarrow> int \<Rightarrow> u32 \<Rightarrow> bool \<Rightarrow> PartState \<Rightarrow> (u32 \<times> PartState) option" where
  "allocatePart startTime endTime nbytes persistent ps =
     (if nbytes = 0 then Some (0, ps)
      else
        let occupied = sort (ps_occupied ps);
            base = round_dma (base_loop occupied nbytes 0)
        in if unat AllocatableTCDMBytes < unat base + unat nbytes then None
           else Some (base,
             \<lparr>ps_occupied = occupied @ [(base, base + nbytes)],
              ps_allocations = (if persistent
                 then ps_allocations ps @ [\<lparr>wa_startTime = startTime, wa_endTime = endTime, wa_start = base,
                                            wa_end = base + nbytes\<rparr>]
                 else ps_allocations ps),
              ps_workspaceEnd = max (ps_workspaceEnd ps) (base + nbytes)\<rparr>))"

text \<open>The parts in order; the first that does not fit ends the placement, keeping what was recorded.\<close>

fun allocate_parts ::
    "int \<Rightarrow> int \<Rightarrow> (WorkspacePart \<times> bool \<times> u32) list \<Rightarrow> PartState \<Rightarrow> (workspace_error + u32 list) \<times> PartState" where
  "allocate_parts startTime endTime [] ps = (Inr [], ps)"
| "allocate_parts startTime endTime ((part, persistent, nbytes) # parts) ps =
     (case allocatePart startTime endTime nbytes persistent ps of
        None \<Rightarrow> (Inl (NeedsWorkspace nbytes part startTime endTime), ps)
      | Some (base, ps) \<Rightarrow>
          (case allocate_parts startTime endTime parts ps of
             (Inl e, ps) \<Rightarrow> (Inl e, ps)
           | (Inr bases, ps) \<Rightarrow> (Inr (base # bases), ps)))"

text \<open>The rounded sizes \<^verbatim>\<open>selectedStageBytes\<close>, \<^verbatim>\<open>selectedHaloBytes\<close>, and so on.\<close>

definition selected_bytes :: "WorkspaceSize \<Rightarrow> WorkspacePlacement" where
  "selected_bytes sz =
     \<lparr>wp_stage = round_dma (ws_stage sz), wp_halo = round_dma (ws_halo sz),
      wp_partial = round_dma (ws_partial sz), wp_stripe = round_dma (ws_stripe sz)\<rparr>"

definition place_workspace ::
    "Schedule \<Rightarrow> OpCost \<Rightarrow> WorkspacePlacement \<Rightarrow> WorkspaceAllocation list \<Rightarrow> u32 \<Rightarrow>
     (workspace_error + WorkspacePlacement) \<times> WorkspaceAllocation list \<times> u32" where
  "place_workspace schedule cost selected allocations workspaceEnd =
     (let (startTime, endTime) = workspace_window schedule cost;
          persistentStage = (oc_cascade cost \<noteq> 0);
          (result, ps) = allocate_parts startTime endTime
            [(StagePart, persistentStage, wp_stage selected), (HaloPart, persistentStage, wp_halo selected),
             (PartialPart, False, wp_partial selected), (StripePart, False, wp_stripe selected)]
            \<lparr>ps_occupied = occupied_spans schedule allocations startTime endTime,
             ps_allocations = allocations, ps_workspaceEnd = workspaceEnd\<rparr>
      in (case result of Inl e \<Rightarrow> Inl e
          | Inr bases \<Rightarrow> Inr \<lparr>wp_stage = bases ! 0, wp_halo = bases ! 1, wp_partial = bases ! 2,
                             wp_stripe = bases ! 3\<rparr>,
          ps_allocations ps, ps_workspaceEnd ps))"

definition use_placement :: "WorkspacePlacement \<Rightarrow> u32 \<Rightarrow> WorkspaceContext \<Rightarrow> WorkspaceContext" where
  "use_placement p stripeBytes ctx =
     ctx\<lparr>wc_stageOffset := wp_stage p, wc_weightStageOffset := wp_stage p, wc_haloOffset := wp_halo p,
         wc_partialOffset := wp_partial p, wc_stripeStageOffset := wp_stripe p,
         wc_paddingSeedOffset := (if PaddingSeedBytes \<le> stripeBytes
            then wp_stripe p + stripeBytes - PaddingSeedBytes else wc_paddingSeedOffset ctx)\<rparr>"

definition activatePlacement ::
    "bool \<Rightarrow> bool \<Rightarrow> WorkspacePlacement \<Rightarrow> WorkspaceContext \<Rightarrow> WorkspaceContext" where
  "activatePlacement sameWorkspaceOwner cachedPlacement selected ctx =
     (if sameWorkspaceOwner then ctx
      else
        let writableStripeBytes = (if PaddingSeedBytes \<le> wp_stripe selected
              then wp_stripe selected - PaddingSeedBytes else wp_stripe selected);
            content = Invalidate (wc_content ctx) (unat (wc_partialOffset ctx)) (unat (wp_partial selected));
            content = Invalidate content (unat (wc_stageOffset ctx)) (unat (wp_stage selected));
            content = (if cachedPlacement then content
              else Invalidate content (unat (wc_haloOffset ctx)) (unat (wp_halo selected)))
        in ctx\<lparr>wc_content :=
             Invalidate content (unat (wc_stripeStageOffset ctx)) (unat writableStripeBytes)\<rparr>)"

definition sameContentScope :: "OpCost \<Rightarrow> nat \<Rightarrow> WorkspaceContext \<Rightarrow> bool" where
  "sameContentScope cost uid ctx \<longleftrightarrow>
     (if oc_cascade cost \<noteq> 0 then wc_contentCascade ctx = oc_cascade cost
      else wc_contentCascade ctx = 0 \<and> wc_contentOperation ctx = uid)"

definition enter_scope :: "OpCost \<Rightarrow> nat \<Rightarrow> WorkspaceSize \<Rightarrow> WorkspaceContext \<Rightarrow> WorkspaceContext" where
  "enter_scope cost uid sz ctx =
     ctx\<lparr>wc_content := (if sameContentScope cost uid ctx then wc_content ctx else Clear),
         wc_contentCascade := oc_cascade cost, wc_paddingSeedOffset := 0,
         wc_activeHaloBytes := ws_halo sz, wc_activeHaloRows := ws_haloRows sz\<rparr>"

definition workspace_size :: "WorkspaceContext \<Rightarrow> nat \<Rightarrow> WorkspaceSize" where
  "workspace_size ctx uid = (case wc_sizes ctx uid of None \<Rightarrow> no_workspace | Some sz \<Rightarrow> sz)"

definition SelectWorkspace ::
    "Schedule \<Rightarrow> nat \<Rightarrow> WorkspaceContext \<Rightarrow> workspace_error option \<times> WorkspaceContext" where
  "SelectWorkspace schedule uid ctx =
     (let sz = workspace_size ctx uid;
          selected = selected_bytes sz;
          total = wp_stage selected + wp_halo selected + wp_partial selected + wp_stripe selected;
          ctx = ctx\<lparr>wc_sizes := (wc_sizes ctx)(uid \<mapsto> sz), wc_activePartialBytes := wp_partial selected\<rparr>
      in case schedule_cost schedule uid of
        None \<Rightarrow> (Some NoScheduleTime, ctx)
      | Some cost \<Rightarrow>
          if oc_timeIndex cost < 0 then (Some NoScheduleTime, ctx)
          else
            let ctx = enter_scope cost uid sz ctx in
            if total = 0 then (None, ctx)
            else
              let same = (wc_contentOperation ctx = uid);
                  ctx = ctx\<lparr>wc_contentOperation := uid\<rparr>
              in case wc_offsets ctx uid of
                Some p \<Rightarrow> (None, activatePlacement same True selected (use_placement p (wp_stripe selected) ctx))
              | None \<Rightarrow>
                  (case place_workspace schedule cost selected (wc_allocations ctx) (wc_workspaceEnd ctx) of
                     (Inl e, allocations, workspaceEnd) \<Rightarrow>
                       (Some e, ctx\<lparr>wc_allocations := allocations, wc_workspaceEnd := workspaceEnd\<rparr>)
                   | (Inr p, allocations, workspaceEnd) \<Rightarrow>
                       (None, activatePlacement same False selected
                          (use_placement p (wp_stripe selected)
                             (ctx\<lparr>wc_allocations := allocations, wc_workspaceEnd := workspaceEnd,
                                  wc_offsets := (wc_offsets ctx)(uid \<mapsto> p)\<rparr>)))))"

end
