(* ===== verification/NAI_WorkspaceProof.thy ===== *)
theory NAI_WorkspaceProof
  imports NAI_Workspace NAI_AllocatorProof
begin

text \<open>
  The workspace placement is an exact first fit: \<open>base_loop\<close> finds the lowest aligned address whose
  range no occupied span blocks, the parts of one workspace and the persistent parts of different
  operations of overlapping cascades do not overlap, and \<^verbatim>\<open>SelectWorkspace\<close> forgets the content of
  exactly the ranges it hands out.
\<close>

section \<open>Rounding\<close>

lemma RoundAway_dvd: "0 < a \<Longrightarrow> a dvd RoundAway_int v a"
proof -
  assume a: "0 < a"
  have d: "a dvd v - v smod a"
    by (metis minus_smod_eq_mult_sdiv dvd_triv_left)
  have "a dvd (v - v smod a) - a" "a dvd (v - v smod a) + a" using d by simp_all
  then have "a dvd v - (a + v smod a)" "a dvd v + (a - v smod a)" by (simp_all add: algebra_simps)
  then show ?thesis using d by (auto simp: RoundAway_int_def Let_def)
qed

lemma round_dma_dvd: "32 dvd unat (round_dma b)"
proof -
  have "(32::int) dvd RoundAway_int (sint b) 32" by (rule RoundAway_dvd) simp
  then have "(32::int) dvd uint (round_dma b)"
    by (simp add: round_dma_def DMAAlignment_def uint_word_of_int dvd_mod)
  then show ?thesis by (metis int_dvd_int_iff of_nat_numeral uint_nat)
qed

lemma round_dma_small:
  assumes "unat b \<le> 520192"
  shows "unat b \<le> unat (round_dma b)" and "unat (round_dma b) < unat b + 32" and "unat (round_dma b) \<le> 520192"
proof -
  have "int (unat b) = uint b" by simp
  with assms have b: "0 \<le> uint b" "uint b \<le> 520192" by linarith+
  then have s: "sint b = uint b"
    by (simp add: sint_uint signed_take_bit_int_eq_self order_trans [of _ 0])
  have r: "uint b \<le> RoundAway_int (uint b) 32" "RoundAway_int (uint b) 32 < uint b + 32"
    using RoundAway_aligned(2,3) [of "uint b" 32] by simp_all
  have "RoundAway_int (uint b) 32 mod 2 ^ 32 = RoundAway_int (uint b) 32"
    using b r order_trans [OF b(1) r(1)] by (intro mod_pos_pos_trivial) simp_all
  then have u: "uint (round_dma b) = RoundAway_int (uint b) 32"
    by (simp add: round_dma_def DMAAlignment_def s uint_word_of_int)
  have i: "int (unat b) = uint b" "int (unat (round_dma b)) = uint (round_dma b)" by simp_all
  from r u i show l: "unat b \<le> unat (round_dma b)" "unat (round_dma b) < unat b + 32" by linarith+
  obtain k where k: "unat (round_dma b) = 32 * k" using round_dma_dvd [of b] by (rule dvdE)
  with l(2) assms have "k \<le> 16256" by linarith
  with k show "unat (round_dma b) \<le> 520192" by simp
qed

section \<open>First fit\<close>

definition blocks :: "nat \<Rightarrow> nat \<Rightarrow> u32 \<times> u32 \<Rightarrow> bool" where
  "blocks x n s \<longleftrightarrow> x < unat (snd s) \<and> unat (fst s) < x + n"

definition free_at :: "(u32 \<times> u32) set \<Rightarrow> nat \<Rightarrow> nat \<Rightarrow> bool" where
  "free_at spans x n \<longleftrightarrow> (\<forall>s \<in> spans. \<not> blocks x n s)"

definition bounded :: "(u32 \<times> u32) set \<Rightarrow> bool" where
  "bounded spans \<longleftrightarrow> (\<forall>s \<in> spans. unat (snd s) \<le> 520192)"

lemma base_loop_first_fit:
  assumes "sorted spans" and "bounded (set spans)" and "unat base \<le> 520192" and "0 < nbytes"
  shows "unat base \<le> unat (round_dma (base_loop spans nbytes base)) \<and>
    unat (round_dma (base_loop spans nbytes base)) \<le> 520192 \<and>
    free_at (set spans) (unat (round_dma (base_loop spans nbytes base))) (unat nbytes) \<and>
    (\<forall>x. 32 dvd x \<and> unat base \<le> x \<and> x < unat (round_dma (base_loop spans nbytes base)) \<longrightarrow>
       \<not> free_at (set spans) x (unat nbytes))"
  using assms
proof (induction spans nbytes base rule: base_loop.induct)
  case (1 nbytes base)
  then show ?case using round_dma_small [of base] round_dma_dvd [of base]
    by (auto simp: free_at_def elim!: dvdE)
next
  case (2 b e spans nbytes base)
  let ?r = "round_dma base"
  note r = round_dma_small [OF 2(4)] round_dma_dvd [of base]
  have rr: "round_dma ?r = ?r" 
    using round_dma_small [OF r(3)] round_dma_dvd [of ?r] r(4) by (intro word_unat_eq_iff [THEN iffD2]) (auto elim!: dvdE)
  have n: "0 < unat nbytes" using 2(5) by (simp add: word_less_nat_alt)
  show ?case
  proof (cases "unat ?r + unat nbytes \<le> unat b")
    case True
    have "\<not> blocks (unat ?r) (unat nbytes) s" if "s \<in> set ((b, e) # spans)" for s
      using that 2(2) True by (force simp: blocks_def less_eq_prod_def word_le_nat_alt word_less_nat_alt)
    with True r rr show ?thesis by (auto simp: free_at_def elim!: dvdE)
  next
    case False
    let ?n = "if ?r < e then e else ?r"
    have n': "unat ?n = max (unat ?r) (unat e)" by (simp add: max_def word_less_nat_alt)
    have "unat ?n \<le> 520192" using 2(3) r(3) by (simp add: bounded_def n' del: if_split)
    with 2(1) [OF refl False] 2(2,3,5) have IH: "unat ?n \<le> unat (round_dma (base_loop spans nbytes ?n)) \<and>
      unat (round_dma (base_loop spans nbytes ?n)) \<le> 520192 \<and>
      free_at (set spans) (unat (round_dma (base_loop spans nbytes ?n))) (unat nbytes) \<and>
      (\<forall>x. 32 dvd x \<and> unat ?n \<le> x \<and> x < unat (round_dma (base_loop spans nbytes ?n)) \<longrightarrow>
         \<not> free_at (set spans) x (unat nbytes))"
      by (simp add: bounded_def del: if_split)
    have "\<not> free_at (set ((b, e) # spans)) x (unat nbytes)"
      if x: "32 dvd x" "unat base \<le> x" "x < unat (round_dma (base_loop spans nbytes ?n))" for x
    proof (cases "unat ?n \<le> x")
      case True
      with IH x show ?thesis by (auto simp: free_at_def)
    next
      case F: False
      have "unat ?r \<le> x" using x(1,2) r(2,4) by (auto elim!: dvdE)
      with F False show ?thesis by (auto simp: free_at_def blocks_def n' simp del: if_split)
    qed
    with IH False n' r(1) show ?thesis by (auto simp: free_at_def blocks_def Let_def simp del: if_split)
  qed
qed

lemma alloc_bytes: "unat AllocatableTCDMBytes = 520192"
  by (simp add: AllocatableTCDMBytes_def)

lemma allocatePart_first_fit:
  assumes "bounded (set (ps_occupied ps))" and "nbytes \<noteq> 0"
  shows "allocatePart t u nbytes persistent ps = None \<longleftrightarrow>
      (\<forall>x. 32 dvd x \<and> x + unat nbytes \<le> 520192 \<longrightarrow> \<not> free_at (set (ps_occupied ps)) x (unat nbytes))"
    and "allocatePart t u nbytes persistent ps = Some (base, ps') \<Longrightarrow>
      32 dvd unat base \<and> unat base + unat nbytes \<le> 520192 \<and>
      free_at (set (ps_occupied ps)) (unat base) (unat nbytes) \<and>
      (\<forall>x. 32 dvd x \<and> x < unat base \<longrightarrow> \<not> free_at (set (ps_occupied ps)) x (unat nbytes))"
proof -
  let ?b = "round_dma (base_loop (sort (ps_occupied ps)) nbytes 0)"
  have n: "0 < nbytes" using assms(2) by (simp add: word_neq_0_conv)
  from base_loop_first_fit [of "sort (ps_occupied ps)" 0 nbytes] assms n
  have ff: "free_at (set (ps_occupied ps)) (unat ?b) (unat nbytes)"
    "\<And>x. 32 dvd x \<Longrightarrow> x < unat ?b \<Longrightarrow> \<not> free_at (set (ps_occupied ps)) x (unat nbytes)"
    by simp_all
  have d: "32 dvd unat ?b" by (rule round_dma_dvd)
  have "allocatePart t u nbytes persistent ps = None \<longleftrightarrow> 520192 < unat ?b + unat nbytes"
    using assms(2) by (simp add: allocatePart_def alloc_bytes Let_def)
  also have "\<dots> \<longleftrightarrow> (\<forall>x. 32 dvd x \<and> x + unat nbytes \<le> 520192 \<longrightarrow> \<not> free_at (set (ps_occupied ps)) x (unat nbytes))"
  proof
    assume "520192 < unat ?b + unat nbytes"
    then show "\<forall>x. 32 dvd x \<and> x + unat nbytes \<le> 520192 \<longrightarrow> \<not> free_at (set (ps_occupied ps)) x (unat nbytes)"
      using ff(2) by auto
  next
    assume "\<forall>x. 32 dvd x \<and> x + unat nbytes \<le> 520192 \<longrightarrow> \<not> free_at (set (ps_occupied ps)) x (unat nbytes)"
    then have "\<not> unat ?b + unat nbytes \<le> 520192" using ff(1) d by blast
    then show "520192 < unat ?b + unat nbytes" by simp
  qed
  finally show "allocatePart t u nbytes persistent ps = None \<longleftrightarrow>
      (\<forall>x. 32 dvd x \<and> x + unat nbytes \<le> 520192 \<longrightarrow> \<not> free_at (set (ps_occupied ps)) x (unat nbytes))" .
  assume "allocatePart t u nbytes persistent ps = Some (base, ps')"
  then have "base = ?b" "unat ?b + unat nbytes \<le> 520192"
    using assms(2) by (auto simp: allocatePart_def alloc_bytes Let_def split: if_splits)
  with ff d show "32 dvd unat base \<and> unat base + unat nbytes \<le> 520192 \<and>
      free_at (set (ps_occupied ps)) (unat base) (unat nbytes) \<and>
      (\<forall>x. 32 dvd x \<and> x < unat base \<longrightarrow> \<not> free_at (set (ps_occupied ps)) x (unat nbytes))" by blast
qed

section \<open>The parts of a workspace\<close>

text \<open>A part is its base and its size.\<close>

definition parts_apart :: "u32 \<times> u32 \<Rightarrow> u32 \<times> u32 \<Rightarrow> bool" where
  "parts_apart p q \<longleftrightarrow> snd p = 0 \<or> snd q = 0 \<or>
     unat (fst p) + unat (snd p) \<le> unat (fst q) \<or> unat (fst q) + unat (snd q) \<le> unat (fst p)"

definition part_ok :: "(u32 \<times> u32) set \<Rightarrow> u32 \<times> u32 \<Rightarrow> bool" where
  "part_ok occupied p \<longleftrightarrow> snd p = 0 \<or>
     32 dvd unat (fst p) \<and> unat (fst p) + unat (snd p) \<le> 520192 \<and>
     free_at occupied (unat (fst p)) (unat (snd p))"

lemma unat_end:
  fixes b n :: u32
  assumes "unat b + unat n \<le> 520192"
  shows "unat (b + n) = unat b + unat n"
  using assms by (intro unat_add_lem [THEN iffD1]) simp

lemma free_at_end:
  assumes "unat b + unat n \<le> 520192" and "n \<noteq> 0" and "free_at {(b, b + n)} x m"
  shows "unat b + unat n \<le> x \<or> x + m \<le> unat b"
  using assms by (auto simp: free_at_def blocks_def unat_end)

lemma part_ok_mono: "part_ok A p \<Longrightarrow> B \<subseteq> A \<Longrightarrow> part_ok B p"
  by (auto simp: part_ok_def free_at_def)

lemma allocatePart_state:
  assumes "allocatePart t u n persistent ps = Some (b, ps')" and "n \<noteq> 0"
  shows "set (ps_occupied ps') = insert (b, b + n) (set (ps_occupied ps))"
    and "set (ps_allocations ps') = set (ps_allocations ps) \<union>
      (if persistent then {\<lparr>wa_startTime = t, wa_endTime = u, wa_start = b, wa_end = b + n\<rparr>} else {})"
    and "ps_workspaceEnd ps' = max (ps_workspaceEnd ps) (b + n)"
  using assms by (auto simp: allocatePart_def Let_def split: if_splits)

text \<open>What the placement of a list of parts promises, part by part.\<close>

definition parts_placed ::
    "int \<Rightarrow> int \<Rightarrow> PartState \<Rightarrow> (WorkspacePart \<times> bool \<times> u32) list \<Rightarrow> u32 list \<Rightarrow> PartState \<Rightarrow> bool" where
  "parts_placed t u ps parts bases ps' \<longleftrightarrow>
     length bases = length parts \<and>
     list_all (part_ok (set (ps_occupied ps))) (zip bases (map (\<lambda>x. snd (snd x)) parts)) \<and>
     sorted_wrt parts_apart (zip bases (map (\<lambda>x. snd (snd x)) parts)) \<and>
     set (ps_allocations ps') = set (ps_allocations ps) \<union>
       {\<lparr>wa_startTime = t, wa_endTime = u, wa_start = b, wa_end = b + n\<rparr> | b n p.
          ((p, True, n), b) \<in> set (zip parts bases) \<and> n \<noteq> 0} \<and>
     ps_workspaceEnd ps \<le> ps_workspaceEnd ps' \<and>
     (\<forall>(b, n) \<in> set (zip bases (map (\<lambda>x. snd (snd x)) parts)). n \<noteq> 0 \<longrightarrow> b + n \<le> ps_workspaceEnd ps')"

lemma allocate_parts_placed:
  assumes "bounded (set (ps_occupied ps))" and "allocate_parts t u parts ps = (Inr bases, ps')"
  shows "parts_placed t u ps parts bases ps'"
  using assms
proof (induction t u parts ps arbitrary: bases ps' rule: allocate_parts.induct)
  case (1 t u ps)
  then show ?case by (simp add: parts_placed_def)
next
  case (2 t u part persistent n parts ps)
  from 2(3) obtain b ps1 bs where a: "allocatePart t u n persistent ps = Some (b, ps1)"
      and r: "allocate_parts t u parts ps1 = (Inr bs, ps')" and bases: "bases = b # bs"
    by (auto split: option.splits prod.splits sum.splits)
  show ?case
  proof (cases "n = 0")
    case True
    then have "ps1 = ps" "b = 0" using a by (simp_all add: allocatePart_def)
    with 2(1) [OF a refl 2(2) [folded \<open>ps1 = ps\<close>] r] True show ?thesis
      by (auto simp: parts_placed_def bases part_ok_def parts_apart_def)
  next
    case False
    note st = allocatePart_state [OF a False]
    note ff = allocatePart_first_fit(2) [OF 2(2) False a]
    have "bounded (set (ps_occupied ps1))" using 2(2) ff by (auto simp: bounded_def st(1) unat_end)
    note IH = 2(1) [OF a refl this r, unfolded parts_placed_def]
    have IHok: "list_all (part_ok (set (ps_occupied ps1))) (zip bs (map (\<lambda>x. snd (snd x)) parts))"
      using IH by blast
    have ap: "parts_apart (b, n) q" if "part_ok (set (ps_occupied ps1)) q" for q
      using that free_at_end [of b n "unat (fst q)" "unat (snd q)"] ff False
      by (auto simp: part_ok_def parts_apart_def st(1) free_at_def)
    have "list_all (part_ok (set (ps_occupied ps))) (zip bs (map (\<lambda>x. snd (snd x)) parts))"
      using IHok by (rule list.pred_mono_strong) (auto intro: part_ok_mono simp: st(1))
    moreover have "\<forall>q \<in> set (zip bs (map (\<lambda>x. snd (snd x)) parts)). parts_apart (b, n) q"
      using IHok ap by (auto simp: list_all_iff)
    moreover have "part_ok (set (ps_occupied ps)) (b, n)" using ff by (simp add: part_ok_def)
    moreover have "ps_workspaceEnd ps \<le> ps_workspaceEnd ps'" "b + n \<le> ps_workspaceEnd ps'"
      using IH by (auto simp: st(3))
    ultimately show ?thesis using IH False by (auto simp: parts_placed_def bases st(2))
  qed
qed

definition placement_parts :: "WorkspacePlacement \<Rightarrow> WorkspacePlacement \<Rightarrow> (u32 \<times> u32) list" where
  "placement_parts p selected =
     [(wp_stage p, wp_stage selected), (wp_halo p, wp_halo selected),
      (wp_partial p, wp_partial selected), (wp_stripe p, wp_stripe selected)]"

definition persistent_parts :: "WorkspacePlacement \<Rightarrow> WorkspacePlacement \<Rightarrow> (u32 \<times> u32) list" where
  "persistent_parts p selected = take 2 (placement_parts p selected)"

definition allocation_of :: "int \<times> int \<Rightarrow> u32 \<times> u32 \<Rightarrow> WorkspaceAllocation" where
  "allocation_of w x = \<lparr>wa_startTime = fst w, wa_endTime = snd w, wa_start = fst x, wa_end = fst x + snd x\<rparr>"

definition allocations_ok :: "WorkspaceAllocation list \<Rightarrow> bool" where
  "allocations_ok allocations \<longleftrightarrow> (\<forall>a \<in> set allocations. unat (wa_end a) \<le> 520192)"

lemma range_span_bounded: "s \<in> set (range_span r) \<Longrightarrow> unat (snd s) \<le> 520192"
proof -
  have b: "unat (ucast e :: u32) \<le> 520192" if "e \<le> 520192" for e :: u64
  proof -
    have "unat e \<le> 520192" using that by (simp add: word_le_nat_alt)
    moreover have "unat (ucast e :: u32) = unat e mod 2 ^ 32" by (simp add: unsigned_ucast_eq take_bit_eq_mod)
    ultimately show ?thesis by simp
  qed
  assume "s \<in> set (range_span r)"
  then show ?thesis
    by (auto simp: range_span_def Let_def AllocatableTCDMBytes_def split: option.splits if_splits intro!: b)
qed

lemma live_spans_bounded: "bounded (set (live_spans t u g))"
  using range_span_bounded by (fastforce simp: bounded_def live_spans_def split: option.splits if_splits)

lemma occupied_bounded: "allocations_ok allocations \<Longrightarrow> bounded (set (occupied_spans schedule allocations t u))"
  using live_spans_bounded by (fastforce simp: bounded_def occupied_spans_def allocations_ok_def)

lemma place_workspace_spec:
  assumes al: "allocations_ok allocations"
    and pl: "place_workspace schedule cost selected allocations workspaceEnd = (Inr p, allocations', end')"
  defines "w \<equiv> workspace_window schedule cost"
  shows "list_all (part_ok (set (occupied_spans schedule allocations (fst w) (snd w)))) (placement_parts p selected)"
    and "sorted_wrt parts_apart (placement_parts p selected)"
    and "set allocations' = set allocations \<union>
      (if oc_cascade cost = 0 then {}
       else {allocation_of w x | x. x \<in> set (persistent_parts p selected) \<and> snd x \<noteq> 0})"
    and "workspaceEnd \<le> end' \<and> (\<forall>x \<in> set (placement_parts p selected). snd x \<noteq> 0 \<longrightarrow> fst x + snd x \<le> end')"
    and "allocations_ok allocations'"
proof -
  let ?c = "oc_cascade cost \<noteq> 0"
  let ?parts = "[(StagePart, ?c, wp_stage selected), (HaloPart, ?c, wp_halo selected),
             (PartialPart, False, wp_partial selected), (StripePart, False, wp_stripe selected)]"
  let ?ps = "\<lparr>ps_occupied = occupied_spans schedule allocations (fst w) (snd w),
             ps_allocations = allocations, ps_workspaceEnd = workspaceEnd\<rparr>"
  have w: "workspace_window schedule cost = (fst w, snd w)" by (simp add: w_def)
  from pl obtain bases ps' where r: "allocate_parts (fst w) (snd w) ?parts ?ps = (Inr bases, ps')"
      and p: "p = \<lparr>wp_stage = bases ! 0, wp_halo = bases ! 1, wp_partial = bases ! 2, wp_stripe = bases ! 3\<rparr>"
      and e: "allocations' = ps_allocations ps'" "end' = ps_workspaceEnd ps'"
    unfolding place_workspace_def w by (auto simp: Let_def simp del: allocate_parts.simps split: prod.splits sum.splits)
  have pp: "parts_placed (fst w) (snd w) ?ps ?parts bases ps'"
    using r by (intro allocate_parts_placed) (simp_all add: occupied_bounded [OF al])
  then have "length bases = 4" by (simp add: parts_placed_def)
  then obtain b0 b1 b2 b3 where b: "bases = [b0, b1, b2, b3]"
    by (auto simp: numeral_eq_Suc length_Suc_conv)
  note pp' = pp [unfolded parts_placed_def b]
  show l: "list_all (part_ok (set (occupied_spans schedule allocations (fst w) (snd w)))) (placement_parts p selected)"
    using pp' by (simp add: placement_parts_def p b)
  show "sorted_wrt parts_apart (placement_parts p selected)"
    using pp' by (simp add: placement_parts_def p b)
  show s: "set allocations' = set allocations \<union>
      (if oc_cascade cost = 0 then {}
       else {allocation_of w x | x. x \<in> set (persistent_parts p selected) \<and> snd x \<noteq> 0})"
    using pp' by (auto simp: placement_parts_def persistent_parts_def p b e allocation_of_def)
  show "workspaceEnd \<le> end' \<and> (\<forall>x \<in> set (placement_parts p selected). snd x \<noteq> 0 \<longrightarrow> fst x + snd x \<le> end')"
    using pp' by (auto simp: placement_parts_def p b e)
  have "unat (fst x + snd x) \<le> 520192" if "x \<in> set (persistent_parts p selected)" "snd x \<noteq> 0" for x
  proof -
    have "x \<in> set (placement_parts p selected)" using that(1) by (auto simp: persistent_parts_def dest: in_set_takeD)
    with l that(2) have "unat (fst x) + unat (snd x) \<le> 520192" by (auto simp: list_all_iff part_ok_def)
    with unat_end [of "fst x" "snd x"] show ?thesis by simp
  qed
  then show "allocations_ok allocations'"
    using al by (auto simp: allocations_ok_def s allocation_of_def split: if_splits)
qed

section \<open>Selecting workspaces\<close>

text \<open>
  What \<^verbatim>\<open>SelectWorkspace\<close> does to the placements: nothing, or it places the workspace of an operation
  that had none.
\<close>

definition needs_workspace :: "WorkspaceSize \<Rightarrow> bool" where
  "needs_workspace sz \<longleftrightarrow>
     round_dma (ws_stage sz) + round_dma (ws_halo sz) + round_dma (ws_partial sz) + round_dma (ws_stripe sz) \<noteq> 0"

lemma select_cases:
  assumes "SelectWorkspace schedule uid ctx = (None, ctx')"
  obtains cost where "schedule_cost schedule uid = Some cost" and "0 \<le> oc_timeIndex cost"
      and "wc_offsets ctx' = wc_offsets ctx" and "wc_allocations ctx' = wc_allocations ctx"
      and "wc_workspaceEnd ctx' = wc_workspaceEnd ctx" and "workspace_size ctx' = workspace_size ctx"
      and "needs_workspace (workspace_size ctx uid) \<Longrightarrow> wc_offsets ctx uid \<noteq> None"
  | cost p where "schedule_cost schedule uid = Some cost" and "0 \<le> oc_timeIndex cost"
      and "wc_offsets ctx uid = None" and "wc_offsets ctx' = (wc_offsets ctx)(uid \<mapsto> p)"
      and "place_workspace schedule cost (selected_bytes (workspace_size ctx uid)) (wc_allocations ctx)
        (wc_workspaceEnd ctx) = (Inr p, wc_allocations ctx', wc_workspaceEnd ctx')"
      and "workspace_size ctx' = workspace_size ctx"
proof -
  have sz: "workspace_size (ctx\<lparr>wc_sizes := (wc_sizes ctx)(uid \<mapsto> workspace_size ctx uid)\<rparr>) = workspace_size ctx"
    by (auto simp: workspace_size_def fun_eq_iff)
  have act: "wc_offsets (activatePlacement a b sel c) = wc_offsets c"
      "wc_allocations (activatePlacement a b sel c) = wc_allocations c"
      "wc_workspaceEnd (activatePlacement a b sel c) = wc_workspaceEnd c"
      "wc_sizes (activatePlacement a b sel c) = wc_sizes c" for a b sel c
    by (auto simp: activatePlacement_def Let_def)
  show thesis
    using assms that sz
    by (auto simp: SelectWorkspace_def Let_def act use_placement_def enter_scope_def workspace_size_def fun_eq_iff
          needs_workspace_def selected_bytes_def
        split: option.splits prod.splits sum.splits if_splits)
qed

text \<open>
  The contexts that a generation reaches: from a context without placements, by selecting workspaces
  and by commands that change the recorded content.  \<open>owners\<close> lists the operations in the order in
  which their workspaces were placed.
\<close>

inductive workspace_run :: "Schedule \<Rightarrow> WorkspaceContext \<Rightarrow> nat list \<Rightarrow> bool" for schedule where
  start: "wc_offsets ctx = Map.empty \<Longrightarrow> wc_allocations ctx = [] \<Longrightarrow> workspace_run schedule ctx []"
| select: "workspace_run schedule ctx owners \<Longrightarrow> SelectWorkspace schedule uid ctx = (None, ctx') \<Longrightarrow>
    workspace_run schedule ctx'
      (if wc_offsets ctx uid = None \<and> wc_offsets ctx' uid \<noteq> None then owners @ [uid] else owners)"
| content: "workspace_run schedule ctx owners \<Longrightarrow> workspace_run schedule (ctx\<lparr>wc_content := content\<rparr>) owners"

definition times_overlap :: "int \<times> int \<Rightarrow> int \<times> int \<Rightarrow> bool" where
  "times_overlap w v \<longleftrightarrow> fst w \<le> snd v \<and> fst v \<le> snd w"

definition live_occupied :: "Schedule \<Rightarrow> int \<times> int \<Rightarrow> (u32 \<times> u32) set" where
  "live_occupied schedule w =
     set (live_spans (fst w) (snd w) (sch_featureMaps schedule)) \<union>
     set (live_spans (fst w) (snd w) (sch_staging schedule))"

definition context_parts :: "WorkspaceContext \<Rightarrow> nat \<Rightarrow> WorkspacePlacement \<Rightarrow> (u32 \<times> u32) list" where
  "context_parts ctx uid p = placement_parts p (selected_bytes (workspace_size ctx uid))"

text \<open>The placement of one operation: aligned parts in local memory, off the live tensors and each other.\<close>

definition workspace_placed :: "Schedule \<Rightarrow> WorkspaceContext \<Rightarrow> nat \<Rightarrow> WorkspacePlacement \<Rightarrow> bool" where
  "workspace_placed schedule ctx uid p \<longleftrightarrow>
     (\<exists>cost. schedule_cost schedule uid = Some cost \<and>
        list_all (part_ok (live_occupied schedule (workspace_window schedule cost))) (context_parts ctx uid p) \<and>
        sorted_wrt parts_apart (context_parts ctx uid p) \<and>
        (\<forall>x \<in> set (context_parts ctx uid p). snd x \<noteq> 0 \<longrightarrow> fst x + snd x \<le> wc_workspaceEnd ctx))"

text \<open>A later placement keeps off the persistent parts (stage and halo) of an earlier one in a cascade.\<close>

definition keeps_off :: "Schedule \<Rightarrow> WorkspaceContext \<Rightarrow> nat \<Rightarrow> nat \<Rightarrow> bool" where
  "keeps_off schedule ctx u v \<longleftrightarrow>
     (\<forall>cu cv p q. schedule_cost schedule u = Some cu \<and> schedule_cost schedule v = Some cv \<and>
        wc_offsets ctx u = Some p \<and> wc_offsets ctx v = Some q \<and> oc_cascade cu \<noteq> 0 \<and>
        times_overlap (workspace_window schedule cu) (workspace_window schedule cv) \<longrightarrow>
        (\<forall>x \<in> set (take 2 (context_parts ctx u p)). \<forall>y \<in> set (context_parts ctx v q). parts_apart x y))"

definition recorded :: "Schedule \<Rightarrow> WorkspaceContext \<Rightarrow> nat \<Rightarrow> WorkspacePlacement \<Rightarrow> bool" where
  "recorded schedule ctx uid p \<longleftrightarrow>
     (\<forall>cost. schedule_cost schedule uid = Some cost \<and> oc_cascade cost \<noteq> 0 \<longrightarrow>
        (\<forall>x \<in> set (take 2 (context_parts ctx uid p)). snd x \<noteq> 0 \<longrightarrow>
           allocation_of (workspace_window schedule cost) x \<in> set (wc_allocations ctx)))"

definition context_ok :: "Schedule \<Rightarrow> WorkspaceContext \<Rightarrow> nat list \<Rightarrow> bool" where
  "context_ok schedule ctx owners \<longleftrightarrow>
     allocations_ok (wc_allocations ctx) \<and> distinct owners \<and> set owners = dom (wc_offsets ctx) \<and>
     (\<forall>uid p. wc_offsets ctx uid = Some p \<longrightarrow> workspace_placed schedule ctx uid p \<and> recorded schedule ctx uid p) \<and>
     sorted_wrt (keeps_off schedule ctx) owners"

text \<open>A part placed off a recorded allocation is apart from the part that the record stands for.\<close>

lemma part_off_allocation:
  assumes "allocation_of w x \<in> set allocations" and "snd x \<noteq> 0" and "unat (fst x) + unat (snd x) \<le> 520192"
    and "times_overlap w v" and "part_ok (set (occupied_spans schedule allocations (fst v) (snd v))) y"
  shows "parts_apart x y"
proof -
  have "(fst x, fst x + snd x) \<in> set (occupied_spans schedule allocations (fst v) (snd v))"
    using assms(1,4) by (force simp: occupied_spans_def allocation_of_def times_overlap_def)
  then have "part_ok {(fst x, fst x + snd x)} y" by (intro part_ok_mono [OF assms(5)]) simp
  with free_at_end [OF assms(3,2), of "unat (fst y)" "unat (snd y)"] show ?thesis
    by (auto simp: part_ok_def parts_apart_def)
qed

lemma keeps_off_cong:
  "wc_offsets ctx' = wc_offsets ctx \<Longrightarrow> workspace_size ctx' = workspace_size ctx \<Longrightarrow>
   keeps_off schedule ctx' = keeps_off schedule ctx"
  by (intro ext) (simp add: keeps_off_def context_parts_def)

lemma keeps_off_content: "keeps_off schedule (ctx\<lparr>wc_content := content\<rparr>) = keeps_off schedule ctx"
  by (intro ext) (simp add: keeps_off_def context_parts_def workspace_size_def)

lemma run_context_ok:
  "workspace_run schedule ctx owners \<Longrightarrow> context_ok schedule ctx owners"
proof (induction rule: workspace_run.induct)
  case (start ctx)
  then show ?case by (simp add: context_ok_def allocations_ok_def)
next
  case (content ctx owners content)
  then show ?case
    by (simp add: context_ok_def workspace_placed_def recorded_def keeps_off_content context_parts_def workspace_size_def)
next
  case (select ctx owners uid ctx')
  note ok = select.IH [unfolded context_ok_def]
  from select.hyps(2) show ?case
  proof (cases rule: select_cases)
    case (1 cost)
    with select.IH keeps_off_cong [OF 1(3,6)] show ?thesis
      by (auto simp: context_ok_def workspace_placed_def recorded_def context_parts_def)
  next
    case (2 cost p)
    let ?w = "workspace_window schedule cost"
    let ?sel = "selected_bytes (workspace_size ctx uid)"
    have al: "allocations_ok (wc_allocations ctx)" using ok by blast
    note pl = place_workspace_spec [OF al 2(5)]
    have parts: "context_parts ctx' u q = context_parts ctx u q" for u q
      by (simp add: context_parts_def 2(6))
    have new: "context_parts ctx uid p = placement_parts p ?sel" by (simp add: context_parts_def)
    have sub: "set (wc_allocations ctx) \<subseteq> set (wc_allocations ctx')" using pl(3) by auto
    have "live_occupied schedule ?w \<subseteq> set (occupied_spans schedule (wc_allocations ctx) (fst ?w) (snd ?w))"
      by (auto simp: live_occupied_def occupied_spans_def)
    then have pok: "workspace_placed schedule ctx' uid p"
      using pl(1,2,4) 2(1) part_ok_mono
      unfolding workspace_placed_def parts new by (auto simp: list_all_iff)
    have rec: "recorded schedule ctx' uid p"
      using pl(3) 2(1) unfolding recorded_def parts new by (auto simp: persistent_parts_def)
    have old: "workspace_placed schedule ctx' u q \<and> recorded schedule ctx' u q"
      if "wc_offsets ctx u = Some q" for u q
      using ok that pl(4) sub unfolding workspace_placed_def recorded_def parts by (meson order_trans subsetD)
    have off: "keeps_off schedule ctx' u uid" if u: "u \<in> set owners" for u
      unfolding keeps_off_def parts
    proof (intro allI impI ballI, elim conjE)
      fix cu cv q q' x y
      assume c: "schedule_cost schedule u = Some cu" "schedule_cost schedule uid = Some cv"
        "wc_offsets ctx' u = Some q" "wc_offsets ctx' uid = Some q'" "oc_cascade cu \<noteq> 0"
        "times_overlap (workspace_window schedule cu) (workspace_window schedule cv)"
        and x: "x \<in> set (take 2 (context_parts ctx u q))" and y: "y \<in> set (context_parts ctx uid q')"
      have uq: "wc_offsets ctx u = Some q" using c(3) u ok 2(3,4) by (auto split: if_splits)
      have q': "q' = p" "cv = cost" using c 2 by simp_all
      show "parts_apart x y"
      proof (cases "snd x = 0")
        case False
        have "part_ok (live_occupied schedule (workspace_window schedule cu)) x"
          using ok uq c(1) x by (fastforce simp: workspace_placed_def list_all_iff dest: in_set_takeD)
        then have b: "unat (fst x) + unat (snd x) \<le> 520192" using False by (simp add: part_ok_def)
        have "allocation_of (workspace_window schedule cu) x \<in> set (wc_allocations ctx)"
          using ok uq c(1,5) x False by (auto simp: recorded_def)
        moreover have "part_ok (set (occupied_spans schedule (wc_allocations ctx) (fst ?w) (snd ?w))) y"
          using pl(1) y by (simp add: q' new list_all_iff)
        ultimately show ?thesis using part_off_allocation [OF _ False b] c(6) by (simp add: q')
      qed (simp add: parts_apart_def)
    qed
    have keep: "keeps_off schedule ctx' u v" if "u \<in> set owners" "v \<in> set owners" "keeps_off schedule ctx u v" for u v
    proof -
      have "wc_offsets ctx' z = wc_offsets ctx z" if "z \<in> set owners" for z
        using that ok 2(3,4) by (auto simp: domIff)
      from this [OF that(1)] this [OF that(2)] that(3) show ?thesis
        by (simp only: keeps_off_def parts)
    qed
    have "sorted_wrt (keeps_off schedule ctx') owners"
      using ok keep by (elim conjE) (erule sorted_wrt_mono_rel [rotated], blast)
    with off pok rec old pl(5) ok 2(3,4) show ?thesis
      by (auto simp: context_ok_def sorted_wrt_append)
  qed
qed

lemma window_covers:
  assumes "oc_cascade cost \<noteq> 0" and "(u, other) \<in> set (sch_costs schedule)" and "oc_cascade other = oc_cascade cost"
  shows "fst (workspace_window schedule cost) \<le> oc_timeIndex other"
    and "oc_timeIndex other \<le> snd (workspace_window schedule cost)"
proof -
  let ?step = "\<lambda>(uid :: nat, other) (startTime, endTime).
             if oc_cascade other \<noteq> oc_cascade cost then (startTime, endTime)
             else (min startTime (oc_timeIndex other), max endTime (oc_timeIndex other))"
  have "fst (fold ?step cs w) \<le> fst w \<and> snd w \<le> snd (fold ?step cs w) \<and>
      ((u, other) \<in> set cs \<longrightarrow> fst (fold ?step cs w) \<le> oc_timeIndex other \<and>
         oc_timeIndex other \<le> snd (fold ?step cs w))" for cs w
  proof (induction cs arbitrary: w)
    case (Cons c cs)
    from Cons.IH [of "?step c w"] assms(3) show ?case by (auto split: prod.splits if_splits)
  qed simp
  from this [of "sch_costs schedule" "(oc_timeIndex cost, oc_timeIndex cost)"] assms
  show "fst (workspace_window schedule cost) \<le> oc_timeIndex other"
    and "oc_timeIndex other \<le> snd (workspace_window schedule cost)"
    by (simp_all add: workspace_window_def)
qed

lemma same_cascade_overlap:
  assumes "schedule_cost schedule u = Some cu" and "schedule_cost schedule v = Some cv"
    and "oc_cascade cu = oc_cascade cv" and "oc_cascade cu \<noteq> 0"
  shows "times_overlap (workspace_window schedule cu) (workspace_window schedule cv)"
proof -
  have "(u, cu) \<in> set (sch_costs schedule)" "(v, cv) \<in> set (sch_costs schedule)"
    using assms(1,2) by (simp_all add: schedule_cost_def map_of_SomeD)
  with window_covers [of cu] window_covers [of cv] assms(3,4) show ?thesis
    unfolding times_overlap_def by (metis order_trans)
qed

section \<open>The recorded content\<close>

lemma Invalidate_spec:
  assumes "state_ok spans"
  shows "state_ok (Invalidate spans a n)"
    and "content_at (Invalidate spans a n) x = (if a \<le> x \<and> x < a + n then None else content_at spans x)"
proof -
  have "state_ok (Invalidate spans a n) \<and>
    content_at (Invalidate spans a n) x = (if a \<le> x \<and> x < a + n then None else content_at spans x)"
  proof (cases "n = 0")
    case True
    with assms show ?thesis by (auto simp: Invalidate_def Replace_def)
  next
    case False
    then have n: "0 < n" by simp
    show ?thesis unfolding Invalidate_def
      using Replace_refines(1) [OF assms n] Replace_refines(2) [OF assms n, of a None 0 x]
      by (simp add: content_part_def)
  qed
  then show "state_ok (Invalidate spans a n)"
    and "content_at (Invalidate spans a n) x = (if a \<le> x \<and> x < a + n then None else content_at spans x)"
    by blast+
qed

definition in_part :: "nat \<Rightarrow> u32 \<times> u32 \<Rightarrow> bool" where
  "in_part x p \<longleftrightarrow> unat (fst p) \<le> x \<and> x < unat (fst p) + unat (snd p)"

text \<open>
  The ranges handed out for writing: all parts of a fresh placement, all but the halo of a placement
  that is used again, always without the padding seed at the end of the stripe.
\<close>

definition writable_parts :: "WorkspaceContext \<Rightarrow> WorkspacePlacement \<Rightarrow> bool \<Rightarrow> (u32 \<times> u32) list" where
  "writable_parts ctx selected cached =
     [(wc_partialOffset ctx, wp_partial selected), (wc_stageOffset ctx, wp_stage selected)] @
     (if cached then [] else [(wc_haloOffset ctx, wp_halo selected)]) @
     [(wc_stripeStageOffset ctx, if PaddingSeedBytes \<le> wp_stripe selected
         then wp_stripe selected - PaddingSeedBytes else wp_stripe selected)]"

lemma activate_content:
  assumes "state_ok (wc_content ctx)"
  shows "state_ok (wc_content (activatePlacement same cached selected ctx)) \<and>
    content_at (wc_content (activatePlacement same cached selected ctx)) x =
      (if \<not> same \<and> (\<exists>p \<in> set (writable_parts ctx selected cached). in_part x p) then None
       else content_at (wc_content ctx) x)"
  using assms
  by (auto simp: activatePlacement_def Let_def Invalidate_spec writable_parts_def in_part_def)

lemma activate_offsets:
  "writable_parts (activatePlacement same cached selected ctx) = writable_parts ctx"
  by (intro ext) (simp add: activatePlacement_def writable_parts_def Let_def)

lemma select_content:
  assumes ok: "state_ok (wc_content ctx)" and sel: "SelectWorkspace schedule uid ctx = (None, ctx')"
    and cost: "schedule_cost schedule uid = Some cost"
  defines "selected \<equiv> selected_bytes (workspace_size ctx uid)"
  shows "state_ok (wc_content ctx') \<and>
    content_at (wc_content ctx') x =
      (if \<not> sameContentScope cost uid ctx \<or>
          needs_workspace (workspace_size ctx uid) \<and> wc_contentOperation ctx \<noteq> uid \<and>
          (\<exists>p \<in> set (writable_parts ctx' selected (wc_offsets ctx uid \<noteq> None)). in_part x p)
       then None else content_at (wc_content ctx) x)"
proof -
  let ?scope = "if sameContentScope cost uid ctx then wc_content ctx else Clear"
  have c: "state_ok ?scope" using ok by (simp add: Clear_ok)
  have u: "wc_content (use_placement p n ctx) = wc_content ctx" for p n ctx by (simp add: use_placement_def)
  have e: "sameContentScope cost uid (ctx\<lparr>wc_sizes := a, wc_activePartialBytes := b\<rparr>) = sameContentScope cost uid ctx" for a b
    by (simp add: sameContentScope_def)
  note simps = e u activate_content activate_offsets enter_scope_def Clear_ok
  show ?thesis
  proof (cases "needs_workspace (workspace_size ctx uid)")
    case False
    then have "wc_content ctx' = ?scope"
      using sel cost by (auto simp: SelectWorkspace_def Let_def needs_workspace_def selected_bytes_def simps split: if_splits)
    with False c show ?thesis by (simp add: Clear_ok)
  next
    case True
    then have n: "wp_stage selected + wp_halo selected + wp_partial selected + wp_stripe selected \<noteq> 0"
      by (simp add: needs_workspace_def selected_def selected_bytes_def)
    have s: "selected_bytes (workspace_size ctx uid) = selected" by (simp add: selected_def)
    obtain ctx1 cached where a: "ctx' = activatePlacement (wc_contentOperation ctx = uid) cached selected ctx1"
        "cached \<longleftrightarrow> wc_offsets ctx uid \<noteq> None" "wc_content ctx1 = ?scope"
    proof (cases "wc_offsets ctx uid")
      case None
      with sel cost n s that [of False] show thesis
        by (auto simp: SelectWorkspace_def Let_def simps split: if_splits prod.splits sum.splits)
    next
      case (Some p)
      with sel cost n s that [of True] show thesis
        by (auto simp: SelectWorkspace_def Let_def simps split: if_splits)
    qed
    from activate_content [of ctx1 "wc_contentOperation ctx = uid" cached selected x] c a(3)
    show ?thesis using True
      by (cases "sameContentScope cost uid ctx") (auto simp: a(1,2) activate_offsets Clear_ok)
  qed
qed

section \<open>Properties of the selection\<close>

text \<open>C27: An operation of a workspace gets the lowest aligned address of local memory whose range no occupied
  span blocks, and the placement fails exactly when there is no such address.\<close>

theorem workspace_first_fit:
  assumes "bounded (set (ps_occupied ps))" and "nbytes \<noteq> 0"
  shows "case allocatePart startTime endTime nbytes persistent ps of
      None \<Rightarrow> \<forall>x. 32 dvd x \<and> x + unat nbytes \<le> 520192 \<longrightarrow> \<not> free_at (set (ps_occupied ps)) x (unat nbytes)
    | Some (base, ps') \<Rightarrow> 32 dvd unat base \<and> unat base + unat nbytes \<le> 520192 \<and>
        free_at (set (ps_occupied ps)) (unat base) (unat nbytes) \<and>
        (\<forall>x. 32 dvd x \<and> x < unat base \<longrightarrow> \<not> free_at (set (ps_occupied ps)) x (unat nbytes))"
  using allocatePart_first_fit(1) [OF assms, of startTime endTime persistent]
    allocatePart_first_fit(2) [OF assms, of startTime endTime persistent]
  by (auto split: option.split)

lemmas workspace_eval = round_dma_def RoundAway_int_def smod_int_alt_def DMAAlignment_def
  AllocatableTCDMBytes_def Let_def

definition sample_parts :: PartState where
  "sample_parts = \<lparr>ps_occupied = [(96, 160), (0, 40)], ps_allocations = [], ps_workspaceEnd = 0\<rparr>"

theorem workspace_first_fit_witness:
  "allocatePart 0 1 64 True sample_parts = Some (160, \<lparr>ps_occupied = [(0, 40), (96, 160), (160, 224)],
      ps_allocations = [\<lparr>wa_startTime = 0, wa_endTime = 1, wa_start = 160, wa_end = 224\<rparr>], ps_workspaceEnd = 224\<rparr>) \<and>
   \<not> free_at (set (ps_occupied sample_parts)) 64 64"
proof -
  have a: "allocatePart 0 1 64 True sample_parts = Some (160, \<lparr>ps_occupied = [(0, 40), (96, 160), (160, 224)],
      ps_allocations = [\<lparr>wa_startTime = 0, wa_endTime = 1, wa_start = 160, wa_end = 224\<rparr>], ps_workspaceEnd = 224\<rparr>)"
    by (simp add: workspace_eval sample_parts_def allocatePart_def less_eq_prod_def)
  have "bounded (set (ps_occupied sample_parts))" by (simp add: bounded_def sample_parts_def)
  from workspace_first_fit [OF this, of 64 0 1 True] a show ?thesis by simp
qed

text \<open>C25: On every run the placement of each operation consists of aligned, disjoint parts inside local memory
  and off every tensor that is alive meanwhile, below the recorded end of the workspaces; and a later
  placement keeps off the stage and the halo of every earlier one in a cascade that runs at the same time.\<close>

theorem workspace_placement_safe:
  assumes "workspace_run schedule ctx owners"
  shows "(\<forall>u p. wc_offsets ctx u = Some p \<longrightarrow> u \<in> set owners \<and> workspace_placed schedule ctx u p) \<and>
    sorted_wrt (keeps_off schedule ctx) owners"
  using run_context_ok [OF assms] by (auto simp: context_ok_def)

text \<open>Two convolutions of one cascade beside a tensor that is alive at both times.\<close>

definition sample_cascade :: Schedule where
  "sample_cascade =
     \<lparr>sch_costs = [(11, \<lparr>oc_timeIndex = 0, oc_cascade = 7\<rparr>), (12, \<lparr>oc_timeIndex = 1, oc_cascade = 7\<rparr>)],
      sch_featureMaps = Some [\<lparr>tr_startTime = 0, tr_endTime = 1, tr_size = 100,
        tr_tensors = [\<lparr>at_address = 32, at_isGraphInput = False, at_isGraphOutput = False,
                       at_isConstant = False, at_inL2 = False\<rparr>]\<rparr>],
      sch_staging = None, sch_snapshot = []\<rparr>"

definition sample_context :: WorkspaceContext where
  "sample_context =
     \<lparr>wc_sizes = [11 \<mapsto> \<lparr>ws_stage = 64, ws_halo = 40, ws_haloRows = 1, ws_partial = 128, ws_stripe = 96\<rparr>,
                  12 \<mapsto> \<lparr>ws_stage = 32, ws_halo = 0, ws_haloRows = 0, ws_partial = 64, ws_stripe = 0\<rparr>],
      wc_offsets = Map.empty, wc_allocations = [], wc_stageOffset = 0, wc_weightStageOffset = 0,
      wc_haloOffset = 0, wc_activeHaloBytes = 0, wc_activeHaloRows = 0, wc_partialOffset = 0,
      wc_stripeStageOffset = 0, wc_paddingSeedOffset = 0, wc_activePartialBytes = 0,
      wc_workspaceEnd = 0, wc_content = [], wc_contentCascade = 0, wc_contentOperation = INVALID_UID\<rparr>"

lemma sample_rounding:
  "round_dma 32 = 32" "round_dma 0 = 0" "round_dma 64 = 64" "round_dma 40 = 64" "round_dma 128 = 128" "round_dma 96 = 96"
  "round_dma 132 = 160" "round_dma 160 = 160" "round_dma 224 = 224" "round_dma 288 = 288" "round_dma 416 = 416"
  by (simp_all add: workspace_eval)

lemma sample_occupied:
  "workspace_window sample_cascade \<lparr>oc_timeIndex = 0, oc_cascade = 7\<rparr> = (0, 1)"
  "workspace_window sample_cascade \<lparr>oc_timeIndex = 1, oc_cascade = 7\<rparr> = (0, 1)"
  "occupied_spans sample_cascade allocations 0 1 =
     (32, 132) # map (\<lambda>a. (wa_start a, wa_end a)) (filter (\<lambda>a. \<not> (wa_endTime a < 0 \<or> 1 < wa_startTime a)) allocations)"
  by (simp_all add: workspace_window_def sample_cascade_def occupied_spans_def live_spans_def range_span_def
      skipped_tensor_def u64_of_def AllocatableTCDMBytes_def)

lemma sample_place_first:
  "place_workspace sample_cascade \<lparr>oc_timeIndex = 0, oc_cascade = 7\<rparr>
     \<lparr>wp_stage = 64, wp_halo = 64, wp_partial = 128, wp_stripe = 96\<rparr> [] 0 =
   (Inr \<lparr>wp_stage = 160, wp_halo = 224, wp_partial = 288, wp_stripe = 416\<rparr>,
    [\<lparr>wa_startTime = 0, wa_endTime = 1, wa_start = 160, wa_end = 224\<rparr>,
     \<lparr>wa_startTime = 0, wa_endTime = 1, wa_start = 224, wa_end = 288\<rparr>], 512)"
  by (simp add: place_workspace_def sample_occupied allocatePart_def less_eq_prod_def sample_rounding
      AllocatableTCDMBytes_def Let_def)

lemma sample_place_second:
  "place_workspace sample_cascade \<lparr>oc_timeIndex = 1, oc_cascade = 7\<rparr>
     \<lparr>wp_stage = 32, wp_halo = 0, wp_partial = 64, wp_stripe = 0\<rparr>
     [\<lparr>wa_startTime = 0, wa_endTime = 1, wa_start = 160, wa_end = 224\<rparr>,
      \<lparr>wa_startTime = 0, wa_endTime = 1, wa_start = 224, wa_end = 288\<rparr>] 512 =
   (Inr \<lparr>wp_stage = 0, wp_halo = 0, wp_partial = 288, wp_stripe = 0\<rparr>,
    [\<lparr>wa_startTime = 0, wa_endTime = 1, wa_start = 160, wa_end = 224\<rparr>,
     \<lparr>wa_startTime = 0, wa_endTime = 1, wa_start = 224, wa_end = 288\<rparr>,
     \<lparr>wa_startTime = 0, wa_endTime = 1, wa_start = 0, wa_end = 32\<rparr>], 512)"
  by (simp add: place_workspace_def sample_occupied allocatePart_def less_eq_prod_def sample_rounding
      AllocatableTCDMBytes_def Let_def)

definition sample_first :: WorkspaceContext where
  "sample_first = snd (SelectWorkspace sample_cascade 11 sample_context)"

definition sample_second :: WorkspaceContext where
  "sample_second = snd (SelectWorkspace sample_cascade 12 sample_first)"

lemma sample_costs:
  "schedule_cost sample_cascade 11 = Some \<lparr>oc_timeIndex = 0, oc_cascade = 7\<rparr>"
  "schedule_cost sample_cascade 12 = Some \<lparr>oc_timeIndex = 1, oc_cascade = 7\<rparr>"
  by (simp_all add: schedule_cost_def sample_cascade_def)

lemmas sample_eval = SelectWorkspace_def enter_scope_def use_placement_def activatePlacement_def workspace_size_def
  selected_bytes_def sample_costs sample_context_def no_workspace_def PaddingSeedBytes_def sameContentScope_def
  INVALID_UID_def

lemma sample_first_fields:
  "SelectWorkspace sample_cascade 11 sample_context = (None, sample_first)"
  "wc_offsets sample_first 11 = Some \<lparr>wp_stage = 160, wp_halo = 224, wp_partial = 288, wp_stripe = 416\<rparr>"
  "wc_offsets sample_first 12 = None"
  "wc_allocations sample_first = [\<lparr>wa_startTime = 0, wa_endTime = 1, wa_start = 160, wa_end = 224\<rparr>,
      \<lparr>wa_startTime = 0, wa_endTime = 1, wa_start = 224, wa_end = 288\<rparr>]"
  "wc_workspaceEnd sample_first = 512" "wc_contentOperation sample_first = 11" "wc_contentCascade sample_first = 7"
  "wc_sizes sample_first 11 = Some \<lparr>ws_stage = 64, ws_halo = 40, ws_haloRows = 1, ws_partial = 128, ws_stripe = 96\<rparr>"
  "wc_sizes sample_first 12 = Some \<lparr>ws_stage = 32, ws_halo = 0, ws_haloRows = 0, ws_partial = 64, ws_stripe = 0\<rparr>"
proof -
  have "fst (SelectWorkspace sample_cascade 11 sample_context) = None"
    by (simp add: sample_eval sample_rounding sample_place_first Let_def)
  then show "SelectWorkspace sample_cascade 11 sample_context = (None, sample_first)"
    by (simp add: sample_first_def prod_eq_iff)
qed (simp_all add: sample_first_def sample_eval sample_rounding sample_place_first Let_def)

lemmas sample_eval_second = SelectWorkspace_def enter_scope_def use_placement_def activatePlacement_def
  selected_bytes_def workspace_size_def sample_costs sample_first_fields(2-) sample_rounding sample_place_second

lemma sample_selections:
  "SelectWorkspace sample_cascade 12 sample_first = (None, sample_second)"
  "wc_offsets sample_second 12 = Some \<lparr>wp_stage = 0, wp_halo = 0, wp_partial = 288, wp_stripe = 0\<rparr>"
proof -
  have "fst (SelectWorkspace sample_cascade 12 sample_first) = None"
    by (simp add: sample_eval_second Let_def)
  then show "SelectWorkspace sample_cascade 12 sample_first = (None, sample_second)"
    by (simp add: sample_second_def prod_eq_iff)
qed (simp add: sample_second_def sample_eval_second Let_def)

lemma sample_run: "workspace_run sample_cascade sample_first [11]" "workspace_run sample_cascade sample_second [11, 12]"
proof -
  have "workspace_run sample_cascade sample_context []"
    by (rule workspace_run.start) (simp_all add: sample_context_def)
  from workspace_run.select [OF this sample_first_fields(1)]
  show f: "workspace_run sample_cascade sample_first [11]"
    by (simp add: sample_first_fields(2)) (simp add: sample_context_def)
  from workspace_run.select [OF f sample_selections(1)]
  show "workspace_run sample_cascade sample_second [11, 12]"
    by (simp add: sample_first_fields(3) sample_selections(2))
qed

theorem workspace_placement_safe_witness:
  "workspace_run sample_cascade sample_second [11, 12] \<and>
   workspace_placed sample_cascade sample_second 12 \<lparr>wp_stage = 0, wp_halo = 0, wp_partial = 288, wp_stripe = 0\<rparr> \<and>
   keeps_off sample_cascade sample_second 11 12"
  using workspace_placement_safe [OF sample_run(2)] sample_run(2) sample_selections(2) by simp

lemma select_offsets:
  assumes "SelectWorkspace schedule uid ctx = (None, ctx')" and "needs_workspace (workspace_size ctx uid)"
  shows "\<exists>p. wc_offsets ctx' uid = Some p \<and> wc_stageOffset ctx' = wp_stage p \<and> wc_weightStageOffset ctx' = wp_stage p \<and>
    wc_haloOffset ctx' = wp_halo p \<and> wc_partialOffset ctx' = wp_partial p \<and> wc_stripeStageOffset ctx' = wp_stripe p"
proof -
  have act: "wc_offsets (activatePlacement a b sel c) = wc_offsets c"
      "wc_stageOffset (activatePlacement a b sel c) = wc_stageOffset c"
      "wc_weightStageOffset (activatePlacement a b sel c) = wc_weightStageOffset c"
      "wc_haloOffset (activatePlacement a b sel c) = wc_haloOffset c"
      "wc_partialOffset (activatePlacement a b sel c) = wc_partialOffset c"
      "wc_stripeStageOffset (activatePlacement a b sel c) = wc_stripeStageOffset c" for a b sel c
    by (auto simp: activatePlacement_def Let_def)
  show ?thesis using assms
    by (auto simp: SelectWorkspace_def Let_def act use_placement_def enter_scope_def needs_workspace_def selected_bytes_def
        split: option.splits prod.splits sum.splits if_splits)
qed

text \<open>The halo of an earlier operation of the cascade lies off everything a fresh placement may overwrite.\<close>

lemma fresh_keeps_halo:
  assumes run: "workspace_run schedule ctx owners" and sel: "SelectWorkspace schedule uid ctx = (None, ctx')"
    and needs: "needs_workspace (workspace_size ctx uid)" and fresh: "wc_offsets ctx uid = None"
    and c: "schedule_cost schedule uid = Some cost" "schedule_cost schedule u = Some cu"
      "oc_cascade cu = oc_cascade cost" "oc_cascade cost \<noteq> 0"
    and u: "wc_offsets ctx u = Some p" and x: "in_part x (wp_halo p, wp_halo (selected_bytes (workspace_size ctx u)))"
    and y: "y \<in> set (writable_parts ctx' (selected_bytes (workspace_size ctx uid)) False)"
  shows "\<not> in_part x y"
proof -
  obtain q where q: "wc_offsets ctx' uid = Some q" "wc_stageOffset ctx' = wp_stage q" "wc_haloOffset ctx' = wp_halo q"
      "wc_partialOffset ctx' = wp_partial q" "wc_stripeStageOffset ctx' = wp_stripe q"
    using select_offsets [OF sel needs] by blast
  have "workspace_run schedule ctx' (owners @ [uid])"
    using workspace_run.select [OF run sel] fresh q(1) by simp
  from run_context_ok [OF this] have "sorted_wrt (keeps_off schedule ctx') (owners @ [uid])" by (simp add: context_ok_def)
  moreover have "u \<in> set owners" using run_context_ok [OF run] u by (auto simp: context_ok_def)
  ultimately have off: "keeps_off schedule ctx' u uid" by (simp add: sorted_wrt_append)
  have same: "workspace_size ctx' = workspace_size ctx" "wc_offsets ctx' u = Some p"
    using u fresh by (cases rule: select_cases [OF sel]; auto)+
  let ?h = "(wp_halo p, wp_halo (selected_bytes (workspace_size ctx u)))"
  have "?h \<in> set (take 2 (context_parts ctx' u p))"
    by (simp add: context_parts_def same placement_parts_def)
  then have ap: "parts_apart ?h z" if "z \<in> set (context_parts ctx' uid q)" for z
    using off c same(2) q(1) same_cascade_overlap [OF c(2,1)] that unfolding keeps_off_def by metis
  have le: "PaddingSeedBytes \<le> n \<Longrightarrow> unat (n - PaddingSeedBytes) \<le> unat n" for n
    by (simp add: unat_sub word_le_nat_alt)
  have "\<exists>z \<in> set (context_parts ctx' uid q). fst y = fst z \<and> unat (snd y) \<le> unat (snd z)"
    using y le [of "wp_stripe (selected_bytes (workspace_size ctx uid))"]
    unfolding writable_parts_def q context_parts_def same(1) placement_parts_def
    by (simp split: if_splits) (elim disjE; simp)+
  then obtain z where z: "z \<in> set (context_parts ctx' uid q)" "fst y = fst z" "unat (snd y) \<le> unat (snd z)" by blast
  from ap [OF z(1)] x z(2,3) show ?thesis by (auto simp: parts_apart_def in_part_def)
qed

text \<open>C26: A successful selection makes the parts of the placement current, forgets the recorded content of
  exactly the ranges the operation may overwrite when it takes the memory over (everything, when the scope
  changes), keeps the record well formed, and a fresh placement keeps the halos of its cascade.\<close>

theorem selected_workspace:
  assumes "workspace_run schedule ctx owners" and "state_ok (wc_content ctx)"
    and "SelectWorkspace schedule uid ctx = (None, ctx')"
  shows "\<exists>cost. schedule_cost schedule uid = Some cost \<and> state_ok (wc_content ctx') \<and>
    (needs_workspace (workspace_size ctx uid) \<longrightarrow>
       (\<exists>p. wc_offsets ctx' uid = Some p \<and> wc_stageOffset ctx' = wp_stage p \<and> wc_weightStageOffset ctx' = wp_stage p \<and>
          wc_haloOffset ctx' = wp_halo p \<and> wc_partialOffset ctx' = wp_partial p \<and>
          wc_stripeStageOffset ctx' = wp_stripe p)) \<and>
    (\<forall>x. content_at (wc_content ctx') x =
      (if \<not> sameContentScope cost uid ctx \<or>
          needs_workspace (workspace_size ctx uid) \<and> wc_contentOperation ctx \<noteq> uid \<and>
          (\<exists>p \<in> set (writable_parts ctx' (selected_bytes (workspace_size ctx uid)) (wc_offsets ctx uid \<noteq> None)). in_part x p)
       then None else content_at (wc_content ctx) x)) \<and>
    (\<forall>u cu p x. wc_offsets ctx u = Some p \<and> schedule_cost schedule u = Some cu \<and> oc_cascade cu = oc_cascade cost \<and>
       oc_cascade cost \<noteq> 0 \<and> sameContentScope cost uid ctx \<and> wc_offsets ctx uid = None \<and>
       in_part x (wp_halo p, wp_halo (selected_bytes (workspace_size ctx u))) \<longrightarrow>
         content_at (wc_content ctx') x = content_at (wc_content ctx) x)"
proof -
  obtain cost where c: "schedule_cost schedule uid = Some cost"
    by (cases rule: select_cases [OF assms(3)]) auto
  note content = select_content [OF assms(2,3) c]
  have "content_at (wc_content ctx') x = content_at (wc_content ctx) x"
    if "wc_offsets ctx u = Some p" "schedule_cost schedule u = Some cu" "oc_cascade cu = oc_cascade cost"
      "oc_cascade cost \<noteq> 0" "sameContentScope cost uid ctx" "wc_offsets ctx uid = None"
      "in_part x (wp_halo p, wp_halo (selected_bytes (workspace_size ctx u)))" for u cu p x
    using content [of x] fresh_keeps_halo [OF assms(1,3) _ that(6) c that(2-4,1,7)] that(5,6) by auto
  with c content select_offsets [OF assms(3)] show ?thesis by blast
qed

text \<open>The second operation is selected while bytes 200 to 320 hold known content: what lies in the halo of the
  first (224 to 288) stays, what lies in the partial sums of the second (288 to 352) is forgotten.\<close>

definition sample_held :: WorkspaceContext where
  "sample_held = sample_first\<lparr>wc_content := WriteContent [] 200 120 \<lparr>mc_identity = 5, mc_generation = 1\<rparr> 0\<rparr>"

definition sample_held_second :: WorkspaceContext where
  "sample_held_second = snd (SelectWorkspace sample_cascade 12 sample_held)"

theorem selected_workspace_witness:
  "workspace_run sample_cascade sample_held [11] \<and> SelectWorkspace sample_cascade 12 sample_held = (None, sample_held_second) \<and>
   content_at (wc_content sample_held_second) 230 = Some (\<lparr>mc_identity = 5, mc_generation = 1\<rparr>, 30) \<and>
   content_at (wc_content sample_held_second) 300 = None"
proof -
  have run: "workspace_run sample_cascade sample_held [11]"
    unfolding sample_held_def by (rule workspace_run.content) (rule sample_run)
  have ok: "state_ok (wc_content sample_held)"
    "content_at (wc_content sample_held) 230 = Some (\<lparr>mc_identity = 5, mc_generation = 1\<rparr>, 30)"
    using Replace_refines [of "[]" 120 200 "Some \<lparr>mc_identity = 5, mc_generation = 1\<rparr>" 0] Clear_ok(1)
    by (simp_all add: sample_held_def WriteContent_def Clear_def content_part_def)
  have "fst (SelectWorkspace sample_cascade 12 sample_held) = None"
    by (simp add: sample_held_def sample_eval_second Let_def)
  then have sel: "SelectWorkspace sample_cascade 12 sample_held = (None, sample_held_second)"
    by (simp add: sample_held_second_def prod_eq_iff)
  have part: "wc_partialOffset sample_held_second = 288"
    by (simp add: sample_held_second_def sample_held_def sample_eval_second Let_def)
  note at = workspace_size_def sample_first_fields(2-)
  from selected_workspace [OF run ok(1) sel] have 1: "content_at (wc_content sample_held_second) 300 = None"
    by (auto simp: sample_costs at part needs_workspace_def sample_held_def sample_rounding writable_parts_def selected_bytes_def in_part_def)
  from selected_workspace [OF run ok(1) sel] obtain cost where "schedule_cost sample_cascade 12 = Some cost"
    and keep: "wc_offsets sample_held u = Some p \<Longrightarrow> schedule_cost sample_cascade u = Some cu \<Longrightarrow>
      oc_cascade cu = oc_cascade cost \<Longrightarrow> oc_cascade cost \<noteq> 0 \<Longrightarrow> sameContentScope cost 12 sample_held \<Longrightarrow>
      wc_offsets sample_held 12 = None \<Longrightarrow>
      in_part x (wp_halo p, wp_halo (selected_bytes (workspace_size sample_held u))) \<Longrightarrow>
      content_at (wc_content sample_held_second) x = content_at (wc_content sample_held) x" for u p cu x
    by blast
  then have 2: "content_at (wc_content sample_held_second) 230 = content_at (wc_content sample_held) 230"
    by (intro keep [of 11 _ "\<lparr>oc_timeIndex = 0, oc_cascade = 7\<rparr>"]) (auto simp: sample_costs at sample_held_def sameContentScope_def sample_rounding
        selected_bytes_def in_part_def)
  with 1 run sel ok(2) show ?thesis by simp
qed

end
