(* ===== verification/NAI_WorkspaceSizes.thy ===== *)
theory NAI_WorkspaceSizes
  imports NAI_Workspace NAI_AllocatorProof
begin

text \<open>
  The sizes of workspaces: the row tile of a spilled convolution is the cheapest that fits, the halos
  of a cascade share exactly the memory left beside its other workspaces and the live tensors, and the
  reservation given to the scheduler covers what the operations will ask for.
\<close>

section \<open>The cheapest tile\<close>

text \<open>\<open>better\<close> orders the candidates: a lower cost, or the same cost with at least as many rows.\<close>

definition better :: "u32 \<times> u64 \<Rightarrow> u32 \<times> u64 \<Rightarrow> bool" where
  "better x y \<longleftrightarrow> snd x < snd y \<or> snd x = snd y \<and> fst y \<le> fst x"

lemma better_trans: "better x y \<Longrightarrow> better y z \<Longrightarrow> better x z"
  by (auto simp: better_def)

lemma cheapest_rows_spec:
  assumes "cheapest_rows cost_of rs (s, c) = Some (Inr r)"
  shows "(\<forall>x \<in> set rs. \<exists>m. cost_of x = Some (Inr m)) \<and>
    (\<exists>c'. (r = s \<and> c' = c \<or> r \<in> set rs \<and> cost_of r = Some (Inr (Some c'))) \<and> better (r, c') (s, c) \<and>
      (\<forall>x \<in> set rs. \<forall>d. cost_of x = Some (Inr (Some d)) \<longrightarrow> better (r, c') (x, d)))"
  using assms
proof (induction rs arbitrary: s c)
  case Nil
  then show ?case by (auto simp: better_def)
next
  case (Cons x rs)
  from Cons.prems obtain m where m: "cost_of x = Some (Inr m)"
    by (auto split: option.splits sum.splits)
  show ?case
  proof (cases m)
    case None
    with Cons.prems m have "cheapest_rows cost_of rs (s, c) = Some (Inr r)" by simp
    from Cons.IH [OF this] m None show ?thesis by auto
  next
    case (Some d)
    let ?n = "if d < c \<or> d = c \<and> s < x then (x, d) else (s, c)"
    from Cons.prems m Some have "cheapest_rows cost_of rs (fst ?n, snd ?n) = Some (Inr r)" by simp
    from Cons.IH [OF this] obtain c' where IH: "\<forall>x \<in> set rs. \<exists>m. cost_of x = Some (Inr m)"
        "r = fst ?n \<and> c' = snd ?n \<or> r \<in> set rs \<and> cost_of r = Some (Inr (Some c'))"
        "better (r, c') ?n" "\<forall>x \<in> set rs. \<forall>d. cost_of x = Some (Inr (Some d)) \<longrightarrow> better (r, c') (x, d)"
      by auto
    have "better ?n (s, c)" "better ?n (x, d)" by (auto simp: better_def)
    with IH(3) have "better (r, c') (s, c)" "better (r, c') (x, d)" using better_trans by blast+
    with IH m Some show ?thesis by (auto split: if_splits)
  qed
qed

text \<open>The stripe workspace of a tile holds every stripe.\<close>

definition stripe_bytes :: "bool \<Rightarrow> int \<Rightarrow> int \<Rightarrow> StripeStagingPlan \<Rightarrow> u64" where
  "stripe_bytes spillOfm w outputRows staging =
     aligned_u64 (ucast (sp_bytes staging)) + (if spillOfm then u64_of outputRows * u64_of w * 32 else 0) +
     ucast PaddingSeedBytes"

lemma spill_stripes_spec:
  assumes "spill_stripes staging_of h w rows inputGroups spillOfm ys (ws, ib, n) = Some (Inr (ws', ib', n'))"
  shows "ws \<le> ws' \<and> n' = n + of_nat (length ys) \<and>
    (\<forall>y \<in> set ys. \<exists>staging. PlanStripeStaging (staging_of y (min (uint rows) (h - y))) = Some (Inr staging) \<and>
       stripe_bytes spillOfm w (min (uint rows) (h - y)) staging \<le> ws')"
  using assms
proof (induction ys arbitrary: ws ib n)
  case (Cons y ys)
  then obtain staging where st: "PlanStripeStaging (staging_of y (min (uint rows) (h - y))) = Some (Inr staging)"
    by (auto simp: Let_def split: option.splits sum.splits)
  from Cons.prems st Cons.IH show ?case
    by (fastforce simp: Let_def stripe_bytes_def)
qed simp

text \<open>C30: When the tile height of a spilled convolution is chosen by cost, the chosen height has the least
  cost among all heights whose workspace fits, and is the largest of those; every stripe of it can be
  staged, and the stripe workspace with the partial sums stays below the memory that is left.\<close>

theorem spill_rows_cheapest:
  fixes ifm storage ofm :: Shape and k :: Kernel and schedule :: Schedule and cost :: OpCost
    and inputGroups outputGroups :: u32 and spillOfm :: bool
  defines "used \<equiv> MemoryUsageAt schedule (oc_timeIndex cost)"
  defines "cost_of \<equiv> row_cost ifm storage ofm k inputGroups outputGroups spillOfm (word_of_int (520192 - used))"
  defines "heights \<equiv> set (map word_of_int [1..uint (LinebufferSpillStripeRows (ReshapeToNHWC ofm))])"
  assumes "SelectLinebufferSpillStripeRows ifm storage ofm (Some k) inputGroups outputGroups spillOfm
      (Some (schedule, cost)) = Some (Inr r)"
    and "1 < inputGroups" and "0 \<le> oc_timeIndex cost" and "0 \<le> used" and "used < 520192"
    and "y \<in> heights" and "cost_of y = Some (Inr (Some d))" and "d < 0xFFFFFFFFFFFFFFFF"
  shows "r \<in> heights \<and>
    (\<exists>c. cost_of r = Some (Inr (Some c)) \<and>
      (\<forall>x \<in> heights. \<forall>e. cost_of x = Some (Inr (Some e)) \<longrightarrow> c < e \<or> c = e \<and> x \<le> r)) \<and>
    (\<exists>ws. (\<forall>z \<in> set (tile_starts 0 (uint r) (Height (ReshapeToNHWC ofm))).
        \<exists>staging. PlanStripeStaging (MakeLinebufferSpillStaging ifm storage (ReshapeToNHWC ofm) k z
            (min (uint r) (Height (ReshapeToNHWC ofm) - z)) 0 0) = Some (Inr staging) \<and>
          stripe_bytes spillOfm (Width (ReshapeToNHWC ofm)) (min (uint r) (Height (ReshapeToNHWC ofm) - z)) staging \<le> ws) \<and>
      aligned_u64 (min 256 (ucast r * u64_of (Width (ReshapeToNHWC ofm))) * 32 * 4) + aligned_u64 ws <
        word_of_int (520192 - used))"
proof -
  let ?largest = "LinebufferSpillStripeRows (ReshapeToNHWC ofm)"
  have "\<not> inputGroups \<le> 1" "uint AllocatableTCDMBytes = 520192" using assms(5) by (simp_all add: AllocatableTCDMBytes_def)
  with assms(4-8) have "cheapest_rows cost_of (map word_of_int [1..uint ?largest]) (?largest, 0xFFFFFFFFFFFFFFFF) = Some (Inr r)"
    by (simp add: SelectLinebufferSpillStripeRows_def used_def [symmetric] cost_of_def Let_def)
  from cheapest_rows_spec [OF this] obtain c' where
    c: "r = ?largest \<and> c' = 0xFFFFFFFFFFFFFFFF \<or> r \<in> heights \<and> cost_of r = Some (Inr (Some c'))"
      "\<And>x e. x \<in> heights \<Longrightarrow> cost_of x = Some (Inr (Some e)) \<Longrightarrow> better (r, c') (x, e)"
    unfolding heights_def by blast
  have "c' \<le> d" using c(2) [OF assms(9,10)] by (auto simp: better_def)
  with assms(11) have r: "r \<in> heights" "cost_of r = Some (Inr (Some c'))" using c(1) by auto
  from r(2) obtain acc where acc0: "spill_stripes (\<lambda>y n. MakeLinebufferSpillStaging ifm storage (ReshapeToNHWC ofm) k y n 0 0)
             (Height (ReshapeToNHWC ofm)) (Width (ReshapeToNHWC ofm)) r inputGroups spillOfm
             (tile_starts 0 (uint r) (Height (ReshapeToNHWC ofm))) (0, 0, 0) = Some (Inr acc)"
      "tile_cost (ReshapeToNHWC ofm) r inputGroups outputGroups spillOfm (word_of_int (520192 - used)) acc = Some c'"
    unfolding cost_of_def row_cost_def Let_def by (auto simp del: spill_stripes.simps tile_starts.simps split: option.splits sum.splits)
  then obtain ws ib n where acc: "spill_stripes (\<lambda>y n. MakeLinebufferSpillStaging ifm storage (ReshapeToNHWC ofm) k y n 0 0)
             (Height (ReshapeToNHWC ofm)) (Width (ReshapeToNHWC ofm)) r inputGroups spillOfm
             (tile_starts 0 (uint r) (Height (ReshapeToNHWC ofm))) (0, 0, 0) = Some (Inr (ws, ib, n))"
      and tc: "tile_cost (ReshapeToNHWC ofm) r inputGroups outputGroups spillOfm (word_of_int (520192 - used)) (ws, ib, n) = Some c'"
    by (cases acc) auto
  from tc have fits: "aligned_u64 (min 256 (ucast r * u64_of (Width (ReshapeToNHWC ofm))) * 32 * 4) + aligned_u64 ws <
        word_of_int (520192 - used)"
    by (simp add: tile_cost_def Let_def split: if_splits)
  have "\<forall>x \<in> heights. \<forall>e. cost_of x = Some (Inr (Some e)) \<longrightarrow> c' < e \<or> c' = e \<and> x \<le> r"
    using c(2) by (fastforce simp: better_def)
  moreover note spill_stripes_spec [OF acc, THEN conjunct2, THEN conjunct2] fits r
  ultimately show ?thesis by (intro conjI exI [of _ c'] exI [of _ ws])
qed

definition sample_kernel :: Kernel where
  "sample_kernel = \<lparr>kn_sizeX = 3, kn_sizeY = 3, kn_strideX = 1, kn_strideY = 1,
     kn_padTop = 1, kn_padLeft = 1, kn_padBottom = 1, kn_padRight = 1\<rparr>"

definition empty_schedule :: Schedule where
  "empty_schedule = \<lparr>sch_costs = [], sch_featureMaps = None, sch_staging = None, sch_snapshot = []\<rparr>"

definition sample_cost :: OpCost where
  "sample_cost = \<lparr>oc_timeIndex = 0, oc_cascade = 0\<rparr>"

lemma sample_tile:
  "SelectLinebufferSpillStripeRows [1, 2, 1, 32] [1, 2, 1, 32] [1, 2, 1, 64] (Some sample_kernel) 2 2 False
     (Some (empty_schedule, sample_cost)) = Some (Inr 2)"
  "row_cost [1, 2, 1, 32] [1, 2, 1, 32] [1, 2, 1, 64] sample_kernel 2 2 False 520192 1 = Some (Inr (Some 203008))"
  "(1 :: u32) \<in> set (map word_of_int [1..uint (LinebufferSpillStripeRows (ReshapeToNHWC [1, 2, 1, 64]))])"
  by code_simp+

theorem spill_rows_cheapest_witness:
  "\<exists>c. row_cost [1, 2, 1, 32] [1, 2, 1, 32] [1, 2, 1, 64] sample_kernel 2 2 False 520192 2 = Some (Inr (Some c)) \<and>
    c \<le> 203008"
proof -
  have u: "MemoryUsageAt empty_schedule (oc_timeIndex sample_cost) = 0"
    by (simp add: MemoryUsageAt_def empty_schedule_def)
  have w: "word_of_int (520192 - 0) = (520192 :: u64)" by simp
  have p: "(1 :: u32) < 2" "0 \<le> oc_timeIndex sample_cost" "(0 :: int) \<le> 0" "(0 :: int) < 520192"
    "(203008 :: u64) < 0xFFFFFFFFFFFFFFFF"
    by (simp_all add: sample_cost_def)
  from spill_rows_cheapest [OF sample_tile(1), of 1 203008, unfolded u w, OF p(1-4) sample_tile(3,2) p(5)] sample_tile(2,3)
  have "\<exists>c. row_cost [1, 2, 1, 32] [1, 2, 1, 32] [1, 2, 1, 64] sample_kernel 2 2 False 520192 2 = Some (Inr (Some c)) \<and>
      (c < 203008 \<or> c = 203008 \<and> 1 \<le> (2 :: u32))"
    by blast
  then show ?thesis by auto
qed

section \<open>The other sizes\<close>

text \<open>A tile of a spilled pointwise convolution has at most the rows that fit, at least one.\<close>

lemma pointwise_tile_fits:
  assumes "MemoryUsageAt schedule (oc_timeIndex cost) = used" and "0 \<le> used" and "used < 520192" and "rows \<noteq> 0"
    and "bytesPerRow = max (stagedGroups * 32) (if paddedK \<noteq> 32 then 32 else 0) + (if 32 < paddedK then 32 * 4 else 0)"
    and "bytesPerRow \<noteq> 0"
  defines "r \<equiv> PointwiseSpillTileRows rows paddedK stagedGroups (Some (schedule, cost))"
  shows "1 \<le> r" and "r \<le> min rows 256" and "r = 1 \<or> uint r * uint bytesPerRow + used \<le> 520192"
proof -
  let ?free = "word_of_int (520192 - used) :: u32"
  have free: "uint ?free = 520192 - used" 
    using assms(2,3) unfolding uint_word_of_int by (intro mod_pos_pos_trivial) simp_all
  have r: "r = max 1 (min (min rows 256) (?free div bytesPerRow))"
    using assms(1,3,6) by (simp add: r_def PointwiseSpillTileRows_def Let_def MaxPointwiseSpillRows_def
        AllocatableTCDMBytes_def flip: assms(5))
  show "1 \<le> r" by (simp add: r)
  have "1 \<le> rows" using assms(4) by (simp add: word_le_nat_alt Suc_le_eq unat_gt_0)
  then have "1 \<le> min rows 256" by simp
  then show "r \<le> min rows 256" by (simp add: r min_le_iff_disj)
  have "r = 1 \<or> r \<le> ?free div bytesPerRow" unfolding r by (auto simp: max_def)
  moreover have "uint r * uint bytesPerRow + used \<le> 520192" if "r \<le> ?free div bytesPerRow"
  proof -
    have "uint r \<le> uint ?free div uint bytesPerRow" using that by (simp add: word_le_def uint_div)
    then have "uint r * uint bytesPerRow \<le> uint ?free div uint bytesPerRow * uint bytesPerRow"
      by (intro mult_right_mono) simp_all
    also have "\<dots> \<le> uint ?free"
    proof -
      have "uint ?free div uint bytesPerRow * uint bytesPerRow + uint (?free mod bytesPerRow) = uint ?free"
        by (simp only: uint_mod div_mult_mod_eq)
      then show ?thesis using uint_ge_0 [of "?free mod bytesPerRow"] by linarith
    qed
    finally show ?thesis using free by linarith
  qed
  ultimately show "r = 1 \<or> uint r * uint bytesPerRow + used \<le> 520192" by blast
qed

section \<open>Halos\<close>























section \<open>The reservation\<close>

definition size_in :: "(nat \<rightharpoonup> WorkspaceSize) \<Rightarrow> nat \<Rightarrow> WorkspaceSize" where
  "size_in szs u = (case szs u of None \<Rightarrow> no_workspace | Some sz \<Rightarrow> sz)"

definition persistent_bytes :: "WorkspaceSize \<Rightarrow> nat" where
  "persistent_bytes sz = unat (round_dma (ws_stage sz)) + unat (round_dma (ws_halo sz))"

definition transient_bytes :: "WorkspaceSize \<Rightarrow> nat" where
  "transient_bytes sz = unat (round_dma (ws_partial sz)) + unat (round_dma (ws_stripe sz))"

definition in_cascade :: "Schedule \<Rightarrow> int \<Rightarrow> nat \<Rightarrow> bool" where
  "in_cascade schedule c u \<longleftrightarrow> (\<exists>cost. schedule_cost schedule u = Some cost \<and> oc_cascade cost = c)"

text \<open>Raising never lowers an entry.\<close>

definition reserves_more :: "LRMemory list \<Rightarrow> LRMemory list \<Rightarrow> bool" where
  "reserves_more r r' \<longleftrightarrow> length r' = length r \<and> (\<forall>k < length r. mem_op (r ! k) \<le> mem_op (r' ! k))"

lemma reserves_more_trans: "reserves_more a b \<Longrightarrow> reserves_more b c \<Longrightarrow> reserves_more a c"
  by (fastforce simp: reserves_more_def)

lemma raise_op_more:
  "reserves_more r (raise_op t b r)"
  "nat t < length r \<Longrightarrow> int b \<le> mem_op (raise_op t b r ! nat t)"
proof -
  show "reserves_more r (raise_op t b r)"
    by (cases "nat t < length r") (auto simp: reserves_more_def raise_op_def nth_list_update)
qed (simp add: raise_op_def)

lemma fold_raise:
  "reserves_more r (fold (\<lambda>t. raise_op t b) ts r) \<and>
   (\<forall>t \<in> set ts. nat t < length r \<longrightarrow> int b \<le> mem_op (fold (\<lambda>t. raise_op t b) ts r ! nat t))"
proof (induction ts arbitrary: r)
  case (Cons t ts)
  note m = raise_op_more(1) [of r t b]
  from Cons.IH [of "raise_op t b r"] have "reserves_more r (fold (\<lambda>t. raise_op t b) (t # ts) r)"
    using reserves_more_trans [OF m] by simp
  moreover have "int b \<le> mem_op (fold (\<lambda>t. raise_op t b) (t # ts) r ! nat t)" if "nat t < length r"
    using Cons.IH [of "raise_op t b r"] raise_op_more(2) [OF that, of b] m that
    by (auto simp: reserves_more_def intro: order_trans)
  ultimately show ?case using Cons.IH [of "raise_op t b r"] m by (auto simp: reserves_more_def)
qed (simp add: reserves_more_def)

lemma reserve_cascades_spec:
  assumes "reserve_cascades cascades r = Some r'"
  shows "reserves_more r r' \<and>
    (\<forall>(c, w) \<in> set cascades. \<forall>t. cw_start w \<le> t \<and> t \<le> cw_end w \<and> nat t < length r \<longrightarrow>
       int (cw_persistent w + cw_transient w) \<le> mem_op (r' ! nat t))"
  using assms
proof (induction cascades r rule: reserve_cascades.induct)
  case (2 c w cascades r)
  let ?b = "cw_persistent w + cw_transient w"
  let ?r = "fold (\<lambda>t. raise_op t ?b) [cw_start w..cw_end w] r"
  have b: "\<not> 2 ^ 31 - 1 < ?b" and r: "reserve_cascades cascades ?r = Some r'"
    using 2(2) by (auto simp: Let_def split: if_splits)
  note IH = 2(1) [OF refl b r]
  note f = fold_raise [of r ?b "[cw_start w..cw_end w]"]
  have more: "reserves_more r r'" using f IH reserves_more_trans by blast
  have "int ?b \<le> mem_op (r' ! nat t)" if "cw_start w \<le> t" "t \<le> cw_end w" "nat t < length r" for t
    using f IH that by (fastforce simp: reserves_more_def)
  with more IH f show ?case by (fastforce simp: reserves_more_def)
qed (simp add: reserves_more_def)

definition add_cascade :: "Schedule \<Rightarrow> (nat \<rightharpoonup> WorkspaceSize) \<Rightarrow> nat \<Rightarrow> CascadeWorkspace \<Rightarrow> CascadeWorkspace" where
  "add_cascade schedule szs u = add_workspace (the (schedule_cost schedule u)) (size_in szs u)"

lemma add_cascade_fields:
  "cw_persistent (add_cascade schedule szs u a) = cw_persistent a + persistent_bytes (size_in szs u)"
  "cw_transient (add_cascade schedule szs u a) = max (cw_transient a) (transient_bytes (size_in szs u))"
  "cw_start (add_cascade schedule szs u a) = min (cw_start a) (oc_timeIndex (the (schedule_cost schedule u)))"
  "cw_end (add_cascade schedule szs u a) = max (cw_end a) (oc_timeIndex (the (schedule_cost schedule u)))"
  by (simp_all add: add_cascade_def add_workspace_def persistent_bytes_def transient_bytes_def)

lemma fold_add_cascade:
  "cw_persistent (fold (add_cascade schedule szs) us a) =
     cw_persistent a + (\<Sum>u \<leftarrow> us. persistent_bytes (size_in szs u)) \<and>
   cw_transient a \<le> cw_transient (fold (add_cascade schedule szs) us a) \<and>
   cw_start (fold (add_cascade schedule szs) us a) \<le> cw_start a \<and>
   cw_end a \<le> cw_end (fold (add_cascade schedule szs) us a) \<and>
   (\<forall>u \<in> set us. transient_bytes (size_in szs u) \<le> cw_transient (fold (add_cascade schedule szs) us a) \<and>
      cw_start (fold (add_cascade schedule szs) us a) \<le> oc_timeIndex (the (schedule_cost schedule u)) \<and>
      oc_timeIndex (the (schedule_cost schedule u)) \<le> cw_end (fold (add_cascade schedule szs) us a))"
proof (induction us arbitrary: a)
  case (Cons v us)
  from Cons.IH [of "add_cascade schedule szs v a"] show ?case by (auto simp: add_cascade_fields)
qed simp

lemma reserve_operations_spec:
  assumes "reserve_operations schedule szs uids (r, cascades) = Some (r', cascades')"
  shows "reserves_more r r' \<and>
    (\<forall>u \<in> set uids. in_cascade schedule 0 u \<and> nat (oc_timeIndex (the (schedule_cost schedule u))) < length r \<longrightarrow>
       int (total_workspace (size_in szs u)) \<le> mem_op (r' ! nat (oc_timeIndex (the (schedule_cost schedule u))))) \<and>
    (\<forall>c. c \<noteq> 0 \<longrightarrow> map_of cascades' c =
       (if filter (in_cascade schedule c) uids = [] then map_of cascades c
        else Some (fold (add_cascade schedule szs) (filter (in_cascade schedule c) uids)
          (case map_of cascades c of None \<Rightarrow> no_cascade_workspace | Some w \<Rightarrow> w))))"
  using assms
proof (induction uids arbitrary: r cascades)
  case Nil
  then show ?case by (simp add: reserves_more_def)
next
  case (Cons u uids)
  obtain cost where c: "schedule_cost schedule u = Some cost"
    using Cons.prems by (auto split: option.splits)
  show ?case
  proof (cases "oc_cascade cost = 0")
    case True
    let ?r = "raise_op (oc_timeIndex cost) (total_workspace (size_in szs u)) r"
    have "reserve_operations schedule szs uids (?r, cascades) = Some (r', cascades')"
      using Cons.prems c True by (auto simp: Let_def size_in_def split: if_splits)
    note IH = Cons.IH [OF this]
    note m = raise_op_more [where r = r and t = "oc_timeIndex cost" and b = "total_workspace (size_in szs u)"]
    have "reserves_more r r'" using IH m(1) reserves_more_trans by blast
    moreover have "int (total_workspace (size_in szs u)) \<le> mem_op (r' ! nat (oc_timeIndex cost))"
      if "nat (oc_timeIndex cost) < length r"
      using m(2) [OF that] m(1) IH that by (auto simp: reserves_more_def intro: order_trans)
    moreover have "filter (in_cascade schedule d) (u # uids) = filter (in_cascade schedule d) uids" if "d \<noteq> 0" for d
      using c True that by (simp add: in_cascade_def)
    ultimately show ?thesis using IH m(1) c by (simp add: reserves_more_def)
  next
    case False
    let ?w = "add_workspace cost (size_in szs u)
      (case map_of cascades (oc_cascade cost) of None \<Rightarrow> no_cascade_workspace | Some c \<Rightarrow> c)"
    have "reserve_operations schedule szs uids (r, AList.update (oc_cascade cost) ?w cascades) = Some (r', cascades')"
      using Cons.prems c False by (simp add: size_in_def Let_def)
    note IH = Cons.IH [OF this]
    have "\<not> in_cascade schedule 0 u" using c False by (simp add: in_cascade_def)
    moreover have "in_cascade schedule d u \<longleftrightarrow> d = oc_cascade cost" for d using c by (auto simp: in_cascade_def)
    ultimately show ?thesis using IH c by (auto simp: update_conv add_cascade_def split: option.splits)
  qed
qed

lemma last_time_spec:
  "last_time schedule uids m = Some m' \<Longrightarrow> m \<le> m' \<and>
   (\<forall>u \<in> set uids. \<exists>cost. schedule_cost schedule u = Some cost \<and> 0 \<le> oc_timeIndex cost \<and> oc_timeIndex cost \<le> m')"
proof (induction uids arbitrary: m)
  case (Cons u uids)
  then obtain cost where c: "schedule_cost schedule u = Some cost" "0 \<le> oc_timeIndex cost"
      "last_time schedule uids (max m (oc_timeIndex cost)) = Some m'"
    by (auto split: option.splits if_splits)
  from Cons.IH [OF c(3)] c(1,2) show ?case by auto
qed simp

text \<open>C29: The reservation covers what is asked for: at the time of an operation outside cascades its whole
  workspace, and at every time of a cascade the stages and halos of all its operations with the parts of
  any one of them; the reported peak is at least the use at every time.\<close>

theorem reservation_covers:
  assumes "reserve_workspaces operations schedule szs = Some (res, peak)"
  defines "fitted \<equiv> FitCascadeHaloWorkspaces operations schedule szs"
  shows "(\<forall>u \<in> set operations. \<exists>cost. schedule_cost schedule u = Some cost \<and> 0 \<le> oc_timeIndex cost \<and>
      oc_timeIndex cost < int (length res) \<and>
      (oc_cascade cost = 0 \<longrightarrow> int (total_workspace (size_in fitted u)) \<le> mem_op (res ! nat (oc_timeIndex cost))) \<and>
      (oc_cascade cost \<noteq> 0 \<longrightarrow>
        (\<forall>v \<in> set operations. \<forall>w \<in> set operations. \<forall>t.
           in_cascade schedule (oc_cascade cost) v \<and> in_cascade schedule (oc_cascade cost) w \<and>
           oc_timeIndex cost \<le> t \<and> t \<le> oc_timeIndex (the (schedule_cost schedule v)) \<longrightarrow>
           int ((\<Sum>x \<leftarrow> filter (in_cascade schedule (oc_cascade cost)) operations. persistent_bytes (size_in fitted x)) +
             transient_bytes (size_in fitted w)) \<le> mem_op (res ! nat t)))) \<and>
    (\<forall>k < length res. Used (res ! k) \<le> peak)"
proof -
  from assms(1) obtain m r cascades where m: "last_time schedule operations 0 = Some m"
      and r: "reserve_operations schedule fitted operations (replicate (nat (m + 1)) no_memory, []) = Some (r, cascades)"
      and res: "reserve_cascades cascades r = Some res" "peak = foldl (\<lambda>m usage. max m (Used usage)) 0 res"
    by (auto simp: reserve_workspaces_def Let_def fitted_def split: option.splits)
  note ro = reserve_operations_spec [OF r] and rc = reserve_cascades_spec [OF res(1)] and lt = last_time_spec [OF m]
  have len: "length r = nat (m + 1)" "length res = nat (m + 1)"
    using ro rc by (simp_all add: reserves_more_def)
  have "foldl (\<lambda>m usage. max m (Used usage)) a xs \<ge> a \<and>
      (\<forall>x \<in> set xs. Used x \<le> foldl (\<lambda>m usage. max m (Used usage)) a xs)" for a xs
    by (induction xs arbitrary: a) (auto intro: order_trans, (meson max.bounded_iff)+)
  from this [of 0 res] have peak: "\<forall>k < length res. Used (res ! k) \<le> peak" by (simp add: res(2))
  have "\<exists>cost. schedule_cost schedule u = Some cost \<and> 0 \<le> oc_timeIndex cost \<and> oc_timeIndex cost < int (length res) \<and>
      (oc_cascade cost = 0 \<longrightarrow> int (total_workspace (size_in fitted u)) \<le> mem_op (res ! nat (oc_timeIndex cost))) \<and>
      (oc_cascade cost \<noteq> 0 \<longrightarrow>
        (\<forall>v \<in> set operations. \<forall>w \<in> set operations. \<forall>t.
           in_cascade schedule (oc_cascade cost) v \<and> in_cascade schedule (oc_cascade cost) w \<and>
           oc_timeIndex cost \<le> t \<and> t \<le> oc_timeIndex (the (schedule_cost schedule v)) \<longrightarrow>
           int ((\<Sum>x \<leftarrow> filter (in_cascade schedule (oc_cascade cost)) operations. persistent_bytes (size_in fitted x)) +
             transient_bytes (size_in fitted w)) \<le> mem_op (res ! nat t)))"
    if u: "u \<in> set operations" for u
  proof -
    obtain cost where c: "schedule_cost schedule u = Some cost" "0 \<le> oc_timeIndex cost" "oc_timeIndex cost \<le> m"
      using lt u by blast
    then have bound: "oc_timeIndex cost < int (length res)" using len by simp
    have single: "int (total_workspace (size_in fitted u)) \<le> mem_op (res ! nat (oc_timeIndex cost))"
      if "oc_cascade cost = 0"
    proof -
      have k: "nat (oc_timeIndex cost) < length r" using bound len c(2,3) by simp
      have "in_cascade schedule 0 u" using c(1) that by (simp add: in_cascade_def)
      moreover have "nat (oc_timeIndex (the (schedule_cost schedule u))) < length (replicate (nat (m + 1)) no_memory)"
        using k len(1) c(1) by simp
      ultimately have "int (total_workspace (size_in fitted u)) \<le>
          mem_op (r ! nat (oc_timeIndex (the (schedule_cost schedule u))))"
        using ro u by blast
      then have "int (total_workspace (size_in fitted u)) \<le> mem_op (r ! nat (oc_timeIndex cost))"
        using c(1) by simp
      also have "\<dots> \<le> mem_op (res ! nat (oc_timeIndex cost))" using rc k by (simp add: reserves_more_def)
      finally show ?thesis .
    qed
    have cascade: "int ((\<Sum>x \<leftarrow> filter (in_cascade schedule (oc_cascade cost)) operations. persistent_bytes (size_in fitted x)) +
             transient_bytes (size_in fitted w)) \<le> mem_op (res ! nat t)"
      if nz: "oc_cascade cost \<noteq> 0" and v: "v \<in> set operations" "in_cascade schedule (oc_cascade cost) v"
        and w: "w \<in> set operations" "in_cascade schedule (oc_cascade cost) w"
        and t: "oc_timeIndex cost \<le> t" "t \<le> oc_timeIndex (the (schedule_cost schedule v))" for v w t
    proof -
      let ?us = "filter (in_cascade schedule (oc_cascade cost)) operations"
      let ?w = "fold (add_cascade schedule fitted) ?us no_cascade_workspace"
      have mem: "u \<in> set ?us" "v \<in> set ?us" "w \<in> set ?us" using u c(1) v w by (auto simp: in_cascade_def)
      then have ne: "?us \<noteq> []" by (metis empty_iff list.set(1))
      have "map_of cascades (oc_cascade cost) = (if ?us = [] then map_of [] (oc_cascade cost)
          else Some (fold (add_cascade schedule fitted) ?us
            (case map_of [] (oc_cascade cost) of None \<Rightarrow> no_cascade_workspace | Some w \<Rightarrow> w)))"
        using ro nz by blast
      then have "map_of cascades (oc_cascade cost) = Some ?w" using ne by simp
      then have e: "(oc_cascade cost, ?w) \<in> set cascades" by (rule map_of_SomeD)
      have f: "cw_persistent ?w = (\<Sum>x \<leftarrow> ?us. persistent_bytes (size_in fitted x))"
          "transient_bytes (size_in fitted w) \<le> cw_transient ?w" "cw_start ?w \<le> t" "t \<le> cw_end ?w"
        using fold_add_cascade [of schedule fitted ?us no_cascade_workspace] mem c(1) t
        by (auto simp: no_cascade_workspace_def intro: order_trans)
      obtain cv where "schedule_cost schedule v = Some cv" "oc_timeIndex cv \<le> m" using lt v(1) by blast
      with t c(2) len have "nat t < length r" by simp
      with rc e f(3,4) have "int (cw_persistent ?w + cw_transient ?w) \<le> mem_op (res ! nat t)" by blast
      with f(1,2) show ?thesis by linarith
    qed
    from c(1,2) bound single cascade show ?thesis by blast
  qed
  with peak show ?thesis by blast
qed

section \<open>An example\<close>

text \<open>Two operations of a cascade and one outside; the live tensors leave 192 bytes during the cascade, so
  that its halo of 40 bytes has to shrink to 32.\<close>

definition sample_line :: Schedule where
  "sample_line =
     \<lparr>sch_costs = [(11, \<lparr>oc_timeIndex = 0, oc_cascade = 7\<rparr>), (12, \<lparr>oc_timeIndex = 1, oc_cascade = 7\<rparr>),
                   (13, \<lparr>oc_timeIndex = 2, oc_cascade = 0\<rparr>)],
      sch_featureMaps = None, sch_staging = None,
      sch_snapshot = [no_memory\<lparr>mem_nonlocal := 520000\<rparr>, no_memory\<lparr>mem_nonlocal := 1000\<rparr>]\<rparr>"

definition sample_sizes :: "nat \<rightharpoonup> WorkspaceSize" where
  "sample_sizes = [11 \<mapsto> \<lparr>ws_stage = 64, ws_halo = 40, ws_haloRows = 1, ws_partial = 64, ws_stripe = 0\<rparr>,
                   12 \<mapsto> \<lparr>ws_stage = 32, ws_halo = 0, ws_haloRows = 0, ws_partial = 0, ws_stripe = 10\<rparr>]"


lemmas halo_eval = aligned_int_def RoundAway_int_def smod_int_alt_def DMAAlignment_def


lemma sample_free: "available_during sample_line 0 1 = 192"
  by (simp add: available_during_def upto.simps MemoryUsageAt_def sample_line_def no_memory_def Used_def
      AllocatableTCDMBytes_def Let_def)



definition sample_wide :: "nat \<rightharpoonup> WorkspaceSize" where
  "sample_wide =
     sample_sizes(13 \<mapsto> \<lparr>ws_stage = 100, ws_halo = 0, ws_haloRows = 0, ws_partial = 0, ws_stripe = 10\<rparr>)"

lemma sample_line_costs:
  "schedule_cost sample_line 11 = Some \<lparr>oc_timeIndex = 0, oc_cascade = 7\<rparr>"
  "schedule_cost sample_line 12 = Some \<lparr>oc_timeIndex = 1, oc_cascade = 7\<rparr>"
  "schedule_cost sample_line 13 = Some \<lparr>oc_timeIndex = 2, oc_cascade = 0\<rparr>"
  by (simp_all add: schedule_cost_def sample_line_def)

lemma sample_rounded:
  "round_dma 64 = 64" "round_dma 0 = 0" "round_dma 32 = 32" "round_dma 10 = 32" "round_dma 100 = 128"
  "aligned_int 64 = 64" "aligned_int 0 = 0" "aligned_int 32 = 32" "aligned_int 10 = 32" "aligned_int 40 = 64"
  by (simp_all add: round_dma_def halo_eval)

lemma sample_fitted:
  "FitCascadeHaloWorkspaces [11, 12, 13] sample_line sample_wide =
     sample_wide(11 \<mapsto> \<lparr>ws_stage = 64, ws_halo = 32, ws_haloRows = 1, ws_partial = 64, ws_stripe = 0\<rparr>)"
  by (simp add: FitCascadeHaloWorkspaces_def sample_line_costs sample_wide_def sample_sizes_def add_usage_def
      no_usage_def sample_rounded halo_budget_def sample_free DMAAlignment_def fun_eq_iff)

lemma sample_reservation:
  "map_option (\<lambda>(res, peak). (map mem_op res, peak)) (reserve_workspaces [11, 12, 13] sample_line sample_wide) =
     Some ([192, 192, 160], 192)"
  unfolding reserve_workspaces_def sample_fitted
  by (simp add: sample_line_costs total_workspace_def sample_rounded Let_def add_workspace_def no_cascade_workspace_def
      sample_wide_def sample_sizes_def raise_op_def upto.simps no_memory_def Used_def numeral_3_eq_3)

theorem reservation_covers_witness:
  "\<exists>res. reserve_workspaces [11, 12, 13] sample_line sample_wide = Some (res, 192) \<and>
     map mem_op res = [192, 192, 160] \<and> Used (res ! 2) \<le> 192 \<and>
     int (total_workspace (size_in (FitCascadeHaloWorkspaces [11, 12, 13] sample_line sample_wide) 13)) \<le> mem_op (res ! 2)"
proof -
  obtain res where res: "reserve_workspaces [11, 12, 13] sample_line sample_wide = Some (res, 192)"
      "map mem_op res = [192, 192, 160]"
    using sample_reservation by auto
  then have "length (map mem_op res) = 3" by simp
  then have "length res = 3" by simp
  with reservation_covers [OF res(1)] res show ?thesis by (simp add: sample_line_costs)
qed

section \<open>Resident weights\<close>

text \<open>A weight stage that was enlarged holds whole groups, and lies beside the transient parts in what is left.\<close>

lemma resident_weights_fit:
  fixes currentStage partialBytes stripeBytes :: u32 and ifmDepth :: int
  assumes "MemoryUsageAt schedule (oc_timeIndex cost) = used"
  defines "r \<equiv> ExpandResidentLinebufferWeightStage currentStage partialBytes stripeBytes ifmDepth (Some (schedule, cost))"
    and "transient \<equiv> aligned_u64 (ucast partialBytes) + aligned_u64 (ucast stripeBytes)"
  shows "currentStage \<le> r" and "r = currentStage \<or> 0 \<le> used \<and> 9216 dvd uint r \<and> uint transient + uint r + used \<le> 520192"
proof -
  define available where "available = (word_of_int (520192 - used) :: u64)"
  define groups where "groups = (word_of_int (RoundAway_int ifmDepth 32) div 32 :: u32)"
  define k where "k = (ucast (min (ucast groups) ((available - transient) div 9216)) :: u32)"
  have cases: "r = currentStage \<or> 0 \<le> used \<and> used < 520192 \<and> transient < available \<and> r = max currentStage (k * 9216)"
    using assms(1)
    by (auto simp: r_def ExpandResidentLinebufferWeightStage_def Let_def AllocatableTCDMBytes_def inputGroupWeightBytes_def
        transient_def available_def groups_def k_def not_le)
  then show "currentStage \<le> r" by auto
  have "9216 dvd uint (k * 9216) \<and> uint transient + uint (k * 9216) + used \<le> 520192"
    if u: "0 \<le> used" "used < 520192" and t: "transient < available"
  proof -
    have a: "uint available = 520192 - used"
      unfolding available_def uint_word_of_int using u by (intro mod_pos_pos_trivial) simp_all
    have d: "uint (available - transient) = uint available - uint transient"
      using t by (simp add: uint_sub_if' word_less_def)
    let ?q = "min (ucast groups) ((available - transient) div 9216)"
    have "?q \<le> (available - transient) div 9216" by (simp add: min_le_iff_disj)
    then have q: "uint ?q \<le> uint (available - transient) div 9216" by (simp add: word_le_def uint_div)
    then have q': "uint ?q * 9216 \<le> 520192 - used - uint transient" using a d by linarith
    have "uint ?q \<le> 520192" using q' u uint_ge_0 [of transient] by linarith
    then have b: "uint ?q < 2 ^ 32" by simp
    have k: "uint k = uint ?q"
      unfolding k_def unsigned_ucast_eq using b by (simp add: take_bit_int_eq_self)
    have "uint (k * 9216) = uint k * 9216"
    proof -
      have "uint ?q * 9216 \<le> 520192" using q' u uint_ge_0 [of transient] by linarith
      then have "uint k * uint (9216 :: u32) < 2 ^ LENGTH(32)" by (simp add: k)
      from uint_mult_lem [THEN iffD1, OF this] show ?thesis by simp
    qed
    with k q' show ?thesis by simp
  qed
  with cases show "r = currentStage \<or> 0 \<le> used \<and> 9216 dvd uint r \<and> uint transient + uint r + used \<le> 520192"
    by (auto simp: max_def)
qed

end
