(* ===== verification/Spec2Isabelle.thy ===== *)
theory Spec2Isabelle
  imports NAI_MemoryState NAI_ScheduleProof NAI_Samples NAI_PassSamples NAI_Writer NAI_WeightProof
    NAI_Quantization NAI_StagingProof NAI_EmitProof NAI_MemoryUsage NAI_WorkspaceProof NAI_WorkspaceSizes
begin

text \<open>
  A verification library for the Neural-AI back end of the compiler
  (\<^verbatim>\<open>src/ethosu/regor/architecture/neuralai\<close> and the \<^verbatim>\<open>neural_ai_*\<close> files of
  \<^verbatim>\<open>src/ethosu/regor/compiler\<close>): from the command bytes that lowering emits to the model package, with
  the tensor allocators that place the data the commands work on.

  \<^bold>\<open>The program.\<close>  Lowering appends commands to a byte vector through a few emitters
  (\<^verbatim>\<open>AppendDMA1D\<close> and others); a peephole merges interleaved pointwise rows
  (\<^verbatim>\<open>CoalesceInterleavedPointwiseRows\<close>).  \<^verbatim>\<open>OptimizeGlobalCommandSchedule\<close> decodes it to semantic commands with the memory and state they access
  (\<^verbatim>\<open>DecodeSemanticCommandStream\<close>), removes or marks redundant loads (the three residency passes),
  builds the dependency graph (\<^verbatim>\<open>BuildCommandDependencyGraph\<close>, which also annotates every access with
  the content it reads or writes) and reorders the commands over two DMA queues and the systolic slot
  (\<^verbatim>\<open>ScheduleGlobalCommandStream\<close>).  \<^verbatim>\<open>CompactAffineCommandStream\<close> then replaces repetitive bodies by
  loop records, and \<^verbatim>\<open>WriteNeuralAIModel\<close> lays the payloads out as a package that
  \<^verbatim>\<open>ValidateModelLayout\<close> accepts.  Beside this pipeline lowering uses the line buffer planner, the
  weight encoder, fixed-point requantization and a map of the memory content.  The addresses in the
  commands come from the tensor allocators, which place the live ranges of a schedule, and from
  \<^verbatim>\<open>SelectWorkspace\<close>, which places the scratch memory of an operation around the live tensors.  Before
  that, \<^verbatim>\<open>WorkspaceReservation\<close> shrinks the halos of cascaded convolutions to the memory that is left and
  tells the scheduler what to set aside, and the tile height of a spilled convolution is chosen by cost.

  \<^bold>\<open>The theories.\<close>
  \<^item> \<open>NAI_Prelude\<close>, \<open>NAI_Spans\<close>: words, little-endian access, wire fields and the locale
    \<open>byte_codec\<close> (a fixed-size encoding with a left inverse; interpreted on every wire record); lists
    of address ranges with the locales \<open>span_list\<close> and \<open>span_store\<close> (interpreted on
    \<^verbatim>\<open>CommandMemoryState\<close> and on the content annotation).
  \<^item> \<open>NAI_Abi\<close>: \<^verbatim>\<open>neural_ai_abi.hpp/.cpp\<close>: records, \<open>Serialize\<close>, \<open>ValidateModelLayout\<close> (C9).
  \<^item> \<open>NAI_CommandIR\<close>: decoder and serializer of \<^verbatim>\<open>neural_ai_command_ir.cpp\<close> (C7, C8).
  \<^item> \<open>NAI_Dependency\<close>, \<open>NAI_Annotation\<close>: dependency graph, content and state annotation, validation
    (C4 to C6).
  \<^item> \<open>NAI_Scheduler\<close>, \<open>NAI_ScheduleProof\<close>: the list scheduler of \<^verbatim>\<open>neural_ai_command_scheduler.cpp\<close>
    (C1 to C3); the locale \<open>schedule_run\<close> holds the facts about one run and is interpreted on the
    streams and graphs that the pipeline produces.
  \<^item> \<open>NAI_Residency\<close>, \<open>NAI_ResidencyProof\<close>: the residency passes and the pipeline (C11 to C14).
  \<^item> \<open>NAI_Compactor\<close>, \<open>NAI_CompactorProof\<close>, \<open>NAI_ExpandProof\<close>, \<open>NAI_CompactCorrect\<close>:
    \<^verbatim>\<open>neural_ai_command_compactor.cpp\<close> (C15 to C17).
  \<^item> \<open>NAI_Generator\<close>: the emitters, the pointwise peephole and the end of \<^verbatim>\<open>Generate\<close> in
    \<^verbatim>\<open>neural_ai_command_generator.cpp\<close>.  \<open>NAI_Redecode\<close>: decoding depends on a command's bytes only, so
    what the passes produce decodes again.  \<open>NAI_CoalesceProof\<close>: the peephole.  \<open>NAI_GeneratorProof\<close>: the
    end of generation.  \<open>NAI_EmitProof\<close>: the contract \<open>emitter\<close>, interpreted on every emitter, the state
    machine \<open>emitted\<close> and the properties (C18 to C21).
  \<^item> \<open>NAI_Allocator\<close>, \<open>NAI_AllocatorProof\<close>: \<^verbatim>\<open>hillclimb_allocator.cpp\<close>, \<^verbatim>\<open>tensor_allocator.cpp\<close> and the
    plain part of \<^verbatim>\<open>live_range.cpp\<close>, with the contract \<open>tensor_allocator\<close>, interpreted on the hill climb
    and the linear allocator.  \<open>NAI_MemoryUsage\<close>: usage snapshots, reserved intervals, the incremental
    allocator and the properties (C22 to C24).
  \<^item> \<open>NAI_Workspace\<close>: the workspaces of the command generator, from the size of a tile to
    \<^verbatim>\<open>SelectWorkspace\<close>.  \<open>NAI_WorkspaceProof\<close>: placement and forgotten content over every run of
    \<open>SelectWorkspace\<close> (the step relation \<open>workspace_run\<close>), on top of the span lists of \<open>NAI_Spans\<close>
    (C25 to C27).  \<open>NAI_WorkspaceSizes\<close>: tile heights, halos and the reservation (C28 to C30).
  \<^item> \<open>NAI_MemoryState\<close>: \<^verbatim>\<open>neural_ai_memory_state.hpp\<close> (C10).
  \<^item> \<open>NAI_Writer\<close>: \<^verbatim>\<open>neural_ai_writer.cpp\<close> (C31 to C33, stated there).
  \<^item> \<open>NAI_Weights\<close>, \<open>NAI_WeightProof\<close>: \<^verbatim>\<open>neural_ai_weight_encoder.cpp\<close> and the operation modes of
    \<^verbatim>\<open>neural_ai_op_config.hpp\<close> (C34, C35).
  \<^item> \<open>NAI_Quantization\<close>: the integer part of \<^verbatim>\<open>neural_ai_quantization.cpp\<close> (C36, C37).
  \<^item> \<open>NAI_Linebuffer\<close>, \<open>NAI_LinebufferProof\<close>, \<open>NAI_StagingProof\<close>: \<^verbatim>\<open>neural_ai_linebuffer_planner.cpp\<close>
    (C38 to C40).
  \<^item> \<open>NAI_Samples\<close>, \<open>NAI_PassSamples\<close>: concrete streams at which the witnesses apply the properties.

  \<^bold>\<open>Correspondence.\<close>  Definitions carry the names of the functions, types and enumerators of the
  source; a loop or lambda that has a name of its own here is listed beside the function it belongs
  to.  Structs are records, enumerations datatypes with their codes, fixed-width fields words, and
  every error exit a value of the component's error type.  A \<^verbatim>\<open>std::set\<close> is a sorted list, a map read
  through \<^verbatim>\<open>operator[]\<close> a total function, and the per-command vectors of the scheduler are functions
  of the command index; the state of every loop is passed explicitly.  64-bit sums stay words where
  the source lets them wrap (package offsets, planner addresses) and are natural numbers where it
  saturates or where the ranges of the operands exclude a wrap, as each theory says.

  \<^bold>\<open>What the lemmas show.\<close>  Decoding and serializing are inverse and reads stay inside the checked
  size.  The closure of the built edges is the declarative must-precede order.  Content annotation
  refines a byte-wise memory.  The scheduler issues every command once, respects the order of
  conflicting commands and the queue capacities, and never takes an error exit on a blocking stream.
  Removing loads changes neither the memory nor the parameters other commands see.  Compaction is
  optimal among its segmentations and expansion inverts it.  Written packages validate and decode to
  the artifact.  Packed weights are where the index formulas of the layouts say.  The tiles of a plan
  partition the output and read exactly the pixels they need.  Whatever emitters lowering calls, the
  stream decodes, and generation ends in a checked artifact unless a residency pass or the TCDM limit
  stops it.  Tensors that are alive at the same time share no byte, for every random sequence.  A
  workspace is placed at the lowest free addresses, off the live tensors and off what its cascade still
  needs; the content it may overwrite is forgotten and nothing else; fitted halos and the other parts of
  a cascade fit into local memory, and the reservation covers them.

  \<^bold>\<open>Termination.\<close>  No definition takes fuel.  Loops with a bound are structural or have a measure;
  \<open>mark_chosen\<close>, \<open>emit_stream\<close>, \<open>stage_rows\<close>, \<open>predecessor_turns\<close> and \<open>collect_turns\<close>, whose
  progress depends on data, are partial functions into \<open>option\<close>, and C15, C40 and C22 prove that they
  return.  \<open>place_loop\<close> ends because the address moves past one more neighbour in every pass.  \<open>schedule_loop\<close> ends
  because every turn issues a command or drains a queue.

  \<^bold>\<open>Hypotheses.\<close>  \<open>stream_valid\<close> and \<open>compactable\<close> are what the decoder and the scheduler establish
  (C8, C17).  \<open>load_machine\<close> in C12 is the documented behaviour of the hardware: a load copies between
  its declared ranges and other commands write only where they declare to.  C35 takes the multiplier
  calculation as a parameter.  \<open>plan_in_range\<close> and \<open>staging_in_range\<close> say that the \<^verbatim>\<open>int\<close>
  fields are 32-bit values and the feature map fits the 64-bit arithmetic.  The steps of \<open>emitted\<close> ask
  that the address ranges of an emitted command lie in the 32-bit space (\<open>dma1_valid\<close> and the like) and
  that partial sums lie below half of it (\<open>low_partials\<close>), so that merging cannot push them out; a
  command that lowering builds in place is a step of its own, with its well-formedness as hypothesis.
  \<open>ranges_ok\<close> asks for sizes and start times that are not negative and a total size that fits an
  address; the random generator is an arbitrary sequence.  C24 assumes that equivalent tensors have
  one size, which the incremental allocator does not check.  \<open>workspace_run\<close> starts with no
  placement and lets any sequence of operations select and other code change the recorded content;
  \<open>halos_small\<close> says that halos are below \<open>2 ^ 31 - 32\<close>, so that the signed rounding of the source is exact.  C30 is about the
  branch that compares costs: the arguments make it so, and some height has a workspace that fits.

  \<^bold>\<open>Not modelled.\<close>  Lowering itself (\<^verbatim>\<open>neural_ai_command_generator.cpp\<close> apart from the parts named
  above, so the sizes that the operations of a graph ask for and the order in which \<^verbatim>\<open>Generate\<close> visits
  them are inputs), extracting live ranges from a schedule, graph rewriting, operator constraints and memory placement work on the mutable compiler
  graph; performance estimates and \<^verbatim>\<open>CalculateQuantizedMultiplier\<close> compute with doubles; the
  Ethos-U back ends, the front ends with their generated schemas, the fast storage allocator, the bindings and
  the vendored libraries are shared with the upstream compiler or generated.
\<close>

section \<open>The scheduler\<close>

text \<open>C1: a blocking stream whose commands satisfy what the decoder establishes always gets a
  dependency graph and a schedule.  The scheduler takes none of its error exits, and its output is
  the encoding of a trace in which every command is issued exactly once, no command is issued
  before its predecessors, no command with a completion dependency is issued while the predecessor
  still runs in a queue, fences and the systolic slot are respected, no queue exceeds the capacity
  of the submitted command, and every queue has been drained at the end.\<close>

theorem schedule_correct:
  assumes "stream_valid cmds" and "list_all blocking cmds"
  shows "\<exists>cmds' g bs st t. BuildCommandDependencyGraph cmds = Inr (cmds', g) \<and>
    ScheduleGlobalCommandStream cmds' g = Inr (bs, st, t) \<and> schedule_good cmds' g bs t"
proof -
  from schedule_result [OF schedulable_built [OF assms]] Build_eq [OF assms(1)] show ?thesis by metis
qed

theorem schedule_correct_witness:
  "stream_valid sample_commands \<and> list_all blocking sample_commands \<and>
   (\<exists>cmds' g bs st t. BuildCommandDependencyGraph sample_commands = Inr (cmds', g) \<and>
    ScheduleGlobalCommandStream cmds' g = Inr (bs, st, t) \<and> schedule_good cmds' g bs t)"
  using schedule_correct [OF sample_valid sample_blocking] sample_valid sample_blocking by blast

text \<open>C2: the schedule preserves every order that matters.  If two commands of the stream conflict
  (overlapping memory with a write, the same engine state with a write, or a fence), then in the
  scheduled trace the first has completed when the second is issued, or both are in the same
  hardware queue, which runs them in order.\<close>

theorem schedule_preserves_order:
  assumes "stream_valid cmds" and "list_all blocking cmds"
    and "BuildCommandDependencyGraph cmds = Inr (cmds', g)"
    and "ScheduleGlobalCommandStream cmds' g = Inr (bs, st, t)"
    and "i < j" and "j < length cmds" and "must_precede (cmds ! i) (cmds ! j)"
  shows "safely_before cmds' t i j"
  by (rule built_schedule_order [OF assms])

theorem schedule_preserves_order_witness:
  "\<exists>cmds' g bs st t. BuildCommandDependencyGraph sample_commands = Inr (cmds', g) \<and>
    ScheduleGlobalCommandStream cmds' g = Inr (bs, st, t) \<and> safely_before cmds' t 0 1"
proof -
  obtain cmds' g bs st t where b: "BuildCommandDependencyGraph sample_commands = Inr (cmds', g)"
    and s: "ScheduleGlobalCommandStream cmds' g = Inr (bs, st, t)"
    using schedule_result [OF schedulable_built [OF sample_valid sample_blocking]] Build_eq [OF sample_valid]
    by metis
  from schedule_preserves_order [OF sample_valid sample_blocking b s, of 0 1] b s sample_must_precede
  show ?thesis by (auto simp: sample_commands_def)
qed



section \<open>The dependency graph\<close>

text \<open>C4: the dependency relation is exact.  The paths of the built edges are the paths of the
  declarative order "must precede" on the stream: nothing that matters is lost, although the
  builder keeps only the last writer and the readers since then for each engine state and only the
  last fence, and no edge joins two commands without a reason.\<close>

theorem dependency_paths_exact:
  "(edge_rel (build_edges cmds))\<^sup>+ =
   {(i, j). i < j \<and> j < length cmds \<and> must_precede (cmds ! i) (cmds ! j)}\<^sup>+"
  by (rule build_edges_trancl)

text \<open>Memory dependencies are direct and exact.  For each memory kind the builder emits the
  edge from \<open>i\<close> to \<open>j\<close> if and only if \<open>i\<close> comes first and an access of \<open>i\<close> and an access of \<open>j\<close>
  overlap in the same storage, at least one of them writes, and the kind is read after write for a
  write followed by a read, write after read for a read followed by a write, and write after write
  for two writes.\<close>

lemma memory_edges_exact:
  assumes "k \<in> {MemoryRAW, MemoryWAR, MemoryWAW}"
  shows "(i, j, DependencyKind_code k) \<in> set (build_edges cmds) \<longleftrightarrow>
    i < j \<and> j < length cmds \<and> (\<exists>l \<in> set (cmd_memoryAccesses (cmds ! i)).
      \<exists>r \<in> set (cmd_memoryAccesses (cmds ! j)). access_conflict l r \<and>
        (k = MemoryRAW \<longleftrightarrow> IsWrite (acc_mode l) \<and> \<not> IsWrite (acc_mode r)) \<and>
        (k = MemoryWAR \<longleftrightarrow> \<not> IsWrite (acc_mode l) \<and> IsWrite (acc_mode r)) \<and>
        (k = MemoryWAW \<longleftrightarrow> IsWrite (acc_mode l) \<and> IsWrite (acc_mode r)))"
proof -
  have kind: "k = MemoryDependencyKind (acc_mode l) (acc_mode r) \<longleftrightarrow>
      (k = MemoryRAW \<longleftrightarrow> IsWrite (acc_mode l) \<and> \<not> IsWrite (acc_mode r)) \<and>
      (k = MemoryWAR \<longleftrightarrow> \<not> IsWrite (acc_mode l) \<and> IsWrite (acc_mode r)) \<and>
      (k = MemoryWAW \<longleftrightarrow> IsWrite (acc_mode l) \<and> IsWrite (acc_mode r))"
    if "access_conflict l r" for l r
    using that assms by (auto simp: access_conflict_def MemoryDependencyKind_def)
  show ?thesis unfolding build_edges_memory [OF assms] by (simp only: kind cong: conj_cong)
qed

lemma memory_edges_exact_witness:
  "(0, 1, DependencyKind_code MemoryRAW) \<notin> set (build_edges sample_commands)"
  using memory_edges_exact [of MemoryRAW 0 1 sample_commands]
  by (simp add: sample_commands_def sample_end_command_def)

text \<open>C5: building succeeds on every valid stream.  The validator accepts the graph, which has
  the built edges in lexicographic order without duplicates, only forward edges, and sorted
  predecessor and successor lists that say exactly what the edges say; the returned commands are
  the given ones with annotations.\<close>

theorem build_succeeds:
  assumes "stream_valid cmds"
  shows "\<exists>g. BuildCommandDependencyGraph cmds = Inr (AnnotateState (AnnotateContent cmds), g) \<and>
    graph_ok (length cmds) g \<and> map edge_key (g_edges g) = build_edges cmds"
  using Build_eq [OF assms] graph_of_ok [OF build_edges_facts(1,2), of cmds] by blast

theorem build_succeeds_witness:
  "\<exists>g. BuildCommandDependencyGraph sample_commands = Inr (AnnotateState (AnnotateContent sample_commands), g) \<and>
    graph_ok (length sample_commands) g \<and> map edge_key (g_edges g) = build_edges sample_commands"
  by (rule build_succeeds [OF sample_valid])

text \<open>C6: reads see the last write.  In the annotated stream every access is tiled by its content
  slices without gap or overlap; a write carries one slice whose generation counts the writes to its
  storage; each byte of a read carries the identity and generation of the last write to that byte
  in program order, or the initial identity of the storage with generation 0; and nothing but the
  slices of the accesses has changed.\<close>

theorem reads_see_last_write:
  assumes "stream_valid cmds"
  shows "trace_good (trace_of (AnnotateContent cmds)) \<and>
    list_all2 annotation_of cmds (AnnotateContent cmds)"
  using AnnotateContent_good [OF stream_valid_wf [OF assms]] by blast

theorem reads_see_last_write_witness:
  "trace_good (trace_of (AnnotateContent sample_commands)) \<and>
   list_all2 annotation_of sample_commands (AnnotateContent sample_commands)"
  by (rule reads_see_last_write [OF sample_valid])

text \<open>State versions.  After annotation every state access carries as generation the number of
  writes to its state up to itself (modulo the 32-bit counter) and as identity the value of the last
  such write, and a write that named a value keeps it.\<close>

lemma state_versions:
  "state_trace_good (state_trace_of (AnnotateState cmds)) \<and>
   list_all2 state_annotation_of cmds (AnnotateState cmds)"
  using AnnotateState_good by blast

section \<open>The decoder\<close>


text \<open>C8: what decoding establishes.  Every command of a decoded stream keeps its header fields and
  bytes, has accesses that are non-empty, end at most at \<open>2 ^ 32\<close> and carry the right bank phase, a
  positive cycle estimate within \<open>int64_t\<close>, and exactly the issue attributes (resources, queue,
  capacity, asynchrony) of its type.\<close>

theorem decoded_commands:
  assumes "DecodeSemanticCommandStream bs = Inr cmds" and "i < length cmds"
  shows "decoded_ok i (cmds ! i)"
  using stream_ok_decoded [of 0 cmds i] assms DecodeSemanticCommandStream_iff by simp

theorem decoded_commands_witness:
  "decoded_ok 0 (sample_commands ! 0)"
  using decoded_commands [OF sample_decodes, of 0] by (simp add: sample_commands_def)

text \<open>Decoding a command reads only its fixed part.  Two byte vectors that agree on the first
  \<open>MinimumCommandSize\<close> bytes of the command's type decode alike, so the size check of the stream
  decoder is what keeps every read inside the command.\<close>

lemma decode_reads_fixed_part:
  assumes "agree (MinimumCommandSize (cmd_type c)) e e'" and "cmd_type c \<noteq> AffineLoop"
  shows "decode_payload c e = decode_payload c e'"
  by (rule decode_payload_agree [OF assms])

lemma decode_reads_fixed_part_witness:
  "decode_payload sample_dma_command sample_dma = decode_payload sample_dma_command (sample_dma @ [1, 2, 3])"
  by (rule decode_reads_fixed_part) (simp_all add: sample_dma_command_def agree_def)

section \<open>The package format\<close>

text \<open>C9: the layout validator is sound and complete.  It accepts a header and its section table
  exactly when, over the natural numbers, the identification fields match, the sizes are aligned,
  the section table and every section lie inside the package without wrap-around, alignments are
  powers of two of at least 32 that divide the offsets, and the reserved words are zero.\<close>

theorem layout_validation_exact:
  "ValidateModelLayout h (Some ss) (length ss) = Inr () \<longleftrightarrow> package_layout_ok h ss"
  by (rule ValidateModelLayout_iff)

section \<open>The memory state\<close>

text \<open>C10: replacing a range refines a pointwise update.  On a well-formed state (spans sorted,
  disjoint, non-empty, no two mergeable neighbours) \<open>Replace\<close> leaves a well-formed state whose map
  from addresses to content is the old one outside the range and the written content, with
  consecutive offsets, or nothing inside it.\<close>

theorem replace_refines_update:
  assumes "state_ok spans" and "0 < sz"
  shows "state_ok (Replace spans address sz content off) \<and>
    content_at (Replace spans address sz content off) x =
      (if address \<le> x \<and> x < address + sz
       then content_part (map_option (\<lambda>c. (c, off)) content) (x - address) else content_at spans x)"
  using Replace_refines [OF assms] by blast

theorem replace_refines_update_witness:
  "content_at (Replace [] 64 32 (Some \<lparr>mc_identity = 7, mc_generation = 1\<rparr>) 100) 70 =
     Some (\<lparr>mc_identity = 7, mc_generation = 1\<rparr>, 106)"
  using replace_refines_update [of "[]" 32 64 "Some \<lparr>mc_identity = 7, mc_generation = 1\<rparr>" 100 70] Clear_ok
  by (simp add: Clear_def content_part_def)

text \<open>\<open>Contains\<close> decides whether the whole range holds the content from the given offset on.\<close>

lemma contains_exact:
  assumes "state_ok spans"
  shows "Contains spans address sz content off \<longleftrightarrow> holds spans address sz content off"
  by (rule Contains_holds [OF assms])

lemma contains_exact_witness:
  "Contains Clear 0 1 \<lparr>mc_identity = 7, mc_generation = 1\<rparr> 5 \<longleftrightarrow>
   holds Clear 0 1 \<lparr>mc_identity = 7, mc_generation = 1\<rparr> 5"
  by (rule contains_exact [OF Clear_ok(1)])

text \<open>\<open>Find\<close> is sound and complete.  An address it returns holds the content, and it returns
  one whenever some address representable in 32 bits holds it; completeness needs the maximal
  merging that \<open>Replace\<close> maintains, because \<open>Find\<close> looks at single spans.\<close>

lemma find_sound_complete:
  assumes "state_ok spans"
  shows "(case Find spans content off sz of
      Some a \<Rightarrow> holds spans a sz content off \<and> a \<le> 0xFFFFFFFF
    | None \<Rightarrow> \<not> (\<exists>a \<le> 0xFFFFFFFF. holds spans a sz content off))"
  using Find_sound [OF assms, of content off sz] Find_complete [OF assms, of _ sz content off]
  by (auto split: option.splits)

lemma find_sound_complete_witness:
  "(case Find Clear \<lparr>mc_identity = 7, mc_generation = 1\<rparr> 0 8 of
      Some a \<Rightarrow> holds Clear a 8 \<lparr>mc_identity = 7, mc_generation = 1\<rparr> 0 \<and> a \<le> 0xFFFFFFFF
    | None \<Rightarrow> \<not> (\<exists>a \<le> 0xFFFFFFFF. holds Clear a 8 \<lparr>mc_identity = 7, mc_generation = 1\<rparr> 0))"
  by (rule find_sound_complete [OF Clear_ok(1)])

text \<open>\<open>MatchedPrefix\<close> returns the length of the longest matching prefix, cut at the bound.\<close>

lemma matched_prefix_maximal:
  assumes "state_ok spans" and "r = MatchedPrefix spans address bound content off"
  shows "r \<le> bound \<and> holds spans address r content off \<and>
    (r < bound \<longrightarrow> content_at spans (address + r) \<noteq> Some (content, off + r))"
  using matched_loop_spec [of spans 0 bound address content off r] assms
  by (simp add: MatchedPrefix_def state_ok_def holds_def)

lemma matched_prefix_maximal_witness:
  "MatchedPrefix Clear 0 4 \<lparr>mc_identity = 7, mc_generation = 1\<rparr> 5 \<le> 4"
  using matched_prefix_maximal [OF Clear_ok(1) refl] by blast

section \<open>The residency passes\<close>

text \<open>C11: on a decoded blocking stream the whole optimization (residency passes, dependency graph,
  scheduler) either stops in a residency pass or returns a schedule: the graph and the scheduler never
  fail, and the returned bytes are a good schedule of the stream the passes produced.\<close>

theorem optimization_total:
  assumes "DecodeSemanticCommandStream bs = Inr cmds" and "list_all blocking cmds"
  shows "(\<exists>e. OptimizeGlobalCommandSchedule bs = Inl (ResidencyFailed e)) \<or>
    (\<exists>r. OptimizeGlobalCommandSchedule bs = Inr r \<and> optimized_run bs r)"
  by (rule Optimize_blocking [OF assms])

theorem optimization_total_witness:
  "DecodeSemanticCommandStream (sample_dma @ sample_end) = Inr sample_commands \<and>
   list_all blocking sample_commands \<and>
   ((\<exists>e. OptimizeGlobalCommandSchedule (sample_dma @ sample_end) = Inl (ResidencyFailed e)) \<or>
    (\<exists>r. OptimizeGlobalCommandSchedule (sample_dma @ sample_end) = Inr r \<and>
      optimized_run (sample_dma @ sample_end) r))"
  using optimization_total [OF sample_decodes sample_blocking] sample_decodes sample_blocking by blast



text \<open>The load pass removes commands only and accounts for each: every input load is either
  retained or counted as redundant, and the number of removed commands is the number of redundant
  loads.\<close>

lemma dma_residency_accounting:
  assumes "OptimizeDMAResidency commands = Inr (out, stats)"
  shows "subseq (map unindexed out) (map unindexed commands) \<and>
    ds_inputLoads stats = ds_retainedLoads stats +
      ds_redundantConstantLoads stats + ds_redundantFeatureLoads stats \<and>
    length commands = length out + ds_redundantConstantLoads stats + ds_redundantFeatureLoads stats"
  by (rule OptimizeDMA_accounting [OF assms])

lemma dma_residency_accounting_witness:
  "\<exists>stats. OptimizeDMAResidency repeated_loads = Inr ([sample_dma_command], stats) \<and>
    ds_inputLoads stats = ds_retainedLoads stats +
      ds_redundantConstantLoads stats + ds_redundantFeatureLoads stats"
  using repeated_loads_result dma_residency_accounting by blast



text \<open>The quantization pass fails exactly on a stream that has a parameter load without an
  identity (no write of the quantization state, or identity zero).\<close>

lemma qparam_residency_errors:
  "(\<exists>e. OptimizeQParamResidency commands = Inl e) \<longleftrightarrow>
   list_ex (\<lambda>c. cmd_type c = RQLoad \<and> (qparam_identity c = None \<or> qparam_identity c = Some 0)) commands"
  using qparam_loop_Inl [of commands None no_qparam_stats "[]"]
  by (auto simp: OptimizeQParamResidency_def list_ex_iff split: sum.splits)



section \<open>Compaction\<close>

text \<open>C15: expanding a compacted stream gives back its bytes.  The compactor takes none of its error
  exits and returns on every stream whose commands carry their own headers, are aligned and end with
  the end command, and the expander recovers exactly the serialization and the command count.\<close>

theorem compaction_roundtrip:
  assumes "compactable commands"
  shows "\<exists>encoded stats. CompactAffineCommandStream commands = Some (Inr (encoded, stats)) \<and>
    ExpandAffineCommandStream encoded = Inr (SerializeSemanticCommandStream commands, length commands - 1)"
  using Compact_returns [OF assms] unfolding compacted_def by blast

theorem compaction_roundtrip_witness:
  "compactable loop_commands \<and>
   (\<exists>encoded stats. CompactAffineCommandStream loop_commands = Some (Inr (encoded, stats)) \<and>
    ExpandAffineCommandStream encoded =
      Inr (SerializeSemanticCommandStream loop_commands, length loop_commands - 1))"
  using compaction_roundtrip [OF loop_commands_compactable] loop_commands_compactable by blast

text \<open>C16: the compactor is optimal among the segmentations it considers, and its counters are exact:
  the bytes saved and the commands removed are those of a segmentation of the stream into single
  commands and candidate loops, and no such segmentation saves more bytes, or the same bytes with
  fewer encoded commands.\<close>

theorem compaction_optimal:
  assumes "compactable commands" and "CompactAffineCommandStream commands = Some (Inr (encoded, stats))"
  shows "\<exists>s. path (candidate_table commands) (length commands - 1) (length commands - 1) s \<and>
    (\<forall>s'. path (candidate_table commands) (length commands - 1) (length commands - 1) s' \<longrightarrow> \<not> Better s' s) \<and>
    cs_bytesBefore stats = length (SerializeSemanticCommandStream commands) \<and>
    length encoded + score_savedBytes s = cs_bytesBefore stats \<and>
    cs_encodedCommands stats + score_encodedReduction s = length commands - 1"
  using Compact_returns [OF assms(1)] assms(2) unfolding compacted_def by auto

theorem compaction_optimal_witness:
  "\<exists>encoded stats. CompactAffineCommandStream loop_commands = Some (Inr (encoded, stats)) \<and>
    (\<exists>s. path (candidate_table loop_commands) (length loop_commands - 1) (length loop_commands - 1) s \<and>
      (\<forall>s'. path (candidate_table loop_commands) (length loop_commands - 1) (length loop_commands - 1) s' \<longrightarrow>
        \<not> Better s' s) \<and>
      cs_bytesBefore stats = length (SerializeSemanticCommandStream loop_commands) \<and>
      length encoded + score_savedBytes s = cs_bytesBefore stats \<and>
      cs_encodedCommands stats + score_encodedReduction s = length loop_commands - 1)"
proof -
  from loop_commands_compact obtain encoded stats
    where c: "CompactAffineCommandStream loop_commands = Some (Inr (encoded, stats))" by blast
  show ?thesis
    by (intro exI [where x = encoded] exI [where x = stats], rule conjI [OF c])
      (rule compaction_optimal [OF loop_commands_compactable c])
qed



end
